(* ===== verification/Prelude.thy ===== *)
theory Prelude
  imports Complex_Main "HOL-Library.AList" "HOL-Library.Word"
begin

text \<open>
  Shared vocabulary of the development: the result types of operations that can raise, the
  dictionary operations (association lists with the update order of a Python \<open>dict\<close>),
  list lemmas used by several components, and the named collections that the component
  proofs pass to the simplifier.
\<close>

named_theorems eff_simps \<open>unfolding of the error and state combinators\<close>
named_theorems dict_simps \<open>dictionary operations on association lists\<close>

section \<open>Operations that can raise\<close>

text \<open>
  A stateful operation that can raise returns the outcome (\<open>Inl\<close> the exception, \<open>Inr\<close> the
  value) together with the state at that moment: an exception does not undo the mutations
  made before it.
\<close>

type_synonym ('e, 'a, 's) eff = "('e + 'a) \<times> 's"

definition eff_bind :: "('e, 'a, 's) eff \<Rightarrow> ('a \<Rightarrow> 's \<Rightarrow> ('e, 'b, 's) eff) \<Rightarrow> ('e, 'b, 's) eff" where
  "eff_bind m f = (case m of (Inl e, s) \<Rightarrow> (Inl e, s) | (Inr a, s) \<Rightarrow> f a s)"

lemma eff_bind_simps [simp, eff_simps]:
  "eff_bind (Inl e, s) f = (Inl e, s)"
  "eff_bind (Inr a, s) f = f a s"
  by (simp_all add: eff_bind_def)

lemma eff_bind_Inr_iff [eff_simps]:
  "eff_bind m f = (Inr b, t) \<longleftrightarrow> (\<exists>a s. m = (Inr a, s) \<and> f a s = (Inr b, t))"
  by (auto simp: eff_bind_def split: prod.splits sum.splits)

lemma eff_bind_Inl_iff [eff_simps]:
  "eff_bind m f = (Inl e, t) \<longleftrightarrow>
     m = (Inl e, t) \<or> (\<exists>a s. m = (Inr a, s) \<and> f a s = (Inl e, t))"
  by (auto simp: eff_bind_def split: prod.splits sum.splits)

text \<open>The same for operations without a state.\<close>

definition res_bind :: "'e + 'a \<Rightarrow> ('a \<Rightarrow> 'e + 'b) \<Rightarrow> 'e + 'b" where
  "res_bind m f = (case m of Inl e \<Rightarrow> Inl e | Inr a \<Rightarrow> f a)"

lemma res_bind_simps [simp, eff_simps]:
  "res_bind (Inl e) f = Inl e"
  "res_bind (Inr a) f = f a"
  by (simp_all add: res_bind_def)

lemma res_bind_Inr_iff [eff_simps]:
  "res_bind m f = Inr b \<longleftrightarrow> (\<exists>a. m = Inr a \<and> f a = Inr b)"
  by (auto simp: res_bind_def split: sum.splits)

section \<open>Dictionaries\<close>

text \<open>
  A Python \<open>dict\<close> (and a C++ \<open>unordered_map\<close>, whose order is never observed) is an
  association list with distinct keys. \<open>AList.update\<close> keeps the position of an existing key
  and appends a new one, as a \<open>dict\<close> does; \<open>AList.delete\<close> is \<open>pop(key, None)\<close>.
\<close>

definition dict_has :: "'k \<Rightarrow> ('k \<times> 'v) list \<Rightarrow> bool" where
  "dict_has k d = (map_of d k \<noteq> None)"

lemma dict_has_iff [dict_simps]: "dict_has k d \<longleftrightarrow> k \<in> fst ` set d"
  by (auto simp: dict_has_def map_of_eq_None_iff)

lemma map_of_update [dict_simps]:
  "map_of (AList.update k v d) j = (if j = k then Some v else map_of d j)"
  by (simp add: update_conv')

lemma map_of_delete [dict_simps]:
  "map_of (AList.delete k d) j = (if j = k then None else map_of d j)"
  by (simp add: delete_conv')

lemma update_fresh: "k \<notin> fst ` set d \<Longrightarrow> AList.update k v d = d @ [(k, v)]"
  by (induction d) auto

lemma keys_update [dict_simps]: "fst ` set (AList.update k v d) = insert k (fst ` set d)"
  by (induction d) auto

lemma set_update_subset: "set (AList.update k v d) \<subseteq> insert (k, v) (set d)"
  by (induction d) auto

lemma keys_delete [dict_simps]: "fst ` set (AList.delete k d) = fst ` set d - {k}"
  by (auto simp: AList.delete_eq)

lemma set_delete [dict_simps]: "set (AList.delete k d) = {p \<in> set d. fst p \<noteq> k}"
  by (auto simp: AList.delete_eq)

lemma distinct_update_keys [dict_simps]:
  "distinct (map fst d) \<Longrightarrow> distinct (map fst (AList.update k v d))"
  by (rule distinct_update)

lemma distinct_delete_keys [dict_simps]:
  "distinct (map fst d) \<Longrightarrow> distinct (map fst (AList.delete k d))"
  by (rule distinct_delete)

text \<open>Sums over the entries of a dictionary, as needed to count references.\<close>

definition dict_sum :: "('v \<Rightarrow> nat) \<Rightarrow> ('k \<times> 'v) list \<Rightarrow> nat" where
  "dict_sum f d = sum_list (map (\<lambda>p. f (snd p)) d)"

lemma dict_sum_Nil [simp]: "dict_sum f [] = 0"
  by (simp add: dict_sum_def)

lemma dict_sum_Cons [simp]: "dict_sum f (p # d) = f (snd p) + dict_sum f d"
  by (simp add: dict_sum_def)

lemma dict_sum_append [simp]: "dict_sum f (d @ e) = dict_sum f d + dict_sum f e"
  by (simp add: dict_sum_def)

lemma dict_sum_delete:
  "distinct (map fst d) \<Longrightarrow> map_of d k = Some v \<Longrightarrow>
   f v + dict_sum f (AList.delete k d) = dict_sum f d"
proof (induction d)
  case (Cons p d)
  show ?case
  proof (cases "fst p = k")
    case True
    with Cons.prems have "k \<notin> fst ` set d" by (cases p) auto
    then have "AList.delete k d = d" by (simp add: AList.delete_eq filter_id_conv image_iff) fastforce
    with True Cons.prems show ?thesis by (cases p) (simp add: AList.delete_eq)
  next
    case False
    with Cons show ?thesis by (cases p) (auto simp: AList.delete_eq split: if_splits)
  qed
qed simp

lemma dict_sum_update:
  "distinct (map fst d) \<Longrightarrow> map_of d k = Some v \<Longrightarrow>
   dict_sum f (AList.update k w d) + f v = dict_sum f d + f w"
  by (induction d) (auto split: if_splits)

lemma dict_sum_ge: "map_of d k = Some v \<Longrightarrow> f v \<le> dict_sum f d"
  by (induction d) (auto split: if_splits simp: trans_le_add2)

lemma dict_sum_two:
  "map_of d j = Some v \<Longrightarrow> map_of d k = Some w \<Longrightarrow> j \<noteq> k \<Longrightarrow> f v + f w \<le> dict_sum f d"
proof (induction d)
  case (Cons p d)
  show ?case
  proof (cases "fst p = j")
    case True
    with Cons.prems have "map_of d k = Some w" and "snd p = v" by (cases p; auto)+
    then show ?thesis using dict_sum_ge[of d k w f] by simp
  next
    case False
    show ?thesis
    proof (cases "fst p = k")
      case True
      with False Cons.prems have "map_of d j = Some v" and "snd p = w" by (cases p; auto)+
      then show ?thesis using dict_sum_ge[of d j v f] by simp
    next
      case False
      with \<open>fst p \<noteq> j\<close> Cons show ?thesis by (cases p) auto
    qed
  qed
qed simp

section \<open>Lists\<close>

lemma count_list_le_1: "count_list xs x \<le> 1 \<Longrightarrow> xs = us @ x # vs \<Longrightarrow> x \<notin> set us \<and> x \<notin> set vs"
  by (auto simp: count_list_0_iff)

lemma count_list_pos: "x \<in> set xs \<longleftrightarrow> 0 < count_list xs x"
  by (metis count_list_0_iff gr0I less_irrefl)

lemma distinct_count_list: "(\<And>x. x \<in> set xs \<Longrightarrow> count_list xs x \<le> 1) \<Longrightarrow> distinct xs"
proof (induction xs)
  case (Cons y ys)
  have "count_list (y # ys) y \<le> 1" by (rule Cons.prems) simp
  then have "y \<notin> set ys" by (simp add: count_list_0_iff)
  moreover have "distinct ys"
  proof (rule Cons.IH)
    fix x assume "x \<in> set ys"
    then have "count_list (y # ys) x \<le> 1" by (intro Cons.prems) simp
    then show "count_list ys x \<le> 1" by (simp split: if_splits)
  qed
  ultimately show ?case by simp
qed simp

lemma nth_list_update_if:
  "i < length xs \<Longrightarrow> xs[i := x] ! j = (if j = i then x else xs ! j)"
  by (metis nth_list_update_eq nth_list_update_neq)


lemma dict_sum_pos: "0 < dict_sum (\<lambda>u. count_list u b) d \<longleftrightarrow> (\<exists>p \<in> set d. b \<in> set (snd p))"
  by (induction d) (auto simp: count_list_pos)

lemma delete_absent: "\<not> dict_has k d \<Longrightarrow> AList.delete k d = d"
  by (induction d) (auto simp: dict_has_def AList.delete_eq split: if_splits)

end
