(* ===== verification/Kv_Cache.thy ===== *)
theory Kv_Cache
  imports Prelude
begin

text \<open>
  The paged KV cache of the native runtime (\<open>csrc/src/memory/paged_kv_cache.cpp\<close>), which
  \<open>cudaforge/engine.py\<close> drives through \<open>register_sequence_with_prefix\<close>,
  \<open>append_tokens\<close> and \<open>unregister_sequence\<close>.

  \<^item> A physical block is a record; the vector \<open>physical_blocks_\<close> is a list indexed by block id.
  \<^item> \<open>free_block_stack_\<close> is a list whose head is the back of the vector.
  \<^item> \<open>lru_list_\<close> is a list with its front first. The iterator a block keeps always points at
    the front-most occurrence of the block, so \<open>pb_linked\<close> (iterator differs from \<open>end()\<close>)
    determines it and \<open>erase(iterator)\<close> is \<open>remove1\<close>.
  \<^item> A node of the prefix tree is named by the path of block hashes from the root. Nodes are
    reached through \<open>children\<close> maps only and never removed; storing a node over an existing
    child drops that child's subtree.
  \<^item> \<open>std::hash<int32_t>\<close> is implementation defined, so it is a field of the state
    (\<open>kv_std_hash\<close>) that nothing writes.
  \<^item> Token and block counts are natural numbers: the invariant shows that no subtraction of
    the code goes below zero, and \<open>uint32_t\<close> counts stay below the prompt length. A prompt has
    less than 2^32 tokens and the pool less than 2^31 blocks.
  \<^item> Byte sizes, offsets and the staged context lengths wrap as the code's \<open>size_t\<close>,
    \<open>uint32_t\<close> and \<open>int32_t\<close>; \<open>layer_extent\<close>, \<open>block_extent\<close>, \<open>pool_extent\<close> and
    \<open>context_tokens\<close> are the numbers they stand for when nothing wraps.
\<close>

unbundle bit_operations_syntax

section \<open>State\<close>

record phys_block =
  pb_ref :: nat
  pb_filled :: nat
  pb_hash :: "64 word"
  pb_cached :: bool
  pb_linked :: bool

record kv_config =
  kc_num_layers :: nat
  kc_num_kv_heads :: nat
  kc_head_dim :: nat
  kc_block_size :: nat
  kc_element_size :: nat
  kc_total_blocks :: nat
  kc_prefix_caching :: bool
  kc_max_batch :: nat
  kc_max_blocks_seq :: nat

datatype kv_error = OutOfPages | NotRegistered nat | OutOfRange

record kv_cache =
  kv_cfg :: kv_config
  kv_std_hash :: "int \<Rightarrow> 64 word"
  kv_key_pool :: nat
  kv_val_pool :: nat
  kv_blocks :: "phys_block list"
  kv_free :: "nat list"
  kv_lru :: "nat list"
  kv_tree :: "64 word list \<Rightarrow> nat option"
  kv_hash_nodes :: "64 word \<Rightarrow> nat option"
  kv_pages :: "(nat \<times> nat list) list"
  kv_hits :: nat
  kv_misses :: nat
  kv_evictions :: nat

definition fresh_block :: phys_block where
  "fresh_block = \<lparr>pb_ref = 0, pb_filled = 0, pb_hash = 0, pb_cached = False, pb_linked = False\<rparr>"

text \<open>The sizes are products in \<open>size_t\<close>: they wrap at 2^64.\<close>

definition layer_block_bytes :: "kv_config \<Rightarrow> 64 word" where
  "layer_block_bytes c =
     word_of_nat (kc_num_kv_heads c) * word_of_nat (kc_block_size c) * word_of_nat (kc_head_dim c) *
       word_of_nat (kc_element_size c)"

definition bytes_per_block :: "kv_config \<Rightarrow> 64 word" where
  "bytes_per_block c = word_of_nat (kc_num_layers c) * layer_block_bytes c"

definition pool_bytes :: "kv_config \<Rightarrow> 64 word" where
  "pool_bytes c = word_of_nat (kc_total_blocks c) * bytes_per_block c"

text \<open>The constructor. The two pool pointers come from the block allocator.\<close>

definition kv_init :: "kv_config \<Rightarrow> (int \<Rightarrow> 64 word) \<Rightarrow> nat \<Rightarrow> nat \<Rightarrow> kv_cache" where
  "kv_init c h kp vp =
     \<lparr>kv_cfg = c, kv_std_hash = h, kv_key_pool = kp, kv_val_pool = vp,
      kv_blocks = replicate (kc_total_blocks c) fresh_block,
      kv_free = [0..<kc_total_blocks c], kv_lru = [],
      kv_tree = (\<lambda>_. None), kv_hash_nodes = (\<lambda>_. None), kv_pages = [],
      kv_hits = 0, kv_misses = 0, kv_evictions = 0\<rparr>"

abbreviation block_at :: "kv_cache \<Rightarrow> nat \<Rightarrow> phys_block" where
  "block_at s b \<equiv> kv_blocks s ! b"

abbreviation kv_total :: "kv_cache \<Rightarrow> nat" where
  "kv_total s \<equiv> kc_total_blocks (kv_cfg s)"

abbreviation kv_bs :: "kv_cache \<Rightarrow> nat" where
  "kv_bs s \<equiv> kc_block_size (kv_cfg s)"

definition upd_block :: "nat \<Rightarrow> (phys_block \<Rightarrow> phys_block) \<Rightarrow> kv_cache \<Rightarrow> kv_cache" where
  "upd_block b f s = s\<lparr>kv_blocks := (kv_blocks s)[b := f (block_at s b)]\<rparr>"

section \<open>Block hashes\<close>

definition hash_mix :: "(int \<Rightarrow> 64 word) \<Rightarrow> int \<Rightarrow> 64 word \<Rightarrow> 64 word" where
  "hash_mix h token hash =
     hash XOR (h token + 0x9e3779b9 + push_bit 6 hash + drop_bit 2 hash)"

definition compute_block_hash :: "(int \<Rightarrow> 64 word) \<Rightarrow> int list \<Rightarrow> 64 word \<Rightarrow> 64 word" where
  "compute_block_hash h tokens parent_hash =
     fold (hash_mix h) tokens (parent_hash XOR 0x9e3779b97f4a7c15)"

text \<open>\<open>prompt_tokens.subspan(b * block_size, block_size)\<close>\<close>

definition block_tokens :: "nat \<Rightarrow> int list \<Rightarrow> nat \<Rightarrow> int list" where
  "block_tokens bs tokens b = take bs (drop (b * bs) tokens)"

section \<open>Blocks: reuse, eviction, allocation, release\<close>

definition touch_lru :: "nat \<Rightarrow> kv_cache \<Rightarrow> kv_cache" where
  "touch_lru b s =
     (if pb_cached (block_at s b)
      then upd_block b (\<lambda>p. p\<lparr>pb_linked := True\<rparr>)
             (s\<lparr>kv_lru := b # (if pb_linked (block_at s b) then remove1 b (kv_lru s) else kv_lru s)\<rparr>)
      else s)"

text \<open>The search runs from the back of the list; the occurrence it stops at is erased.\<close>

definition evict_lru_block :: "kv_cache \<Rightarrow> bool \<times> kv_cache" where
  "evict_lru_block s =
     (case find (\<lambda>b. pb_ref (block_at s b) = 0) (rev (kv_lru s)) of
        None \<Rightarrow> (False, s)
      | Some b \<Rightarrow>
          (True,
           upd_block b (\<lambda>p. p\<lparr>pb_cached := False, pb_hash := 0, pb_filled := 0, pb_linked := False\<rparr>)
             (s\<lparr>kv_hash_nodes := (kv_hash_nodes s)(pb_hash (block_at s b) := None),
                kv_lru := rev (remove1 b (rev (kv_lru s))),
                kv_free := b # kv_free s,
                kv_evictions := Suc (kv_evictions s)\<rparr>)))"

definition allocate_physical_block :: "kv_cache \<Rightarrow> (kv_error, nat, kv_cache) eff" where
  "allocate_physical_block s =
     (let (ok, t) = (if kv_free s = [] then evict_lru_block s else (True, s)) in
      if \<not> ok then (Inl OutOfPages, t)
      else (case kv_free t of
              [] \<Rightarrow> (Inl OutOfPages, t)
            | b # fs \<Rightarrow>
                (Inr b,
                 upd_block b (\<lambda>p. p\<lparr>pb_ref := 1, pb_filled := 0, pb_cached := False\<rparr>)
                   (t\<lparr>kv_free := fs\<rparr>))))"

definition free_physical_block :: "nat \<Rightarrow> kv_cache \<Rightarrow> kv_cache" where
  "free_physical_block b s =
     (if kv_total s \<le> b then s
      else if pb_ref (block_at s b) = 0 then s
      else
        let t = upd_block b (\<lambda>p. p\<lparr>pb_ref := pb_ref p - 1\<rparr>) s in
        if pb_ref (block_at t b) = 0 then
          (if kc_prefix_caching (kv_cfg t) \<and> pb_hash (block_at t b) \<noteq> 0
           then upd_block b (\<lambda>p. p\<lparr>pb_cached := True, pb_linked := True\<rparr>)
                  (t\<lparr>kv_lru := b # kv_lru t\<rparr>)
           else upd_block b (\<lambda>p. p\<lparr>pb_filled := 0\<rparr>) (t\<lparr>kv_free := b # kv_free t\<rparr>))
        else t)"

text \<open>What registration does to a block it finds in the prefix tree.\<close>

definition reuse_block :: "nat \<Rightarrow> kv_cache \<Rightarrow> kv_cache" where
  "reuse_block b s =
     (let t = upd_block b (\<lambda>p. p\<lparr>pb_ref := Suc (pb_ref p)\<rparr>) s;
          u = (if pb_cached (block_at t b)
               then let v = upd_block b (\<lambda>p. p\<lparr>pb_cached := False\<rparr>) t in
                    if pb_linked (block_at v b)
                    then upd_block b (\<lambda>p. p\<lparr>pb_linked := False\<rparr>)
                           (v\<lparr>kv_lru := remove1 b (kv_lru v)\<rparr>)
                    else v
               else t)
      in u\<lparr>kv_hits := Suc (kv_hits u)\<rparr>)"

text \<open>What registration does to a freshly allocated full block: node \<open>path\<close> now holds it.\<close>

definition install_block :: "64 word \<Rightarrow> 64 word list \<Rightarrow> nat \<Rightarrow> kv_cache \<Rightarrow> kv_cache" where
  "install_block h path b s =
     upd_block b (\<lambda>p. p\<lparr>pb_filled := kv_bs s, pb_hash := h\<rparr>)
       (s\<lparr>kv_tree := (\<lambda>q. if q = path then Some b
                       else if take (length path) q = path then None
                       else kv_tree s q),
          kv_hash_nodes := (kv_hash_nodes s)(h := Some b),
          kv_misses := Suc (kv_misses s)\<rparr>)"

section \<open>Sequences\<close>

text \<open>The matching loop: block indices, parent hash, tree node, block table so far.\<close>

fun match_prefix ::
  "int list \<Rightarrow> nat list \<Rightarrow> 64 word \<Rightarrow> 64 word list \<Rightarrow> nat list \<Rightarrow> kv_cache \<Rightarrow>
   64 word \<times> 64 word list \<times> nat list \<times> kv_cache" where
  "match_prefix tokens [] parent node table s = (parent, node, table, s)"
| "match_prefix tokens (b # bs) parent node table s =
     (let h = compute_block_hash (kv_std_hash s) (block_tokens (kv_bs s) tokens b) parent in
      case kv_tree s (node @ [h]) of
        None \<Rightarrow> (parent, node, table, s)
      | Some c \<Rightarrow> match_prefix tokens bs h (node @ [h]) (table @ [c]) (reuse_block c s))"

text \<open>The loop over the full blocks that were not matched.\<close>

fun fill_blocks ::
  "int list \<Rightarrow> nat list \<Rightarrow> 64 word \<Rightarrow> 64 word list \<Rightarrow> nat list \<Rightarrow> kv_cache \<Rightarrow>
   (kv_error, nat list, kv_cache) eff" where
  "fill_blocks tokens [] parent node table s = (Inr table, s)"
| "fill_blocks tokens (b # bs) parent node table s =
     (let h = compute_block_hash (kv_std_hash s) (block_tokens (kv_bs s) tokens b) parent in
      eff_bind (allocate_physical_block s)
        (\<lambda>c t. fill_blocks tokens bs h (node @ [h]) (table @ [c])
                 (install_block h (node @ [h]) c t)))"

definition register_sequence_with_prefix ::
  "nat \<Rightarrow> int list \<Rightarrow> kv_cache \<Rightarrow> (kv_error, nat, kv_cache) eff" where
  "register_sequence_with_prefix sid tokens s =
     (if dict_has sid (kv_pages s) then (Inr 0, s)
      else
        let bs = kv_bs s;
            total_tokens = length tokens;
            full_blocks = total_tokens div bs;
            (parent, node, table, t) =
              (if kc_prefix_caching (kv_cfg s)
               then match_prefix tokens [0..<full_blocks] 0 [] [] s
               else (0, [], [], s));
            matched_tokens = length table * bs;
            remaining_tokens = total_tokens - matched_tokens;
            unmatched = remaining_tokens div bs;
            tail_tokens = remaining_tokens mod bs;
            start_block = matched_tokens div bs
        in eff_bind (fill_blocks tokens [start_block..<start_block + unmatched] parent node table t)
             (\<lambda>table u.
                eff_bind
                  (if tail_tokens > 0 \<or> table = []
                   then eff_bind (allocate_physical_block u)
                          (\<lambda>c v. (Inr (table @ [c]),
                                  upd_block c (\<lambda>p. p\<lparr>pb_filled := tail_tokens\<rparr>) v))
                   else (Inr table, u))
                  (\<lambda>table v. (Inr matched_tokens, v\<lparr>kv_pages := AList.update sid table (kv_pages v)\<rparr>))))"

text \<open>The loop of \<open>append_tokens\<close>; each new block is pushed to the sequence's table at once.\<close>

fun append_blocks :: "nat \<Rightarrow> nat \<Rightarrow> nat \<Rightarrow> kv_cache \<Rightarrow> (kv_error, unit, kv_cache) eff" where
  "append_blocks sid 0 remaining s = (Inr (), s)"
| "append_blocks sid (Suc n) remaining s =
     eff_bind (allocate_physical_block s)
       (\<lambda>c t. let added = min remaining (kv_bs t);
                  u = upd_block c (\<lambda>p. p\<lparr>pb_filled := added\<rparr>) t;
                  table = the (map_of (kv_pages u) sid)
              in append_blocks sid n (remaining - added)
                   (u\<lparr>kv_pages := AList.update sid (table @ [c]) (kv_pages u)\<rparr>))"

definition append_tokens :: "nat \<Rightarrow> nat \<Rightarrow> kv_cache \<Rightarrow> (kv_error, unit, kv_cache) eff" where
  "append_tokens sid num_tokens s =
     (case map_of (kv_pages s) sid of
        None \<Rightarrow> (Inl (NotRegistered sid), s)
      | Some table \<Rightarrow>
          let last_block = last table;
              available = kv_bs s - pb_filled (block_at s last_block)
          in if num_tokens \<le> available
             then (Inr (), upd_block last_block (\<lambda>p. p\<lparr>pb_filled := pb_filled p + num_tokens\<rparr>) s)
             else let remaining = num_tokens - available;
                      t = upd_block last_block (\<lambda>p. p\<lparr>pb_filled := kv_bs s\<rparr>) s;
                      additional = (remaining + kv_bs s - 1) div kv_bs s
                  in append_blocks sid additional remaining t)"

definition unregister_sequence :: "nat \<Rightarrow> kv_cache \<Rightarrow> kv_cache" where
  "unregister_sequence sid s =
     (case map_of (kv_pages s) sid of
        None \<Rightarrow> s
      | Some table \<Rightarrow>
          let t = fold free_physical_block table s
          in t\<lparr>kv_pages := AList.delete sid (kv_pages t)\<rparr>)"

definition fork_sequence :: "nat \<Rightarrow> nat \<Rightarrow> kv_cache \<Rightarrow> (kv_error, unit, kv_cache) eff" where
  "fork_sequence parent child s =
     (case map_of (kv_pages s) parent of
        None \<Rightarrow> (Inl (NotRegistered parent), s)
      | Some table \<Rightarrow>
          let t = fold (\<lambda>b. upd_block b (\<lambda>p. p\<lparr>pb_ref := Suc (pb_ref p)\<rparr>)) table s
          in (Inr (), t\<lparr>kv_pages := AList.update child table (kv_pages t)\<rparr>))"

section \<open>Queries\<close>

definition get_block_table :: "nat \<Rightarrow> kv_cache \<Rightarrow> kv_error + nat list" where
  "get_block_table sid s =
     (case map_of (kv_pages s) sid of None \<Rightarrow> Inl (NotRegistered sid) | Some table \<Rightarrow> Inr table)"

text \<open>
  The offset is computed in \<open>size_t\<close>, so it wraps at 2^64; a pointer is the address of its pool plus
  the offset (C++ gives a pointer beyond its pool no meaning, so this sum is not reduced).
\<close>

definition block_offset :: "nat \<Rightarrow> nat \<Rightarrow> kv_config \<Rightarrow> 64 word" where
  "block_offset b layer c = word_of_nat b * bytes_per_block c + word_of_nat layer * layer_block_bytes c"

definition get_key_block_ptr :: "nat \<Rightarrow> nat \<Rightarrow> kv_cache \<Rightarrow> nat" where
  "get_key_block_ptr b layer s = kv_key_pool s + unat (block_offset b layer (kv_cfg s))"

definition get_value_block_ptr :: "nat \<Rightarrow> nat \<Rightarrow> kv_cache \<Rightarrow> nat" where
  "get_value_block_ptr b layer s = kv_val_pool s + unat (block_offset b layer (kv_cfg s))"

text \<open>The context length of a sequence, a sum in \<open>uint32_t\<close>.\<close>

definition context_len :: "kv_cache \<Rightarrow> nat list \<Rightarrow> 32 word" where
  "context_len s table =
     word_of_nat (length table - 1) * word_of_nat (kv_bs s) + word_of_nat (pb_filled (block_at s (last table)))"

text \<open>
  The host side of \<open>prepare_batch_metadata\<close>: the flattened block tables, one row per sequence,
  padded with -1 to the longest table, and the context lengths, each cast to \<open>int32_t\<close>.
\<close>

fun batch_tables :: "nat list \<Rightarrow> kv_cache \<Rightarrow> kv_error + nat list list" where
  "batch_tables [] s = Inr []"
| "batch_tables (sid # sids) s =
     (case map_of (kv_pages s) sid of
        None \<Rightarrow> Inl (NotRegistered sid)
      | Some table \<Rightarrow> res_bind (batch_tables sids s) (\<lambda>rest. Inr (table # rest)))"

definition prepare_batch_metadata :: "nat list \<Rightarrow> kv_cache \<Rightarrow> kv_error + int list list \<times> int list" where
  "prepare_batch_metadata sids s =
     (if kc_max_batch (kv_cfg s) < length sids then Inl OutOfRange
      else res_bind (batch_tables sids s)
        (\<lambda>tables. let width = fold max (map length tables) 0 in
           if kc_max_blocks_seq (kv_cfg s) < width then Inl OutOfRange
           else Inr (map (\<lambda>t. map int t @ replicate (width - length t) (-1)) tables,
                     map (\<lambda>t. sint (context_len s t)) tables)))"

record kv_stats =
  st_total_blocks :: "64 word"
  st_free_blocks :: "64 word"
  st_cached_blocks :: "64 word"
  st_allocated_blocks :: "64 word"
  st_total_bytes :: "64 word"
  st_used_bytes :: "64 word"
  st_utilization :: real
  st_sequences :: "32 word"
  st_hits :: "64 word"
  st_misses :: "64 word"
  st_evictions :: "64 word"

definition kv_get_stats :: "kv_cache \<Rightarrow> kv_stats" where
  "kv_get_stats s =
     (let total = word_of_nat (kv_total s);
          free = word_of_nat (length (kv_free s));
          cached = word_of_nat (length (kv_lru s));
          allocated = total - free - cached
      in \<lparr>st_total_blocks = total, st_free_blocks = free, st_cached_blocks = cached,
          st_allocated_blocks = allocated,
          st_total_bytes = total * bytes_per_block (kv_cfg s) * 2,
          st_used_bytes = (allocated + cached) * bytes_per_block (kv_cfg s) * 2,
          st_utilization = real (unat (total - free)) / real (unat total),
          st_sequences = word_of_nat (length (kv_pages s)),
          st_hits = word_of_nat (kv_hits s), st_misses = word_of_nat (kv_misses s),
          st_evictions = word_of_nat (kv_evictions s)\<rparr>)"

section \<open>The sizes without a wrap\<close>

definition layer_extent :: "kv_config \<Rightarrow> nat" where
  "layer_extent c = kc_num_kv_heads c * kc_block_size c * kc_head_dim c * kc_element_size c"

definition block_extent :: "kv_config \<Rightarrow> nat" where
  "block_extent c = kc_num_layers c * layer_extent c"

definition pool_extent :: "kv_config \<Rightarrow> nat" where
  "pool_extent c = kc_total_blocks c * block_extent c"

lemma bytes_words:
  "layer_block_bytes c = word_of_nat (layer_extent c)" "bytes_per_block c = word_of_nat (block_extent c)"
  "pool_bytes c = word_of_nat (pool_extent c)"
  by (simp_all add: layer_block_bytes_def bytes_per_block_def pool_bytes_def layer_extent_def block_extent_def pool_extent_def)

lemma unat_small: "n < 2 ^ LENGTH('a) \<Longrightarrow> unat (word_of_nat n :: 'a :: len word) = n"
  by (simp add: unat_of_nat)

text \<open>The bytes of one layer of a block lie inside its pool.\<close>

lemma block_in_pool:
  assumes "b < n" "l < kc_num_layers c"
  shows "b * block_extent c + l * layer_extent c + layer_extent c \<le> n * block_extent c"
proof -
  have "Suc l * layer_extent c \<le> block_extent c" unfolding block_extent_def using assms(2) by (intro mult_le_mono1) simp
  moreover have "Suc b * block_extent c \<le> n * block_extent c" using assms(1) by (intro mult_le_mono1) simp
  ultimately show ?thesis by simp
qed

text \<open>A pool whose size does not wrap has exact offsets.\<close>

lemma exact_offset:
  assumes "pool_extent c < 2 ^ 64" "b < kc_total_blocks c" "l < kc_num_layers c"
  shows "unat (block_offset b l c) = b * block_extent c + l * layer_extent c"
    "unat (layer_block_bytes c) = layer_extent c" "unat (pool_bytes c) = pool_extent c"
proof -
  note room = block_in_pool[OF assms(2,3), folded pool_extent_def]
  have "block_offset b l c = word_of_nat (b * block_extent c + l * layer_extent c)"
    by (simp add: block_offset_def bytes_words)
  then show "unat (block_offset b l c) = b * block_extent c + l * layer_extent c"
    using room assms(1) by (simp add: unat_small del: of_nat_add of_nat_mult)
  show "unat (layer_block_bytes c) = layer_extent c" "unat (pool_bytes c) = pool_extent c"
    using room assms(1) by (simp_all add: bytes_words unat_small)
qed

text \<open>The context length without a wrap; the staged length is this number when it fits.\<close>

definition context_tokens :: "kv_cache \<Rightarrow> nat list \<Rightarrow> nat" where
  "context_tokens s table = (length table - 1) * kv_bs s + pb_filled (block_at s (last table))"

lemma context_len_word: "context_len s table = word_of_nat (context_tokens s table)"
  by (simp add: context_len_def context_tokens_def)

lemma staged_exact: "context_tokens s table < 2 ^ 31 \<Longrightarrow> sint (context_len s table) = int (context_tokens s table)"
  unfolding context_len_word by (subst signed_of_nat) (simp add: signed_take_bit_int_eq_self)

end
