(* ===== verification/Kv_Invariant.thy ===== *)
theory Kv_Invariant
  imports Kv_Cache
begin

text \<open>
  The invariant of the paged KV cache and its preservation by every operation. The invariant
  speaks about the block tables of the registered sequences and an extra table \<open>ext\<close>: the
  table that a running registration has built but not stored yet, or that a running release
  still has to give back. Between operations \<open>ext\<close> is empty.
\<close>

section \<open>The invariant\<close>

definition owned :: "nat list \<Rightarrow> kv_cache \<Rightarrow> nat \<Rightarrow> nat" where
  "owned ext s b = dict_sum (\<lambda>t. count_list t b) (kv_pages s) + count_list ext b"

text \<open>Sizes: one record per block, no block fuller than the block size.\<close>

definition shape_ok :: "kv_cache \<Rightarrow> bool" where
  "shape_ok s \<longleftrightarrow> length (kv_blocks s) = kv_total s \<and> 0 < kv_bs s \<and>
     (\<forall>b < kv_total s. pb_filled (block_at s b) \<le> kv_bs s)"

text \<open>The free stack holds unreferenced blocks, each once.\<close>

definition free_ok :: "kv_cache \<Rightarrow> bool" where
  "free_ok s \<longleftrightarrow> distinct (kv_free s) \<and>
     (\<forall>b \<in> set (kv_free s). b < kv_total s \<and> pb_ref (block_at s b) = 0)"

text \<open>The LRU list holds the unreferenced cached blocks, none of them free.\<close>

definition lru_ok :: "kv_cache \<Rightarrow> bool" where
  "lru_ok s \<longleftrightarrow> distinct (kv_lru s) \<and> (kv_lru s \<noteq> [] \<longrightarrow> kc_prefix_caching (kv_cfg s)) \<and>
     (\<forall>b \<in> set (kv_lru s). b < kv_total s \<and> pb_ref (block_at s b) = 0 \<and> b \<notin> set (kv_free s)) \<and>
     (\<forall>b < kv_total s. (pb_cached (block_at s b) \<longleftrightarrow> b \<in> set (kv_lru s)) \<and>
                       (pb_linked (block_at s b) \<longleftrightarrow> b \<in> set (kv_lru s)))"

text \<open>
  The reference count of a block is the number of its occurrences in tables plus its leaked
  references, the ones that belonged to the table of a registration that raised.
\<close>

definition refs_ok :: "nat list \<Rightarrow> (nat \<Rightarrow> nat) \<Rightarrow> kv_cache \<Rightarrow> bool" where
  "refs_ok ext leak s \<longleftrightarrow> distinct (map fst (kv_pages s)) \<and> (\<forall>p \<in> set (kv_pages s). snd p \<noteq> []) \<and>
     (\<forall>b. 0 < owned ext s b \<longrightarrow> b < kv_total s) \<and>
     (\<forall>b < kv_total s. owned ext s b + leak b = pb_ref (block_at s b))"

text \<open>No block is lost: an unreferenced block is free or cached.\<close>

definition no_lost :: "kv_cache \<Rightarrow> bool" where
  "no_lost s \<longleftrightarrow> (\<forall>b < kv_total s. pb_ref (block_at s b) = 0 \<longrightarrow>
     b \<in> set (kv_free s) \<or> b \<in> set (kv_lru s))"

text \<open>
  With prefix caching, a node of the prefix tree names a block that is still reserved for it:
  not free, full, and stamped with the node's hash. Different nodes name different blocks, and the
  nodes are closed under taking ancestors.
\<close>

definition tree_ok :: "kv_cache \<Rightarrow> bool" where
  "tree_ok s \<longleftrightarrow> (kc_prefix_caching (kv_cfg s) \<longrightarrow>
     (\<forall>path b. kv_tree s path = Some b \<longrightarrow> path \<noteq> [] \<and> b < kv_total s \<and> b \<notin> set (kv_free s) \<and>
        pb_hash (block_at s b) = last path \<and> last path \<noteq> 0 \<and>
        pb_filled (block_at s b) = kv_bs s) \<and>
     (\<forall>p q b. kv_tree s p = Some b \<longrightarrow> kv_tree s q = Some b \<longrightarrow> p = q) \<and>
     (\<forall>p q. kv_tree s (p @ q) \<noteq> None \<longrightarrow> p \<noteq> [] \<longrightarrow> kv_tree s p \<noteq> None))"

text \<open>Only blocks of the prefix tree are shared.\<close>

definition private_ok :: "kv_cache \<Rightarrow> bool" where
  "private_ok s \<longleftrightarrow> (\<forall>b < kv_total s. pb_ref (block_at s b) \<le> 1 \<or>
     (kc_prefix_caching (kv_cfg s) \<and> b \<in> ran (kv_tree s)))"

definition kv_inv_with :: "nat list \<Rightarrow> (nat \<Rightarrow> nat) \<Rightarrow> kv_cache \<Rightarrow> bool" where
  "kv_inv_with ext leak s \<longleftrightarrow> shape_ok s \<and> free_ok s \<and> lru_ok s \<and> refs_ok ext leak s \<and> no_lost s \<and>
     tree_ok s \<and> private_ok s"

abbreviation kv_inv :: "(nat \<Rightarrow> nat) \<Rightarrow> kv_cache \<Rightarrow> bool" where
  "kv_inv \<equiv> kv_inv_with []"

lemmas kv_inv_parts = shape_ok_def free_ok_def lru_ok_def no_lost_def tree_ok_def private_ok_def

section \<open>Updates of one block\<close>

lemma upd_block_sel [simp]:
  "kv_cfg (upd_block b f s) = kv_cfg s" "kv_std_hash (upd_block b f s) = kv_std_hash s"
  "kv_free (upd_block b f s) = kv_free s" "kv_lru (upd_block b f s) = kv_lru s"
  "kv_tree (upd_block b f s) = kv_tree s" "kv_hash_nodes (upd_block b f s) = kv_hash_nodes s"
  "kv_pages (upd_block b f s) = kv_pages s" "kv_hits (upd_block b f s) = kv_hits s"
  "kv_misses (upd_block b f s) = kv_misses s" "kv_evictions (upd_block b f s) = kv_evictions s"
  "kv_key_pool (upd_block b f s) = kv_key_pool s" "kv_val_pool (upd_block b f s) = kv_val_pool s"
  "length (kv_blocks (upd_block b f s)) = length (kv_blocks s)"
  by (simp_all add: upd_block_def)

lemma upd_block_at:
  "block_at (upd_block b f s) c =
     (if c = b \<and> b < length (kv_blocks s) then f (block_at s b) else block_at s c)"
  by (cases "b < length (kv_blocks s)") (auto simp: upd_block_def nth_list_update list_update_beyond)

lemma upd_block_pages [simp]:
  "upd_block b f (s\<lparr>kv_pages := x\<rparr>) = (upd_block b f s)\<lparr>kv_pages := x\<rparr>"
  by (simp add: upd_block_def)

lemma owned_simps [simp]:
  "owned ext (upd_block b f s) = owned ext s"
  "owned ext (s\<lparr>kv_free := x\<rparr>) = owned ext s"
  "owned ext (s\<lparr>kv_lru := y\<rparr>) = owned ext s"
  "owned ext (s\<lparr>kv_hits := n\<rparr>) = owned ext s"
  by (simp_all add: owned_def fun_eq_iff)

lemma owned_append: "owned (ext @ [b]) s c = owned ext s c + (if c = b then 1 else 0)"
  by (simp add: owned_def)

lemma owned_Cons: "owned (b # ext) s c = owned ext s c + (if c = b then 1 else 0)"
  by (simp add: owned_def)

lemma kv_inv_init:
  assumes "0 < kc_block_size c"
  shows "kv_inv (\<lambda>_. 0) (kv_init c h kp vp)"
  using assms
  by (auto simp: kv_inv_with_def kv_inv_parts refs_ok_def owned_def kv_init_def fresh_block_def)

section \<open>Single steps\<close>

lemma inv_total: "kv_inv_with ext leak s \<Longrightarrow> length (kv_blocks s) = kv_total s"
  by (simp add: kv_inv_with_def shape_ok_def)

lemma inv_refs: "kv_inv_with ext leak s \<Longrightarrow> b < kv_total s \<Longrightarrow>
    owned ext s b + leak b = pb_ref (block_at s b)"
  by (simp add: kv_inv_with_def refs_ok_def)

lemma inv_owned_lt: "kv_inv_with ext leak s \<Longrightarrow> 0 < owned ext s b \<Longrightarrow> b < kv_total s"
  by (simp add: kv_inv_with_def refs_ok_def)

text \<open>Taking the top of a non-empty free stack.\<close>

definition take_block :: "nat \<Rightarrow> nat list \<Rightarrow> kv_cache \<Rightarrow> kv_cache" where
  "take_block b fs s = upd_block b (\<lambda>p. p\<lparr>pb_ref := 1, pb_filled := 0, pb_cached := False\<rparr>)
                         (s\<lparr>kv_free := fs\<rparr>)"

lemma allocate_cases:
  assumes "allocate_physical_block s = (r, t)" and "kv_evictions t = kv_evictions s"
  obtains (ok) b fs where "kv_free s = b # fs" "r = Inr b" "t = take_block b fs s"
  | (fail) "kv_free s = []" "r = Inl OutOfPages" "t = s"
  using assms
  by (auto simp: allocate_physical_block_def evict_lru_block_def take_block_def
      split: if_splits option.splits list.splits prod.splits)

lemma take_block_inv:
  assumes inv: "kv_inv_with ext leak s" and free: "kv_free s = b # fs"
  shows "kv_inv_with (ext @ [b]) leak (take_block b fs s)"
proof -
  have b: "b < kv_total s" "pb_ref (block_at s b) = 0" "b \<notin> set fs" "distinct fs"
    and len: "length (kv_blocks s) = kv_total s"
    and lru: "b \<notin> set (kv_lru s)"
    using inv free by (auto simp: kv_inv_with_def free_ok_def shape_ok_def lru_ok_def)
  have zero: "owned ext s b = 0" "leak b = 0"
    using inv b by (auto simp: kv_inv_with_def refs_ok_def)
  have "shape_ok (take_block b fs s)" "free_ok (take_block b fs s)" "lru_ok (take_block b fs s)"
    "no_lost (take_block b fs s)"
    using inv free b len lru
    by (auto simp: kv_inv_with_def kv_inv_parts take_block_def upd_block_at)
  moreover have "refs_ok (ext @ [b]) leak (take_block b fs s)"
    using inv b len zero
    by (auto simp: kv_inv_with_def refs_ok_def take_block_def upd_block_at owned_append)
  moreover have "tree_ok (take_block b fs s)" "private_ok (take_block b fs s)"
    using inv free b len
    by (auto simp: kv_inv_with_def tree_ok_def private_ok_def take_block_def upd_block_at)
  ultimately show ?thesis by (simp add: kv_inv_with_def)
qed

lemma allocate_inv:
  assumes "kv_inv_with ext leak s" "allocate_physical_block s = (r, t)" "kv_evictions t = kv_evictions s"
  shows "kv_inv_with (case r of Inl _ \<Rightarrow> ext | Inr b \<Rightarrow> ext @ [b]) leak t"
  using assms(2,3)
proof (cases rule: allocate_cases)
  case (ok b fs)
  with assms(1) show ?thesis by (simp add: take_block_inv)
qed (use assms in simp)

lemma reuse_block_inv:
  assumes inv: "kv_inv_with ext leak s" and node: "kv_tree s path = Some b"
    and pc: "kc_prefix_caching (kv_cfg s)"
  shows "kv_inv_with (ext @ [b]) leak (reuse_block b s)"
proof -
  have len: "length (kv_blocks s) = kv_total s" using inv by (rule inv_total)
  have b: "b < kv_total s" "b \<notin> set (kv_free s)"
    using inv node pc by (auto simp: kv_inv_with_def tree_ok_def)
  have lru: "pb_cached (block_at s b) \<longleftrightarrow> b \<in> set (kv_lru s)"
    "pb_linked (block_at s b) \<longleftrightarrow> b \<in> set (kv_lru s)" "distinct (kv_lru s)"
    using inv b by (auto simp: kv_inv_with_def lru_ok_def)
  let ?t = "reuse_block b s"
  have blocks: "block_at ?t c =
      (if c = b then (block_at s b)\<lparr>pb_ref := Suc (pb_ref (block_at s b)), pb_cached := False, pb_linked := False\<rparr>
       else block_at s c)" for c
    using b len lru by (cases "block_at s b") (auto simp: reuse_block_def Let_def upd_block_at)
  have fields: "kv_cfg ?t = kv_cfg s" "kv_free ?t = kv_free s" "kv_lru ?t = remove1 b (kv_lru s)"
    "kv_tree ?t = kv_tree s" "kv_pages ?t = kv_pages s" "length (kv_blocks ?t) = length (kv_blocks s)"
    using b len lru by (auto simp: reuse_block_def Let_def upd_block_at remove1_idem)
  have own: "owned (ext @ [b]) ?t c = owned ext s c + (if c = b then 1 else 0)" for c
    by (simp add: owned_def fields)
  have "shape_ok ?t" "free_ok ?t" "lru_ok ?t" "no_lost ?t" "tree_ok ?t" "private_ok ?t"
    using inv b len lru node pc
    by (auto simp: kv_inv_with_def kv_inv_parts blocks fields ran_def split: if_splits)
  moreover have "refs_ok (ext @ [b]) leak ?t"
    using inv b unfolding kv_inv_with_def refs_ok_def own fields blocks by auto
  ultimately show ?thesis by (simp add: kv_inv_with_def)
qed

lemma install_block_inv:
  assumes inv: "kv_inv_with ext leak s" and b: "b \<in> set ext"
    and pc: "kc_prefix_caching (kv_cfg s) \<Longrightarrow>
      b \<notin> ran (kv_tree s) \<and> h \<noteq> 0 \<and> kv_tree s (node @ [h]) = None \<and>
      (node = [] \<or> kv_tree s node \<noteq> None)"
  shows "kv_inv_with ext leak (install_block h (node @ [h]) b s)"
proof -
  let ?path = "node @ [h]"
  let ?t = "install_block h ?path b s"
  have len: "length (kv_blocks s) = kv_total s" using inv by (rule inv_total)
  have own: "0 < owned ext s b" using b by (simp add: owned_def count_list_pos)
  have lt: "b < kv_total s" using inv own by (rule inv_owned_lt)
  have "0 < pb_ref (block_at s b)" using inv_refs[OF inv lt] own by linarith
  with lt have bt: "b < kv_total s" "0 < pb_ref (block_at s b)" .
  have notin: "b \<notin> set (kv_free s)" "b \<notin> set (kv_lru s)"
    using inv bt by (auto simp: kv_inv_with_def free_ok_def lru_ok_def)
  have blocks: "block_at ?t c =
      (if c = b then (block_at s b)\<lparr>pb_filled := kv_bs s, pb_hash := h\<rparr> else block_at s c)" for c
    using bt len by (simp add: install_block_def upd_block_at)
  have fields: "kv_cfg ?t = kv_cfg s" "kv_free ?t = kv_free s" "kv_lru ?t = kv_lru s"
    "kv_pages ?t = kv_pages s" "length (kv_blocks ?t) = length (kv_blocks s)"
    by (simp_all add: install_block_def)
  have below: "kv_tree s q = None" if "kc_prefix_caching (kv_cfg s)" "take (length ?path) q = ?path" for q
  proof -
    have "kv_tree s (?path @ drop (length ?path) q) \<noteq> None \<longrightarrow> kv_tree s ?path \<noteq> None"
      using inv that(1) unfolding kv_inv_with_def tree_ok_def by blast
    moreover have "?path @ drop (length ?path) q = q" using that(2) by (metis append_take_drop_id)
    ultimately show ?thesis using pc[OF that(1)] by auto
  qed
  have tree: "kv_tree ?t q = (if q = ?path then Some b else kv_tree s q)"
    if "kc_prefix_caching (kv_cfg s)" for q
    using below[OF that, of q] by (auto simp: install_block_def)
  have "tree_ok ?t"
  proof (cases "kc_prefix_caching (kv_cfg s)")
    case True
    have old: "\<forall>path c. kv_tree s path = Some c \<longrightarrow> path \<noteq> [] \<and> c < kv_total s \<and> c \<notin> set (kv_free s) \<and>
        pb_hash (block_at s c) = last path \<and> last path \<noteq> 0 \<and> pb_filled (block_at s c) = kv_bs s"
      "\<forall>p q c. kv_tree s p = Some c \<longrightarrow> kv_tree s q = Some c \<longrightarrow> p = q"
      "\<forall>p q. kv_tree s (p @ q) \<noteq> None \<longrightarrow> p \<noteq> [] \<longrightarrow> kv_tree s p \<noteq> None"
      using inv True unfolding kv_inv_with_def tree_ok_def by blast+
    have nb: "kv_tree s p \<noteq> Some b" for p using pc[OF True] by (auto simp: ran_def)
    have "kv_tree ?t p \<noteq> None" if "kv_tree ?t (p @ q) \<noteq> None" "p \<noteq> []" for p q
    proof (cases "p @ q = ?path")
      case False
      with that old(3) show ?thesis by (simp add: tree[OF True]) blast
    next
      case pq: True
      show ?thesis
      proof (cases "q = []")
        case True
        with pq show ?thesis by (simp add: tree[OF \<open>kc_prefix_caching (kv_cfg s)\<close>])
      next
        case False
        with pq have node: "node = p @ butlast q" by (metis butlast_append butlast_snoc)
        with \<open>p \<noteq> []\<close> have "kv_tree s (p @ butlast q) \<noteq> None" using pc[OF True] by simp
        then have "kv_tree s p \<noteq> None" using old(3) \<open>p \<noteq> []\<close> by blast
        then show ?thesis by (simp add: tree[OF True])
      qed
    qed
    then show ?thesis
      unfolding tree_ok_def fields using old(1,2) nb pc[OF True] bt notin
      by (auto simp: tree[OF True] blocks split: if_splits)
  qed (simp add: tree_ok_def fields)
  moreover have "private_ok ?t"
  proof (cases "kc_prefix_caching (kv_cfg s)")
    case True
    then have "kv_tree s p = Some c \<Longrightarrow> kv_tree ?t p = Some c" for p c
      using pc[OF True] by (auto simp: tree)
    then have "ran (kv_tree s) \<subseteq> ran (kv_tree ?t)" by (auto simp: ran_def)
    with inv show ?thesis by (auto simp: kv_inv_with_def private_ok_def blocks fields)
  qed (use inv in \<open>auto simp: kv_inv_with_def private_ok_def blocks fields\<close>)
  moreover have "refs_ok ext leak ?t" and "shape_ok ?t" "free_ok ?t" "lru_ok ?t" "no_lost ?t"
    using inv by (auto simp: kv_inv_with_def kv_inv_parts refs_ok_def owned_def blocks fields)
  ultimately show ?thesis by (simp add: kv_inv_with_def)
qed

lemma set_filled_inv:
  assumes "kv_inv_with ext leak s" "n \<le> kv_bs s"
    and "kc_prefix_caching (kv_cfg s) \<Longrightarrow> b \<in> ran (kv_tree s) \<Longrightarrow> n = kv_bs s"
  shows "kv_inv_with ext leak (upd_block b (\<lambda>p. p\<lparr>pb_filled := n\<rparr>) s)"
proof -
  let ?t = "upd_block b (\<lambda>p. p\<lparr>pb_filled := n\<rparr>) s"
  have blocks: "block_at ?t c = (if c = b \<and> b < kv_total s
      then (block_at s c)\<lparr>pb_filled := n\<rparr> else block_at s c)" for c
    using inv_total[OF assms(1)] by (simp add: upd_block_at)
  have "shape_ok ?t" "free_ok ?t" "lru_ok ?t" "no_lost ?t" "private_ok ?t" "refs_ok ext leak ?t"
    using assms(1,2) by (simp_all add: kv_inv_with_def kv_inv_parts refs_ok_def blocks)
  moreover have "tree_ok ?t"
    using assms(1,3) unfolding kv_inv_with_def tree_ok_def blocks by (auto simp: ran_def)
  ultimately show ?thesis by (simp add: kv_inv_with_def)
qed

lemma inv_leak: "kv_inv_with ext leak s \<Longrightarrow> kv_inv (\<lambda>b. leak b + count_list ext b) s"
  by (auto simp: kv_inv_with_def refs_ok_def owned_def algebra_simps)

lemma free_block_inv:
  assumes inv: "kv_inv_with (b # ext) leak s"
  shows "kv_inv_with ext leak (free_physical_block b s)"
proof -
  let ?t = "free_physical_block b s"
  have len: "length (kv_blocks s) = kv_total s" using inv by (rule inv_total)
  have "0 < owned (b # ext) s b" by (simp add: owned_Cons)
  then have bt: "b < kv_total s" using inv by (auto simp: kv_inv_with_def refs_ok_def)
  moreover from inv have "\<forall>c < kv_total s. owned (b # ext) s c + leak c = pb_ref (block_at s c)"
    by (simp add: kv_inv_with_def refs_ok_def)
  ultimately have "owned (b # ext) s b + leak b = pb_ref (block_at s b)" by blast
  then have own: "owned ext s b + 1 \<le> pb_ref (block_at s b)" by (simp add: owned_Cons)
  note bt = bt own
  then have notin: "b \<notin> set (kv_free s)" "b \<notin> set (kv_lru s)"
    using inv by (auto simp: kv_inv_with_def free_ok_def lru_ok_def)
  have untree: "b \<notin> ran (kv_tree s)" if "kc_prefix_caching (kv_cfg s)" "pb_hash (block_at s b) = 0"
    using inv that by (auto simp: kv_inv_with_def tree_ok_def ran_def)
  let ?old = "block_at s b"
  define keep where "keep \<longleftrightarrow> 1 < pb_ref ?old"
  define lru where "lru \<longleftrightarrow> \<not> keep \<and> kc_prefix_caching (kv_cfg s) \<and> pb_hash ?old \<noteq> 0"
  have rest: "pb_ref ?old = 1" if "\<not> keep" using that bt by (simp add: keep_def)
  have blocks: "block_at ?t c = (if c = b then
      (if keep then ?old\<lparr>pb_ref := pb_ref ?old - 1\<rparr>
       else if lru then ?old\<lparr>pb_ref := 0, pb_cached := True, pb_linked := True\<rparr>
       else ?old\<lparr>pb_ref := 0, pb_filled := 0\<rparr>)
     else block_at s c)" for c
    using bt len rest
    by (cases "block_at s b") (simp add: free_physical_block_def Let_def upd_block_at keep_def lru_def)
  have fields: "kv_cfg ?t = kv_cfg s" "kv_tree ?t = kv_tree s" "kv_pages ?t = kv_pages s"
    "length (kv_blocks ?t) = length (kv_blocks s)"
    "kv_lru ?t = (if lru then b # kv_lru s else kv_lru s)"
    "kv_free ?t = (if keep \<or> lru then kv_free s else b # kv_free s)"
    using bt len rest by (auto simp: free_physical_block_def Let_def upd_block_at keep_def lru_def)
  have nolru: "\<not> keep \<Longrightarrow> \<not> lru \<Longrightarrow> kc_prefix_caching (kv_cfg s) \<Longrightarrow> b \<notin> ran (kv_tree s)"
    using untree by (simp add: lru_def)
  have own_t: "owned ext ?t = owned ext s" by (simp add: owned_def fields fun_eq_iff)
  have "refs_ok ext leak ?t"
  proof -
    have cons: "owned (b # ext) s c = owned ext s c + (if c = b then 1 else 0)" for c
      by (rule owned_Cons)
    have refs: "owned (b # ext) s c + leak c = pb_ref (block_at s c)" if "c < kv_total s" for c
      using inv that by (simp add: kv_inv_with_def refs_ok_def)
    have "owned ext s c + leak c = pb_ref (block_at ?t c)" if "c < kv_total s" for c
      using refs[OF that] rest unfolding cons blocks keep_def by (auto split: if_splits)
    moreover have "c < kv_total s" if "0 < owned ext s c" for c
    proof -
      have "0 < owned (b # ext) s c" using that by (simp add: cons)
      with inv show ?thesis by (simp add: kv_inv_with_def refs_ok_def)
    qed
    ultimately show ?thesis using inv by (simp add: refs_ok_def own_t fields kv_inv_with_def)
  qed
  moreover have "shape_ok ?t" using inv by (simp add: kv_inv_with_def shape_ok_def blocks fields)
  moreover have "free_ok ?t"
    using inv bt notin by (auto simp: kv_inv_with_def free_ok_def blocks fields)
  moreover have "lru_ok ?t"
    using inv bt notin by (auto simp: kv_inv_with_def lru_ok_def blocks fields lru_def)
  moreover have "no_lost ?t"
    using inv by (auto simp: kv_inv_with_def no_lost_def blocks fields keep_def)
  moreover have "private_ok ?t"
    using inv by (auto simp: kv_inv_with_def private_ok_def blocks fields)
  moreover have "tree_ok ?t"
    using inv nolru unfolding kv_inv_with_def tree_ok_def blocks fields by (auto simp: ran_def)
  ultimately show ?thesis by (simp add: kv_inv_with_def)
qed

section \<open>Whole operations\<close>

lemma evictions_mono:
  "kv_evictions s \<le> kv_evictions (snd (allocate_physical_block s))"
  by (auto simp: allocate_physical_block_def evict_lru_block_def Let_def
      split: option.splits list.splits)

lemma allocate_evictions: "allocate_physical_block s = (r, t) \<Longrightarrow> kv_evictions s \<le> kv_evictions t"
  using evictions_mono[of s] by simp

lemma reuse_frame [simp]:
  "kv_cfg (reuse_block b s) = kv_cfg s" "kv_std_hash (reuse_block b s) = kv_std_hash s"
  "kv_pages (reuse_block b s) = kv_pages s" "kv_tree (reuse_block b s) = kv_tree s"
  "kv_evictions (reuse_block b s) = kv_evictions s" "kv_free (reuse_block b s) = kv_free s"
  by (simp_all add: reuse_block_def Let_def)

lemma install_frame [simp]:
  "kv_cfg (install_block h path b s) = kv_cfg s"
  "kv_std_hash (install_block h path b s) = kv_std_hash s"
  "kv_pages (install_block h path b s) = kv_pages s"
  "kv_evictions (install_block h path b s) = kv_evictions s"
  by (simp_all add: install_block_def)

lemma allocate_frame:
  assumes "allocate_physical_block s = (r, t)"
  shows "kv_cfg t = kv_cfg s" "kv_std_hash t = kv_std_hash s" "kv_pages t = kv_pages s"
    "kv_tree t = kv_tree s"
  using assms
  by (auto simp: allocate_physical_block_def evict_lru_block_def
      split: if_splits option.splits list.splits prod.splits)

lemma match_frame:
  "match_prefix tokens bs parent node table s = (parent', node', table', t) \<Longrightarrow>
   kv_cfg t = kv_cfg s \<and> kv_std_hash t = kv_std_hash s \<and> kv_pages t = kv_pages s \<and>
   kv_tree t = kv_tree s \<and> kv_evictions t = kv_evictions s"
  by (induction tokens bs parent node table s rule: match_prefix.induct)
    (auto simp: Let_def split: option.splits)

text \<open>What allocation and the update after it preserve, the two loops preserve.\<close>

lemma fill_blocks_rule:
  assumes alloc: "\<And>s r t. P s \<Longrightarrow> allocate_physical_block s = (r, t) \<Longrightarrow> P t"
    and install: "\<And>s h path c. P s \<Longrightarrow> P (install_block h path c s)"
  shows "P s \<Longrightarrow> fill_blocks tokens bs parent node table s = (r, t) \<Longrightarrow> P t"
proof (induction bs arbitrary: parent node table s)
  case (Cons b bs)
  obtain r1 s1 where al: "allocate_physical_block s = (r1, s1)" by fastforce
  show ?case
  proof (cases r1)
    case (Inl e)
    with Cons.prems al alloc show ?thesis by (auto simp: Let_def)
  next
    case (Inr c)
    let ?h = "compute_block_hash (kv_std_hash s) (block_tokens (kv_bs s) tokens b) parent"
    have "fill_blocks tokens bs ?h (node @ [?h]) (table @ [c])
        (install_block ?h (node @ [?h]) c s1) = (r, t)"
      using Cons.prems(2) al Inr by (simp add: Let_def)
    then show ?thesis by (rule Cons.IH[rotated]) (intro install alloc[OF Cons.prems(1) al])
  qed
qed simp

lemma append_blocks_rule:
  assumes alloc: "\<And>s r t. P s \<Longrightarrow> allocate_physical_block s = (r, t) \<Longrightarrow> P t"
    and push: "\<And>s c k x. P s \<Longrightarrow> P ((upd_block c (\<lambda>p. p\<lparr>pb_filled := k\<rparr>) s)\<lparr>kv_pages := x\<rparr>)"
  shows "P s \<Longrightarrow> append_blocks sid n remaining s = (r, t) \<Longrightarrow> P t"
proof (induction n arbitrary: remaining s)
  case (Suc n)
  obtain r1 s1 where al: "allocate_physical_block s = (r1, s1)" by fastforce
  show ?case
  proof (cases r1)
    case (Inl e)
    with Suc.prems al alloc show ?thesis by auto
  next
    case (Inr c)
    let ?u = "upd_block c (\<lambda>p. p\<lparr>pb_filled := min remaining (kv_bs s1)\<rparr>) s1"
    have "append_blocks sid n (remaining - min remaining (kv_bs s1))
        (?u\<lparr>kv_pages := AList.update sid (the (map_of (kv_pages ?u) sid) @ [c]) (kv_pages ?u)\<rparr>) = (r, t)"
      using Suc.prems(2) al Inr by (simp add: Let_def)
    then show ?thesis by (rule Suc.IH[rotated]) (intro push alloc[OF Suc.prems(1) al])
  qed
qed simp

lemma fill_evictions:
  "fill_blocks tokens bs parent node table s = (r, t) \<Longrightarrow> kv_evictions s \<le> kv_evictions t"
  by (rule fill_blocks_rule[where P = "\<lambda>u. kv_evictions s \<le> kv_evictions u"])
    (auto dest: allocate_evictions)

lemma append_evictions:
  "append_blocks sid n remaining s = (r, t) \<Longrightarrow> kv_evictions s \<le> kv_evictions t"
  by (rule append_blocks_rule[where P = "\<lambda>u. kv_evictions s \<le> kv_evictions u"])
    (auto dest: allocate_evictions)

lemma match_prefix_inv:
  assumes "match_prefix tokens bs parent node table s = (parent', node', table', t)"
    and "kv_inv_with table leak s" and "kc_prefix_caching (kv_cfg s)"
    and "node = [] \<or> kv_tree s node \<noteq> None"
  shows "kv_inv_with table' leak t \<and> (node' = [] \<or> kv_tree t node' \<noteq> None)"
  using assms
  by (induction tokens bs parent node table s rule: match_prefix.induct)
    (auto simp: Let_def reuse_block_inv split: option.splits)

definition kv_inv_leaked :: "(nat \<Rightarrow> nat) \<Rightarrow> kv_cache \<Rightarrow> bool" where
  "kv_inv_leaked leak t \<longleftrightarrow> (\<exists>leak'. (\<forall>b. leak b \<le> leak' b) \<and> kv_inv leak' t)"

lemma inv_leaked: "kv_inv_with ext leak s \<Longrightarrow> kv_inv_leaked leak s"
  using inv_leak[of ext leak s] unfolding kv_inv_leaked_def by (intro exI[of _ "\<lambda>b. leak b + count_list ext b"]) simp

text \<open>The chain of block hashes of a prompt, as both loops compute it.\<close>

primrec hash_chain :: "(int \<Rightarrow> 64 word) \<Rightarrow> nat \<Rightarrow> int list \<Rightarrow> nat list \<Rightarrow> 64 word \<Rightarrow> 64 word list" where
  "hash_chain h n tokens [] parent = []"
| "hash_chain h n tokens (b # bs) parent =
     (let k = compute_block_hash h (block_tokens n tokens b) parent in k # hash_chain h n tokens bs k)"

definition prompt_hashes :: "kv_cache \<Rightarrow> int list \<Rightarrow> 64 word list" where
  "prompt_hashes s tokens =
     hash_chain (kv_std_hash s) (kv_bs s) tokens [0..<length tokens div kv_bs s] 0"

lemma fill_blocks_inv:
  assumes "fill_blocks tokens bs parent node table s = (r, t)" and "kv_evictions t = kv_evictions s"
    and "kv_inv_with table leak s"
    and "kc_prefix_caching (kv_cfg s) \<Longrightarrow>
      0 \<notin> set (hash_chain (kv_std_hash s) (kv_bs s) tokens bs parent) \<and>
      (node = [] \<or> kv_tree s node \<noteq> None) \<and>
      (\<forall>h. take 1 (hash_chain (kv_std_hash s) (kv_bs s) tokens bs parent) = [h] \<longrightarrow>
           kv_tree s (node @ [h]) = None)"
  shows "case r of Inl e \<Rightarrow> kv_inv_leaked leak t | Inr table' \<Rightarrow> kv_inv_with table' leak t \<and> length table' = length table + length bs"
  using assms
proof (induction tokens bs parent node table s arbitrary: r t rule: fill_blocks.induct)
  case (2 tokens b bs parent node table s)
  obtain r1 s1 where al: "allocate_physical_block s = (r1, s1)" by fastforce
  define h where "h = compute_block_hash (kv_std_hash s) (block_tokens (kv_bs s) tokens b) parent"
  show ?case
  proof (cases r1)
    case (Inl e)
    with "2.prems"(1) al have eq: "r = Inl e" "t = s1" by (simp_all add: Let_def)
    with allocate_inv[OF "2.prems"(3) al] "2.prems"(2) Inl have "kv_inv_with table leak t" by simp
    with eq show ?thesis by (simp add: inv_leaked)
  next
    case (Inr c)
    let ?s2 = "install_block h (node @ [h]) c s1"
    have run: "fill_blocks tokens bs h (node @ [h]) (table @ [c]) ?s2 = (r, t)"
      using "2.prems"(1) al Inr by (simp add: Let_def h_def)
    have ev: "kv_evictions s1 = kv_evictions s" "kv_evictions t = kv_evictions ?s2"
      using fill_evictions[OF run] allocate_evictions[OF al] "2.prems"(2) by auto
    note fr = allocate_frame[OF al]
    have inv1: "kv_inv_with (table @ [c]) leak s1"
      using allocate_inv[OF "2.prems"(3) al ev(1)] Inr by simp
    have new: "c \<notin> ran (kv_tree s1)" if "kc_prefix_caching (kv_cfg s1)"
    proof -
      from al ev(1) Inr obtain fs where "kv_free s = c # fs" by (auto elim: allocate_cases)
      then show ?thesis using "2.prems"(3) that fr
        by (auto simp: kv_inv_with_def tree_ok_def ran_def)
    qed
    have pre: "0 \<notin> set (hash_chain (kv_std_hash s) (kv_bs s) tokens bs h)" "h \<noteq> 0"
      "node = [] \<or> kv_tree s node \<noteq> None" "kv_tree s (node @ [h]) = None"
      if "kc_prefix_caching (kv_cfg s)"
      using "2.prems"(4)[OF that] by (auto simp: Let_def h_def)
    have inv2: "kv_inv_with (table @ [c]) leak ?s2"
      using inv1 new pre by (intro install_block_inv) (auto simp: fr)
    have "case r of Inl e \<Rightarrow> kv_inv_leaked leak t | Inr table' \<Rightarrow> kv_inv_with table' leak t \<and>
            length table' = length (table @ [c]) + length bs"
      using 2(1)[OF h_def run ev(2) inv2] pre
      by (auto simp: fr install_block_def)
    then show ?thesis by (auto split: sum.splits)
  qed
qed simp

lemma fill_frame:
  assumes "fill_blocks tokens bs parent node table s = (r, t)"
  shows "kv_cfg t = kv_cfg s" "kv_std_hash t = kv_std_hash s" "kv_pages t = kv_pages s"
proof -
  have "kv_cfg t = kv_cfg s \<and> kv_std_hash t = kv_std_hash s \<and> kv_pages t = kv_pages s"
    using assms
    by (rule fill_blocks_rule[rotated 3]) (auto simp: allocate_frame)
  then show "kv_cfg t = kv_cfg s" "kv_std_hash t = kv_std_hash s" "kv_pages t = kv_pages s" by simp_all
qed

text \<open>What the matching loop has done: it walked down the tree along the hash chain.\<close>

lemma match_prefix_spec:
  assumes "match_prefix tokens bs parent node table s = (parent', node', table', t)"
  defines "chain \<equiv> hash_chain (kv_std_hash s) (kv_bs s) tokens bs parent"
  shows "\<exists>n \<le> length bs. length table' = length table + n \<and> node' = node @ take n chain \<and>
    hash_chain (kv_std_hash s) (kv_bs s) tokens (drop n bs) parent' = drop n chain \<and>
    (\<forall>h. take 1 (drop n chain) = [h] \<longrightarrow> kv_tree s (node' @ [h]) = None)"
  using assms(1) unfolding chain_def
proof (induction tokens bs parent node table s rule: match_prefix.induct)
  case (2 tokens b bs parent node table s)
  define h where "h = compute_block_hash (kv_std_hash s) (block_tokens (kv_bs s) tokens b) parent"
  show ?case
  proof (cases "kv_tree s (node @ [h])")
    case None
    with 2(2) have "parent' = parent" "node' = node" "table' = table" by (auto simp: h_def)
    with None show ?thesis by (intro exI[of _ 0]) (simp add: Let_def h_def)
  next
    case (Some c)
    with 2(2) have run: "match_prefix tokens bs h (node @ [h]) (table @ [c]) (reuse_block c s) =
        (parent', node', table', t)" by (simp add: h_def Let_def)
    obtain n where "n \<le> length bs" "length table' = length (table @ [c]) + n"
      "node' = (node @ [h]) @ take n (hash_chain (kv_std_hash s) (kv_bs s) tokens bs h)"
      "hash_chain (kv_std_hash s) (kv_bs s) tokens (drop n bs) parent' =
         drop n (hash_chain (kv_std_hash s) (kv_bs s) tokens bs h)"
      "\<forall>k. take 1 (drop n (hash_chain (kv_std_hash s) (kv_bs s) tokens bs h)) = [k] \<longrightarrow>
         kv_tree s (node' @ [k]) = None"
      using 2(1)[OF h_def Some run] by auto
    then show ?thesis
      by (intro exI[of _ "Suc n"]) (simp add: Let_def h_def[symmetric])
  qed
qed simp

lemma hash_chain_append:
  "hash_chain h n tokens (as @ bs) parent =
     hash_chain h n tokens as parent @
     hash_chain h n tokens bs (last (parent # hash_chain h n tokens as parent))"
  by (induction as arbitrary: parent) (simp_all add: Let_def)

text \<open>Storing the finished table of a registration.\<close>

lemma store_table_inv:
  assumes inv: "kv_inv_with table leak s" and new: "\<not> dict_has sid (kv_pages s)" and ne: "table \<noteq> []"
  shows "kv_inv leak (s\<lparr>kv_pages := AList.update sid table (kv_pages s)\<rparr>)"
proof -
  let ?t = "s\<lparr>kv_pages := AList.update sid table (kv_pages s)\<rparr>"
  have fresh: "AList.update sid table (kv_pages s) = kv_pages s @ [(sid, table)]"
    using new by (intro update_fresh) (simp add: dict_simps)
  have own: "owned [] ?t b = owned table s b" for b by (simp add: owned_def fresh)
  have "refs_ok [] leak ?t"
    using inv ne distinct_update_keys[of "kv_pages s" sid table]
    by (simp add: kv_inv_with_def refs_ok_def own) (simp add: fresh)
  with inv show ?thesis by (simp add: kv_inv_with_def kv_inv_parts)
qed

text \<open>The tail block.\<close>

lemma tail_block_inv:
  assumes inv: "kv_inv_with table leak s" and al: "allocate_physical_block s = (Inr c, t)"
    and ev: "kv_evictions t = kv_evictions s" and n: "n \<le> kv_bs s"
  shows "kv_inv_with (table @ [c]) leak (upd_block c (\<lambda>p. p\<lparr>pb_filled := n\<rparr>) t)"
proof (rule set_filled_inv)
  show "kv_inv_with (table @ [c]) leak t" using allocate_inv[OF inv al ev] by simp
  show "n \<le> kv_bs t" using n allocate_frame[OF al] by simp
  assume "kc_prefix_caching (kv_cfg t)" "c \<in> ran (kv_tree t)"
  moreover obtain fs where "kv_free s = c # fs" using al ev by (auto elim: allocate_cases)
  ultimately show "n = kv_bs t"
    using inv allocate_frame[OF al] by (auto simp: kv_inv_with_def tree_ok_def ran_def)
qed

text \<open>The state between the two loops of a registration.\<close>

definition match_stage ::
  "int list \<Rightarrow> kv_cache \<Rightarrow> 64 word \<times> 64 word list \<times> nat list \<times> kv_cache" where
  "match_stage tokens s = (if kc_prefix_caching (kv_cfg s)
     then match_prefix tokens [0..<length tokens div kv_bs s] 0 [] [] s else (0, [], [], s))"

lemma match_stage_frame:
  assumes "match_stage tokens s = (parent, node, table, t)"
  shows "kv_cfg t = kv_cfg s" "kv_std_hash t = kv_std_hash s" "kv_pages t = kv_pages s"
    "kv_tree t = kv_tree s" "kv_evictions t = kv_evictions s"
  using assms match_frame[of tokens "[0..<length tokens div kv_bs s]" 0 "[]" "[]" s parent node table t]
  by (auto simp: match_stage_def split: if_splits)

lemma match_stage_inv:
  assumes "kv_inv leak s" "match_stage tokens s = (parent, node, table, t)"
  shows "kv_inv_with table leak t \<and> (node = [] \<or> kv_tree t node \<noteq> None)"
  using assms match_prefix_inv[of tokens "[0..<length tokens div kv_bs s]" 0 "[]" "[]" s parent node table t leak]
  by (auto simp: match_stage_def split: if_splits)

lemma match_stage_spec:
  assumes run: "match_stage tokens s = (parent, node, table, t)"
  defines "n \<equiv> length table" and "full \<equiv> length tokens div kv_bs s"
  shows "n \<le> full" and "node = take n (prompt_hashes s tokens)"
    and "hash_chain (kv_std_hash s) (kv_bs s) tokens [n..<full] parent = drop n (prompt_hashes s tokens)"
    and "kc_prefix_caching (kv_cfg s) \<Longrightarrow> take 1 (drop n (prompt_hashes s tokens)) = [h] \<Longrightarrow>
      kv_tree s (node @ [h]) = None"
proof -
  have main: "n \<le> full \<and> node = take n (prompt_hashes s tokens) \<and>
    hash_chain (kv_std_hash s) (kv_bs s) tokens [n..<full] parent = drop n (prompt_hashes s tokens) \<and>
    (kc_prefix_caching (kv_cfg s) \<longrightarrow>
      (\<forall>h. take 1 (drop n (prompt_hashes s tokens)) = [h] \<longrightarrow> kv_tree s (node @ [h]) = None))"
  proof (cases "kc_prefix_caching (kv_cfg s)")
    case True
    with run have "match_prefix tokens [0..<full] 0 [] [] s = (parent, node, table, t)"
      by (simp add: match_stage_def full_def)
    from match_prefix_spec[OF this] obtain k where k: "k \<le> length [0..<full]" "length table = k"
      "node = take k (prompt_hashes s tokens)"
      "hash_chain (kv_std_hash s) (kv_bs s) tokens (drop k [0..<full]) parent =
         drop k (prompt_hashes s tokens)"
      "\<forall>h. take 1 (drop k (prompt_hashes s tokens)) = [h] \<longrightarrow> kv_tree s (node @ [h]) = None"
      unfolding prompt_hashes_def full_def[symmetric] by fastforce
    then have "n = k" by (simp add: n_def)
    with k show ?thesis by (simp add: drop_upt)
  next
    case False
    with run show ?thesis by (simp add: match_stage_def n_def prompt_hashes_def full_def)
  qed
  show "n \<le> full" by (rule main[THEN conjunct1])
  show "node = take n (prompt_hashes s tokens)" by (rule main[THEN conjunct2, THEN conjunct1])
  show "hash_chain (kv_std_hash s) (kv_bs s) tokens [n..<full] parent = drop n (prompt_hashes s tokens)"
    by (rule main[THEN conjunct2, THEN conjunct2, THEN conjunct1])
  show "kc_prefix_caching (kv_cfg s) \<Longrightarrow> take 1 (drop n (prompt_hashes s tokens)) = [h] \<Longrightarrow>
      kv_tree s (node @ [h]) = None"
    using main[THEN conjunct2, THEN conjunct2, THEN conjunct2] by iprover
qed

definition tail_stage :: "nat \<Rightarrow> nat list \<Rightarrow> kv_cache \<Rightarrow> (kv_error, nat list, kv_cache) eff" where
  "tail_stage tail table s =
     (if tail > 0 \<or> table = []
      then eff_bind (allocate_physical_block s)
             (\<lambda>c v. (Inr (table @ [c]), upd_block c (\<lambda>p. p\<lparr>pb_filled := tail\<rparr>) v))
      else (Inr table, s))"

text \<open>Registration of a new sequence as its four stages.\<close>

lemma register_stages:
  assumes "\<not> dict_has sid (kv_pages s)" "0 < kv_bs s"
    and stage: "match_stage tokens s = (parent, node, table, t)"
  shows "register_sequence_with_prefix sid tokens s =
    eff_bind (fill_blocks tokens [length table..<length tokens div kv_bs s] parent node table t)
      (\<lambda>table' u. eff_bind (tail_stage (length tokens mod kv_bs s) table' u)
        (\<lambda>table'' v. (Inr (length table * kv_bs s),
            v\<lparr>kv_pages := AList.update sid table'' (kv_pages v)\<rparr>)))"
proof -
  let ?n = "length table" and ?bs = "kv_bs s"
  have n: "?n \<le> length tokens div ?bs" by (rule match_stage_spec(1)[OF stage])
  then have len: "?n * ?bs \<le> length tokens"
    by (metis div_times_less_eq_dividend le_trans mult_le_mono1)
  then obtain d where d: "length tokens = ?n * ?bs + d" using le_Suc_ex by blast
  have q: "(length tokens - ?n * ?bs) div ?bs = length tokens div ?bs - ?n"
    and m: "(length tokens - ?n * ?bs) mod ?bs = length tokens mod ?bs"
    using assms(2) by (simp_all add: d)
  show ?thesis
    using assms n
    by (simp add: register_sequence_with_prefix_def match_stage_def[symmetric] Let_def q m
        tail_stage_def[symmetric])
qed

lemma tail_stage_evictions: "tail_stage k table s = (r, t) \<Longrightarrow> kv_evictions s \<le> kv_evictions t"
  by (auto simp: tail_stage_def eff_bind_def dest: allocate_evictions split: if_splits sum.splits prod.splits)

lemma tail_stage_frame:
  assumes "tail_stage k table s = (r, t)"
  shows "kv_cfg t = kv_cfg s" "kv_std_hash t = kv_std_hash s" "kv_pages t = kv_pages s"
    "kv_tree t = kv_tree s"
  using assms allocate_frame[of s]
  by (auto simp: tail_stage_def eff_bind_def split: if_splits sum.splits prod.splits)

lemma tail_stage_inv:
  assumes inv: "kv_inv_with table leak s" and run: "tail_stage k table s = (r, t)"
    and ev: "kv_evictions t = kv_evictions s" and k: "k \<le> kv_bs s"
  shows "case r of Inl e \<Rightarrow> kv_inv_leaked leak t | Inr table' \<Rightarrow> kv_inv_with table' leak t \<and> table' \<noteq> []"
proof (cases "k > 0 \<or> table = []")
  case True
  obtain r1 s1 where al: "allocate_physical_block s = (r1, s1)" by fastforce
  show ?thesis
  proof (cases r1)
    case (Inl e)
    with True run al have eq: "r = Inl e" "t = s1" by (simp_all add: tail_stage_def)
    with allocate_inv[OF inv al] ev Inl have "kv_inv_with table leak t" by simp
    with eq show ?thesis by (simp add: inv_leaked)
  next
    case (Inr c)
    with True run al have eq: "r = Inr (table @ [c])" "t = upd_block c (\<lambda>p. p\<lparr>pb_filled := k\<rparr>) s1"
      by (simp_all add: tail_stage_def)
    with tail_block_inv[OF inv al[unfolded Inr] _ k] ev show ?thesis by simp
  qed
next
  case False
  with run inv show ?thesis by (auto simp: tail_stage_def)
qed

lemma register_inv:
  assumes inv: "kv_inv leak s" and run: "register_sequence_with_prefix sid tokens s = (r, t)"
    and ev: "kv_evictions t = kv_evictions s"
    and nz: "kc_prefix_caching (kv_cfg s) \<Longrightarrow> 0 \<notin> set (prompt_hashes s tokens)"
  shows "case r of Inl e \<Rightarrow> kv_inv_leaked leak t | Inr m \<Rightarrow> kv_inv leak t"
proof (cases "dict_has sid (kv_pages s)")
  case True
  with run inv show ?thesis by (auto simp: register_sequence_with_prefix_def)
next
  case new: False
  let ?full = "length tokens div kv_bs s" and ?tail = "length tokens mod kv_bs s"
  have bs: "0 < kv_bs s" using inv by (simp add: kv_inv_with_def shape_ok_def)
  obtain parent node table s1 where st: "match_stage tokens s = (parent, node, table, s1)"
    by (metis prod_cases4)
  note fr = match_stage_frame[OF st] and spec = match_stage_spec[OF st]
  obtain r2 s2 where fl: "fill_blocks tokens [length table..<?full] parent node table s1 = (r2, s2)"
    by fastforce
  note run' = run[unfolded register_stages[OF new bs st] fl]
  have ev2: "kv_evictions s2 = kv_evictions s1"
    using fill_evictions[OF fl] run' ev fr
    by (cases r2) (auto simp: eff_bind_def dest!: tail_stage_evictions split: prod.splits sum.splits)
  have fill: "case r2 of Inl e \<Rightarrow> kv_inv_leaked leak s2 | Inr table' \<Rightarrow> kv_inv_with table' leak s2 \<and>
      length table' = length table + length [length table..<?full]"
    using match_stage_inv[OF inv st] nz spec(3,4)
    by (intro fill_blocks_inv[OF fl ev2]) (auto simp: fr dest: in_set_dropD)
  show ?thesis
  proof (cases r2)
    case (Inl e)
    with run' fill show ?thesis by auto
  next
    case (Inr table2)
    obtain r3 s3 where tl: "tail_stage ?tail table2 s2 = (r3, s3)" by fastforce
    have ev3: "kv_evictions s3 = kv_evictions s2"
      using tail_stage_evictions[OF tl] run' ev ev2 fr Inr tl by (cases r3) auto
    note frames = fill_frame[OF fl] tail_stage_frame[OF tl] fr
    have "?tail \<le> kv_bs s2" using bs by (simp add: frames less_imp_le)
    with fill Inr have tail: "case r3 of Inl e \<Rightarrow> kv_inv_leaked leak s3 | Inr table' \<Rightarrow> kv_inv_with table' leak s3 \<and> table' \<noteq> []"
      by (intro tail_stage_inv[OF _ tl ev3]) simp_all
    show ?thesis
    proof (cases r3)
      case (Inl e)
      with run' Inr tl tail show ?thesis by auto
    next
      case r3: (Inr table3)
      with run' Inr tl have "r = Inr (length table * kv_bs s)"
        "t = s3\<lparr>kv_pages := AList.update sid table3 (kv_pages s3)\<rparr>" by simp_all
      moreover have "\<not> dict_has sid (kv_pages s3)" using new by (simp add: frames)
      ultimately show ?thesis using tail r3 store_table_inv[of table3 leak s3 sid] by simp
    qed
  qed
qed

section \<open>Release and growth of a sequence\<close>

lemma fold_free_inv: "kv_inv_with (table @ ext) leak s \<Longrightarrow> kv_inv_with ext leak (fold free_physical_block table s)"
  by (induction table arbitrary: s) (auto dest: free_block_inv)

lemma free_pages: "free_physical_block b (s\<lparr>kv_pages := x\<rparr>) = (free_physical_block b s)\<lparr>kv_pages := x\<rparr>"
  by (simp add: free_physical_block_def Let_def upd_block_def)

lemma fold_free_pages:
  "fold free_physical_block table (s\<lparr>kv_pages := x\<rparr>) = (fold free_physical_block table s)\<lparr>kv_pages := x\<rparr>"
  by (induction table arbitrary: s) (simp_all add: free_pages)

lemma fold_free_frame [simp]:
  "kv_pages (fold free_physical_block table s) = kv_pages s"
  "kv_cfg (fold free_physical_block table s) = kv_cfg s"
  "kv_evictions (fold free_physical_block table s) = kv_evictions s"
  by (induction table arbitrary: s) (simp_all add: free_physical_block_def Let_def)

lemma unregister_pages:
  "kv_pages (unregister_sequence sid s) =
     (if dict_has sid (kv_pages s) then AList.delete sid (kv_pages s) else kv_pages s)"
  by (auto simp: unregister_sequence_def dict_has_def split: option.splits)

lemma unregister_frame [simp]:
  "kv_cfg (unregister_sequence sid s) = kv_cfg s"
  "kv_evictions (unregister_sequence sid s) = kv_evictions s"
  by (auto simp: unregister_sequence_def split: option.splits)

lemma unregister_inv:
  assumes inv: "kv_inv leak s"
  shows "kv_inv leak (unregister_sequence sid s)"
proof (cases "map_of (kv_pages s) sid")
  case None
  with inv show ?thesis by (simp add: unregister_sequence_def)
next
  case (Some table)
  let ?u = "s\<lparr>kv_pages := AList.delete sid (kv_pages s)\<rparr>"
  have d: "distinct (map fst (kv_pages s))" using inv by (simp add: kv_inv_with_def refs_ok_def)
  have own: "owned table ?u b = owned [] s b" for b
    using dict_sum_delete[OF d Some, of "\<lambda>t. count_list t b"] by (simp add: owned_def)
  have "refs_ok table leak ?u"
    using inv d by (auto simp: kv_inv_with_def refs_ok_def own dict_simps)
  with inv have "kv_inv_with table leak ?u" by (simp add: kv_inv_with_def kv_inv_parts)
  then have "kv_inv leak (fold free_physical_block table ?u)"
    using fold_free_inv[of table "[]"] by simp
  with Some show ?thesis by (simp add: unregister_sequence_def fold_free_pages)
qed

lemma push_block_inv:
  assumes inv: "kv_inv_with [c] leak s" and old: "map_of (kv_pages s) sid = Some table"
  shows "kv_inv leak (s\<lparr>kv_pages := AList.update sid (table @ [c]) (kv_pages s)\<rparr>)"
proof -
  let ?t = "s\<lparr>kv_pages := AList.update sid (table @ [c]) (kv_pages s)\<rparr>"
  have d: "distinct (map fst (kv_pages s))" using inv by (simp add: kv_inv_with_def refs_ok_def)
  have own: "owned [] ?t b = owned [c] s b" for b
    using dict_sum_update[OF d old, of "\<lambda>t. count_list t b" "table @ [c]"] by (simp add: owned_def)
  have "snd p \<noteq> []" if "p \<in> set (AList.update sid (table @ [c]) (kv_pages s))" for p
    using that inv set_update_subset[of sid "table @ [c]" "kv_pages s"]
    by (auto simp: kv_inv_with_def refs_ok_def)
  with inv d have "refs_ok [] leak ?t"
    by (simp add: kv_inv_with_def refs_ok_def own dict_simps)
  with inv show ?thesis by (simp add: kv_inv_with_def kv_inv_parts)
qed

text \<open>One round of the loop of \<open>append_tokens\<close>.\<close>

definition push_block :: "nat \<Rightarrow> nat list \<Rightarrow> nat \<Rightarrow> nat \<Rightarrow> kv_cache \<Rightarrow> kv_cache" where
  "push_block sid table c k s = (upd_block c (\<lambda>p. p\<lparr>pb_filled := k\<rparr>) s)
     \<lparr>kv_pages := AList.update sid (table @ [c]) (kv_pages s)\<rparr>"

lemma push_block_frame [simp]:
  "kv_cfg (push_block sid table c k s) = kv_cfg s"
  "kv_evictions (push_block sid table c k s) = kv_evictions s"
  "kv_tree (push_block sid table c k s) = kv_tree s"
  "kv_pages (push_block sid table c k s) = AList.update sid (table @ [c]) (kv_pages s)"
  by (simp_all add: push_block_def)

lemma append_round:
  assumes "map_of (kv_pages s) sid = Some table"
  shows "append_blocks sid (Suc n) remaining s = eff_bind (allocate_physical_block s)
    (\<lambda>c t. append_blocks sid n (remaining - min remaining (kv_bs s))
             (push_block sid table c (min remaining (kv_bs s)) t))"
proof -
  obtain r t where al: "allocate_physical_block s = (r, t)" by fastforce
  then show ?thesis
    using assms by (cases r) (simp_all add: allocate_frame[OF al] Let_def push_block_def)
qed

lemma append_round_inv:
  assumes "kv_inv leak s" "map_of (kv_pages s) sid = Some table" "k \<le> kv_bs s"
    and "allocate_physical_block s = (Inr c, t)" "kv_evictions t = kv_evictions s"
  shows "kv_inv leak (push_block sid table c k t)"
proof -
  have "kv_inv_with ([] @ [c]) leak (upd_block c (\<lambda>p. p\<lparr>pb_filled := k\<rparr>) t)"
    by (rule tail_block_inv[OF assms(1,4,5,3)])
  then show ?thesis
    using push_block_inv[of c leak "upd_block c (\<lambda>p. p\<lparr>pb_filled := k\<rparr>) t" sid table]
      assms(2) allocate_frame[OF assms(4)]
    by (simp add: push_block_def)
qed

lemma append_blocks_inv:
  assumes "append_blocks sid n remaining s = (r, t)" "kv_evictions t = kv_evictions s"
    and "kv_inv leak s" "map_of (kv_pages s) sid = Some table"
  shows "kv_inv leak t"
  using assms
proof (induction n arbitrary: remaining s table)
  case (Suc n)
  obtain r1 s1 where al: "allocate_physical_block s = (r1, s1)" by fastforce
  note run = Suc.prems(1)[unfolded append_round[OF Suc.prems(4)] al]
  show ?case
  proof (cases r1)
    case (Inl e)
    with run have "t = s1" by simp
    with allocate_inv[OF Suc.prems(3) al] Suc.prems(2) Inl show ?thesis by simp
  next
    case (Inr c)
    let ?v = "push_block sid table c (min remaining (kv_bs s)) s1"
    have run': "append_blocks sid n (remaining - min remaining (kv_bs s)) ?v = (r, t)"
      using run Inr by simp
    have ev: "kv_evictions s1 = kv_evictions s"
      using append_evictions[OF run'] allocate_evictions[OF al] Suc.prems(2) by simp
    from run' have "kv_evictions t = kv_evictions ?v" using ev Suc.prems(2) by simp
    from Suc.IH[OF run' this append_round_inv[OF Suc.prems(3,4) _ al[unfolded Inr] ev]]
    show ?thesis by (simp add: dict_simps)
  qed
qed simp

text \<open>Each appended block is filled before the next one is added, so the context grows by
  exactly the requested number of tokens.\<close>

lemma append_blocks_context:
  assumes "append_blocks sid n remaining s = (Inr (), t)" "kv_evictions t = kv_evictions s"
    and "kv_inv leak s" "map_of (kv_pages s) sid = Some table"
    and "0 < remaining" "n = (remaining + kv_bs s - 1) div kv_bs s"
  shows "\<exists>new. map_of (kv_pages t) sid = Some (table @ new) \<and> length new = n \<and>
    context_tokens t (table @ new) = length table * kv_bs s + remaining"
  using assms
proof (induction n arbitrary: remaining s table)
  case 0
  then show ?case by (simp add: kv_inv_with_def shape_ok_def div_eq_0_iff)
next
  case (Suc n)
  let ?bs = "kv_bs s"
  have bs: "0 < ?bs" using Suc.prems(3) by (simp add: kv_inv_with_def shape_ok_def)
  obtain r1 s1 where al: "allocate_physical_block s = (r1, s1)" by fastforce
  note run = Suc.prems(1)[unfolded append_round[OF Suc.prems(4)] al]
  from run obtain c where c: "r1 = Inr c" by (cases r1) auto
  let ?v = "push_block sid table c (min remaining ?bs) s1"
  have run': "append_blocks sid n (remaining - min remaining ?bs) ?v = (Inr (), t)"
    using run c by simp
  have ev: "kv_evictions s1 = kv_evictions s"
    using append_evictions[OF run'] allocate_evictions[OF al] Suc.prems(2) by simp
  have ev': "kv_evictions t = kv_evictions ?v" using ev Suc.prems(2) by simp
  have inv: "kv_inv leak ?v" by (rule append_round_inv[OF Suc.prems(3,4) _ al[unfolded c] ev]) simp
  have page: "map_of (kv_pages ?v) sid = Some (table @ [c])" by (simp add: dict_simps)
  have cfg: "kv_cfg ?v = kv_cfg s" using allocate_frame[OF al] by simp
  show ?case
  proof (cases "remaining \<le> ?bs")
    case True
    then have "(remaining + ?bs - 1) div ?bs = 1"
      using Suc.prems(5) bs by (intro div_nat_eqI) auto
    with Suc.prems(6) have "n = 0" by simp
    with run' have t: "t = ?v" by simp
    from al ev c obtain fs where fs: "kv_free s = c # fs" "s1 = take_block c fs s" by (auto elim: allocate_cases)
    then have "c < length (kv_blocks s)"
      using Suc.prems(3) by (auto simp: kv_inv_with_def free_ok_def shape_ok_def)
    then have "pb_filled (block_at ?v c) = min remaining ?bs"
      by (simp add: push_block_def upd_block_at fs take_block_def)
    with True page cfg \<open>n = 0\<close> show ?thesis
      by (intro exI[of _ "[c]"]) (simp add: t context_tokens_def)
  next
    case False
    define rest where "rest = remaining - ?bs"
    have rest: "remaining = rest + ?bs" "0 < rest" using False by (simp_all add: rest_def)
    have "Suc n = (rest + ?bs + ?bs - 1) div ?bs"
      by (simp only: rest(1)[symmetric] Suc.prems(6))
    also have "rest + ?bs + ?bs - 1 = (rest + ?bs - 1) + ?bs" using bs by simp
    also have "((rest + ?bs - 1) + ?bs) div ?bs = (rest + ?bs - 1) div ?bs + 1"
      using bs by (intro div_add_self2) simp
    finally have n: "n = (rest + ?bs - 1) div ?bs" by linarith
    have run'': "append_blocks sid n rest ?v = (Inr (), t)"
      using run' rest(1) by simp
    from Suc.IH[OF run'' ev' inv page rest(2)] n
    obtain new where "map_of (kv_pages t) sid = Some ((table @ [c]) @ new)" "length new = n"
      "context_tokens t ((table @ [c]) @ new) = length (table @ [c]) * ?bs + rest"
      unfolding cfg by blast
    then show ?thesis
      using \<open>remaining = rest + ?bs\<close> by (intro exI[of _ "c # new"]) simp
  qed
qed

lemma last_block_lt:
  assumes inv: "kv_inv leak s" and page: "map_of (kv_pages s) sid = Some table"
  shows "last table < kv_total s" "table \<noteq> []" "pb_filled (block_at s (last table)) \<le> kv_bs s"
proof -
  show ne: "table \<noteq> []" using inv map_of_SomeD[OF page] by (auto simp: kv_inv_with_def refs_ok_def)
  have "0 < count_list table (last table)" using ne by (simp add: count_list_pos[symmetric])
  then have "0 < owned [] s (last table)"
    using dict_sum_ge[OF page, of "\<lambda>t. count_list t (last table)"] by (simp add: owned_def)
  then show lt: "last table < kv_total s" using inv by (rule inv_owned_lt[rotated])
  then show "pb_filled (block_at s (last table)) \<le> kv_bs s"
    using inv by (simp add: kv_inv_with_def shape_ok_def)
qed

lemma tree_block_full:
  "kv_inv_with ext leak s \<Longrightarrow> kc_prefix_caching (kv_cfg s) \<Longrightarrow> b \<in> ran (kv_tree s) \<Longrightarrow>
   pb_filled (block_at s b) = kv_bs s"
  by (auto simp: kv_inv_with_def tree_ok_def ran_def)

lemma top_up_inv:
  assumes inv: "kv_inv leak s" and k: "pb_filled (block_at s b) \<le> k" "k \<le> kv_bs s"
  shows "kv_inv leak (upd_block b (\<lambda>p. p\<lparr>pb_filled := k\<rparr>) s)"
  using tree_block_full[OF inv, of b] k by (intro set_filled_inv[OF inv]) auto

lemma append_inv:
  assumes inv: "kv_inv leak s" and run: "append_tokens sid n s = (r, t)"
    and ev: "kv_evictions t = kv_evictions s"
  shows "kv_inv leak t"
proof (cases "map_of (kv_pages s) sid")
  case None
  with run inv show ?thesis by (simp add: append_tokens_def)
next
  case (Some table)
  let ?b = "last table"
  note last = last_block_lt[OF inv Some]
  show ?thesis
  proof (cases "n \<le> kv_bs s - pb_filled (block_at s ?b)")
    case True
    with run Some have t: "t = upd_block ?b (\<lambda>p. p\<lparr>pb_filled := pb_filled p + n\<rparr>) s"
      by (simp add: append_tokens_def)
    have "t = upd_block ?b (\<lambda>p. p\<lparr>pb_filled := pb_filled (block_at s ?b) + n\<rparr>) s"
      by (simp add: t upd_block_def)
    then show ?thesis using True last by (simp add: top_up_inv[OF inv])
  next
    case False
    let ?u = "upd_block ?b (\<lambda>p. p\<lparr>pb_filled := kv_bs s\<rparr>) s"
    have "append_blocks sid ((n - (kv_bs s - pb_filled (block_at s ?b)) + kv_bs s - 1) div kv_bs s)
        (n - (kv_bs s - pb_filled (block_at s ?b))) ?u = (r, t)"
      using run Some False by (simp add: append_tokens_def Let_def)
    then show ?thesis
      by (rule append_blocks_inv[where table = table]) (use ev Some last in \<open>simp_all add: top_up_inv[OF inv]\<close>)
  qed
qed

lemma append_context:
  assumes inv: "kv_inv leak s" and run: "append_tokens sid n s = (Inr (), t)"
    and ev: "kv_evictions t = kv_evictions s" and page: "map_of (kv_pages s) sid = Some table"
  shows "\<exists>new. map_of (kv_pages t) sid = Some (table @ new) \<and>
    context_tokens t (table @ new) = context_tokens s table + n"
proof -
  let ?b = "last table" and ?bs = "kv_bs s"
  note last = last_block_lt[OF inv page]
  have len: "length (kv_blocks s) = kv_total s" by (rule inv_total[OF inv])
  show ?thesis
  proof (cases "n \<le> ?bs - pb_filled (block_at s ?b)")
    case True
    with run page have "t = upd_block ?b (\<lambda>p. p\<lparr>pb_filled := pb_filled p + n\<rparr>) s"
      by (simp add: append_tokens_def)
    with page last len show ?thesis
      by (intro exI[of _ "[]"]) (simp add: context_tokens_def upd_block_at)
  next
    case False
    let ?u = "upd_block ?b (\<lambda>p. p\<lparr>pb_filled := ?bs\<rparr>) s"
    let ?rem = "n - (?bs - pb_filled (block_at s ?b))"
    have run': "append_blocks sid ((?rem + ?bs - 1) div ?bs) ?rem ?u = (Inr (), t)"
      using run page False by (simp add: append_tokens_def Let_def)
    have "kv_inv leak ?u" using last by (simp add: top_up_inv[OF inv])
    with append_blocks_context[OF run' _ this, of table] ev page False
    obtain new where new: "map_of (kv_pages t) sid = Some (table @ new)"
      "context_tokens t (table @ new) = length table * ?bs + ?rem" by auto
    moreover have "length table * ?bs = (length table - 1) * ?bs + ?bs"
      using last(2) by (cases table) simp_all
    ultimately show ?thesis
      using last(3) False by (intro exI[of _ new]) (simp add: context_tokens_def)
  qed
qed

end
