(* ===== verification/Kv_Register.thy ===== *)
theory Kv_Register
  imports Kv_Invariant
begin

text \<open>
  What a successful registration stores: the shape of the block table, the context length it
  stands for, and, with prefix caching, the agreement of the table with the prefix tree.
\<close>

section \<open>The tree only grows\<close>

definition tree_extends :: "kv_cache \<Rightarrow> kv_cache \<Rightarrow> bool" where
  "tree_extends s t \<longleftrightarrow> (\<forall>p b. kv_tree s p = Some b \<longrightarrow> kv_tree t p = Some b)"

lemma tree_extends_refl: "kv_tree t = kv_tree s \<Longrightarrow> tree_extends s t"
  by (simp add: tree_extends_def)

lemma tree_extends_trans: "tree_extends s t \<Longrightarrow> tree_extends t u \<Longrightarrow> tree_extends s u"
  by (simp add: tree_extends_def)

lemma match_prefix_table:
  assumes "match_prefix tokens bs parent node table s = (parent', node', table', t)"
  defines "chain \<equiv> hash_chain (kv_std_hash s) (kv_bs s) tokens bs parent"
  shows "\<exists>new. table' = table @ new \<and>
    (\<forall>i < length new. kv_tree s (node @ take (Suc i) chain) = Some (new ! i))"
  using assms(1) unfolding chain_def
proof (induction tokens bs parent node table s rule: match_prefix.induct)
  case (2 tokens b bs parent node table s)
  define h where "h = compute_block_hash (kv_std_hash s) (block_tokens (kv_bs s) tokens b) parent"
  show ?case
  proof (cases "kv_tree s (node @ [h])")
    case None
    with 2(2) have "table' = table" by (auto simp: h_def)
    then show ?thesis by simp
  next
    case (Some c)
    with 2(2) have run: "match_prefix tokens bs h (node @ [h]) (table @ [c]) (reuse_block c s) =
        (parent', node', table', t)" by (simp add: h_def Let_def)
    from 2(1)[OF h_def Some run] obtain new where new: "table' = (table @ [c]) @ new"
      "\<forall>i < length new. kv_tree s ((node @ [h]) @
         take (Suc i) (hash_chain (kv_std_hash s) (kv_bs s) tokens bs h)) = Some (new ! i)"
      by auto
    have "kv_tree s (node @ take (Suc i) (h # hash_chain (kv_std_hash s) (kv_bs s) tokens bs h)) =
        Some ((c # new) ! i)" if "i < length (c # new)" for i
      using that new(2) Some by (cases i) auto
    with new(1) show ?thesis
      by (intro exI[of _ "c # new"]) (simp add: Let_def h_def[symmetric])
  qed
qed simp

lemma fill_blocks_table:
  assumes "fill_blocks tokens bs parent node table s = (Inr table', t)"
    and "kv_evictions t = kv_evictions s" and "kv_inv_with table leak s"
    and "kc_prefix_caching (kv_cfg s) \<Longrightarrow>
      0 \<notin> set (hash_chain (kv_std_hash s) (kv_bs s) tokens bs parent) \<and>
      (node = [] \<or> kv_tree s node \<noteq> None) \<and>
      (\<forall>h. take 1 (hash_chain (kv_std_hash s) (kv_bs s) tokens bs parent) = [h] \<longrightarrow>
           kv_tree s (node @ [h]) = None)"
  shows "\<exists>new. table' = table @ new \<and> length new = length bs \<and>
    (bs \<noteq> [] \<longrightarrow> pb_filled (block_at t (last table')) = kv_bs s) \<and>
    (kc_prefix_caching (kv_cfg s) \<longrightarrow> tree_extends s t \<and>
      (\<forall>i < length new. kv_tree t (node @ take (Suc i)
         (hash_chain (kv_std_hash s) (kv_bs s) tokens bs parent)) = Some (new ! i)))"
  using assms
proof (induction tokens bs parent node table s arbitrary: t rule: fill_blocks.induct)
  case (1 tokens parent node table s)
  then show ?case by (simp add: tree_extends_refl)
next
  case (2 tokens b bs parent node table s)
  define h where "h = compute_block_hash (kv_std_hash s) (block_tokens (kv_bs s) tokens b) parent"
  let ?pc = "kc_prefix_caching (kv_cfg s)"
  let ?chain = "hash_chain (kv_std_hash s) (kv_bs s) tokens bs h"
  obtain r1 s1 where al: "allocate_physical_block s = (r1, s1)" by fastforce
  with "2.prems"(1) obtain c where c: "r1 = Inr c" by (cases r1) (auto simp: Let_def)
  let ?s2 = "install_block h (node @ [h]) c s1"
  have run: "fill_blocks tokens bs h (node @ [h]) (table @ [c]) ?s2 = (Inr table', t)"
    using "2.prems"(1) al c by (simp add: Let_def h_def)
  have ev: "kv_evictions s1 = kv_evictions s" "kv_evictions t = kv_evictions ?s2"
    using fill_evictions[OF run] allocate_evictions[OF al] "2.prems"(2) by auto
  note fr = allocate_frame[OF al]
  obtain fs where fs: "kv_free s = c # fs" "s1 = take_block c fs s"
    using al ev(1) c by (auto elim: allocate_cases)
  have clt: "c < length (kv_blocks s1)"
    using "2.prems"(3) fs by (auto simp: kv_inv_with_def free_ok_def shape_ok_def take_block_def)
  have pre: "0 \<notin> set ?chain" "h \<noteq> 0"
    "node = [] \<or> kv_tree s node \<noteq> None" "kv_tree s (node @ [h]) = None" if ?pc
    using "2.prems"(4)[OF that] by (auto simp: Let_def h_def)
  have new: "c \<notin> ran (kv_tree s1)" if ?pc
    using "2.prems"(3) that fs fr by (auto simp: kv_inv_with_def tree_ok_def ran_def)
  have inv1: "kv_inv_with (table @ [c]) leak s1"
    using allocate_inv[OF "2.prems"(3) al ev(1)] c by simp
  have inv2: "kv_inv_with (table @ [c]) leak ?s2"
    using inv1 new pre by (intro install_block_inv) (auto simp: fr)
  have tree2: "kv_tree ?s2 p = Some x" if ?pc "kv_tree s p = Some x" for p x
  proof -
    have "take (length (node @ [h])) p \<noteq> node @ [h]"
    proof
      assume eq: "take (length (node @ [h])) p = node @ [h]"
      have "kv_tree s ((node @ [h]) @ drop (length (node @ [h])) p) \<noteq> None"
        using that(2) eq by (metis append_take_drop_id option.distinct(1))
      then have "kv_tree s (node @ [h]) \<noteq> None"
        using "2.prems"(3) that(1) unfolding kv_inv_with_def tree_ok_def by blast
      with pre(4)[OF that(1)] show False by simp
    qed
    with that show ?thesis by (auto simp: install_block_def fr)
  qed
  have own: "kv_tree ?s2 (node @ [h]) = Some c" by (simp add: install_block_def)
  from 2(1)[OF h_def run ev(2) inv2] pre
  obtain new where IH: "table' = (table @ [c]) @ new" "length new = length bs"
    "bs \<noteq> [] \<longrightarrow> pb_filled (block_at t (last table')) = kv_bs s"
    "?pc \<longrightarrow> tree_extends ?s2 t \<and> (\<forall>i < length new. kv_tree t ((node @ [h]) @ take (Suc i) ?chain) = Some (new ! i))"
    by (auto simp: fr install_block_def)
  have "pb_filled (block_at t (last table')) = kv_bs s"
  proof (cases "bs = []")
    case True
    with run IH(1,2) have "t = ?s2" "table' = table @ [c]" by auto
    with clt show ?thesis by (simp add: install_block_def upd_block_at fr)
  qed (use IH in simp)
  moreover have "tree_extends s t" if ?pc
    using IH(4) that tree2 by (auto simp: tree_extends_def)
  moreover have "kv_tree t (node @ take (Suc i) (h # ?chain)) = Some ((c # new) ! i)"
    if ?pc "i < length (c # new)" for i
    using that IH(4) own by (cases i) (auto simp: tree_extends_def)
  ultimately show ?case using IH(1,2)
    by (intro exI[of _ "c # new"]) (simp add: Let_def h_def[symmetric])
qed

lemma ceil_div_eq:
  fixes n k :: nat
  assumes "0 < k"
  shows "(n + k - 1) div k = n div k + (if n mod k > 0 then 1 else 0)"
proof -
  let ?r = "n mod k"
  have r: "?r < k" using assms by simp
  have "n + k - 1 = (?r + k - 1) + n div k * k"
    using assms div_mult_mod_eq[of n k] by simp
  moreover have "((?r + k - 1) + n div k * k) div k = n div k + (?r + k - 1) div k"
    using assms by (intro div_mult_self1) simp
  ultimately have "(n + k - 1) div k = (?r + k - 1) div k + n div k" by (simp only: add.commute)
  moreover have "(?r + k - 1) div k = (if ?r > 0 then 1 else 0)"
  proof (cases "?r > 0")
    case True
    then have "(?r + k - 1) div k = 1" using r by (intro div_nat_eqI) auto
    with True show ?thesis by simp
  qed (use assms in simp)
  ultimately show ?thesis by simp
qed

text \<open>Everything a successful registration of a new sequence establishes.\<close>

lemma register_table:
  assumes inv: "kv_inv leak s" and run: "register_sequence_with_prefix sid tokens s = (Inr m, t)"
    and ev: "kv_evictions t = kv_evictions s" and new: "\<not> dict_has sid (kv_pages s)"
    and nz: "kc_prefix_caching (kv_cfg s) \<Longrightarrow> 0 \<notin> set (prompt_hashes s tokens)"
  shows "\<exists>table. kv_pages t = kv_pages s @ [(sid, table)] \<and>
    length table = max 1 ((length tokens + kv_bs s - 1) div kv_bs s) \<and>
    context_tokens t table = length tokens \<and>
    m \<le> length tokens \<and> kv_bs s dvd m \<and> (\<not> kc_prefix_caching (kv_cfg s) \<longrightarrow> m = 0) \<and>
    (kc_prefix_caching (kv_cfg s) \<longrightarrow> tree_extends s t \<and>
      (\<forall>i < length tokens div kv_bs s.
         kv_tree t (take (Suc i) (prompt_hashes s tokens)) = Some (table ! i)))"
proof -
  let ?bs = "kv_bs s" and ?pc = "kc_prefix_caching (kv_cfg s)"
  let ?full = "length tokens div ?bs" and ?tail = "length tokens mod ?bs"
  have bs: "0 < ?bs" using inv by (simp add: kv_inv_with_def shape_ok_def)
  obtain parent node table s1 where st: "match_stage tokens s = (parent, node, table, s1)"
    by (metis prod_cases4)
  note fr = match_stage_frame[OF st] and spec = match_stage_spec[OF st]
  note run' = run[unfolded register_stages[OF new bs st]]
  obtain table2 s2 where fl: "fill_blocks tokens [length table..<?full] parent node table s1 = (Inr table2, s2)"
    using run' by (auto simp: eff_simps)
  obtain table3 s3 where tl: "tail_stage ?tail table2 s2 = (Inr table3, s3)"
    and t: "t = s3\<lparr>kv_pages := AList.update sid table3 (kv_pages s3)\<rparr>" and m: "m = length table * ?bs"
    using run' fl by (auto simp: eff_simps)
  note frames = fill_frame[OF fl] tail_stage_frame[OF tl] fr
  have ev2: "kv_evictions s2 = kv_evictions s1" and ev3: "kv_evictions s3 = kv_evictions s2"
    using fill_evictions[OF fl] tail_stage_evictions[OF tl] ev fr by (auto simp: t)
  have inv1: "kv_inv_with table leak s1" and nd: "node = [] \<or> kv_tree s1 node \<noteq> None"
    using match_stage_inv[OF inv st] by auto
  have pre: "0 \<notin> set (hash_chain (kv_std_hash s1) (kv_bs s1) tokens [length table..<?full] parent) \<and>
      (node = [] \<or> kv_tree s1 node \<noteq> None) \<and>
      (\<forall>h. take 1 (hash_chain (kv_std_hash s1) (kv_bs s1) tokens [length table..<?full] parent) = [h] \<longrightarrow>
           kv_tree s1 (node @ [h]) = None)" if "kc_prefix_caching (kv_cfg s1)"
    using that nz nd spec(3,4) by (auto simp: fr dest: in_set_dropD)
  have fill: "kv_inv_with table2 leak s2"
    using fill_blocks_inv[OF fl ev2 inv1 pre] by simp
  obtain new where new2: "table2 = table @ new" "length new = length [length table..<?full]"
    "[length table..<?full] \<noteq> [] \<longrightarrow> pb_filled (block_at s2 (last table2)) = ?bs"
    "?pc \<longrightarrow> tree_extends s1 s2 \<and>
      (\<forall>i < length new. kv_tree s2 (node @ take (Suc i) (drop (length table) (prompt_hashes s tokens))) = Some (new ! i))"
    using fill_blocks_table[OF fl ev2 inv1 pre] unfolding fr spec(3) by blast
  have len2: "length table2 = ?full" using new2(1,2) spec(1) by simp
  have pages: "kv_pages t = kv_pages s @ [(sid, table3)]"
    using new update_fresh[of sid "kv_pages s" table3] by (simp add: t frames dict_simps)
  have L: "length tokens = ?full * ?bs + ?tail" by simp
  have ceil: "(length tokens + ?bs - 1) div ?bs = ?full + (if ?tail > 0 then 1 else 0)"
    by (rule ceil_div_eq[OF bs])
  have hits: "kv_tree s (take (Suc i) (prompt_hashes s tokens)) = Some (table ! i)"
    if "?pc" "i < length table" for i
    using st that match_prefix_table[of tokens "[0..<?full]" 0 "[]" "[]" s parent node table s1]
    by (auto simp: match_stage_def prompt_hashes_def)
  have nopc: "table = []" if "\<not> ?pc" using st that by (auto simp: match_stage_def)
  have tree: "tree_extends s t \<and>
      (\<forall>i < ?full. kv_tree t (take (Suc i) (prompt_hashes s tokens)) = Some (table2 ! i))" if ?pc
  proof -
    have ext: "tree_extends s t" using new2(4) that by (simp add: t tree_extends_def frames)
    moreover have "kv_tree t (take (Suc i) (prompt_hashes s tokens)) = Some (table2 ! i)" if i: "i < ?full" for i
    proof (cases "i < length table")
      case True
      with hits[OF \<open>?pc\<close> this] ext show ?thesis by (simp add: tree_extends_def new2(1) nth_append)
    next
      case False
      then obtain j where j: "i = length table + j" by (metis le_Suc_ex not_le)
      with i new2(2) have "j < length new" by simp
      then have "kv_tree s2 (take (length table) (prompt_hashes s tokens) @
          take (Suc j) (drop (length table) (prompt_hashes s tokens))) = Some (new ! j)"
        using new2(4) \<open>?pc\<close> spec(2) by simp
      moreover have "take (length table) (prompt_hashes s tokens) @
          take (Suc j) (drop (length table) (prompt_hashes s tokens)) =
          take (Suc i) (prompt_hashes s tokens)"
        by (simp only: j take_add[symmetric] add_Suc_right)
      ultimately show ?thesis by (simp add: t frames j new2(1) nth_append)
    qed
    ultimately show ?thesis by blast
  qed
  have m_ok: "m \<le> length tokens" "?bs dvd m" "\<not> ?pc \<longrightarrow> m = 0"
    using spec(1) nopc by (auto simp: m intro: order_trans[OF mult_le_mono1[OF spec(1)]])
  show ?thesis
  proof (cases "?tail > 0 \<or> table2 = []")
    case True
    obtain c s' where al: "allocate_physical_block s2 = (Inr c, s')" "table3 = table2 @ [c]"
      "s3 = upd_block c (\<lambda>p. p\<lparr>pb_filled := ?tail\<rparr>) s'"
      using tl True by (auto simp: tail_stage_def eff_simps)
    then obtain fs where "kv_free s2 = c # fs" "s' = take_block c fs s2"
      using ev3 by (auto elim: allocate_cases)
    then have "c < length (kv_blocks s')"
      using fill by (auto simp: kv_inv_with_def free_ok_def shape_ok_def take_block_def)
    then have "context_tokens t table3 = length tokens"
      using len2 L allocate_frame[OF al(1)] by (simp add: context_tokens_def t al upd_block_at frames)
    moreover have "length table3 = max 1 ((length tokens + ?bs - 1) div ?bs)"
      unfolding ceil using True len2 al(2) by auto
    moreover have "table3 ! i = table2 ! i" if "i < ?full" for i
      using that len2 al(2) by (simp add: nth_append)
    ultimately show ?thesis using pages m_ok tree by (intro exI[of _ table3]) simp
  next
    case False
    then have eq: "table3 = table2" "s3 = s2" using tl by (auto simp: tail_stage_def)
    have "pb_filled (block_at s2 (last table2)) = ?bs"
    proof (cases "[length table..<?full] = []")
      case True
      with new2(1,2) False have "table2 = table" "table \<noteq> []" by auto
      moreover from this nopc have ?pc by blast
      ultimately have "last table2 \<in> ran (kv_tree s2)"
        using hits[of "length table - 1"] new2(4) by (auto simp: ran_def last_conv_nth tree_extends_def fr)
      with \<open>?pc\<close> tree_block_full[OF fill] show ?thesis by (simp add: frames)
    qed (use new2(3) in simp)
    moreover have "length tokens = (?full - 1) * ?bs + ?bs"
      using False len2 L by (cases ?full) auto
    ultimately have "context_tokens t table3 = length tokens"
      using len2 by (simp add: context_tokens_def t eq frames)
    moreover have "length table3 = max 1 ((length tokens + ?bs - 1) div ?bs)"
      unfolding ceil using False len2 eq by (cases ?full) auto
    ultimately show ?thesis using pages m_ok tree eq by (intro exI[of _ table3]) simp
  qed
qed

end
