(* ===== verification/Kv_Properties.thy ===== *)
theory Kv_Properties
  imports Kv_Register
begin

text \<open>
  The contract of the paged KV cache over whole runs of its three Python-visible operations,
  its statistics and block addresses, and the two situations in which the contract fails.
\<close>

section \<open>Runs\<close>

datatype kv_op = Register nat "int list" | Append nat nat | Unregister nat

fun kv_step :: "kv_op \<Rightarrow> kv_cache \<Rightarrow> kv_cache" where
  "kv_step (Register sid tokens) s = snd (register_sequence_with_prefix sid tokens s)"
| "kv_step (Append sid n) s = snd (append_tokens sid n s)"
| "kv_step (Unregister sid) s = unregister_sequence sid s"

definition kv_run :: "kv_op list \<Rightarrow> kv_cache \<Rightarrow> kv_cache" where
  "kv_run ops s = fold kv_step ops s"

text \<open>The code uses hash 0 for "not a prefix block"; the hash chains must avoid it.\<close>

fun op_hashes_ok :: "kv_cache \<Rightarrow> kv_op \<Rightarrow> bool" where
  "op_hashes_ok s (Register sid tokens) \<longleftrightarrow>
     (kc_prefix_caching (kv_cfg s) \<longrightarrow> 0 \<notin> set (prompt_hashes s tokens))"
| "op_hashes_ok s _ \<longleftrightarrow> True"

lemma register_frame:
  assumes "0 < kv_bs s" and run: "register_sequence_with_prefix sid tokens s = (r, t)"
  shows "kv_cfg t = kv_cfg s" "kv_std_hash t = kv_std_hash s" "kv_evictions s \<le> kv_evictions t"
proof -
  have "kv_cfg t = kv_cfg s \<and> kv_std_hash t = kv_std_hash s \<and> kv_evictions s \<le> kv_evictions t"
  proof (cases "dict_has sid (kv_pages s)")
    case True
    with run show ?thesis by (auto simp: register_sequence_with_prefix_def)
  next
    case new: False
    obtain parent node table s1 where st: "match_stage tokens s = (parent, node, table, s1)"
      by (metis prod_cases4)
    obtain r2 s2 where fl: "fill_blocks tokens [length table..<length tokens div kv_bs s] parent node table s1 = (r2, s2)"
      by fastforce
    note run' = run[unfolded register_stages[OF new assms(1) st] fl]
    note base = match_stage_frame[OF st] fill_frame[OF fl] fill_evictions[OF fl]
    show ?thesis
    proof (cases r2)
      case (Inl e)
      with run' base show ?thesis by simp
    next
      case (Inr table2)
      obtain r3 s3 where tl: "tail_stage (length tokens mod kv_bs s) table2 s2 = (r3, s3)" by fastforce
      with run' Inr have "kv_cfg t = kv_cfg s3 \<and> kv_std_hash t = kv_std_hash s3 \<and> kv_evictions t = kv_evictions s3"
        by (cases r3) auto
      with base tail_stage_frame[OF tl] tail_stage_evictions[OF tl] show ?thesis by simp
    qed
  qed
  then show "kv_cfg t = kv_cfg s" "kv_std_hash t = kv_std_hash s" "kv_evictions s \<le> kv_evictions t"
    by simp_all
qed

lemma append_blocks_frame:
  "append_blocks sid n remaining s = (r, t) \<Longrightarrow> kv_cfg t = kv_cfg s \<and> kv_std_hash t = kv_std_hash s"
  by (rule append_blocks_rule[rotated 3, where P = "\<lambda>u. kv_cfg u = kv_cfg s \<and> kv_std_hash u = kv_std_hash s"])
    (auto simp: allocate_frame)

lemma append_frame:
  assumes "append_tokens sid n s = (r, t)"
  shows "kv_cfg t = kv_cfg s" "kv_std_hash t = kv_std_hash s" "kv_evictions s \<le> kv_evictions t"
  using assms append_blocks_frame append_evictions
  by (fastforce simp: append_tokens_def Let_def split: option.splits if_splits)+

lemma free_std_hash [simp]: "kv_std_hash (free_physical_block b s) = kv_std_hash s"
  by (simp add: free_physical_block_def Let_def)

lemma unregister_std_hash [simp]: "kv_std_hash (unregister_sequence sid s) = kv_std_hash s"
proof -
  have "kv_std_hash (fold free_physical_block table s) = kv_std_hash s" for table
    by (induction table arbitrary: s) simp_all
  then show ?thesis by (auto simp: unregister_sequence_def split: option.splits)
qed

lemma step_frame:
  assumes "0 < kv_bs s"
  shows "kv_cfg (kv_step op s) = kv_cfg s" "kv_std_hash (kv_step op s) = kv_std_hash s"
    "kv_evictions s \<le> kv_evictions (kv_step op s)"
  using assms
  by (cases op; cases "register_sequence_with_prefix (case op of Register a _ \<Rightarrow> a) (case op of Register _ b \<Rightarrow> b) s";
      cases "append_tokens (case op of Append a _ \<Rightarrow> a) (case op of Append _ b \<Rightarrow> b) s";
      auto dest: register_frame append_frame)+

lemma run_frame:
  assumes "0 < kv_bs s"
  shows "kv_cfg (kv_run ops s) = kv_cfg s \<and> kv_std_hash (kv_run ops s) = kv_std_hash s \<and>
    kv_evictions s \<le> kv_evictions (kv_run ops s)"
  using assms
proof (induction ops arbitrary: s)
  case (Cons op ops)
  have "0 < kv_bs (kv_step op s)" using step_frame[OF Cons.prems] Cons.prems by simp
  from Cons.IH[OF this] step_frame[OF Cons.prems, of op] show ?case by (simp add: kv_run_def)
qed (simp add: kv_run_def)

lemma step_inv:
  assumes inv: "kv_inv leak s" and ev: "kv_evictions (kv_step op s) = kv_evictions s"
    and ok: "op_hashes_ok s op"
  shows "kv_inv_leaked leak (kv_step op s)"
proof (cases op)
  case (Register sid tokens)
  obtain r t where run: "register_sequence_with_prefix sid tokens s = (r, t)" by fastforce
  with register_inv[OF inv run] ev ok Register show ?thesis
    by (cases r) (auto dest: inv_leaked)
next
  case (Append sid n)
  obtain r t where run: "append_tokens sid n s = (r, t)" by fastforce
  with append_inv[OF inv run] ev Append show ?thesis by (auto dest: inv_leaked)
next
  case (Unregister sid)
  with unregister_inv[OF inv] show ?thesis by (auto dest: inv_leaked)
qed

lemma hashes_ok_frame: "kv_cfg t = kv_cfg s \<Longrightarrow> kv_std_hash t = kv_std_hash s \<Longrightarrow>
    op_hashes_ok t op = op_hashes_ok s op"
  by (cases op) (simp_all add: prompt_hashes_def)

lemma run_inv:
  assumes "kv_inv leak s" "kv_evictions (kv_run ops s) = kv_evictions s"
    and "\<forall>op \<in> set ops. op_hashes_ok s op"
  shows "kv_inv_leaked leak (kv_run ops s)"
  using assms
proof (induction ops arbitrary: s leak)
  case Nil
  then show ?case by (auto simp: kv_run_def dest: inv_leaked)
next
  case (Cons op ops)
  have bs: "0 < kv_bs s" using Cons.prems(1) by (simp add: kv_inv_with_def shape_ok_def)
  note fr = step_frame[OF bs, of op]
  have rest: "kv_evictions (kv_step op s) \<le> kv_evictions (kv_run ops (kv_step op s))"
    using run_frame[of "kv_step op s" ops] bs fr by simp
  with fr Cons.prems(2) have ev: "kv_evictions (kv_step op s) = kv_evictions s"
    "kv_evictions (kv_run ops (kv_step op s)) = kv_evictions (kv_step op s)"
    by (simp_all add: kv_run_def)
  from step_inv[OF Cons.prems(1) ev(1)] Cons.prems(3)
  obtain leak1 where leak1: "\<forall>b. leak b \<le> leak1 b" "kv_inv leak1 (kv_step op s)"
    by (auto simp: kv_inv_leaked_def)
  have "\<forall>op' \<in> set ops. op_hashes_ok (kv_step op s) op'"
    using Cons.prems(3) hashes_ok_frame[OF fr(1,2)] by simp
  from Cons.IH[OF leak1(2) ev(2) this] leak1(1) show ?case
    by (auto simp: kv_run_def kv_inv_leaked_def intro: le_trans)
qed

section \<open>Without prefix caching nothing is ever evicted\<close>

definition lru_empty :: "kv_cache \<Rightarrow> bool" where
  "lru_empty s \<longleftrightarrow> kv_lru s = [] \<and> \<not> kc_prefix_caching (kv_cfg s)"

lemma allocate_lru_empty:
  assumes "lru_empty s" "allocate_physical_block s = (r, t)"
  shows "lru_empty t \<and> kv_evictions t = kv_evictions s"
  using assms
  by (auto simp: lru_empty_def allocate_physical_block_def evict_lru_block_def
      split: if_splits list.splits)

lemma fill_lru_empty:
  assumes "lru_empty s" and run: "fill_blocks tokens bs parent node table s = (r, t)"
  shows "lru_empty t \<and> kv_evictions t = kv_evictions s"
proof (rule fill_blocks_rule[where P = "\<lambda>u. lru_empty u \<and> kv_evictions u = kv_evictions s", OF _ _ _ run])
  show "lru_empty v \<and> kv_evictions v = kv_evictions s"
    if "lru_empty u \<and> kv_evictions u = kv_evictions s" "allocate_physical_block u = (r', v)" for u r' v
    using allocate_lru_empty[OF _ that(2)] that(1) by simp
qed (use assms(1) in \<open>simp_all add: lru_empty_def install_block_def\<close>)

lemma append_lru_empty:
  assumes "lru_empty s" and run: "append_blocks sid n remaining s = (r, t)"
  shows "lru_empty t \<and> kv_evictions t = kv_evictions s"
proof (rule append_blocks_rule[where P = "\<lambda>u. lru_empty u \<and> kv_evictions u = kv_evictions s", OF _ _ _ run])
  show "lru_empty v \<and> kv_evictions v = kv_evictions s"
    if "lru_empty u \<and> kv_evictions u = kv_evictions s" "allocate_physical_block u = (r', v)" for u r' v
    using allocate_lru_empty[OF _ that(2)] that(1) by simp
qed (use assms(1) in \<open>simp_all add: lru_empty_def\<close>)

lemma register_lru_empty:
  assumes "lru_empty s" "0 < kv_bs s"
  shows "lru_empty (snd (register_sequence_with_prefix sid tokens s)) \<and>
    kv_evictions (snd (register_sequence_with_prefix sid tokens s)) = kv_evictions s"
proof (cases "dict_has sid (kv_pages s)")
  case True
  with assms(1) show ?thesis by (simp add: register_sequence_with_prefix_def)
next
  case False
  have st: "match_stage tokens s = (0, [], [], s)"
    using assms(1) by (simp add: match_stage_def lru_empty_def)
  obtain r2 s2 where fl: "fill_blocks tokens [length ([]::nat list)..<length tokens div kv_bs s] 0 [] [] s = (r2, s2)"
    by fastforce
  note two = fill_lru_empty[OF assms(1) fl]
  note run = register_stages[OF False assms(2) st] fl
  show ?thesis
  proof (cases r2)
    case (Inl e)
    with two show ?thesis unfolding run by simp
  next
    case (Inr table)
    obtain r3 s3 where al: "allocate_physical_block s2 = (r3, s3)" by fastforce
    with two allocate_lru_empty[OF _ al] have "lru_empty s3" "kv_evictions s3 = kv_evictions s" by auto
    with two Inr al show ?thesis unfolding run
      by (cases r3) (auto simp: tail_stage_def lru_empty_def)
  qed
qed

lemma append_tokens_lru_empty:
  assumes "lru_empty s"
  shows "lru_empty (snd (append_tokens sid n s)) \<and> kv_evictions (snd (append_tokens sid n s)) = kv_evictions s"
proof -
  have upd: "lru_empty (upd_block b f s)" for b f using assms by (simp add: lru_empty_def)
  have "lru_empty t \<and> kv_evictions t = kv_evictions s"
    if "append_blocks sid k m (upd_block b f s) = (r, t)" for k m b f r t
    using append_lru_empty[OF upd that] by simp
  from this[OF prod.collapse[symmetric]] assms upd show ?thesis
    by (auto simp: append_tokens_def Let_def split: option.splits)
qed

lemma free_lru_empty: "lru_empty s \<Longrightarrow>
    lru_empty (free_physical_block b s) \<and> kv_evictions (free_physical_block b s) = kv_evictions s"
  by (simp add: free_physical_block_def lru_empty_def Let_def)

lemma fold_free_lru_empty: "lru_empty s \<Longrightarrow>
    lru_empty (fold free_physical_block bs s) \<and> kv_evictions (fold free_physical_block bs s) = kv_evictions s"
  by (induction bs arbitrary: s) (simp_all add: free_lru_empty)

lemma unregister_lru_empty:
  "lru_empty s \<Longrightarrow> lru_empty (unregister_sequence sid s) \<and>
    kv_evictions (unregister_sequence sid s) = kv_evictions s"
  using fold_free_lru_empty[of s]
  by (auto simp: unregister_sequence_def lru_empty_def Let_def split: option.splits)

lemma run_lru_empty:
  assumes "lru_empty s" "0 < kv_bs s"
  shows "lru_empty (kv_run ops s) \<and> kv_evictions (kv_run ops s) = kv_evictions s"
  using assms
proof (induction ops arbitrary: s)
  case (Cons op ops)
  have "lru_empty (kv_step op s) \<and> kv_evictions (kv_step op s) = kv_evictions s"
    using Cons.prems by (cases op) (simp_all add: register_lru_empty append_tokens_lru_empty unregister_lru_empty)
  moreover have "0 < kv_bs (kv_step op s)" using step_frame[OF Cons.prems(2)] Cons.prems(2) by simp
  ultimately show ?case using Cons.IH by (simp add: kv_run_def)
qed (simp add: kv_run_def)

section \<open>Consequences of the invariant\<close>

lemma owned_count: "map_of (kv_pages s) sid = Some table \<Longrightarrow> count_list table b \<le> owned [] s b"
  using dict_sum_ge[of "kv_pages s" sid table "\<lambda>t. count_list t b"] by (simp add: owned_def)

lemma owned_pos: "map_of (kv_pages s) sid = Some table \<Longrightarrow> b \<in> set table \<Longrightarrow> 0 < owned [] s b"
  using owned_count[of s sid table b] by (simp add: count_list_pos)

lemma inv_table_block:
  assumes "kv_inv leak s" "map_of (kv_pages s) sid = Some table" "b \<in> set table"
  shows "b < kv_total s" "0 < pb_ref (block_at s b)" "b \<notin> set (kv_free s)" "b \<notin> set (kv_lru s)"
proof -
  note own = owned_pos[OF assms(2,3)]
  show lt: "b < kv_total s" using assms(1) own by (rule inv_owned_lt)
  show pos: "0 < pb_ref (block_at s b)" using inv_refs[OF assms(1) lt] own by simp
  show "b \<notin> set (kv_free s)" "b \<notin> set (kv_lru s)"
    using assms(1) pos by (auto simp: kv_inv_with_def free_ok_def lru_ok_def)
qed

lemma inv_private:
  assumes inv: "kv_inv leak s" and b: "b < kv_total s" "\<not> kc_prefix_caching (kv_cfg s) \<or> b \<notin> ran (kv_tree s)"
  shows "owned [] s b \<le> 1"
proof -
  have "pb_ref (block_at s b) \<le> 1" using inv b by (auto simp: kv_inv_with_def private_ok_def)
  with inv_refs[OF inv b(1)] show ?thesis by simp
qed

lemma inv_two_owners:
  assumes inv: "kv_inv leak s" and sid: "map_of (kv_pages s) i = Some t" "map_of (kv_pages s) j = Some u"
    and "i \<noteq> j" "b \<in> set t" "b \<in> set u"
  shows "kc_prefix_caching (kv_cfg s) \<and> b \<in> ran (kv_tree s)"
proof (rule ccontr)
  assume "\<not> ?thesis"
  moreover note lt = inv_table_block(1)[OF inv sid(1) assms(5)]
  ultimately have "owned [] s b \<le> 1" using inv_private[OF inv lt] by blast
  with dict_sum_two[OF sid assms(4), of "\<lambda>t. count_list t b"] assms(5,6) show False
    by (simp add: owned_def count_list_pos)
qed

lemma inv_distinct_table:
  assumes inv: "kv_inv leak s" and pc: "\<not> kc_prefix_caching (kv_cfg s)"
    and sid: "map_of (kv_pages s) i = Some t"
  shows "distinct t"
proof (rule distinct_count_list)
  fix b assume "b \<in> set t"
  from inv_private[OF inv inv_table_block(1)[OF inv sid this]] pc owned_count[OF sid, of b]
  show "count_list t b \<le> 1" by simp
qed

text \<open>The free and the cached blocks are exactly the unreferenced ones.\<close>

lemma inv_allocated:
  assumes inv: "kv_inv leak s"
  shows "kv_total s - length (kv_free s) - length (kv_lru s) = card {b. b < kv_total s \<and> 0 < pb_ref (block_at s b)}"
    and "length (kv_free s) + length (kv_lru s) \<le> kv_total s"
proof -
  let ?A = "{b. b < kv_total s \<and> 0 < pb_ref (block_at s b)}"
  have "set (kv_free s) \<union> set (kv_lru s) = {..<kv_total s} - ?A"
    using inv by (auto simp: kv_inv_with_def free_ok_def lru_ok_def no_lost_def)
  then have "card (set (kv_free s) \<union> set (kv_lru s)) = kv_total s - card ?A"
    by (simp add: card_Diff_subset subset_eq)
  moreover have "card (set (kv_free s) \<union> set (kv_lru s)) = length (kv_free s) + length (kv_lru s)"
    using inv by (subst card_Un_disjoint) (auto simp: kv_inv_with_def free_ok_def lru_ok_def distinct_card)
  moreover have "card ?A \<le> kv_total s"
    using card_mono[of "{..<kv_total s}" ?A] by (simp add: subset_eq)
  ultimately show "kv_total s - length (kv_free s) - length (kv_lru s) = card ?A"
    "length (kv_free s) + length (kv_lru s) \<le> kv_total s" by simp_all
qed

end
