(* ===== verification/Kv_Contract.thy ===== *)
theory Kv_Contract
  imports Kv_Properties
begin

text \<open>
  The contract of the paged KV cache, stated over its configuration and its operations only,
  and the two situations in which the code does not keep it.
\<close>

section \<open>A small cache for concrete runs\<close>

definition demo_config :: "nat \<Rightarrow> nat \<Rightarrow> bool \<Rightarrow> kv_config" where
  "demo_config bs blocks prefix =
     \<lparr>kc_num_layers = 2, kc_num_kv_heads = 2, kc_head_dim = 4, kc_block_size = bs,
      kc_element_size = 2, kc_total_blocks = blocks, kc_prefix_caching = prefix,
      kc_max_batch = 4, kc_max_blocks_seq = 8\<rparr>"

definition demo_cache :: "nat \<Rightarrow> nat \<Rightarrow> bool \<Rightarrow> kv_cache" where
  "demo_cache bs blocks prefix = kv_init (demo_config bs blocks prefix) word_of_int 0 0"

lemma demo_sel [simp]:
  "kv_cfg (demo_cache bs blocks prefix) = demo_config bs blocks prefix"
  "kc_block_size (demo_config bs blocks prefix) = bs"
  "kc_prefix_caching (demo_config bs blocks prefix) = prefix"
  "kc_total_blocks (demo_config bs blocks prefix) = blocks"
  "kv_evictions (demo_cache bs blocks prefix) = 0"
  by (simp_all add: demo_cache_def demo_config_def kv_init_def)

lemma init_sel [simp]:
  "kv_cfg (kv_init c h kp vp) = c" "kv_evictions (kv_init c h kp vp) = 0"
  "kv_std_hash (kv_init c h kp vp) = h"
  by (simp_all add: kv_init_def)

text \<open>The states that runs without evictions reach satisfy the invariant.\<close>

lemma run_init_inv:
  assumes "0 < kc_block_size c" "kv_evictions (kv_run ops (kv_init c h kp vp)) = 0"
    and "\<forall>op \<in> set ops. op_hashes_ok (kv_init c h kp vp) op"
  shows "\<exists>leak. kv_inv leak (kv_run ops (kv_init c h kp vp))"
  using run_inv[OF kv_inv_init[OF assms(1)], of ops h kp vp] assms(2,3)
  by (auto simp: kv_inv_leaked_def)

section \<open>Isolation and accounting over runs\<close>

text \<open>
  C1: With prefix caching disabled, no run of registrations, appends and releases ever evicts a
  block, and two different sequences never share a physical block, nor does one table hold a
  block twice, whichever operations failed on the way.
\<close>

theorem kv_isolation:
  assumes "0 < kc_block_size c" and "\<not> kc_prefix_caching c"
  shows "let s = kv_run ops (kv_init c h kp vp) in
    kv_evictions s = 0 \<and>
    (\<forall>i t. map_of (kv_pages s) i = Some t \<longrightarrow> distinct t \<and> set t \<subseteq> {..<kc_total_blocks c} \<and>
      (\<forall>j u. map_of (kv_pages s) j = Some u \<longrightarrow> j \<noteq> i \<longrightarrow> set t \<inter> set u = {}))"
proof -
  let ?s = "kv_run ops (kv_init c h kp vp)"
  have "lru_empty (kv_init c h kp vp)" using assms(2) by (simp add: lru_empty_def kv_init_def)
  from run_lru_empty[OF this] assms(1) have ev: "kv_evictions ?s = 0" by simp
  have cfg: "kv_cfg ?s = c" using run_frame[of "kv_init c h kp vp" ops] assms(1) by simp
  have "\<forall>op \<in> set ops. op_hashes_ok (kv_init c h kp vp) op"
  proof
    fix op show "op_hashes_ok (kv_init c h kp vp) op" using assms(2) by (cases op) simp_all
  qed
  then obtain leak where inv: "kv_inv leak ?s" using run_init_inv[OF assms(1) ev] by blast
  show ?thesis unfolding Let_def
  proof (intro conjI allI impI)
    fix i t assume t: "map_of (kv_pages ?s) i = Some t"
    show "distinct t" using inv_distinct_table[OF inv _ t] assms(2) cfg by simp
    show "set t \<subseteq> {..<kc_total_blocks c}" using inv_table_block(1)[OF inv t] cfg by auto
    fix j u assume u: "map_of (kv_pages ?s) j = Some u" and "j \<noteq> i"
    then show "set t \<inter> set u = {}" using inv_two_owners[OF inv t u] assms(2) cfg by auto
  qed (rule ev)
qed

theorem kv_isolation_witness:
  "distinct (the (map_of (kv_pages (kv_run [Register 2 [7, 8, 9], Register 3 [7, 8], Append 2 3, Unregister 3]
     (demo_cache 2 6 False))) 2))"
proof -
  let ?ops = "[Register 2 [7, 8, 9], Register 3 [7, 8], Append 2 3, Unregister 3]"
  have page: "map_of (kv_pages (kv_run ?ops (demo_cache 2 6 False))) 2 = Some [0, 1, 3]" by code_simp
  have "0 < kc_block_size (demo_config 2 6 False)" "\<not> kc_prefix_caching (demo_config 2 6 False)" by simp_all
  from kv_isolation[OF this, of ?ops word_of_int 0 0, folded demo_cache_def] page
  have "distinct [0, 1, 3 :: nat]" unfolding Let_def by blast
  with page show ?thesis by (simp only: option.sel)
qed

text \<open>
  C11: In a run without evictions (and whose prompt hashes avoid the reserved value 0) a block
  that two tables hold is a full block of the prefix tree; a block in a table is neither on the
  free stack nor on the LRU list, and its reference count covers all its occurrences in tables.
\<close>

theorem kv_accounting:
  assumes "0 < kc_block_size c" and "kv_evictions (kv_run ops (kv_init c h kp vp)) = 0"
    and "\<forall>op \<in> set ops. op_hashes_ok (kv_init c h kp vp) op"
  shows "let s = kv_run ops (kv_init c h kp vp) in
    \<forall>i t. map_of (kv_pages s) i = Some t \<longrightarrow> (\<forall>b \<in> set t.
      b \<notin> set (kv_free s) \<and> b \<notin> set (kv_lru s) \<and>
      dict_sum (\<lambda>u. count_list u b) (kv_pages s) \<le> pb_ref (block_at s b) \<and>
      (\<forall>j u. map_of (kv_pages s) j = Some u \<longrightarrow> j \<noteq> i \<longrightarrow> b \<in> set u \<longrightarrow>
        b \<in> ran (kv_tree s) \<and> pb_filled (block_at s b) = kc_block_size c))"
proof -
  let ?s = "kv_run ops (kv_init c h kp vp)"
  obtain leak where inv: "kv_inv leak ?s" using run_init_inv[OF assms] by blast
  have cfg: "kv_cfg ?s = c" using run_frame[of "kv_init c h kp vp" ops] assms(1) by simp
  show ?thesis unfolding Let_def
  proof (intro allI impI ballI conjI)
    fix i t b assume t: "map_of (kv_pages ?s) i = Some t" and b: "b \<in> set t"
    note blk = inv_table_block[OF inv t b]
    show "b \<notin> set (kv_free ?s)" "b \<notin> set (kv_lru ?s)" by (fact blk)+
    show "dict_sum (\<lambda>u. count_list u b) (kv_pages ?s) \<le> pb_ref (block_at ?s b)"
      using inv_refs[OF inv blk(1)] by (simp add: owned_def)
    fix j u assume "map_of (kv_pages ?s) j = Some u" "j \<noteq> i" "b \<in> set u"
    then have tree: "kc_prefix_caching c \<and> b \<in> ran (kv_tree ?s)"
      using inv_two_owners[OF inv t, of j u b] b cfg by auto
    then show "b \<in> ran (kv_tree ?s)" by simp
    from tree show "pb_filled (block_at ?s b) = kc_block_size c"
      using inv cfg by (auto simp: kv_inv_with_def tree_ok_def ran_def)
  qed
qed

theorem kv_accounting_witness:
  "2 \<le> pb_ref (block_at (kv_run [Register 2 [7, 8], Register 3 [7, 8, 9]] (demo_cache 2 4 True)) 0)"
proof -
  let ?ops = "[Register 2 [7, 8], Register 3 [7, 8, 9]]"
  let ?s = "kv_run ?ops (demo_cache 2 4 True)"
  have ev: "kv_evictions ?s = 0" and ok: "list_all (op_hashes_ok (demo_cache 2 4 True)) ?ops"
    and page: "map_of (kv_pages ?s) 2 = Some [0]"
    and sum: "dict_sum (\<lambda>u. count_list u 0) (kv_pages ?s) = 2" by code_simp+
  have "0 < kc_block_size (demo_config 2 4 True)" by simp
  from kv_accounting[OF this, of ?ops word_of_int 0 0, folded demo_cache_def, OF ev ok[unfolded list_all_iff]] page
  have "\<forall>b \<in> set [0 :: nat]. dict_sum (\<lambda>u. count_list u b) (kv_pages ?s) \<le> pb_ref (block_at ?s b)"
    unfolding Let_def by blast
  with sum show ?thesis by (simp only: list.set ball_simps(7,5))
qed

section \<open>Registration, appending and release\<close>

text \<open>
  C7: In a state that satisfies the invariant of the cache (the states that runs without evictions
  reach; after an eviction the prefix tree may be stale), a registration of a new sequence that
  returns without an eviction, of a prompt none of whose block hashes is the reserved value 0 when
  prefix caching is on, keeps the invariant and appends one entry for the sequence to the page
  table. The table has as many blocks as the prompt needs (one for an empty prompt), the context
  length, also as the code computes it in 32 bits, is the prompt length, and the returned count of
  cached tokens is a multiple of the block size, at most the prompt length, and 0 when prefix
  caching is off.
\<close>

theorem kv_register_context:
  assumes "kv_inv leak s" and "register_sequence_with_prefix sid tokens s = (Inr m, t)"
    and "kv_evictions t = kv_evictions s" and "\<not> dict_has sid (kv_pages s)"
    and "kc_prefix_caching (kv_cfg s) \<Longrightarrow> 0 \<notin> set (prompt_hashes s tokens)"
  shows "kv_inv leak t \<and> m \<le> length tokens \<and> kv_bs s dvd m \<and>
    (\<not> kc_prefix_caching (kv_cfg s) \<longrightarrow> m = 0) \<and>
    (\<exists>table. kv_pages t = kv_pages s @ [(sid, table)] \<and>
      length table = max 1 ((length tokens + kv_bs s - 1) div kv_bs s) \<and>
      context_tokens t table = length tokens \<and> context_len t table = word_of_nat (length tokens))"
  using register_table[OF assms] register_inv[OF assms(1,2,3)] assms(5) by (auto simp: context_len_word)

lemma demo_inv: "0 < bs \<Longrightarrow> kv_inv (\<lambda>_. 0) (demo_cache bs blocks prefix)"
  unfolding demo_cache_def by (rule kv_inv_init) simp

theorem kv_register_context_witness:
  "\<exists>table. kv_pages (snd (register_sequence_with_prefix 2 [7, 8, 9] (demo_cache 2 4 True))) = [(2, table)] \<and>
    length table = 2"
proof -
  let ?t = "snd (register_sequence_with_prefix 2 [7, 8, 9] (demo_cache 2 4 True))"
  have run: "register_sequence_with_prefix 2 [7, 8, 9] (demo_cache 2 4 True) = (Inr 0, ?t)"
    by (rule prod_eqI) (code_simp, simp)
  have pages: "kv_pages (demo_cache 2 4 True) = []" by code_simp
  have ev: "kv_evictions ?t = kv_evictions (demo_cache 2 4 True)"
    and nz: "0 \<notin> set (prompt_hashes (demo_cache 2 4 True) [7, 8, 9])" by code_simp+
  from kv_register_context[OF demo_inv run ev _ nz] show ?thesis
    by (auto simp: pages dict_has_def)
qed

text \<open>
  Appending n tokens to a registered sequence without an eviction keeps its blocks, adds
  new ones at the end only, and grows its context length by exactly n; the tables of other
  sequences keep the invariant.
\<close>

theorem kv_append_context:
  assumes "kv_inv leak s" and "append_tokens sid n s = (Inr (), t)"
    and "kv_evictions t = kv_evictions s" and "map_of (kv_pages s) sid = Some table"
  shows "kv_inv leak t \<and> (\<exists>new. map_of (kv_pages t) sid = Some (table @ new) \<and>
    context_tokens t (table @ new) = context_tokens s table + n)"
  using append_context[OF assms] append_inv[OF assms(1,2,3)] by simp

theorem kv_append_context_witness:
  "\<exists>new. map_of (kv_pages (snd (append_tokens 2 3 (kv_run [Register 2 [7, 8, 9]] (demo_cache 2 4 False))))) 2 =
    Some ([0, 1] @ new)"
proof -
  let ?s = "kv_run [Register 2 [7, 8, 9]] (demo_cache 2 4 False)"
  let ?t = "snd (append_tokens 2 3 ?s)"
  have run: "append_tokens 2 3 ?s = (Inr (), ?t)" by (rule prod_eqI) (code_simp, simp)
  have page: "map_of (kv_pages ?s) 2 = Some [0, 1]" and ev: "kv_evictions ?t = kv_evictions ?s"
    and ev0: "kv_evictions ?s = 0" by code_simp+
  have "\<forall>op \<in> set [Register 2 [7, 8, 9]]. op_hashes_ok (demo_cache 2 4 False) op" by simp
  with run_init_inv[of "demo_config 2 4 False" "[Register 2 [7, 8, 9]]" word_of_int 0 0, folded demo_cache_def]
    ev0 obtain leak where "kv_inv leak ?s" by auto
  from kv_append_context[OF this run ev page] show ?thesis by blast
qed

text \<open>
  The block count that the statistics call allocated is the number of blocks with a
  reference. When no references have leaked, these are exactly the blocks in the tables, so
  releasing the last sequence leaves no block allocated.
\<close>

theorem kv_allocated_blocks:
  assumes "kv_inv (\<lambda>_. 0) s" and "kv_total s < 2 ^ 64"
  shows "unat (st_allocated_blocks (kv_get_stats (unregister_sequence sid s))) =
    card (\<Union>p \<in> set (AList.delete sid (kv_pages s)). set (snd p))"
proof -
  let ?t = "unregister_sequence sid s"
  have inv: "kv_inv (\<lambda>_. 0) ?t" by (rule unregister_inv[OF assms(1)])
  have pages: "kv_pages ?t = AList.delete sid (kv_pages s)"
    using delete_absent[of sid "kv_pages s"] by (simp add: unregister_pages)
  have "0 < pb_ref (block_at ?t b) \<longleftrightarrow> (\<exists>p \<in> set (kv_pages ?t). b \<in> set (snd p))"
    if "b < kv_total ?t" for b
    using inv_refs[OF inv that] dict_sum_pos[of b "kv_pages ?t"] by (simp add: owned_def)
  moreover have "b < kv_total ?t" if "p \<in> set (kv_pages ?t)" "b \<in> set (snd p)" for p b
    using inv_owned_lt[OF inv, of b] dict_sum_pos[of b "kv_pages ?t"] that by (auto simp: owned_def)
  ultimately have "{b. b < kv_total ?t \<and> 0 < pb_ref (block_at ?t b)} = (\<Union>p \<in> set (kv_pages ?t). set (snd p))"
    by blast
  then have "kv_total ?t - length (kv_free ?t) - length (kv_lru ?t) = card (\<Union>p \<in> set (AList.delete sid (kv_pages s)). set (snd p))"
    using inv_allocated(1)[OF inv] pages by simp
  moreover have "unat (word_of_nat n - word_of_nat a - word_of_nat b :: 64 word) = n - a - b"
    if "a + b \<le> n" "n < 2 ^ 64" for n a b :: nat
  proof -
    have "(word_of_nat n - word_of_nat a - word_of_nat b :: 64 word) = word_of_nat (n - a - b)" using that(1) by (simp add: of_nat_diff)
    then show ?thesis using that(2) by (simp add: unat_small del: of_nat_diff)
  qed
  from this[OF inv_allocated(2)[OF inv]] have
    "unat (st_allocated_blocks (kv_get_stats ?t)) = kv_total ?t - length (kv_free ?t) - length (kv_lru ?t)"
    using assms(2) unfolding kv_get_stats_def Let_def by simp
  ultimately show ?thesis by simp
qed

theorem kv_allocated_blocks_witness:
  "unat (st_allocated_blocks (kv_get_stats (unregister_sequence 2 (demo_cache 2 4 True)))) = 0"
proof -
  have "kv_pages (demo_cache 2 4 True) = []" by code_simp
  with kv_allocated_blocks[OF demo_inv, of 2 4 True 2] show ?thesis by simp
qed

text \<open>
  The key (and value) cache regions of two different block and layer pairs are disjoint
  byte ranges, as long as the size of the pool does not wrap.
\<close>

theorem kv_regions_disjoint:
  assumes "pool_extent (kv_cfg s) < 2 ^ 64" and "a < kv_total s" "b < kv_total s"
    and "l < kc_num_layers (kv_cfg s)" "m < kc_num_layers (kv_cfg s)" and "(a, l) \<noteq> (b, m)"
  shows "let w = unat (layer_block_bytes (kv_cfg s)) in
    {get_key_block_ptr a l s..<get_key_block_ptr a l s + w} \<inter> {get_key_block_ptr b m s..<get_key_block_ptr b m s + w} = {} \<and>
    {get_value_block_ptr a l s..<get_value_block_ptr a l s + w} \<inter> {get_value_block_ptr b m s..<get_value_block_ptr b m s + w} = {}"
proof -
  let ?w = "layer_extent (kv_cfg s)" and ?n = "kc_num_layers (kv_cfg s)"
  have slot: "x * block_extent (kv_cfg s) + k * ?w = (x * ?n + k) * ?w" for x k
    by (simp add: block_extent_def algebra_simps)
  have "a * ?n + l \<noteq> b * ?n + m"
  proof
    assume eq: "a * ?n + l = b * ?n + m"
    then have "(a * ?n + l) mod ?n = (b * ?n + m) mod ?n" "(a * ?n + l) div ?n = (b * ?n + m) div ?n"
      by simp_all
    with assms(4-6) show False by simp
  qed
  then have "Suc (a * ?n + l) * ?w \<le> (b * ?n + m) * ?w \<or> Suc (b * ?n + m) * ?w \<le> (a * ?n + l) * ?w"
    by (metis Suc_leI linorder_neqE_nat mult_le_mono1)
  then show ?thesis
    using exact_offset[OF assms(1,2,4)] exact_offset[OF assms(1,3,5)]
    unfolding get_key_block_ptr_def get_value_block_ptr_def Let_def by (auto simp: slot algebra_simps)
qed

theorem kv_regions_disjoint_witness:
  "{get_key_block_ptr 0 1 (demo_cache 2 4 True)..<get_key_block_ptr 0 1 (demo_cache 2 4 True) + 32} \<inter>
   {get_key_block_ptr 1 0 (demo_cache 2 4 True)..<get_key_block_ptr 1 0 (demo_cache 2 4 True) + 32} = {}"
proof -
  have "unat (layer_block_bytes (demo_config 2 4 True)) = 32" by (simp add: demo_config_def layer_block_bytes_def)
  moreover have "pool_extent (demo_config 2 4 True) < 2 ^ 64" "1 < kc_num_layers (demo_config 2 4 True)"
    by (simp_all add: demo_config_def pool_extent_def block_extent_def layer_extent_def)
  ultimately show ?thesis using kv_regions_disjoint[of "demo_cache 2 4 True" 0 1 1 0] unfolding Let_def by (simp only: demo_sel) simp
qed

section \<open>Where the contract fails\<close>

text \<open>
  Eviction erases the node's entry in the hash index but not the node of the prefix tree.
  After two sequences have come and gone through a cache of two one-token blocks, a third
  registration of the prompt [5] reports one cached token and is given block 0, which now holds
  the keys and values of token 7 of sequence 2.
\<close>

theorem kv_stale_prefix:
  "let s = kv_run [Register 2 [5], Unregister 2, Register 3 [6, 7]] (demo_cache 1 2 True);
       (r, t) = register_sequence_with_prefix 4 [5] s
   in r = Inr 1 \<and> kv_pages s = [(3, [1, 0])] \<and> kv_pages t = [(3, [1, 0]), (4, [0])]"
  by code_simp

text \<open>
  A registration that runs out of pages keeps the references it took: after a failed
  registration of three tokens in a cache of two one-token blocks, no sequence is registered,
  yet both blocks count as allocated and a one-token prompt is refused.
\<close>

theorem kv_failed_register_leaks:
  "let (r, s) = register_sequence_with_prefix 2 [5, 6, 7] (demo_cache 1 2 False)
   in r = Inl OutOfPages \<and> kv_pages s = [] \<and>
      kv_total s - length (kv_free s) - length (kv_lru s) = 2 \<and>
      fst (register_sequence_with_prefix 3 [5] s) = Inl OutOfPages"
  by code_simp

end
