(* ===== verification/Kv_Frame.thy ===== *)
theory Kv_Frame
  imports Kv_Properties
begin

text \<open>
  The paged KV cache as the engine sees it: a store of context lengths. The operations are
  shown to change the context length of their own sequence only, and the resulting laws are
  the contract \<open>context_store\<close> that the engine's lemmas rely on.
\<close>

section \<open>Operations write free blocks only\<close>

definition free_frame :: "kv_cache \<Rightarrow> kv_cache \<Rightarrow> bool" where
  "free_frame s t \<longleftrightarrow> kv_cfg t = kv_cfg s \<and> set (kv_free t) \<subseteq> set (kv_free s) \<and>
     (\<forall>b. b \<notin> set (kv_free s) \<longrightarrow> pb_filled (block_at t b) = pb_filled (block_at s b))"

lemma free_frame_refl [simp]: "free_frame s s"
  by (simp add: free_frame_def)

lemma free_frame_trans: "free_frame s t \<Longrightarrow> free_frame t u \<Longrightarrow> free_frame s u"
  by (auto simp: free_frame_def)

lemma free_frame_pages [simp]: "free_frame s (t\<lparr>kv_pages := x\<rparr>) = free_frame s t"
  by (simp add: free_frame_def)

lemma free_frame_pages2: "free_frame (s\<lparr>kv_pages := x\<rparr>) t = free_frame s t"
  by (simp add: free_frame_def)

lemma upd_other: "b \<noteq> c \<Longrightarrow> block_at (upd_block c f s) b = block_at s b"
  by (simp add: upd_block_def)

lemma allocate_free_frame:
  assumes "allocate_physical_block s = (r, t)" "kv_evictions t = kv_evictions s"
  shows "free_frame s t" "r = Inr c \<Longrightarrow> c \<in> set (kv_free s)"
  using assms by (auto elim!: allocate_cases simp: free_frame_def take_block_def upd_other)

lemma upd_free_frame: "free_frame s t \<Longrightarrow> c \<in> set (kv_free s) \<Longrightarrow> free_frame s (upd_block c f t)"
  by (auto simp: free_frame_def upd_block_def nth_list_update_neq) (metis nth_list_update_neq)

lemma install_free_frame: "free_frame s t \<Longrightarrow> c \<in> set (kv_free s) \<Longrightarrow> free_frame s (install_block h path c t)"
  unfolding install_block_def by (rule upd_free_frame) (simp_all add: free_frame_def)

lemma fill_free_frame:
  "fill_blocks tokens bs parent node table s = (r, t) \<Longrightarrow> kv_evictions t = kv_evictions s \<Longrightarrow> free_frame s t"
proof (induction bs arbitrary: parent node table s)
  case (Cons b bs)
  obtain r1 s1 where al: "allocate_physical_block s = (r1, s1)" by fastforce
  show ?case
  proof (cases r1)
    case (Inl e)
    with Cons.prems al have "t = s1" by (simp add: Let_def)
    with allocate_free_frame(1)[OF al] Cons.prems(2) show ?thesis by simp
  next
    case (Inr c)
    let ?h = "compute_block_hash (kv_std_hash s) (block_tokens (kv_bs s) tokens b) parent"
    let ?u = "install_block ?h (node @ [?h]) c s1"
    have run: "fill_blocks tokens bs ?h (node @ [?h]) (table @ [c]) ?u = (r, t)"
      using Cons.prems(1) al Inr by (simp add: Let_def)
    have ev: "kv_evictions s1 = kv_evictions s"
      using fill_evictions[OF run] allocate_evictions[OF al] Cons.prems(2) by simp
    have "free_frame s ?u"
      by (rule install_free_frame) (use allocate_free_frame[OF al ev] Inr in auto)
    with Cons.IH[OF run] ev Cons.prems(2) show ?thesis by (auto intro: free_frame_trans)
  qed
qed simp

lemma tail_free_frame:
  assumes "tail_stage k table s = (r, t)" "kv_evictions t = kv_evictions s"
  shows "free_frame s t"
proof (cases "0 < k \<or> table = []")
  case True
  obtain r1 s1 where al: "allocate_physical_block s = (r1, s1)" by fastforce
  have ev: "kv_evictions s1 = kv_evictions s" using assms True al by (cases r1) (auto simp: tail_stage_def)
  from assms(1) True al allocate_free_frame[OF al ev] show ?thesis
    by (cases r1) (auto simp: tail_stage_def intro: upd_free_frame)
qed (use assms in \<open>simp add: tail_stage_def\<close>)

lemma reuse_filled: "kv_cfg (reuse_block c s) = kv_cfg s \<and> kv_free (reuse_block c s) = kv_free s \<and>
    pb_filled (block_at (reuse_block c s) b) = pb_filled (block_at s b)"
  by (cases "c < length (kv_blocks s)")
    (auto simp: reuse_block_def Let_def upd_block_at nth_list_update_if upd_block_def list_update_beyond)

lemma match_free_frame:
  "match_prefix tokens bs parent node table s = (parent', node', table', t) \<Longrightarrow> free_frame s t"
proof (induction tokens bs parent node table s rule: match_prefix.induct)
  case (2 tokens b bs parent node table s)
  have "free_frame s (reuse_block c s)" for c using reuse_filled by (simp add: free_frame_def)
  with 2 show ?case by (auto simp: Let_def intro: free_frame_trans split: option.splits)
qed simp

lemma match_stage_free_frame: "match_stage tokens s = (parent, node, table, t) \<Longrightarrow> free_frame s t"
  by (auto simp: match_stage_def intro: match_free_frame split: if_splits)

lemma register_free_frame:
  assumes "0 < kv_bs s" and run: "register_sequence_with_prefix sid tokens s = (r, t)"
    and ev: "kv_evictions t = kv_evictions s"
  shows "free_frame s t"
proof (cases "dict_has sid (kv_pages s)")
  case True
  with run show ?thesis by (simp add: register_sequence_with_prefix_def)
next
  case new: False
  obtain parent node table s1 where st: "match_stage tokens s = (parent, node, table, s1)"
    by (metis prod_cases4)
  obtain r2 s2 where fl: "fill_blocks tokens [length table..<length tokens div kv_bs s] parent node table s1 = (r2, s2)"
    by fastforce
  note run' = run[unfolded register_stages[OF new assms(1) st] fl]
  note base = match_stage_frame(5)[OF st] fill_evictions[OF fl] match_stage_free_frame[OF st] fill_free_frame[OF fl]
  show ?thesis
  proof (cases r2)
    case (Inl e)
    with run' base ev show ?thesis by (auto intro: free_frame_trans)
  next
    case (Inr table2)
    obtain r3 s3 where tl: "tail_stage (length tokens mod kv_bs s) table2 s2 = (r3, s3)" by fastforce
    have t: "t = s3 \<or> (\<exists>x. t = s3\<lparr>kv_pages := x\<rparr>)" using run' Inr tl by (cases r3) auto
    then have ev3: "kv_evictions s3 = kv_evictions s2 \<and> kv_evictions s2 = kv_evictions s1"
      using tail_stage_evictions[OF tl] base ev by auto
    with base tail_free_frame[OF tl] have "free_frame s s3" by (auto intro: free_frame_trans)
    with t show ?thesis by auto
  qed
qed

lemma append_blocks_free_frame:
  "append_blocks sid n remaining s = (r, t) \<Longrightarrow> kv_evictions t = kv_evictions s \<Longrightarrow>
   free_frame s t \<and> (\<forall>j. j \<noteq> sid \<longrightarrow> map_of (kv_pages t) j = map_of (kv_pages s) j)"
proof (induction n arbitrary: remaining s)
  case (Suc n)
  obtain r1 s1 where al: "allocate_physical_block s = (r1, s1)" by fastforce
  show ?case
  proof (cases r1)
    case (Inl e)
    with Suc.prems al have "t = s1" by simp
    with allocate_free_frame(1)[OF al] Suc.prems(2) allocate_frame[OF al] show ?thesis by simp
  next
    case (Inr c)
    let ?k = "min remaining (kv_bs s1)"
    let ?u = "(upd_block c (\<lambda>p. p\<lparr>pb_filled := ?k\<rparr>) s1)\<lparr>kv_pages :=
       AList.update sid (the (map_of (kv_pages s1) sid) @ [c]) (kv_pages s1)\<rparr>"
    have run: "append_blocks sid n (remaining - ?k) ?u = (r, t)"
      using Suc.prems(1) al Inr by (simp add: Let_def)
    have ev: "kv_evictions s1 = kv_evictions s"
      using append_evictions[OF run] allocate_evictions[OF al] Suc.prems(2) by simp
    have "free_frame s (upd_block c (\<lambda>p. p\<lparr>pb_filled := ?k\<rparr>) s1)"
      by (rule upd_free_frame) (use allocate_free_frame[OF al ev] Inr in auto)
    then have "free_frame s ?u" by (simp only: free_frame_pages)
    moreover have ev': "kv_evictions t = kv_evictions ?u" using ev Suc.prems(2) by simp
    ultimately have "free_frame s t" using Suc.IH[OF run ev'] free_frame_trans by blast
    moreover have "map_of (kv_pages t) j = map_of (kv_pages s) j" if "j \<noteq> sid" for j
      using Suc.IH[OF run ev'] that allocate_frame[OF al] by (simp add: map_of_update)
    ultimately show ?thesis by blast
  qed
qed simp

text \<open>Releasing keeps the fill of every block that stays referenced.\<close>

lemma free_block_filled:
  "0 < pb_ref (block_at (free_physical_block c s) b) \<Longrightarrow> c < length (kv_blocks s) \<Longrightarrow>
   pb_filled (block_at (free_physical_block c s) b) = pb_filled (block_at s b) \<and> 0 < pb_ref (block_at s b)"
  by (auto simp: free_physical_block_def Let_def upd_block_at split: if_splits)

lemma fold_free_ref:
  "0 < pb_ref (block_at (fold free_physical_block cs s) b) \<Longrightarrow> set cs \<subseteq> {..<length (kv_blocks s)} \<Longrightarrow>
   0 < pb_ref (block_at s b)"
proof (induction cs arbitrary: s)
  case (Cons c cs)
  have "length (kv_blocks (free_physical_block c s)) = length (kv_blocks s)"
    by (simp add: free_physical_block_def Let_def)
  with Cons have "0 < pb_ref (block_at (free_physical_block c s) b)" by simp
  with free_block_filled[of c s b] Cons.prems(2) show ?case by simp
qed simp

lemma fold_free_filled:
  "0 < pb_ref (block_at (fold free_physical_block cs s) b) \<Longrightarrow> set cs \<subseteq> {..<length (kv_blocks s)} \<Longrightarrow>
   pb_filled (block_at (fold free_physical_block cs s) b) = pb_filled (block_at s b)"
proof (induction cs arbitrary: s)
  case (Cons c cs)
  let ?s1 = "free_physical_block c s"
  have len: "length (kv_blocks ?s1) = length (kv_blocks s)" by (simp add: free_physical_block_def Let_def)
  have eq: "pb_filled (block_at (fold free_physical_block cs ?s1) b) = pb_filled (block_at ?s1 b)"
    by (rule Cons.IH) (use Cons.prems len in auto)
  have "0 < pb_ref (block_at ?s1 b)"
    by (rule fold_free_ref[of cs]) (use Cons.prems len in simp_all)
  from free_block_filled[OF this] Cons.prems(2) eq show ?case by simp
qed simp

section \<open>Context lengths\<close>

definition kv_context :: "kv_cache \<Rightarrow> nat \<Rightarrow> nat option" where
  "kv_context s i = map_option (context_tokens s) (map_of (kv_pages s) i)"

lemma context_tokens_cong:
  "kv_cfg t = kv_cfg s \<Longrightarrow> pb_filled (block_at t (last u)) = pb_filled (block_at s (last u)) \<Longrightarrow>
   context_tokens t u = context_tokens s u"
  by (simp add: context_tokens_def)

lemma last_not_free:
  assumes "kv_inv leak s" "map_of (kv_pages s) j = Some u"
  shows "last u \<notin> set (kv_free s)"
  using inv_table_block(3)[OF assms] last_block_lt(2)[OF assms] by simp

lemma free_frame_context:
  assumes "kv_inv leak s" "free_frame s t" "map_of (kv_pages s) j = Some u"
  shows "context_tokens t u = context_tokens s u"
  using assms(2) last_not_free[OF assms(1,3)] by (auto simp: free_frame_def intro: context_tokens_cong)

lemma register_context:
  assumes inv: "kv_inv leak s" and fresh: "kv_context s sid = None"
    and nz: "kc_prefix_caching (kv_cfg s) \<longrightarrow> 0 \<notin> set (prompt_hashes s tokens)"
    and run: "register_sequence_with_prefix sid tokens s = (Inr m, t)"
    and ev: "kv_evictions t = kv_evictions s"
  shows "kv_inv leak t \<and> kv_context t = (kv_context s)(sid \<mapsto> length tokens)"
proof -
  have new: "\<not> dict_has sid (kv_pages s)" using fresh by (simp add: kv_context_def dict_has_def)
  have "kc_prefix_caching (kv_cfg s) \<Longrightarrow> 0 \<notin> set (prompt_hashes s tokens)" using nz by simp
  from register_table[OF inv run ev new this] obtain table where
    table: "kv_pages t = kv_pages s @ [(sid, table)]" "context_tokens t table = length tokens" by auto
  have bs: "0 < kv_bs s" using inv by (simp add: kv_inv_with_def shape_ok_def)
  note ctx = free_frame_context[OF inv register_free_frame[OF bs run ev]]
  have "kv_context t = (kv_context s)(sid \<mapsto> length tokens)"
  proof
    fix j
    show "kv_context t j = ((kv_context s)(sid \<mapsto> length tokens)) j"
      using table ctx[of j] new
      by (auto simp: kv_context_def map_add_def dict_has_def split: option.splits)
  qed
  with register_inv[OF inv run ev] nz show ?thesis by simp
qed

lemma append_others:
  assumes inv: "kv_inv leak s" and run: "append_tokens sid n s = (Inr (), t)"
    and ev: "kv_evictions t = kv_evictions s" and j: "j \<noteq> sid" "map_of (kv_pages s) j = Some u"
  shows "map_of (kv_pages t) j = Some u \<and> context_tokens t u = context_tokens s u"
proof -
  obtain table where page: "map_of (kv_pages s) sid = Some table"
    using run by (cases "map_of (kv_pages s) sid") (simp_all add: append_tokens_def)
  let ?b = "last table" and ?bs = "kv_bs s"
  note tb = last_block_lt[OF inv page] and ub = last_block_lt[OF inv j(2)]
  have full: "pb_filled (block_at s ?b) = ?bs" if eq: "last u = ?b"
  proof -
    have "last u \<in> set u" "last u \<in> set table" using tb(2) ub(2) eq last_in_set by metis+
    from inv_two_owners[OF inv j(2) page j(1) this] eq
    have "kc_prefix_caching (kv_cfg s) \<and> ?b \<in> ran (kv_tree s)" by simp
    with inv show ?thesis by (auto simp: kv_inv_with_def tree_ok_def ran_def)
  qed
  show ?thesis
  proof (cases "n \<le> ?bs - pb_filled (block_at s ?b)")
    case True
    with run page have t: "t = upd_block ?b (\<lambda>p. p\<lparr>pb_filled := pb_filled p + n\<rparr>) s"
      by (simp add: append_tokens_def)
    have "pb_filled (block_at t (last u)) = pb_filled (block_at s (last u))"
    proof (cases "last u = ?b")
      case eq: True
      from full[OF eq] True have "n = 0" by simp
      then show ?thesis by (simp add: t upd_block_at)
    qed (simp add: t upd_other)
    moreover have "kv_cfg t = kv_cfg s" "kv_pages t = kv_pages s" by (simp_all add: t)
    ultimately show ?thesis using j(2) context_tokens_cong[of t s u] by simp
  next
    case False
    let ?u = "upd_block ?b (\<lambda>p. p\<lparr>pb_filled := ?bs\<rparr>) s"
    let ?rem = "n - (?bs - pb_filled (block_at s ?b))"
    have run': "append_blocks sid ((?rem + ?bs - 1) div ?bs) ?rem ?u = (Inr (), t)"
      using run page False by (simp add: append_tokens_def Let_def)
    have inv': "kv_inv leak ?u" using tb by (simp add: top_up_inv[OF inv])
    have F: "free_frame ?u t" "map_of (kv_pages t) j = Some u"
      using append_blocks_free_frame[OF run'] ev j by auto
    have "pb_filled (block_at ?u (last u)) = pb_filled (block_at s (last u))"
    proof (cases "last u = ?b")
      case eq: True
      from full[OF eq] show ?thesis by (simp add: eq upd_block_at)
    qed (simp add: upd_other)
    then have "context_tokens ?u u = context_tokens s u" by (intro context_tokens_cong) simp_all
    with free_frame_context[OF inv' F(1), of j u] j(2) F(2) show ?thesis by simp
  qed
qed

lemma append_keys:
  assumes "append_tokens sid n s = (Inr (), t)" "kv_evictions t = kv_evictions s" "j \<noteq> sid"
  shows "map_of (kv_pages t) j = map_of (kv_pages s) j"
  using assms append_blocks_free_frame[of sid _ _ _ "Inr ()" t]
  by (fastforce simp: append_tokens_def Let_def split: option.splits if_splits)

lemma append_kv_context:
  assumes inv: "kv_inv leak s" and run: "append_tokens sid n s = (Inr (), t)"
    and ev: "kv_evictions t = kv_evictions s"
  shows "kv_inv leak t \<and> (\<exists>c. kv_context s sid = Some c \<and> kv_context t = (kv_context s)(sid \<mapsto> c + n))"
proof -
  obtain table where page: "map_of (kv_pages s) sid = Some table"
    using run by (cases "map_of (kv_pages s) sid") (simp_all add: append_tokens_def)
  obtain new where new: "map_of (kv_pages t) sid = Some (table @ new)"
    "context_tokens t (table @ new) = context_tokens s table + n"
    using append_context[OF inv run ev page] by blast
  have "kv_context t j = ((kv_context s)(sid \<mapsto> context_tokens s table + n)) j" for j
    using new append_others[OF inv run ev, of j] append_keys[OF run ev, of j]
    by (cases "map_of (kv_pages s) j") (auto simp: kv_context_def)
  with append_inv[OF inv run ev] page show ?thesis by (auto simp: kv_context_def)
qed

lemma unregister_kv_context:
  assumes inv: "kv_inv leak s"
  shows "kv_inv leak (unregister_sequence sid s) \<and>
    kv_context (unregister_sequence sid s) = (kv_context s)(sid := None)"
proof (cases "map_of (kv_pages s) sid")
  case None
  with inv show ?thesis by (auto simp: unregister_sequence_def kv_context_def)
next
  case (Some table)
  let ?t = "unregister_sequence sid s"
  note inv' = unregister_inv[OF inv, of sid]
  have t: "?t = (fold free_physical_block table s)\<lparr>kv_pages := AList.delete sid (kv_pages s)\<rparr>"
    by (simp add: unregister_sequence_def Some Let_def fold_free_frame)
  have sub: "set table \<subseteq> {..<length (kv_blocks s)}"
    using inv_table_block(1)[OF inv Some] inv_total[OF inv] by auto
  have "context_tokens ?t u = context_tokens s u" if u: "map_of (kv_pages s) j = Some u" "j \<noteq> sid" for j u
  proof (rule context_tokens_cong)
    have page: "map_of (kv_pages ?t) j = Some u" using u by (simp add: t map_of_delete)
    have "0 < pb_ref (block_at ?t (last u))"
      using inv_table_block(2)[OF inv' page] last_block_lt(2)[OF inv' page] by simp
    then show "pb_filled (block_at ?t (last u)) = pb_filled (block_at s (last u))"
      using fold_free_filled[OF _ sub, of "last u"] by (simp add: t)
  qed simp
  then have "kv_context ?t j = ((kv_context s)(sid := None)) j" for j
    by (cases "map_of (kv_pages s) j") (auto simp: kv_context_def t map_of_delete)
  with inv' show ?thesis by auto
qed

section \<open>The contract\<close>

text \<open>
  What a client of the cache relies on: \<open>ctx\<close> maps each registered sequence to its context
  length; as long as nothing is evicted (\<open>evs\<close>), registering sets it to the prompt length,
  appending increases it, and releasing removes it, all without touching other sequences.
\<close>

locale context_store =
  fixes inv :: "'s \<Rightarrow> bool" and ctx :: "'s \<Rightarrow> nat \<Rightarrow> nat option" and evs :: "'s \<Rightarrow> nat"
    and ok_prompt :: "'s \<Rightarrow> int list \<Rightarrow> bool"
    and reg :: "nat \<Rightarrow> int list \<Rightarrow> 's \<Rightarrow> ('e, nat, 's) eff"
    and app :: "nat \<Rightarrow> nat \<Rightarrow> 's \<Rightarrow> ('e, unit, 's) eff"
    and unreg :: "nat \<Rightarrow> 's \<Rightarrow> 's"
  assumes reg_ctx: "inv s \<Longrightarrow> ctx s i = None \<Longrightarrow> ok_prompt s ts \<Longrightarrow> reg i ts s = (Inr m, t) \<Longrightarrow>
      evs t = evs s \<Longrightarrow> inv t \<and> ctx t = (ctx s)(i \<mapsto> length ts)"
    and app_ctx: "inv s \<Longrightarrow> app i n s = (Inr u, t) \<Longrightarrow> evs t = evs s \<Longrightarrow>
      inv t \<and> (\<exists>c. ctx s i = Some c \<and> ctx t = (ctx s)(i \<mapsto> c + n))"
    and reg_fail: "inv s \<Longrightarrow> ctx s i = None \<Longrightarrow> ok_prompt s ts \<Longrightarrow> reg i ts s = (Inl e, t) \<Longrightarrow>
      evs t = evs s \<Longrightarrow> inv t \<and> ctx t = ctx s"
    and reg_evs: "inv s \<Longrightarrow> reg i ts s = (q, t) \<Longrightarrow> evs s \<le> evs t"
    and app_fail: "inv s \<Longrightarrow> app i n s = (Inl e, t) \<Longrightarrow> evs t = evs s \<Longrightarrow>
      inv t \<and> dom (ctx t) = dom (ctx s)"
    and app_evs: "app i n s = (r, t) \<Longrightarrow> evs s \<le> evs t"
    and unreg_ctx: "inv s \<Longrightarrow> inv (unreg i s) \<and> ctx (unreg i s) = (ctx s)(i := None) \<and>
      evs (unreg i s) = evs s"

text \<open>A client that appends one token for each id of a list, and one that releases a list.\<close>

fun append_each :: "(nat \<Rightarrow> nat \<Rightarrow> 's \<Rightarrow> ('e, unit, 's) eff) \<Rightarrow> nat list \<Rightarrow> 's \<Rightarrow> ('e, unit, 's) eff" where
  "append_each app [] s = (Inr (), s)"
| "append_each app (i # is) s = eff_bind (app i 1 s) (\<lambda>_. append_each app is)"

context context_store
begin

lemma each_evs: "append_each app is s = (r, t) \<Longrightarrow> evs s \<le> evs t"
proof (induction "is" arbitrary: s)
  case (Cons i "is")
  obtain r1 s1 where a: "app i 1 s = (r1, s1)" by fastforce
  from app_evs[OF a] Cons a show ?case by (cases r1) (auto intro: le_trans)
qed simp

lemma each_ctx:
  assumes "inv s" "append_each app is s = (Inr u, t)" "evs t = evs s"
  shows "inv t \<and> set is \<subseteq> dom (ctx s) \<and>
    ctx t = (\<lambda>i. map_option (\<lambda>c. c + count_list is i) (ctx s i))"
  using assms
proof (induction "is" arbitrary: s)
  case Nil
  then show ?case by (simp add: option.map_ident)
next
  case (Cons i "is")
  obtain v s1 where a: "app i 1 s = (Inr v, s1)" and rest: "append_each app is s1 = (Inr u, t)"
    using Cons.prems(2) by (auto simp: eff_simps)
  have ev: "evs s1 = evs s" using app_evs[OF a] each_evs[OF rest] Cons.prems(3) by simp
  obtain c where c: "inv s1" "ctx s i = Some c" "ctx s1 = (ctx s)(i \<mapsto> c + 1)"
    using app_ctx[OF Cons.prems(1) a ev] by blast
  have IH: "inv t" "set is \<subseteq> dom (ctx s1)" "ctx t = (\<lambda>j. map_option (\<lambda>c. c + count_list is j) (ctx s1 j))"
    using Cons.IH[OF c(1) rest] ev Cons.prems(3) by simp_all
  have "ctx t = (\<lambda>j. map_option (\<lambda>c. c + count_list (i # is) j) (ctx s j))"
    unfolding IH(3) c(3) by (auto simp: c(2))
  with IH(1,2) c(2,3) show ?case by auto
qed

lemma each_inv:
  assumes "inv s" "append_each app is s = (r, t)" "evs t = evs s"
  shows "inv t \<and> dom (ctx t) = dom (ctx s)"
  using assms
proof (induction "is" arbitrary: s)
  case (Cons i "is")
  obtain r1 s1 where a: "app i 1 s = (r1, s1)" by fastforce
  show ?case
  proof (cases r1)
    case (Inl e)
    with a Cons.prems have t: "t = s1" by simp
    from app_fail[OF Cons.prems(1) a[unfolded Inl]] Cons.prems(3) show ?thesis by (simp add: t)
  next
    case (Inr u)
    with a Cons.prems have rest: "append_each app is s1 = (r, t)" by simp
    have ev: "evs s1 = evs s" using app_evs[OF a] each_evs[OF rest] Cons.prems(3) by simp
    from app_ctx[OF Cons.prems(1) a[unfolded Inr] ev] have "inv s1" "dom (ctx s1) = dom (ctx s)"
      by (auto split: if_splits)
    with Cons.IH[OF _ rest] ev Cons.prems(3) show ?thesis by simp
  qed
qed simp

lemma release_ctx:
  assumes "inv s"
  shows "inv (fold unreg is s) \<and> evs (fold unreg is s) = evs s \<and>
    ctx (fold unreg is s) = (\<lambda>i. if i \<in> set is then None else ctx s i)"
  using assms
proof (induction "is" arbitrary: s)
  case (Cons i "is")
  from Cons.IH[of "unreg i s"] unreg_ctx[OF Cons.prems, of i] show ?case by auto
qed simp

end

definition prompt_ok :: "kv_cache \<Rightarrow> int list \<Rightarrow> bool" where
  "prompt_ok s tokens \<longleftrightarrow> (kc_prefix_caching (kv_cfg s) \<longrightarrow> 0 \<notin> set (prompt_hashes s tokens))"

text \<open>Operations that raise keep the registered sequences.\<close>

lemma register_fail_pages:
  assumes "0 < kv_bs s" and run: "register_sequence_with_prefix sid tokens s = (Inl e, t)"
  shows "kv_pages t = kv_pages s"
proof (cases "dict_has sid (kv_pages s)")
  case True
  with run show ?thesis by (simp add: register_sequence_with_prefix_def)
next
  case new: False
  obtain parent node table s1 where st: "match_stage tokens s = (parent, node, table, s1)"
    by (metis prod_cases4)
  obtain r2 s2 where fl: "fill_blocks tokens [length table..<length tokens div kv_bs s] parent node table s1 = (r2, s2)"
    by fastforce
  note run' = run[unfolded register_stages[OF new assms(1) st] fl]
  show ?thesis
  proof (cases r2)
    case (Inl e)
    with run' match_stage_frame[OF st] fill_frame[OF fl] show ?thesis by simp
  next
    case (Inr table2)
    obtain r3 s3 where tl: "tail_stage (length tokens mod kv_bs s) table2 s2 = (r3, s3)" by fastforce
    with run' Inr have "t = s3" by (cases r3) auto
    with match_stage_frame[OF st] fill_frame[OF fl] tail_stage_frame[OF tl] show ?thesis by simp
  qed
qed

lemma register_fail_context:
  assumes inv: "kv_inv leak s" and nz: "prompt_ok s tokens"
    and run: "register_sequence_with_prefix sid tokens s = (Inl e, t)" and ev: "kv_evictions t = kv_evictions s"
  shows "(\<exists>leak. kv_inv leak t) \<and> kv_context t = kv_context s"
proof -
  have bs: "0 < kv_bs s" using inv by (simp add: kv_inv_with_def shape_ok_def)
  note pages = register_fail_pages[OF bs run]
  have "kv_context t j = kv_context s j" for j
    using free_frame_context[OF inv register_free_frame[OF bs run ev]]
    by (cases "map_of (kv_pages s) j") (auto simp: kv_context_def pages)
  moreover have "kv_inv_leaked leak t" using register_inv[OF inv run ev] nz by (simp add: prompt_ok_def)
  ultimately show ?thesis by (auto simp: kv_inv_leaked_def)
qed

lemma append_blocks_dom:
  "append_blocks sid n remaining s = (r, t) \<Longrightarrow> sid \<in> dom (map_of (kv_pages s)) \<Longrightarrow>
   dom (map_of (kv_pages t)) = dom (map_of (kv_pages s))"
proof (induction n arbitrary: remaining s)
  case (Suc n)
  obtain r1 s1 where al: "allocate_physical_block s = (r1, s1)" by fastforce
  show ?case
  proof (cases r1)
    case (Inl e)
    with Suc.prems al allocate_frame[OF al] show ?thesis by simp
  next
    case (Inr c)
    let ?k = "min remaining (kv_bs s1)"
    let ?u = "(upd_block c (\<lambda>p. p\<lparr>pb_filled := ?k\<rparr>) s1)\<lparr>kv_pages :=
       AList.update sid (the (map_of (kv_pages s1) sid) @ [c]) (kv_pages s1)\<rparr>"
    have run: "append_blocks sid n (remaining - ?k) ?u = (r, t)"
      using Suc.prems(1) al Inr by (simp add: Let_def)
    have "dom (map_of (kv_pages ?u)) = dom (map_of (kv_pages s))"
      using Suc.prems(2) allocate_frame[OF al] by (auto simp: map_of_update split: if_splits)
    with Suc.IH[OF run] Suc.prems(2) show ?thesis by simp
  qed
qed simp

lemma append_dom:
  "append_tokens sid n s = (r, t) \<Longrightarrow> dom (kv_context t) = dom (kv_context s)"
  using append_blocks_dom[of sid]
  by (fastforce simp: append_tokens_def kv_context_def Let_def dom_def split: option.splits if_splits)

lemma append_tokens_evictions: "append_tokens sid n s = (r, t) \<Longrightarrow> kv_evictions s \<le> kv_evictions t"
  by (rule append_frame(3))

interpretation kv: context_store "\<lambda>s. \<exists>leak. kv_inv leak s" kv_context kv_evictions prompt_ok
  register_sequence_with_prefix append_tokens unregister_sequence
proof
  show "(\<exists>leak. kv_inv leak t) \<and> kv_context t = (kv_context s)(i \<mapsto> length ts)"
    if "\<exists>leak. kv_inv leak s" "kv_context s i = None" "prompt_ok s ts"
      "register_sequence_with_prefix i ts s = (Inr m, t)" "kv_evictions t = kv_evictions s" for s i ts m t
    using that register_context[OF _ that(2) _ that(4,5)] by (auto simp: prompt_ok_def)
  show "(\<exists>leak. kv_inv leak t) \<and> (\<exists>c. kv_context s i = Some c \<and> kv_context t = (kv_context s)(i \<mapsto> c + n))"
    if "\<exists>leak. kv_inv leak s" "append_tokens i n s = (Inr u, t)" "kv_evictions t = kv_evictions s" for s i n u t
    using that append_kv_context[OF _ _ that(3), of _ i n] by (cases u) blast
  show "(\<exists>leak. kv_inv leak (unregister_sequence i s)) \<and>
      kv_context (unregister_sequence i s) = (kv_context s)(i := None) \<and>
      kv_evictions (unregister_sequence i s) = kv_evictions s"
    if "\<exists>leak. kv_inv leak s" for s i
    using that unregister_kv_context by auto
  show "(\<exists>leak. kv_inv leak t) \<and> kv_context t = kv_context s"
    if "\<exists>leak. kv_inv leak s" "kv_context s i = None" "prompt_ok s ts"
      "register_sequence_with_prefix i ts s = (Inl e, t)" "kv_evictions t = kv_evictions s" for s i ts e t
    using that register_fail_context by blast
  show "kv_evictions s \<le> kv_evictions t"
    if "\<exists>leak. kv_inv leak s" "register_sequence_with_prefix i ts s = (r, t)" for s i ts r t
    using that register_frame(3) by (auto simp: kv_inv_with_def shape_ok_def)
  show "(\<exists>leak. kv_inv leak t) \<and> dom (kv_context t) = dom (kv_context s)"
    if "\<exists>leak. kv_inv leak s" "append_tokens i n s = (Inl e, t)" "kv_evictions t = kv_evictions s" for s i n e t
    using that append_inv append_dom by blast
qed (rule append_tokens_evictions)

end
