(* ===== verification/Batcher.thy ===== *)
theory Batcher
  imports Prelude
begin

text \<open>
  The continuous batcher (\<open>csrc/src/scheduler/continuous_batcher.cpp\<close>) and the model runner with
  its stream buffer (\<open>csrc/src/engine/model_runner.cpp\<close>), the two native objects that
  \<open>LLMEngine\<close> drives.

  \<^item> Requests are shared between the queues, the id map and the batch result, so they live in a
    heap (\<open>bt_heap\<close>) and the containers hold addresses.
  \<^item> The priority queue is a list of addresses; \<open>pq_top\<close> is the element the comparator puts
    first (highest priority, then earliest arrival), the front-most one on a full tie, where the
    binary heap of the standard library is free to choose.
  \<^item> \<open>std::sort\<close> is a sort by priority (stable here; the library leaves ties open).
  \<^item> \<open>max_new_tokens\<close> and token ids are \<open>int32\<close> values; the conversions of the code to \<open>size_t\<close>
    and back are written out.
\<close>

section \<open>Requests and the batcher's state\<close>

datatype request_state = WAITING | RUNNING | FINISHED | PREEMPTED

record request =
  rq_id :: nat
  rq_prompt :: "int list"
  rq_generated :: "int list"
  rq_max_new :: int
  rq_priority :: int
  rq_state :: request_state
  rq_arrival :: nat

record batcher =
  bt_max_seqs :: nat
  bt_max_tokens :: nat
  bt_heap :: "request list"
  bt_waiting :: "nat list"
  bt_running :: "nat list"
  bt_map :: "(nat \<times> nat) list"

record batch_result =
  br_prefill :: "nat list"
  br_decode :: "nat list"
  br_total_tokens :: nat
  br_preempted :: nat

definition batcher_init :: "nat \<Rightarrow> nat \<Rightarrow> batcher" where
  "batcher_init max_seqs max_tokens =
     \<lparr>bt_max_seqs = max_seqs, bt_max_tokens = max_tokens, bt_heap = [], bt_waiting = [],
      bt_running = [], bt_map = []\<rparr>"

definition new_request :: "nat \<Rightarrow> int list \<Rightarrow> int \<Rightarrow> int \<Rightarrow> nat \<Rightarrow> request" where
  "new_request i prompt max_new prio now =
     \<lparr>rq_id = i, rq_prompt = prompt, rq_generated = [], rq_max_new = max_new, rq_priority = prio,
      rq_state = WAITING, rq_arrival = now\<rparr>"

text \<open>\<open>static_cast<size_t>\<close> of a signed value.\<close>

definition size_t_of :: "int \<Rightarrow> nat" where
  "size_t_of x = nat (x mod 2 ^ 64)"

definition hit_limit :: "request \<Rightarrow> bool" where
  "hit_limit r \<longleftrightarrow> size_t_of (rq_max_new r) \<le> length (rq_generated r)"

definition is_finished :: "request \<Rightarrow> bool" where
  "is_finished r \<longleftrightarrow> rq_state r = FINISHED \<or> hit_limit r"

abbreviation req_at :: "batcher \<Rightarrow> nat \<Rightarrow> request" where
  "req_at s a \<equiv> bt_heap s ! a"

definition upd_req :: "nat \<Rightarrow> (request \<Rightarrow> request) \<Rightarrow> batcher \<Rightarrow> batcher" where
  "upd_req a f s = s\<lparr>bt_heap := (bt_heap s)[a := f (req_at s a)]\<rparr>"

definition set_state :: "request_state \<Rightarrow> nat \<Rightarrow> batcher \<Rightarrow> batcher" where
  "set_state st a = upd_req a (\<lambda>r. r\<lparr>rq_state := st\<rparr>)"

section \<open>The priority queue\<close>

text \<open>The comparator: a has to come after b.\<close>

definition request_before :: "request \<Rightarrow> request \<Rightarrow> bool" where
  "request_before a b \<longleftrightarrow>
     (if rq_priority a \<noteq> rq_priority b then rq_priority a < rq_priority b
      else rq_arrival a > rq_arrival b)"

fun pq_top :: "(nat \<Rightarrow> request) \<Rightarrow> nat list \<Rightarrow> nat" where
  "pq_top h [] = 0"
| "pq_top h [a] = a"
| "pq_top h (a # b # as) = (let t = pq_top h (b # as) in if request_before (h a) (h t) then t else a)"

section \<open>Adding and cancelling\<close>

definition batcher_add :: "request \<Rightarrow> batcher \<Rightarrow> bool \<times> batcher" where
  "batcher_add r s =
     (if rq_prompt r = [] then (False, s)
      else if dict_has (rq_id r) (bt_map s) then (False, s)
      else let a = length (bt_heap s) in
        (True, s\<lparr>bt_heap := bt_heap s @ [r\<lparr>rq_state := WAITING\<rparr>],
                 bt_map := AList.update (rq_id r) a (bt_map s),
                 bt_waiting := bt_waiting s @ [a]\<rparr>))"

definition batcher_cancel :: "nat \<Rightarrow> batcher \<Rightarrow> bool \<times> batcher" where
  "batcher_cancel i s =
     (case map_of (bt_map s) i of
        None \<Rightarrow> (False, s)
      | Some a \<Rightarrow>
          let t = set_state FINISHED a s in
          (True, t\<lparr>bt_running := filter (\<lambda>b. rq_id (req_at t b) \<noteq> i) (bt_running t),
                   bt_map := AList.delete i (bt_map t)\<rparr>))"

definition update_requests_state :: "nat list \<Rightarrow> batcher \<Rightarrow> batcher" where
  "update_requests_state ids s =
     fold (\<lambda>i s. case map_of (bt_map s) i of None \<Rightarrow> s | Some a \<Rightarrow> set_state FINISHED a s) ids s"

definition get_pending_count :: "batcher \<Rightarrow> nat" where
  "get_pending_count s = length (bt_waiting s)"

definition get_running_count :: "batcher \<Rightarrow> nat" where
  "get_running_count s = length (bt_running s)"

section \<open>One scheduling step\<close>

text \<open>Dropping the finished requests from the running list.\<close>

definition still_running :: "batcher \<Rightarrow> nat \<Rightarrow> bool" where
  "still_running s a \<longleftrightarrow> \<not> is_finished (req_at s a) \<and> rq_state (req_at s a) = RUNNING"

fun filter_running :: "nat list \<Rightarrow> batcher \<Rightarrow> nat list \<times> batcher" where
  "filter_running [] s = ([], s)"
| "filter_running (a # as) s =
     (if still_running s a
      then (let (kept, t) = filter_running as s in (a # kept, t))
      else filter_running as
             ((set_state FINISHED a s)\<lparr>bt_map := AList.delete (rq_id (req_at s a)) (bt_map s)\<rparr>))"

text \<open>The loop of \<open>preempt_requests\<close> leaves after its first round.\<close>

definition preempt_requests :: "batcher \<Rightarrow> nat \<times> batcher" where
  "preempt_requests s =
     (case sort_key (\<lambda>a. rq_priority (req_at s a)) (bt_running s) of
        [] \<Rightarrow> (0, s\<lparr>bt_running := []\<rparr>)
      | a # as \<Rightarrow>
          (1, set_state PREEMPTED a (s\<lparr>bt_running := as, bt_waiting := bt_waiting s @ [a]\<rparr>)))"

text \<open>The decode budget: one token per running request, one preemption when it runs out.\<close>

definition decode_stage :: "batcher \<Rightarrow> nat list \<times> nat \<times> batcher" where
  "decode_stage s =
     (let decode = take (bt_max_tokens s) (bt_running s) in
      if length (bt_running s) \<le> bt_max_tokens s then (decode, 0, s)
      else let (n, t) = preempt_requests s in (decode, n, t))"

text \<open>Admission from the priority queue: tokens allocated so far, prefill requests so far.\<close>

function admit :: "nat \<Rightarrow> nat list \<Rightarrow> batcher \<Rightarrow> nat \<times> nat list \<times> batcher" where
  "admit used prefill s =
     (if bt_waiting s = [] \<or> bt_max_seqs s \<le> length (bt_running s) then (used, prefill, s)
      else
        let a = pq_top (req_at s) (bt_waiting s);
            t = s\<lparr>bt_waiting := remove1 a (bt_waiting s)\<rparr>;
            n = length (rq_prompt (req_at s a))
        in if rq_state (req_at s a) = FINISHED then admit used prefill t
           else if used + n \<le> bt_max_tokens s
           then admit (used + n) (prefill @ [a])
                  ((set_state RUNNING a t)\<lparr>bt_running := bt_running t @ [a]\<rparr>)
           else (used, prefill, t\<lparr>bt_waiting := bt_waiting t @ [a]\<rparr>))"
  by pat_completeness auto

lemma pq_top_in: "as \<noteq> [] \<Longrightarrow> pq_top h as \<in> set as"
  by (induction h as rule: pq_top.induct) (auto simp: Let_def)

termination admit
  by (relation "measure (\<lambda>(_, _, s). length (bt_waiting s))")
    (auto simp: set_state_def upd_req_def length_remove1 pq_top_in)

declare admit.simps [simp del]

definition schedule_step :: "batcher \<Rightarrow> batch_result \<times> batcher" where
  "schedule_step s =
     (let (running, t) = filter_running (bt_running s) s;
          (decode, preempted, u) = decode_stage (t\<lparr>bt_running := running\<rparr>);
          (used, prefill, v) = admit (length decode) [] u
      in (\<lparr>br_prefill = prefill, br_decode = decode, br_total_tokens = used,
           br_preempted = preempted\<rparr>, v))"

section \<open>The model runner\<close>

record stream_output =
  so_id :: nat
  so_token :: int
  so_final :: bool

record runner =
  rn_batcher :: batcher
  rn_buffer :: "stream_output list"
  rn_vocab :: nat
  rn_eos :: int
  rn_cancelled :: "nat set"

definition runner_init :: "batcher \<Rightarrow> nat \<Rightarrow> int \<Rightarrow> runner" where
  "runner_init b vocab eos =
     \<lparr>rn_batcher = b, rn_buffer = [], rn_vocab = vocab, rn_eos = eos, rn_cancelled = {}\<rparr>"

definition push_batch :: "stream_output list \<Rightarrow> runner \<Rightarrow> runner" where
  "push_batch outs s = s\<lparr>rn_buffer := rn_buffer s @ outs\<rparr>"

definition pop_all :: "runner \<Rightarrow> stream_output list \<times> runner" where
  "pop_all s = (rn_buffer s, s\<lparr>rn_buffer := []\<rparr>)"

definition runner_cancel :: "nat \<Rightarrow> runner \<Rightarrow> runner" where
  "runner_cancel i s =
     s\<lparr>rn_cancelled := insert i (rn_cancelled s), rn_batcher := snd (batcher_cancel i (rn_batcher s))\<rparr>"

definition filter_cancelled_requests :: "runner \<Rightarrow> batch_result \<Rightarrow> batch_result" where
  "filter_cancelled_requests s r =
     (let live = (\<lambda>a. rq_id (req_at (rn_batcher s) a) \<notin> rn_cancelled s) in
      r\<lparr>br_prefill := filter live (br_prefill r), br_decode := filter live (br_decode r)\<rparr>)"

text \<open>
  \<open>(last + 1) % vocab_size_\<close>: the sum is converted to \<open>size_t\<close>, the remainder back to \<open>int32\<close>.
\<close>

definition narrow32 :: "int \<Rightarrow> int" where
  "narrow32 x = (x + 2 ^ 31) mod 2 ^ 32 - 2 ^ 31"

definition next_token :: "nat \<Rightarrow> int \<Rightarrow> int" where
  "next_token vocab last_token = narrow32 (((last_token + 1) mod 2 ^ 64) mod int vocab)"

definition prefill_token :: "nat \<Rightarrow> request \<Rightarrow> int" where
  "prefill_token vocab r = (if rq_prompt r = [] then 0 else next_token vocab (last (rq_prompt r)))"

definition decode_token :: "nat \<Rightarrow> request \<Rightarrow> int" where
  "decode_token vocab r =
     next_token vocab (if rq_generated r = [] then 0 else last (rq_generated r))"

text \<open>The body of the prefill and the decode loop, for the token the loop samples.\<close>

definition emit_token :: "(request \<Rightarrow> int) \<Rightarrow> int \<Rightarrow> nat \<Rightarrow> batcher \<Rightarrow> stream_output \<times> batcher" where
  "emit_token sample eos a s =
     (let token = sample (req_at s a);
          t = upd_req a (\<lambda>r. r\<lparr>rq_generated := rq_generated r @ [token]\<rparr>) s;
          final = (token = eos \<or> hit_limit (req_at t a))
      in (\<lparr>so_id = rq_id (req_at s a), so_token = token, so_final = final\<rparr>,
          if final then set_state FINISHED a t else t))"

fun emit_tokens :: "(request \<Rightarrow> int) \<Rightarrow> int \<Rightarrow> nat list \<Rightarrow> batcher \<Rightarrow> stream_output list \<times> batcher" where
  "emit_tokens sample eos [] s = ([], s)"
| "emit_tokens sample eos (a # as) s =
     (let (out, t) = emit_token sample eos a s;
          (outs, u) = emit_tokens sample eos as t
      in (out # outs, u))"

definition runner_step :: "runner \<Rightarrow> nat \<times> runner" where
  "runner_step s =
     (let (result, b) = schedule_step (rn_batcher s);
          s1 = s\<lparr>rn_batcher := b\<rparr>;
          res = filter_cancelled_requests s1 result;
          active = length (br_prefill res) + length (br_decode res)
      in if active = 0 then (0, s1)
         else
           let (outs1, b1) = emit_tokens (prefill_token (rn_vocab s)) (rn_eos s) (br_prefill res) b;
               (outs2, b2) = emit_tokens (decode_token (rn_vocab s)) (rn_eos s) (br_decode res) b1;
               outs = outs1 @ outs2;
               finished = map so_id (filter so_final outs);
               s2 = (push_batch outs s1)\<lparr>rn_batcher := update_requests_state finished b2\<rparr>
           in (active, s2))"

end
