(* ===== verification/Batcher_Invariant.thy ===== *)
theory Batcher_Invariant
  imports Batcher
begin

text \<open>
  The invariant of the batcher, its preservation by every operation and by the model runner,
  and what one scheduling step guarantees: the token budget, the order of admission, and that no
  request is scheduled twice.
\<close>

section \<open>The invariant\<close>

text \<open>A request generates at most this many tokens.\<close>

definition token_cap :: "request \<Rightarrow> nat" where
  "token_cap r = max 1 (size_t_of (rq_max_new r))"

definition live_ok :: "request \<Rightarrow> bool" where
  "live_ok r \<longleftrightarrow> rq_prompt r \<noteq> [] \<and>
     (rq_state r \<noteq> FINISHED \<longrightarrow> length (rq_generated r) < token_cap r)"

definition batch_ok :: "batcher \<Rightarrow> bool" where
  "batch_ok s \<longleftrightarrow> distinct (bt_running s @ bt_waiting s) \<and>
     length (bt_running s) \<le> bt_max_seqs s \<and>
     (\<forall>a \<in> set (bt_running s) \<union> set (bt_waiting s). a < length (bt_heap s) \<and> live_ok (req_at s a)) \<and>
     (\<forall>a < length (bt_heap s). length (rq_generated (req_at s a)) \<le> token_cap (req_at s a)) \<and>
     (\<forall>i a. map_of (bt_map s) i = Some a \<longrightarrow> a < length (bt_heap s) \<and> rq_id (req_at s a) = i)"

lemma batch_ok_init: "batch_ok (batcher_init max_seqs max_tokens)"
  by (simp add: batch_ok_def batcher_init_def)

section \<open>Updates of one request\<close>

lemma upd_req_sel [simp]:
  "bt_max_seqs (upd_req a f s) = bt_max_seqs s" "bt_max_tokens (upd_req a f s) = bt_max_tokens s"
  "bt_waiting (upd_req a f s) = bt_waiting s" "bt_running (upd_req a f s) = bt_running s"
  "bt_map (upd_req a f s) = bt_map s" "length (bt_heap (upd_req a f s)) = length (bt_heap s)"
  by (simp_all add: upd_req_def)

lemma set_state_sel [simp]:
  "bt_max_seqs (set_state st a s) = bt_max_seqs s" "bt_max_tokens (set_state st a s) = bt_max_tokens s"
  "bt_waiting (set_state st a s) = bt_waiting s" "bt_running (set_state st a s) = bt_running s"
  "bt_map (set_state st a s) = bt_map s" "length (bt_heap (set_state st a s)) = length (bt_heap s)"
  by (simp_all add: set_state_def)

lemma upd_req_at: "a < length (bt_heap s) \<Longrightarrow>
    req_at (upd_req a f s) b = (if b = a then f (req_at s a) else req_at s b)"
  by (simp add: upd_req_def nth_list_update_if)

lemma set_state_at: "a < length (bt_heap s) \<Longrightarrow>
    req_at (set_state st a s) b = (if b = a then (req_at s a)\<lparr>rq_state := st\<rparr> else req_at s b)"
  by (simp add: set_state_def upd_req_at)

text \<open>Steps that change request states only.\<close>

definition same_requests :: "batcher \<Rightarrow> batcher \<Rightarrow> bool" where
  "same_requests s t \<longleftrightarrow>
     map (\<lambda>r. r\<lparr>rq_state := WAITING\<rparr>) (bt_heap t) = map (\<lambda>r. r\<lparr>rq_state := WAITING\<rparr>) (bt_heap s) \<and>
     bt_max_seqs t = bt_max_seqs s \<and> bt_max_tokens t = bt_max_tokens s"

lemma same_requests_refl [simp]: "same_requests s s"
  by (simp add: same_requests_def)

lemma same_requests_trans: "same_requests s t \<Longrightarrow> same_requests t u \<Longrightarrow> same_requests s u"
  by (simp add: same_requests_def)

lemma same_requests_set_state [simp]: "same_requests s (set_state st a t) = same_requests s t"
  by (simp add: same_requests_def set_state_def upd_req_def map_update) (metis list_update_id map_update)

lemma same_requests_fields [simp]:
  "same_requests s (t\<lparr>bt_running := x\<rparr>) = same_requests s t"
  "same_requests s (t\<lparr>bt_waiting := x\<rparr>) = same_requests s t"
  "same_requests s (t\<lparr>bt_map := m\<rparr>) = same_requests s t"
  "same_requests (s\<lparr>bt_running := x\<rparr>) t = same_requests s t"
  "same_requests (s\<lparr>bt_waiting := x\<rparr>) t = same_requests s t"
  "same_requests (s\<lparr>bt_map := m\<rparr>) t = same_requests s t"
  by (simp_all add: same_requests_def)

lemma same_requests_len: "same_requests s t \<Longrightarrow> length (bt_heap t) = length (bt_heap s)"
  using map_eq_imp_length_eq by (auto simp: same_requests_def)

lemma same_requests_at:
  assumes "same_requests s t" "a < length (bt_heap s)"
  shows "rq_id (req_at t a) = rq_id (req_at s a)" "rq_prompt (req_at t a) = rq_prompt (req_at s a)"
    "rq_generated (req_at t a) = rq_generated (req_at s a)"
    "rq_max_new (req_at t a) = rq_max_new (req_at s a)"
    "rq_priority (req_at t a) = rq_priority (req_at s a)"
    "rq_arrival (req_at t a) = rq_arrival (req_at s a)"
proof -
  have "(req_at t a)\<lparr>rq_state := WAITING\<rparr> = (req_at s a)\<lparr>rq_state := WAITING\<rparr>"
    using assms same_requests_len[OF assms(1)] unfolding same_requests_def by (metis nth_map)
  then show "rq_id (req_at t a) = rq_id (req_at s a)" "rq_prompt (req_at t a) = rq_prompt (req_at s a)"
    "rq_generated (req_at t a) = rq_generated (req_at s a)"
    "rq_max_new (req_at t a) = rq_max_new (req_at s a)"
    "rq_priority (req_at t a) = rq_priority (req_at s a)"
    "rq_arrival (req_at t a) = rq_arrival (req_at s a)"
    by (cases "req_at t a"; cases "req_at s a"; simp)+
qed

section \<open>Adding, cancelling, finishing\<close>

lemma set_finished_ok:
  assumes "batch_ok s" "a < length (bt_heap s)"
  shows "batch_ok (set_state FINISHED a s)"
  using assms by (auto simp: batch_ok_def set_state_at live_ok_def token_cap_def)

lemma batch_ok_shrink:
  assumes "batch_ok s" "distinct xs" "set xs \<subseteq> set (bt_running s)" "length xs \<le> bt_max_seqs s"
    "\<And>i a. map_of m i = Some a \<Longrightarrow> map_of (bt_map s) i = Some a"
  shows "batch_ok (s\<lparr>bt_running := xs, bt_map := m\<rparr>)"
  using assms unfolding batch_ok_def by simp blast

lemma batcher_add_ok:
  assumes "batch_ok s" "rq_generated r = []"
  shows "batch_ok (snd (batcher_add r s))"
  using assms
  by (auto simp: batcher_add_def batch_ok_def Let_def nth_append live_ok_def token_cap_def
      map_of_update less_Suc_eq split: if_splits)

lemma batcher_cancel_ok:
  assumes "batch_ok s"
  shows "batch_ok (snd (batcher_cancel i s))"
proof (cases "map_of (bt_map s) i")
  case (Some a)
  with assms have "a < length (bt_heap s)" by (simp add: batch_ok_def)
  with assms have ok: "batch_ok (set_state FINISHED a s)" (is "batch_ok ?t") by (rule set_finished_ok)
  then have "length (filter (\<lambda>b. rq_id (req_at ?t b) \<noteq> i) (bt_running ?t)) \<le> bt_max_seqs ?t"
    by (metis batch_ok_def length_filter_le le_trans)
  with ok show ?thesis
    by (auto simp: batcher_cancel_def Some Let_def map_of_delete batch_ok_def split: if_splits
        intro!: batch_ok_shrink)
qed (simp add: batcher_cancel_def assms)

lemma finish_id_ok:
  assumes "batch_ok s"
  shows "batch_ok (case map_of (bt_map s) i of None \<Rightarrow> s | Some a \<Rightarrow> set_state FINISHED a s)"
proof (cases "map_of (bt_map s) i")
  case (Some a)
  with assms have "a < length (bt_heap s)" by (simp add: batch_ok_def)
  with Some assms show ?thesis by (simp add: set_finished_ok)
qed (simp add: assms)

lemma update_requests_state_ok: "batch_ok s \<Longrightarrow> batch_ok (update_requests_state ids s)"
  unfolding update_requests_state_def
  by (induction ids arbitrary: s) (simp_all add: finish_id_ok)

section \<open>The stages of a scheduling step\<close>

lemma filter_running_spec:
  assumes "filter_running as s = (kept, t)" "set as \<subseteq> {..<length (bt_heap s)}" "distinct as"
  shows "same_requests s t \<and> bt_waiting t = bt_waiting s \<and> bt_running t = bt_running s \<and>
    kept = filter (still_running s) as \<and>
    (\<forall>a. a \<notin> set as \<or> a \<in> set kept \<longrightarrow> req_at t a = req_at s a) \<and>
    (\<forall>a \<in> set as - set kept. rq_state (req_at t a) = FINISHED) \<and>
    (\<forall>i a. map_of (bt_map t) i = Some a \<longrightarrow> map_of (bt_map s) i = Some a)"
  using assms
proof (induction as arbitrary: s kept)
  case (Cons a as)
  show ?case
  proof (cases "still_running s a")
    case True
    obtain kept' where rec: "filter_running as s = (kept', t)" and k: "kept = a # kept'"
      using Cons.prems(1) True by (auto split: prod.splits)
    from Cons.IH[OF rec] Cons.prems True k show ?thesis by auto
  next
    case False
    let ?u = "(set_state FINISHED a s)\<lparr>bt_map := AList.delete (rq_id (req_at s a)) (bt_map s)\<rparr>"
    have rec: "filter_running as ?u = (kept, t)" using Cons.prems(1) False by simp
    have a: "a < length (bt_heap s)" using Cons.prems(2) by simp
    have IH: "same_requests ?u t" "bt_waiting t = bt_waiting s" "bt_running t = bt_running s"
      "kept = filter (still_running ?u) as"
      "\<forall>b. b \<notin> set as \<or> b \<in> set kept \<longrightarrow> req_at t b = req_at ?u b"
      "\<forall>b \<in> set as - set kept. rq_state (req_at t b) = FINISHED"
      "\<forall>i b. map_of (bt_map t) i = Some b \<longrightarrow> map_of (bt_map ?u) i = Some b"
      using Cons.IH[OF rec] Cons.prems by auto
    have "still_running ?u b = still_running s b" if "b \<in> set as" for b
      using that Cons.prems(3) a by (auto simp: still_running_def set_state_at)
    then have kept: "kept = filter (still_running s) (a # as)"
      using IH(4) False by (simp cong: filter_cong)
    have same: "same_requests s t" using IH(1) same_requests_trans[of s ?u t] by simp
    have m: "map_of (bt_map s) i = Some b" if "map_of (bt_map t) i = Some b" for i b
      using IH(7)[rule_format, OF that] by (simp add: map_of_delete split: if_splits)
    have ks: "set kept \<subseteq> set as" using IH(4) by auto
    have at: "req_at t b = req_at s b" if "b \<notin> set (a # as) \<or> b \<in> set kept" for b
      using that IH(5) Cons.prems(3) a ks by (auto simp: set_state_at)
    have fin: "rq_state (req_at t b) = FINISHED" if "b \<in> set (a # as) - set kept" for b
      using that IH(5,6) Cons.prems(3) a by (auto simp: set_state_at)
    show ?thesis using same IH(2,3) kept at fin m by blast
  qed
qed simp

lemma preempt_spec:
  assumes ok: "batch_ok s" and run: "preempt_requests s = (n, t)" and ne: "bt_running s \<noteq> []"
    and live: "\<forall>a \<in> set (bt_running s). rq_state (req_at s a) = RUNNING"
  shows "batch_ok t \<and> same_requests s t \<and> set (bt_waiting s) \<subseteq> set (bt_waiting t) \<and>
    set (bt_running t) \<union> set (bt_waiting t) = set (bt_running s) \<union> set (bt_waiting s) \<and> n = 1 \<and>
    (\<exists>a \<in> set (bt_running s). bt_waiting t = bt_waiting s @ [a] \<and>
      (\<forall>b \<in> set (bt_running s). rq_priority (req_at s a) \<le> rq_priority (req_at s b)))"
proof -
  let ?key = "\<lambda>a. rq_priority (req_at s a)"
  obtain a as where srt: "sort_key ?key (bt_running s) = a # as"
    using ne by (metis list.exhaust set_empty2 set_sort)
  have t: "t = set_state PREEMPTED a (s\<lparr>bt_running := as, bt_waiting := bt_waiting s @ [a]\<rparr>)" and n: "n = 1"
    using run by (simp_all add: preempt_requests_def srt)
  have sets: "set (bt_running s) = insert a (set as)" and dist: "distinct (a # as)"
    and len: "length (bt_running s) = Suc (length as)"
    using srt ok by (metis list.simps(15) set_sort, metis batch_ok_def distinct_append distinct_sort,
        metis length_Cons length_sort)
  have "sorted (map ?key (a # as))" by (metis sorted_sort_key srt)
  then have min: "\<forall>b \<in> set (bt_running s). ?key a \<le> ?key b" by (auto simp: sets)
  have a: "a < length (bt_heap s)" "rq_state (req_at s a) = RUNNING" using ok sets live by (auto simp: batch_ok_def)
  have "batch_ok t"
    using ok a sets dist len by (auto simp: t batch_ok_def set_state_at live_ok_def token_cap_def)
  with min n sets show ?thesis by (auto simp: t)
qed

lemma before_asym: "request_before a b \<Longrightarrow> \<not> request_before b a"
  by (auto simp: request_before_def split: if_splits)

lemma before_negtrans: "\<not> request_before a b \<Longrightarrow> \<not> request_before b c \<Longrightarrow> \<not> request_before a c"
  by (auto simp: request_before_def split: if_splits)

lemma pq_top_best: "b \<in> set as \<Longrightarrow> \<not> request_before (h (pq_top h as)) (h b)"
proof (induction h as arbitrary: b rule: pq_top.induct)
  case (3 h a c as)
  let ?t = "pq_top h (c # as)"
  note IH = "3.IH"
  have irr: "\<not> request_before (h a) (h a)" using before_asym by blast
  show ?case
  proof (cases "request_before (h a) (h ?t)")
    case True
    with "3.prems" IH before_asym[OF True] show ?thesis by (auto simp: Let_def)
  next
    case False
    with "3.prems" IH before_negtrans[OF False] irr show ?thesis by (auto simp: Let_def)
  qed
qed (auto dest: before_asym)

lemma before_same:
  assumes "same_requests s t" "a < length (bt_heap s)" "b < length (bt_heap s)"
  shows "request_before (req_at t a) (req_at t b) = request_before (req_at s a) (req_at s b)"
  using same_requests_at(5,6)[OF assms(1,2)] same_requests_at(5,6)[OF assms(1,3)]
  by (simp add: request_before_def)

text \<open>What the admission loop guarantees, for the requests \<open>new\<close> it admits.\<close>

definition prompt_tokens :: "batcher \<Rightarrow> nat list \<Rightarrow> nat" where
  "prompt_tokens s as = sum_list (map (\<lambda>a. length (rq_prompt (req_at s a))) as)"

definition in_order :: "batcher \<Rightarrow> nat list \<Rightarrow> nat list \<Rightarrow> bool" where
  "in_order s new rest \<longleftrightarrow> sorted_wrt (\<lambda>a b. \<not> request_before (req_at s a) (req_at s b)) new \<and>
     (\<forall>a \<in> set new. \<forall>b \<in> set rest. \<not> request_before (req_at s a) (req_at s b))"

definition stops_for :: "batcher \<Rightarrow> nat \<Rightarrow> bool" where
  "stops_for t used \<longleftrightarrow> bt_waiting t = [] \<or> bt_max_seqs t \<le> length (bt_running t) \<or>
     (\<exists>a \<in> set (bt_waiting t). bt_max_tokens t < used + length (rq_prompt (req_at t a)) \<and>
        (\<forall>b \<in> set (bt_waiting t). \<not> request_before (req_at t a) (req_at t b)))"

definition admitted :: "nat \<Rightarrow> nat list \<Rightarrow> batcher \<Rightarrow> nat \<Rightarrow> batcher \<Rightarrow> bool" where
  "admitted used new s used' t \<longleftrightarrow> batch_ok t \<and> same_requests s t \<and>
     bt_running t = bt_running s @ new \<and> bt_map t = bt_map s \<and>
     set new \<subseteq> set (bt_waiting s) \<and> set (bt_waiting t) \<subseteq> set (bt_waiting s) - set new \<and>
     used' = used + prompt_tokens s new \<and> (used \<le> bt_max_tokens s \<longrightarrow> used' \<le> bt_max_tokens s) \<and>
     (bt_max_tokens s \<le> used \<longrightarrow> new = []) \<and>
     (\<forall>a \<in> set new. rq_state (req_at s a) \<noteq> FINISHED) \<and>
     (\<forall>a. a \<notin> set new \<longrightarrow> req_at t a = req_at s a) \<and>
     in_order s new (bt_waiting t) \<and> stops_for t used'"

lemma admit_spec:
  assumes "batch_ok s" "admit used prefill s = (used', prefill', t)"
  shows "\<exists>new. prefill' = prefill @ new \<and> admitted used new s used' t"
  using assms
proof (induction used prefill s rule: admit.induct)
  case (1 used prefill s)
  let ?a = "pq_top (req_at s) (bt_waiting s)"
  let ?s1 = "s\<lparr>bt_waiting := remove1 ?a (bt_waiting s)\<rparr>"
  let ?n = "length (rq_prompt (req_at s ?a))"
  note ok = "1.prems"(1) and run = "1.prems"(2)
  show ?case
  proof (cases "bt_waiting s = [] \<or> bt_max_seqs s \<le> length (bt_running s)")
    case True
    then have "admit used prefill s = (used, prefill, s)" by (subst admit.simps) simp
    with run ok True show ?thesis
      by (auto simp: admitted_def prompt_tokens_def in_order_def stops_for_def)
  next
    case False
    then have ne: "bt_waiting s \<noteq> []" by simp
    note a_in = pq_top_in[OF ne, of "req_at s"]
    note best = pq_top_best[of _ "bt_waiting s" "req_at s"]
    have dist: "distinct (bt_running s @ bt_waiting s)" and a: "?a < length (bt_heap s)" "live_ok (req_at s ?a)"
      "?a \<notin> set (bt_running s)"
      using ok a_in by (auto simp: batch_ok_def)
    have rem: "set (remove1 ?a (bt_waiting s)) = set (bt_waiting s) - {?a}"
      using dist by (simp add: set_remove1_eq)
    have lt: "b < length (bt_heap s)" if "b \<in> set (bt_waiting s)" for b
      using ok that by (simp add: batch_ok_def)
    have ok1: "batch_ok ?s1" using ok rem by (auto simp: batch_ok_def)
    note unfold = admit.simps[of used prefill s]
    show ?thesis
    proof (cases "rq_state (req_at s ?a) = FINISHED")
      case True
      have "admit used prefill ?s1 = (used', prefill', t)"
        using run False True unfold by (simp add: Let_def)
      from "1.IH"(1)[OF False refl refl refl True ok1 this]
      obtain new where new: "prefill' = prefill @ new" "admitted used new ?s1 used' t" by blast
      have "admitted used new s used' t"
        using new(2) rem by (auto simp: admitted_def prompt_tokens_def in_order_def)
      with new(1) show ?thesis by blast
    next
      case live: False
      show ?thesis
      proof (cases "used + ?n \<le> bt_max_tokens s")
        case True
        let ?s2 = "(set_state RUNNING ?a ?s1)\<lparr>bt_running := bt_running ?s1 @ [?a]\<rparr>"
        have "admit (used + ?n) (prefill @ [?a]) ?s2 = (used', prefill', t)"
          using run False live True unfold by (simp add: Let_def)
        moreover have ok2: "batch_ok ?s2"
          using ok a live False dist rem
          by (auto simp: batch_ok_def set_state_at live_ok_def token_cap_def)
        ultimately obtain new where new: "prefill' = (prefill @ [?a]) @ new"
          "admitted (used + ?n) new ?s2 used' t"
          using "1.IH"(2)[OF False refl refl refl live True] by blast
        have same: "same_requests s ?s2" by simp
        have sub: "set new \<subseteq> set (bt_waiting s) - {?a}" "set (bt_waiting t) \<subseteq> set (bt_waiting s) - {?a}"
          using new(2) rem by (auto simp: admitted_def)
        have eqp: "rq_prompt (req_at ?s2 b) = rq_prompt (req_at s b)" if "b \<in> set new" for b
          using same_requests_at(2)[OF same lt] sub(1) that by blast
        have "prompt_tokens ?s2 new = prompt_tokens s new"
          unfolding prompt_tokens_def
          by (rule arg_cong[of _ _ sum_list], rule map_cong[OF refl]) (simp only: eqp)
        then have tok: "used' = used + prompt_tokens s (?a # new)"
          using new(2) by (simp add: admitted_def prompt_tokens_def)
        have ord: "in_order s (?a # new) (bt_waiting t)"
          unfolding in_order_def
        proof (intro conjI)
          have eq: "request_before (req_at ?s2 x) (req_at ?s2 y) = request_before (req_at s x) (req_at s y)"
            if "x \<in> set (bt_waiting s)" "y \<in> set (bt_waiting s)" for x y
            using before_same[OF same lt[OF that(1)] lt[OF that(2)]] .
          have srt: "sorted_wrt (\<lambda>x y. \<not> request_before (req_at ?s2 x) (req_at ?s2 y)) new"
            and rst: "\<forall>x \<in> set new. \<forall>y \<in> set (bt_waiting t). \<not> request_before (req_at ?s2 x) (req_at ?s2 y)"
            using new(2) by (simp_all add: admitted_def in_order_def)
          have "sorted_wrt (\<lambda>x y. \<not> request_before (req_at s x) (req_at s y)) new"
            using srt by (rule sorted_wrt_mono_rel[rotated]) (use sub(1) eq in auto)
          then show "sorted_wrt (\<lambda>x y. \<not> request_before (req_at s x) (req_at s y)) (?a # new)"
            using best sub(1) by auto
          show "\<forall>x \<in> set (?a # new). \<forall>y \<in> set (bt_waiting t). \<not> request_before (req_at s x) (req_at s y)"
            using best sub eq rst by (auto simp: subset_eq)
        qed
        have at2: "req_at ?s2 b = (if b = ?a then (req_at s ?a)\<lparr>rq_state := RUNNING\<rparr> else req_at s b)" for b
          using a(1) by (simp add: set_state_at)
        note N = new(2)[unfolded admitted_def]
        have "0 < ?n" using a(2) by (simp add: live_ok_def)
        with True have room: "\<not> bt_max_tokens s \<le> used" by linarith
        have f1: "batch_ok t" "same_requests s t" "stops_for t used'"
          using N same_requests_trans[OF same, of t] by blast+
        have f2: "bt_running t = bt_running s @ (?a # new)" "bt_map t = bt_map s"
          using N by simp_all
        have f3: "set (?a # new) \<subseteq> set (bt_waiting s)" "set (bt_waiting t) \<subseteq> set (bt_waiting s) - set (?a # new)"
          using N sub a_in by auto
        have f4: "used' \<le> bt_max_tokens s" using N True by simp
        have f5: "rq_state (req_at s b) \<noteq> FINISHED" if "b \<in> set (?a # new)" for b
          using N that live at2[of b] by (cases "b = ?a") auto
        have f6: "req_at t b = req_at s b" if "b \<notin> set (?a # new)" for b
          using N that at2[of b] by simp
        have "admitted used (?a # new) s used' t"
          unfolding admitted_def using f1 f2 f3 f4 f5 f6 ord tok room by blast
        with new(1) show ?thesis by auto
      next
        case big: False
        have t: "t = ?s1\<lparr>bt_waiting := remove1 ?a (bt_waiting s) @ [?a]\<rparr>" "used' = used" "prefill' = prefill"
          using run False live big unfold by (simp_all add: Let_def)
        have "batch_ok t" using ok rem a_in dist by (auto simp: t batch_ok_def)
        moreover have "stops_for t used"
          unfolding stops_for_def using big best rem a_in by (auto simp: t)
        ultimately have "admitted used [] s used' t"
          using rem a_in by (auto simp: admitted_def t prompt_tokens_def in_order_def)
        with t show ?thesis by auto
      qed
    qed
  qed
qed

section \<open>A whole scheduling step\<close>

text \<open>What a scheduling step promises about its result.\<close>

definition scheduled :: "batcher \<Rightarrow> batch_result \<Rightarrow> batcher \<Rightarrow> bool" where
  "scheduled s r t \<longleftrightarrow> batch_ok t \<and> same_requests s t \<and>
     distinct (br_prefill r @ br_decode r) \<and>
     set (br_decode r) \<subseteq> set (bt_running s) \<and> set (br_prefill r) \<subseteq> set (bt_waiting s) \<and>
     br_total_tokens r = length (br_decode r) + prompt_tokens s (br_prefill r) \<and>
     br_total_tokens r \<le> bt_max_tokens s \<and>
     (\<forall>a \<in> set (br_prefill r @ br_decode r). a < length (bt_heap s) \<and> rq_state (req_at s a) \<noteq> FINISHED) \<and>
     (\<forall>a \<in> set (br_decode r). still_running s a) \<and>
     in_order s (br_prefill r) (bt_waiting t) \<and>
     stops_for t (br_total_tokens r) \<and>
     (0 < br_preempted r \<longrightarrow> br_prefill r = [])"

lemma schedule_step_spec:
  assumes ok: "batch_ok s" and run: "schedule_step s = (r, t)"
  shows "scheduled s r t"
proof -
  obtain kept s1 where fr: "filter_running (bt_running s) s = (kept, s1)" by fastforce
  have sub: "set (bt_running s) \<subseteq> {..<length (bt_heap s)}" and dist: "distinct (bt_running s)"
    using ok by (auto simp: batch_ok_def)
  note F = filter_running_spec[OF fr sub dist]
  let ?s2 = "s1\<lparr>bt_running := kept\<rparr>"
  have F1: "same_requests s s1" "bt_waiting s1 = bt_waiting s" "kept = filter (still_running s) (bt_running s)"
    using F by simp_all
  have out: "req_at s1 a = req_at s a" if "a \<in> set kept \<union> set (bt_waiting s)" for a
    using F that ok by (auto simp: batch_ok_def)
  have cfg: "bt_max_seqs s1 = bt_max_seqs s" "bt_max_tokens s1 = bt_max_tokens s"
    using F1(1) by (simp_all add: same_requests_def)
  have len: "length (bt_heap s1) = length (bt_heap s)" using F1(1) by (rule same_requests_len)
  have ok2: "batch_ok ?s2"
    unfolding batch_ok_def
  proof (intro conjI ballI allI impI)
    show "distinct (bt_running ?s2 @ bt_waiting ?s2)" using ok F1 by (auto simp: batch_ok_def)
    have "length kept \<le> length (bt_running s)" unfolding F1(3) by (rule length_filter_le)
    with ok show "length (bt_running ?s2) \<le> bt_max_seqs ?s2" by (simp add: batch_ok_def cfg)
    fix a assume "a \<in> set (bt_running ?s2) \<union> set (bt_waiting ?s2)"
    then have a: "a \<in> set kept \<union> set (bt_waiting s)" "a \<in> set (bt_running s) \<union> set (bt_waiting s)"
      using F1 by auto
    with ok out[OF a(1)] len show "a < length (bt_heap ?s2)" "live_ok (req_at ?s2 a)"
      unfolding batch_ok_def by simp_all
  next
    fix a assume "a < length (bt_heap ?s2)"
    with len have a: "a < length (bt_heap s)" by simp
    with ok show "length (rq_generated (req_at ?s2 a)) \<le> token_cap (req_at ?s2 a)"
      using same_requests_at[OF F1(1) a] by (simp add: batch_ok_def token_cap_def)
  next
    fix i a assume "map_of (bt_map ?s2) i = Some a"
    with F have "map_of (bt_map s) i = Some a" by simp
    with ok have "a < length (bt_heap s)" "rq_id (req_at s a) = i" by (auto simp: batch_ok_def)
    then show "a < length (bt_heap ?s2)" "rq_id (req_at ?s2 a) = i"
      using same_requests_at(1)[OF F1(1)] len by simp_all
  qed
  obtain decode n s3 where dc: "decode_stage ?s2 = (decode, n, s3)" by (metis prod_cases3)
  have D: "decode = take (bt_max_tokens s) kept" using dc
    by (auto simp: decode_stage_def Let_def cfg split: if_splits prod.splits)
  have s3: "batch_ok s3 \<and> same_requests ?s2 s3 \<and> set (bt_waiting s) \<subseteq> set (bt_waiting s3) \<and>
      set (bt_waiting s3) \<subseteq> set kept \<union> set (bt_waiting s) \<and>
      (n = 0 \<and> s3 = ?s2 \<or> n = 1 \<and> length decode = bt_max_tokens s)"
  proof (cases "length kept \<le> bt_max_tokens s")
    case True
    with dc have "?s2 = s3 \<and> n = 0" by (auto simp: decode_stage_def Let_def cfg)
    with ok2 F1(2) show ?thesis by auto
  next
    case False
    then have "preempt_requests ?s2 = (n, s3)" "bt_running ?s2 \<noteq> []"
      using dc by (auto simp: decode_stage_def Let_def cfg split: prod.splits)
    moreover have "\<forall>a \<in> set (bt_running ?s2). rq_state (req_at ?s2 a) = RUNNING"
      using out F1 by (auto simp: still_running_def)
    ultimately have P: "batch_ok s3 \<and> same_requests ?s2 s3 \<and> set (bt_waiting ?s2) \<subseteq> set (bt_waiting s3) \<and>
        set (bt_running s3) \<union> set (bt_waiting s3) = set (bt_running ?s2) \<union> set (bt_waiting ?s2) \<and> n = 1"
      using preempt_spec[OF ok2] by blast
    with False D F1 show ?thesis by auto
  qed
  obtain used prefill where ad: "admit (length decode) [] s3 = (used, prefill, t)"
    and r: "r = \<lparr>br_prefill = prefill, br_decode = decode, br_total_tokens = used, br_preempted = n\<rparr>"
    using run fr dc by (auto simp: schedule_step_def split: prod.splits)
  have A: "admitted (length decode) prefill s3 used t" using admit_spec[OF _ ad] s3 by auto
  have same3: "same_requests s s3" using F1(1) s3 same_requests_trans[of s ?s2 s3] by simp
  note len3 = same_requests_len[OF same3] and N = A[unfolded admitted_def]
  have dsub: "set decode \<subseteq> set kept" "length decode \<le> bt_max_tokens s" by (auto simp: D dest: in_set_takeD)
  have kept: "set kept \<subseteq> set (bt_running s)" "\<forall>a \<in> set kept. still_running s a" using F1(3) by auto
  have ddist: "distinct decode" using dist F1(3) by (simp add: D)
  have cfg3: "bt_max_tokens s3 = bt_max_tokens s" using same3 by (simp add: same_requests_def)
  have pre: "n = 0 \<and> s3 = ?s2 \<or> prefill = []" using s3 N cfg3 by auto
  have psub: "set prefill \<subseteq> set (bt_waiting s)" "prefill \<noteq> [] \<Longrightarrow> set (bt_waiting t) \<subseteq> set (bt_waiting s)"
    using pre N F1(2) by auto
  have lt: "a < length (bt_heap s)" if "a \<in> set (bt_running s) \<union> set (bt_waiting s)" for a
    using ok that by (simp add: batch_ok_def)
  have G1: "distinct (prefill @ decode)"
  proof -
    have "distinct prefill" using N by (auto simp: batch_ok_def)
    moreover have "set (bt_running s) \<inter> set (bt_waiting s) = {}" using ok by (simp add: batch_ok_def)
    then have "set prefill \<inter> set decode = {}" using psub(1) dsub(1) kept(1) by blast
    ultimately show ?thesis using ddist by simp
  qed
  have "prompt_tokens s3 prefill = prompt_tokens s prefill"
    unfolding prompt_tokens_def
    by (rule arg_cong[of _ _ sum_list], rule map_cong[OF refl])
      (use psub(1) lt same_requests_at(2)[OF same3] in auto)
  then have G2: "used = length decode + prompt_tokens s prefill" "used \<le> bt_max_tokens s"
    using N dsub(2) cfg3 by auto
  have G3: "rq_state (req_at s a) \<noteq> FINISHED" if "a \<in> set (prefill @ decode)" for a
  proof (cases "a \<in> set decode")
    case True
    with dsub kept show ?thesis by (auto simp: still_running_def)
  next
    case False
    with that have a: "a \<in> set prefill" "prefill \<noteq> []" by auto
    with pre psub(1) have "req_at s3 a = req_at s a" using out[of a] by auto
    with N a(1) show ?thesis by auto
  qed
  have G4: "in_order s prefill (bt_waiting t)"
  proof (cases "prefill = []")
    case False
    have eq: "request_before (req_at s3 x) (req_at s3 y) = request_before (req_at s x) (req_at s y)"
      if "x \<in> set (bt_waiting s)" "y \<in> set (bt_waiting s)" for x y
      using before_same[OF same3] lt that by blast
    have ord: "in_order s3 prefill (bt_waiting t)" using N by blast
    then have "sorted_wrt (\<lambda>x y. \<not> request_before (req_at s3 x) (req_at s3 y)) prefill"
      by (simp add: in_order_def)
    then have "sorted_wrt (\<lambda>x y. \<not> request_before (req_at s x) (req_at s y)) prefill"
      by (rule sorted_wrt_mono_rel[rotated]) (use psub(1) eq in auto)
    with ord psub(1) psub(2)[OF False] eq show ?thesis by (auto simp: in_order_def subset_eq)
  qed (simp add: in_order_def)
  have G5: "batch_ok t" "same_requests s t" "stops_for t used"
    using N same_requests_trans[OF same3, of t] by blast+
  have G6: "0 < n \<longrightarrow> prefill = []" using pre by auto
  have G7: "a < length (bt_heap s)" if "a \<in> set (prefill @ decode)" for a
    using that psub(1) dsub(1) kept(1) lt by auto
  show ?thesis unfolding scheduled_def r batch_result.simps
    using G1 G2 G3 G4 G5 G6 G7 dsub(1) kept psub(1) by blast
qed

lemma scheduled_live:
  assumes "batch_ok s" "scheduled s r t" "a \<in> set (br_prefill r @ br_decode r)"
  shows "a < length (bt_heap t)" "length (rq_generated (req_at t a)) < token_cap (req_at t a)"
proof -
  have a: "a < length (bt_heap s)" "rq_state (req_at s a) \<noteq> FINISHED" "a \<in> set (bt_running s) \<union> set (bt_waiting s)"
    and same: "same_requests s t"
    using assms(2,3) by (auto simp: scheduled_def)
  from a(1) same show "a < length (bt_heap t)" by (simp add: same_requests_len)
  have "live_ok (req_at s a)" using assms(1) a(3) by (auto simp: batch_ok_def)
  with a(2) show "length (rq_generated (req_at t a)) < token_cap (req_at t a)"
    using same_requests_at[OF same a(1)] by (simp add: live_ok_def token_cap_def)
qed

section \<open>Emitting tokens\<close>

lemma list_all2_mono_elem: "list_all2 P xs ys \<Longrightarrow> (\<And>x y. x \<in> set xs \<Longrightarrow> P x y \<Longrightarrow> Q x y) \<Longrightarrow> list_all2 Q xs ys"
  by (induction rule: list_all2_induct) auto

text \<open>Request \<open>a\<close> got one token, reported in \<open>out\<close>.\<close>

definition emitted :: "(request \<Rightarrow> int) \<Rightarrow> int \<Rightarrow> batcher \<Rightarrow> batcher \<Rightarrow> nat \<Rightarrow> stream_output \<Rightarrow> bool" where
  "emitted sample eos s t a out \<longleftrightarrow>
     so_id out = rq_id (req_at s a) \<and> so_token out = sample (req_at s a) \<and>
     req_at t a = (req_at s a)\<lparr>rq_generated := rq_generated (req_at s a) @ [so_token out],
       rq_state := (if so_final out then FINISHED else rq_state (req_at s a))\<rparr> \<and>
     (so_final out \<longleftrightarrow> so_token out = eos \<or>
        size_t_of (rq_max_new (req_at s a)) \<le> Suc (length (rq_generated (req_at s a))))"

text \<open>Everything but the heap is unchanged, and the heap outside the given addresses.\<close>

definition heap_frame :: "nat set \<Rightarrow> batcher \<Rightarrow> batcher \<Rightarrow> bool" where
  "heap_frame A s t \<longleftrightarrow> bt_max_seqs t = bt_max_seqs s \<and> bt_max_tokens t = bt_max_tokens s \<and>
     bt_waiting t = bt_waiting s \<and> bt_running t = bt_running s \<and> bt_map t = bt_map s \<and>
     length (bt_heap t) = length (bt_heap s) \<and> (\<forall>a. a \<notin> A \<longrightarrow> req_at t a = req_at s a) \<and>
     (\<forall>a < length (bt_heap s). rq_id (req_at t a) = rq_id (req_at s a) \<and>
        rq_prompt (req_at t a) = rq_prompt (req_at s a) \<and> rq_max_new (req_at t a) = rq_max_new (req_at s a))"

lemma emit_token_spec:
  assumes "a < length (bt_heap s)" "emit_token sample eos a s = (out, t)"
  shows "emitted sample eos s t a out" "heap_frame {a} s t"
  using assms
  by (auto simp: emitted_def heap_frame_def emit_token_def Let_def set_state_at upd_req_at hit_limit_def
      split: if_splits)

lemma size_cap: "\<not> hit_limit r \<Longrightarrow> length (rq_generated r) < token_cap r"
  by (simp add: hit_limit_def token_cap_def)

lemma emitted_ok:
  assumes ok: "batch_ok s" and a: "a < length (bt_heap s)" "length (rq_generated (req_at s a)) < token_cap (req_at s a)"
    and em: "emitted sample eos s t a out" and fr: "heap_frame {a} s t"
  shows "batch_ok t"
proof -
  have live: "live_ok (req_at t b)" if "live_ok (req_at s b)" "b < length (bt_heap s)" for b
  proof (cases "b = a")
    case True
    have "length (rq_generated (req_at t a)) < token_cap (req_at t a)" if "\<not> so_final out"
      using em that by (intro size_cap) (simp add: emitted_def hit_limit_def)
    moreover have "rq_prompt (req_at t a) = rq_prompt (req_at s a)" "so_final out \<Longrightarrow> rq_state (req_at t a) = FINISHED"
      using em by (auto simp: emitted_def)
    ultimately show ?thesis using that True by (auto simp: live_ok_def)
  next
    case False
    with fr that show ?thesis by (simp add: heap_frame_def)
  qed
  have cap: "length (rq_generated (req_at t b)) \<le> token_cap (req_at t b)" if "b < length (bt_heap s)" for b
  proof (cases "b = a")
    case True
    then show ?thesis using em a(2) by (auto simp: emitted_def token_cap_def)
  next
    case False
    with fr that ok show ?thesis by (simp add: heap_frame_def batch_ok_def)
  qed
  from ok fr live cap show ?thesis by (auto simp: batch_ok_def heap_frame_def)
qed

lemma heap_frame_trans: "heap_frame A s t \<Longrightarrow> heap_frame B t u \<Longrightarrow> heap_frame (A \<union> B) s u"
  by (simp add: heap_frame_def)

lemma emit_tokens_spec:
  assumes "emit_tokens sample eos as s = (outs, t)" "batch_ok s" "distinct as"
    and "\<forall>a \<in> set as. a < length (bt_heap s) \<and> length (rq_generated (req_at s a)) < token_cap (req_at s a)"
  shows "batch_ok t \<and> heap_frame (set as) s t \<and> list_all2 (emitted sample eos s t) as outs"
  using assms
proof (induction as arbitrary: s outs)
  case Nil
  then show ?case by (simp add: heap_frame_def)
next
  case (Cons a as)
  obtain out u where em: "emit_token sample eos a s = (out, u)" by fastforce
  obtain outs' where rec: "emit_tokens sample eos as u = (outs', t)" and outs: "outs = out # outs'"
    using Cons.prems(1) em by (auto split: prod.splits)
  have a: "a < length (bt_heap s)" "length (rq_generated (req_at s a)) < token_cap (req_at s a)"
    using Cons.prems(4) by simp_all
  note E = emit_token_spec[OF a(1) em]
  have ok: "batch_ok u" by (rule emitted_ok[OF Cons.prems(2) a E])
  have same: "req_at u b = req_at s b" if "b \<in> set as" for b
    using E(2) that Cons.prems(3) by (auto simp: heap_frame_def)
  have len: "length (bt_heap u) = length (bt_heap s)" using E(2) by (simp add: heap_frame_def)
  have IH: "batch_ok t" "heap_frame (set as) u t" "list_all2 (emitted sample eos u t) as outs'"
    using Cons.IH[OF rec ok] Cons.prems(3,4) same len by simp_all
  have "list_all2 (emitted sample eos s t) as outs'"
    by (rule list_all2_mono_elem[OF IH(3)]) (simp add: emitted_def same)
  moreover have "req_at t a = req_at u a" using IH(2) Cons.prems(3) by (simp add: heap_frame_def)
  then have "emitted sample eos s t a out" using E(1) by (simp add: emitted_def)
  ultimately have "list_all2 (emitted sample eos s t) (a # as) outs" by (simp only: outs list.rel_inject)
  moreover have "heap_frame (set (a # as)) s t" using heap_frame_trans[OF E(2) IH(2)] by simp
  ultimately show ?case using IH(1) by blast
qed

end
