(* ===== verification/Scheduling.thy ===== *)
theory Scheduling
  imports Batcher_Invariant
begin

text \<open>
  Runs of the scheduler and model runner: the operations \<open>LLMEngine\<close> performs on them, in any
  order, and what holds in every state such a run reaches.
\<close>

section \<open>Runs\<close>

datatype runner_op =
  Submit nat "int list" int int nat
| Cancel nat
| Step
| Finish "nat list"
| Drain

fun runner_do :: "runner_op \<Rightarrow> runner \<Rightarrow> runner" where
  "runner_do (Submit i prompt max_new prio now) s =
     s\<lparr>rn_batcher := snd (batcher_add (new_request i prompt max_new prio now) (rn_batcher s))\<rparr>"
| "runner_do (Cancel i) s = runner_cancel i s"
| "runner_do Step s = snd (runner_step s)"
| "runner_do (Finish ids) s = s\<lparr>rn_batcher := update_requests_state ids (rn_batcher s)\<rparr>"
| "runner_do Drain s = snd (pop_all s)"

definition runner_run :: "runner_op list \<Rightarrow> runner \<Rightarrow> runner" where
  "runner_run ops s = fold runner_do ops s"

text \<open>The parts of one runner step.\<close>

lemma runner_step_cases:
  assumes ok: "batch_ok (rn_batcher s)" and run: "runner_step s = (n, t)"
  obtains (idle) r b where "schedule_step (rn_batcher s) = (r, b)" "n = 0" "t = s\<lparr>rn_batcher := b\<rparr>"
    "br_prefill (filter_cancelled_requests t r) = []" "br_decode (filter_cancelled_requests t r) = []"
  | (active) r b pre dec outs1 b1 outs2 b2 where
    "schedule_step (rn_batcher s) = (r, b)" "scheduled (rn_batcher s) r b"
    "pre = filter (\<lambda>a. rq_id (req_at b a) \<notin> rn_cancelled s) (br_prefill r)"
    "dec = filter (\<lambda>a. rq_id (req_at b a) \<notin> rn_cancelled s) (br_decode r)"
    "emit_tokens (prefill_token (rn_vocab s)) (rn_eos s) pre b = (outs1, b1)"
    "emit_tokens (decode_token (rn_vocab s)) (rn_eos s) dec b1 = (outs2, b2)"
    "n = length pre + length dec" "0 < n" "distinct (pre @ dec)"
    "batch_ok b1" "heap_frame (set pre) b b1"
    "list_all2 (emitted (prefill_token (rn_vocab s)) (rn_eos s) b b1) pre outs1"
    "batch_ok b2" "heap_frame (set dec) b1 b2"
    "list_all2 (emitted (decode_token (rn_vocab s)) (rn_eos s) b1 b2) dec outs2"
    "t = s\<lparr>rn_buffer := rn_buffer s @ outs1 @ outs2, rn_batcher :=
       update_requests_state (map so_id (filter so_final (outs1 @ outs2))) b2\<rparr>"
proof -
  obtain r b where sch: "schedule_step (rn_batcher s) = (r, b)" by fastforce
  note S = schedule_step_spec[OF ok sch]
  let ?live = "\<lambda>a. rq_id (req_at b a) \<notin> rn_cancelled s"
  define pre where "pre = filter ?live (br_prefill r)"
  define dec where "dec = filter ?live (br_decode r)"
  have res: "br_prefill (filter_cancelled_requests (s\<lparr>rn_batcher := b\<rparr>) r) = pre"
    "br_decode (filter_cancelled_requests (s\<lparr>rn_batcher := b\<rparr>) r) = dec"
    by (simp_all add: filter_cancelled_requests_def pre_def dec_def Let_def)
  show ?thesis
  proof (cases "length pre + length dec = 0")
    case True
    with run sch have "n = 0" "t = s\<lparr>rn_batcher := b\<rparr>"
      by (simp_all add: runner_step_def res Let_def)
    with idle[OF sch] res True show ?thesis by simp
  next
    case False
    obtain outs1 b1 where e1: "emit_tokens (prefill_token (rn_vocab s)) (rn_eos s) pre b = (outs1, b1)"
      by fastforce
    obtain outs2 b2 where e2: "emit_tokens (decode_token (rn_vocab s)) (rn_eos s) dec b1 = (outs2, b2)"
      by fastforce
    have dist: "distinct (pre @ dec)" using S by (auto simp: scheduled_def pre_def dec_def)
    have sub: "set (pre @ dec) \<subseteq> set (br_prefill r @ br_decode r)" by (auto simp: pre_def dec_def)
    have live: "a < length (bt_heap b) \<and> length (rq_generated (req_at b a)) < token_cap (req_at b a)"
      if "a \<in> set (pre @ dec)" for a
      using scheduled_live[OF ok S, of a] sub that by blast
    have okb: "batch_ok b" using S by (simp add: scheduled_def)
    have "distinct pre" using dist by simp
    from emit_tokens_spec[OF e1 okb this] live
    have E1: "batch_ok b1" "heap_frame (set pre) b b1"
      "list_all2 (emitted (prefill_token (rn_vocab s)) (rn_eos s) b b1) pre outs1" by simp_all
    have "req_at b1 a = req_at b a" if "a \<in> set dec" for a
      using E1(2) that dist by (auto simp: heap_frame_def)
    moreover have "length (bt_heap b1) = length (bt_heap b)" using E1(2) by (simp add: heap_frame_def)
    ultimately have E2: "batch_ok b2" "heap_frame (set dec) b1 b2"
      "list_all2 (emitted (decode_token (rn_vocab s)) (rn_eos s) b1 b2) dec outs2"
      using emit_tokens_spec[OF e2 E1(1)] dist live by simp_all
    have "n = length pre + length dec \<and> t = s\<lparr>rn_buffer := rn_buffer s @ outs1 @ outs2, rn_batcher :=
        update_requests_state (map so_id (filter so_final (outs1 @ outs2))) b2\<rparr>"
      using run unfolding runner_step_def sch Let_def prod.case res if_not_P[OF False] e1 e2 push_batch_def
      by auto
    with active[OF sch S pre_def dec_def e1 e2 _ _ dist E1 E2] False show ?thesis by simp
  qed
qed

lemma runner_step_ok:
  assumes "batch_ok (rn_batcher s)"
  shows "batch_ok (rn_batcher (snd (runner_step s)))"
proof -
  obtain n t where run: "runner_step s = (n, t)" by fastforce
  from assms run show ?thesis
  proof (cases rule: runner_step_cases)
    case (idle r b)
    with schedule_step_spec[OF assms idle(1)] run show ?thesis by (simp add: scheduled_def)
  next
    case (active r b pre dec outs1 b1 outs2 b2)
    with run show ?thesis by (simp add: update_requests_state_ok)
  qed
qed

lemma runner_do_ok: "batch_ok (rn_batcher s) \<Longrightarrow> batch_ok (rn_batcher (runner_do op s))"
  by (cases op) (simp_all add: batcher_add_ok new_request_def runner_cancel_def batcher_cancel_ok
      runner_step_ok update_requests_state_ok pop_all_def)

lemma runner_run_ok: "batch_ok (rn_batcher s) \<Longrightarrow> batch_ok (rn_batcher (runner_run ops s))"
  unfolding runner_run_def by (induction ops arbitrary: s) (simp_all add: runner_do_ok)

lemma step_vocab: "batch_ok (rn_batcher s) \<Longrightarrow> rn_cancelled (snd (runner_step s)) = rn_cancelled s"
proof -
  assume ok: "batch_ok (rn_batcher s)"
  obtain n t where run: "runner_step s = (n, t)" by fastforce
  from ok run show ?thesis by (cases rule: runner_step_cases) (simp_all add: run)
qed

lemma max_seqs_frame [simp]:
  "bt_max_seqs (update_requests_state ids s) = bt_max_seqs s"
  "bt_max_tokens (update_requests_state ids s) = bt_max_tokens s"
  unfolding update_requests_state_def
  by (induction ids arbitrary: s) (auto split: option.splits)

lemma runner_do_limits:
  assumes "batch_ok (rn_batcher s)"
  shows "bt_max_seqs (rn_batcher (runner_do op s)) = bt_max_seqs (rn_batcher s) \<and>
    bt_max_tokens (rn_batcher (runner_do op s)) = bt_max_tokens (rn_batcher s)"
proof (cases op)
  case Step
  obtain n t where run: "runner_step s = (n, t)" by fastforce
  from assms run have "bt_max_seqs (rn_batcher t) = bt_max_seqs (rn_batcher s) \<and>
    bt_max_tokens (rn_batcher t) = bt_max_tokens (rn_batcher s)"
  proof (cases rule: runner_step_cases)
    case (idle r b)
    with schedule_step_spec[OF assms idle(1)] show ?thesis
      by (simp add: scheduled_def same_requests_def)
  next
    case (active r b pre dec outs1 b1 outs2 b2)
    then show ?thesis by (simp add: scheduled_def same_requests_def heap_frame_def)
  qed
  with Step run show ?thesis by simp
qed (auto simp: batcher_add_def Let_def runner_cancel_def batcher_cancel_def pop_all_def
    split: option.splits)

lemma runner_run_limits:
  assumes "batch_ok (rn_batcher s)"
  shows "bt_max_seqs (rn_batcher (runner_run ops s)) = bt_max_seqs (rn_batcher s) \<and>
    bt_max_tokens (rn_batcher (runner_run ops s)) = bt_max_tokens (rn_batcher s)"
  using assms
proof (induction ops arbitrary: s)
  case (Cons op ops)
  from Cons.IH[OF runner_do_ok[OF Cons.prems]] runner_do_limits[OF Cons.prems] show ?case
    by (simp add: runner_run_def)
qed (simp add: runner_run_def)

lemma runner_init_ok: "batch_ok (rn_batcher (runner_init (batcher_init max_seqs max_tokens) vocab eos))"
  by (simp add: runner_init_def batch_ok_init)

abbreviation fresh_runner :: "nat \<Rightarrow> nat \<Rightarrow> nat \<Rightarrow> int \<Rightarrow> runner" where
  "fresh_runner max_seqs max_tokens vocab eos \<equiv> runner_init (batcher_init max_seqs max_tokens) vocab eos"

lemma fresh_run_ok: "batch_ok (rn_batcher (runner_run ops (fresh_runner max_seqs max_tokens vocab eos)))"
  by (rule runner_run_ok) (rule runner_init_ok)

lemma fresh_run_limits:
  "bt_max_seqs (rn_batcher (runner_run ops (fresh_runner max_seqs max_tokens vocab eos))) = max_seqs"
  "bt_max_tokens (rn_batcher (runner_run ops (fresh_runner max_seqs max_tokens vocab eos))) = max_tokens"
  using runner_run_limits[OF runner_init_ok, of ops max_seqs max_tokens vocab eos]
  by (simp_all add: runner_init_def batcher_init_def)

section \<open>Counting generated tokens\<close>

definition generated_total :: "batcher \<Rightarrow> nat" where
  "generated_total s = sum_list (map (\<lambda>r. length (rq_generated r)) (bt_heap s))"

lemma generated_total_same: "same_requests s t \<Longrightarrow> generated_total t = generated_total s"
proof -
  assume same: "same_requests s t"
  have "map (\<lambda>r. length (rq_generated r)) (bt_heap t) = map (\<lambda>r. length (rq_generated r)) (bt_heap s)"
    by (rule nth_equalityI) (simp_all add: same_requests_len[OF same] same_requests_at[OF same])
  then show ?thesis by (simp add: generated_total_def)
qed

lemma same_requests_finish: "same_requests s (update_requests_state ids t) = same_requests s t"
  unfolding update_requests_state_def
  by (induction ids arbitrary: t) (auto split: option.splits)

lemma emit_token_total:
  "a < length (bt_heap s) \<Longrightarrow> emit_token sample eos a s = (out, t) \<Longrightarrow>
   length (bt_heap t) = length (bt_heap s) \<and> generated_total t = Suc (generated_total s)"
  by (auto simp: emit_token_def Let_def set_state_def upd_req_def generated_total_def map_update
      sum_list_update elem_le_sum_list Suc_diff_le split: if_splits)

lemma emit_tokens_total:
  "emit_tokens sample eos as s = (outs, t) \<Longrightarrow> set as \<subseteq> {..<length (bt_heap s)} \<Longrightarrow>
   generated_total t = generated_total s + length as \<and> length outs = length as"
proof (induction as arbitrary: s outs)
  case (Cons a as)
  obtain out u where em: "emit_token sample eos a s = (out, u)" by fastforce
  obtain outs' where rec: "emit_tokens sample eos as u = (outs', t)" and outs: "outs = out # outs'"
    using Cons.prems(1) em by (auto split: prod.splits)
  have "length (bt_heap u) = length (bt_heap s) \<and> generated_total u = Suc (generated_total s)"
    by (rule emit_token_total[OF _ em]) (use Cons.prems in simp)
  with Cons.IH[OF rec] Cons.prems(2) outs show ?case by simp
qed simp

section \<open>Properties\<close>

text \<open>
  C4: In every reachable state of the scheduler, a scheduling step stays within the token
  budget (one token per decode request, the whole prompt per prefill request), keeps at most
  the configured number of running requests, schedules no request twice, and admits no new
  request in a step that preempts one.
\<close>

theorem scheduling_budget:
  "let s = rn_batcher (runner_run ops (fresh_runner max_seqs max_tokens vocab eos));
       (r, t) = schedule_step s
   in br_total_tokens r = length (br_decode r) + prompt_tokens s (br_prefill r) \<and>
      br_total_tokens r \<le> max_tokens \<and> length (bt_running t) \<le> max_seqs \<and>
      distinct (br_prefill r @ br_decode r) \<and> (br_preempted r = 0 \<or> br_prefill r = [])"
proof -
  let ?s = "rn_batcher (runner_run ops (fresh_runner max_seqs max_tokens vocab eos))"
  obtain r t where sch: "schedule_step ?s = (r, t)" by fastforce
  note S = schedule_step_spec[OF fresh_run_ok sch]
  have "bt_max_seqs t = max_seqs"
    using S fresh_run_limits[of ops max_seqs max_tokens vocab eos] by (simp add: scheduled_def same_requests_def)
  then have running: "length (bt_running t) \<le> max_seqs" using S by (simp add: scheduled_def batch_ok_def)
  have total: "br_total_tokens r = length (br_decode r) + prompt_tokens ?s (br_prefill r)"
    "br_total_tokens r \<le> max_tokens" "distinct (br_prefill r @ br_decode r)"
    "0 < br_preempted r \<longrightarrow> br_prefill r = []"
    using S unfolding scheduled_def fresh_run_limits by blast+
  from running total show ?thesis unfolding Let_def sch prod.case by blast
qed

text \<open>
  C27: Requests are admitted in priority order, first come first served within a priority: an
  admitted request is never behind one admitted later or left waiting. Admission is
  work-conserving: it stops only when nothing waits, when the running limit is reached, or when
  the prompt of the best waiting request does not fit the remaining token budget.
\<close>

theorem admission_order:
  "let s = rn_batcher (runner_run ops (fresh_runner max_seqs max_tokens vocab eos));
       (r, t) = schedule_step s
   in in_order s (br_prefill r) (bt_waiting t) \<and> stops_for t (br_total_tokens r)"
proof -
  let ?s = "rn_batcher (runner_run ops (fresh_runner max_seqs max_tokens vocab eos))"
  obtain r t where sch: "schedule_step ?s = (r, t)" by fastforce
  from schedule_step_spec[OF fresh_run_ok sch] show ?thesis
    unfolding Let_def sch prod.case scheduled_def by blast
qed

lemma cap_of_limit:
  "n \<le> max 1 (size_t_of x) \<Longrightarrow> int n \<le> max 1 (if x < 0 then int (size_t_of x) else x)"
  using zmod_le_nonneg_dividend[of x "2 ^ 64"] by (auto simp: size_t_of_def max_def split: if_splits)

text \<open>
  C10: However requests are submitted, preempted, resumed and cancelled, no request with a limit of at
  least 0 ever generates more tokens than its limit (or one, when the limit is zero). A negative
  limit is no limit in practice: the code compares with its conversion to \<open>size_t\<close>, for a limit of
  -1 the number 2^64 - 1, and only that number bounds the tokens.
\<close>

theorem generation_limit:
  "list_all (\<lambda>r. int (length (rq_generated r)) \<le>
      max 1 (if rq_max_new r < 0 then int (size_t_of (rq_max_new r)) else rq_max_new r))
     (bt_heap (rn_batcher (runner_run ops (fresh_runner max_seqs max_tokens vocab eos))))"
proof -
  let ?b = "rn_batcher (runner_run ops (fresh_runner max_seqs max_tokens vocab eos))"
  have "length (rq_generated r) \<le> max 1 (size_t_of (rq_max_new r))" if "r \<in> set (bt_heap ?b)" for r
    using fresh_run_ok[of ops max_seqs max_tokens vocab eos] that
    unfolding batch_ok_def token_cap_def in_set_conv_nth by auto
  then show ?thesis unfolding list_all_iff using cap_of_limit by blast
qed

lemma hit_limit_code [code]: "hit_limit r \<longleftrightarrow> rq_max_new r mod 2 ^ 64 \<le> int (length (rq_generated r))"
  by (simp add: hit_limit_def size_t_of_def nat_le_iff)

text \<open>
  A request with the limit -1 is accepted, is not finished after its first token as one with the limit
  0 is, and generates a token in every step.
\<close>

theorem negative_limit_unbounded:
  "map (\<lambda>r. length (rq_generated r))
     (bt_heap (rn_batcher (runner_run [Submit 1 [5] (-1) 0 0, Submit 2 [5] 0 0 1, Step, Step, Step, Step] (fresh_runner 4 64 100 2)))) = [4, 1] \<and>
   size_t_of (-1) = 2 ^ 64 - 1"
proof
  show "map (\<lambda>r. length (rq_generated r))
     (bt_heap (rn_batcher (runner_run [Submit 1 [5] (-1) 0 0, Submit 2 [5] 0 0 1, Step, Step, Step, Step] (fresh_runner 4 64 100 2)))) = [4, 1]"
    by code_simp
qed (simp add: size_t_of_def)

text \<open>
  Every step of the model runner pushes exactly as many outputs as it reports, and each
  stands for one token newly appended to some request: tokens are neither lost nor duplicated.
\<close>

theorem step_conserves_tokens:
  "let s = runner_run ops (fresh_runner max_seqs max_tokens vocab eos);
       (n, t) = runner_step s
   in length (rn_buffer t) = length (rn_buffer s) + n \<and>
      generated_total (rn_batcher t) = generated_total (rn_batcher s) + n"
proof -
  let ?s = "runner_run ops (fresh_runner max_seqs max_tokens vocab eos)"
  obtain n t where run: "runner_step ?s = (n, t)" by fastforce
  have "length (rn_buffer t) = length (rn_buffer ?s) + n \<and>
      generated_total (rn_batcher t) = generated_total (rn_batcher ?s) + n"
    using fresh_run_ok run
  proof (cases rule: runner_step_cases)
    case (idle r b)
    with schedule_step_spec[OF fresh_run_ok idle(1)] generated_total_same show ?thesis
      by (auto simp: scheduled_def)
  next
    case (active r b pre dec outs1 b1 outs2 b2)
    have sub: "set pre \<union> set dec \<subseteq> {..<length (bt_heap b)}"
      using active(2,3,4) by (auto simp: scheduled_def same_requests_len)
    have len: "length (bt_heap b1) = length (bt_heap b)" using active(11) by (simp add: heap_frame_def)
    have "generated_total b = generated_total (rn_batcher ?s)"
      using active(2) by (simp add: scheduled_def generated_total_same)
    moreover have "generated_total (rn_batcher t) = generated_total b2"
      using active(16) generated_total_same[OF same_requests_finish[THEN iffD2, OF same_requests_refl]]
      by simp
    ultimately show ?thesis
      using emit_tokens_total[OF active(5)] emit_tokens_total[OF active(6)] sub len active(7,16) by simp
  qed
  then show ?thesis by (simp add: run)
qed

lemma emitted_ids:
  "list_all2 (emitted sample eos s t) as outs \<Longrightarrow> map so_id outs = map (\<lambda>a. rq_id (req_at s a)) as"
  by (induction rule: list_all2_induct) (simp_all add: emitted_def)

lemma runner_do_silent:
  assumes ok: "batch_ok (rn_batcher s)" and i: "i \<in> rn_cancelled s" "i \<notin> so_id ` set (rn_buffer s)"
  shows "i \<in> rn_cancelled (runner_do op s) \<and> i \<notin> so_id ` set (rn_buffer (runner_do op s))"
proof (cases op)
  case Step
  obtain n t where run: "runner_step s = (n, t)" by fastforce
  from ok run have "i \<in> rn_cancelled t \<and> i \<notin> so_id ` set (rn_buffer t)"
  proof (cases rule: runner_step_cases)
    case (active r b pre dec outs1 b1 outs2 b2)
    have "i \<notin> so_id ` set outs1"
      using arg_cong[OF emitted_ids[OF active(12)], of set] i(1) active(3) by auto
    moreover have "req_at b1 a = req_at b a" if "a \<in> set dec" for a
      using active(9,11) that by (auto simp: heap_frame_def)
    then have "i \<notin> so_id ` set outs2"
      using arg_cong[OF emitted_ids[OF active(15)], of set] i(1) active(4) by auto
    ultimately show ?thesis using i active(16) by auto
  qed (use i in simp)
  with Step run show ?thesis by simp
qed (use i in \<open>auto simp: runner_cancel_def pop_all_def\<close>)

lemma runner_run_silent:
  assumes "batch_ok (rn_batcher s)" "i \<in> rn_cancelled s" "i \<notin> so_id ` set (rn_buffer s)"
  shows "i \<notin> so_id ` set (rn_buffer (runner_run ops s))"
  using assms
proof (induction ops arbitrary: s)
  case (Cons op ops)
  from Cons.IH[OF runner_do_ok[OF Cons.prems(1)]] runner_do_silent[OF Cons.prems] show ?case
    by (simp add: runner_run_def)
qed (simp add: runner_run_def)

text \<open>
  Once a request has been cancelled and the outputs produced before are drained, no later
  operation puts an output for its id into the stream buffer.
\<close>

theorem cancelled_is_silent:
  "i \<notin> so_id ` set (rn_buffer (runner_run later (runner_do Drain (runner_do (Cancel i)
     (runner_run earlier (fresh_runner max_seqs max_tokens vocab eos))))))"
proof (rule runner_run_silent)
  let ?s = "runner_run earlier (fresh_runner max_seqs max_tokens vocab eos)"
  show "batch_ok (rn_batcher (runner_do Drain (runner_do (Cancel i) ?s)))"
    by (intro runner_do_ok fresh_run_ok)
qed (simp_all add: runner_cancel_def pop_all_def)

end
