(* ===== verification/Engine.thy ===== *)
theory Engine
  imports Kv_Frame Scheduling
begin

text \<open>
  The synchronous engine of \<open>cudaforge/engine.py\<close>: \<open>LLMEngine\<close> registers a request in the paged
  KV cache and queues it in the batcher, runs steps of the model runner, maintains the KV cache for
  the tokens produced, and releases finished or cancelled requests.

  \<^item> The native objects are the models of \<open>Kv_Cache\<close> and \<open>Batcher\<close>. Python integers cross the
    binding into \<open>int32\<close> and raise \<open>TypeError\<close> when they do not fit (\<open>in_int32\<close>).
  \<^item> The addresses of the memory pools come from the device allocator and are arguments of
    \<open>engine_init\<close>; the arrival clock is an argument of \<open>add_request\<close>.
  \<^item> An operation that raises returns the exception with the state it leaves behind.
\<close>

section \<open>Configuration and data\<close>

record sampling_params =
  sp_temperature :: real
  sp_top_p :: real
  sp_top_k :: int
  sp_max_tokens :: int
  sp_priority :: int
  sp_stop_token_ids :: "int list"
  sp_ignore_eos :: bool

definition default_sampling_params :: sampling_params where
  "default_sampling_params =
     \<lparr>sp_temperature = 1, sp_top_p = 1, sp_top_k = -1, sp_max_tokens = 128, sp_priority = 0,
      sp_stop_token_ids = [], sp_ignore_eos = False\<rparr>"

record engine_config =
  ec_num_layers :: nat
  ec_num_kv_heads :: nat
  ec_head_dim :: nat
  ec_vocab_size :: nat
  ec_eos_token_id :: int
  ec_element_size_bytes :: nat
  ec_block_size :: nat
  ec_total_gpu_blocks :: nat
  ec_enable_prefix_caching :: bool
  ec_max_blocks_per_sequence :: nat
  ec_max_num_seqs :: nat
  ec_max_num_batched_tokens :: nat

definition default_engine_config :: engine_config where
  "default_engine_config =
     \<lparr>ec_num_layers = 32, ec_num_kv_heads = 8, ec_head_dim = 128, ec_vocab_size = 32000,
      ec_eos_token_id = 2, ec_element_size_bytes = 2, ec_block_size = 16,
      ec_total_gpu_blocks = 1024, ec_enable_prefix_caching = True,
      ec_max_blocks_per_sequence = 512, ec_max_num_seqs = 256, ec_max_num_batched_tokens = 8192\<rparr>"

definition to_native_kv_config :: "engine_config \<Rightarrow> kv_config" where
  "to_native_kv_config c =
     \<lparr>kc_num_layers = ec_num_layers c, kc_num_kv_heads = ec_num_kv_heads c,
      kc_head_dim = ec_head_dim c, kc_block_size = ec_block_size c,
      kc_element_size = ec_element_size_bytes c, kc_total_blocks = ec_total_gpu_blocks c,
      kc_prefix_caching = ec_enable_prefix_caching c, kc_max_batch = ec_max_num_seqs c,
      kc_max_blocks_seq = ec_max_blocks_per_sequence c\<rparr>"

record generation_output =
  go_request_id :: nat
  go_token_id :: int
  go_is_final :: bool
  go_error :: "string option"

datatype engine_error = RuntimeError | ValueError | TypeError | KvRaised kv_error

section \<open>The engine\<close>

record engine =
  en_config :: engine_config
  en_counter :: nat
  en_active :: "(nat \<times> sampling_params) list"
  en_kv :: kv_cache
  en_runner :: runner

definition engine_init ::
  "bool \<Rightarrow> (int \<Rightarrow> 64 word) \<Rightarrow> nat \<Rightarrow> nat \<Rightarrow> engine_config \<Rightarrow> engine_error + engine" where
  "engine_init has_native h kp vp c =
     (if \<not> has_native then Inl RuntimeError
      else Inr \<lparr>en_config = c, en_counter = 0, en_active = [],
                en_kv = kv_init (to_native_kv_config c) h kp vp,
                en_runner = runner_init (batcher_init (ec_max_num_seqs c) (ec_max_num_batched_tokens c))
                              (ec_vocab_size c) (ec_eos_token_id c)\<rparr>)"

definition in_int32 :: "int \<Rightarrow> bool" where
  "in_int32 x \<longleftrightarrow> - (2 ^ 31) \<le> x \<and> x < 2 ^ 31"

text \<open>Calls of the KV cache, with its exceptions and its state inside the engine's.\<close>

definition on_kv :: "(kv_error, 'a, kv_cache) eff \<Rightarrow> engine \<Rightarrow> (engine_error, 'a, engine) eff" where
  "on_kv m s = (case m of (Inl e, k) \<Rightarrow> (Inl (KvRaised e), s\<lparr>en_kv := k\<rparr>)
                        | (Inr a, k) \<Rightarrow> (Inr a, s\<lparr>en_kv := k\<rparr>))"

definition raise_if :: "bool \<Rightarrow> engine_error \<Rightarrow> engine \<Rightarrow> (engine_error, unit, engine) eff" where
  "raise_if b e s = (if b then (Inl e, s) else (Inr (), s))"

definition upd_batcher :: "(batcher \<Rightarrow> batcher) \<Rightarrow> engine \<Rightarrow> engine" where
  "upd_batcher f s = s\<lparr>en_runner := (en_runner s)\<lparr>rn_batcher := f (rn_batcher (en_runner s))\<rparr>\<rparr>"

text \<open>The result of the batcher's \<open>add_request\<close> is ignored, as in the code.\<close>

definition add_request ::
  "int list \<Rightarrow> sampling_params option \<Rightarrow> nat \<Rightarrow> engine \<Rightarrow> (engine_error, nat, engine) eff" where
  "add_request prompt params now s0 =
     (let sp = (case params of None \<Rightarrow> default_sampling_params | Some p \<Rightarrow> p);
          req_id = en_counter s0 + 1;
          s = s0\<lparr>en_counter := req_id\<rparr>
      in eff_bind (raise_if (\<not> list_all in_int32 prompt) TypeError s)
        (\<lambda>_ s. eff_bind (on_kv (register_sequence_with_prefix req_id prompt (en_kv s)) s)
        (\<lambda>matched s. eff_bind
            (raise_if (\<not> in_int32 (sp_max_tokens sp) \<or> \<not> in_int32 (sp_priority sp)) TypeError s)
        (\<lambda>_ s. let r = new_request req_id prompt (sp_max_tokens sp) (sp_priority sp) now;
                   s1 = upd_batcher (\<lambda>b. snd (batcher_add r b)) s
               in (Inr req_id, s1\<lparr>en_active := AList.update req_id sp (en_active s1)\<rparr>)))))"

text \<open>\<open>is_final\<close> of an output after the stop-token check of \<open>step\<close>.\<close>

definition output_final :: "(nat \<times> sampling_params) list \<Rightarrow> stream_output \<Rightarrow> bool" where
  "output_final active out =
     (case map_of active (so_id out) of
        None \<Rightarrow> so_final out
      | Some sp \<Rightarrow> if so_token out \<in> set (sp_stop_token_ids sp) then True else so_final out)"

definition to_generation_output :: "(nat \<times> sampling_params) list \<Rightarrow> stream_output \<Rightarrow> generation_output" where
  "to_generation_output active out =
     \<lparr>go_request_id = so_id out, go_token_id = so_token out,
      go_is_final = output_final active out, go_error = None\<rparr>"

text \<open>The loop over the popped outputs: results so far and finished ids so far.\<close>

fun step_outputs ::
  "stream_output list \<Rightarrow> generation_output list \<Rightarrow> nat list \<Rightarrow> engine \<Rightarrow>
   (engine_error, generation_output list \<times> nat list, engine) eff" where
  "step_outputs [] results finished s = (Inr (results, finished), s)"
| "step_outputs (out # outs) results finished s =
     (let final = output_final (en_active s) out;
          result = to_generation_output (en_active s) out
      in eff_bind (if final then (Inr (), s) else on_kv (append_tokens (so_id out) 1 (en_kv s)) s)
           (\<lambda>_ s. step_outputs outs (results @ [result])
                    (if final then finished @ [so_id out] else finished) s))"

definition release_request :: "nat \<Rightarrow> engine \<Rightarrow> engine" where
  "release_request i s =
     s\<lparr>en_kv := unregister_sequence i (en_kv s), en_active := AList.delete i (en_active s)\<rparr>"

definition step :: "engine \<Rightarrow> (engine_error, generation_output list, engine) eff" where
  "step s0 =
     (let (_, r1) = runner_step (en_runner s0);
          (raw, r2) = pop_all r1;
          s = s0\<lparr>en_runner := r2\<rparr>
      in eff_bind (step_outputs raw [] [] s)
           (\<lambda>(results, finished) s.
              (Inr results,
               if finished = [] then s
               else fold release_request finished (upd_batcher (update_requests_state finished) s))))"

definition cancel_request :: "nat \<Rightarrow> engine \<Rightarrow> engine" where
  "cancel_request i s = release_request i (s\<lparr>en_runner := runner_cancel i (en_runner s)\<rparr>)"

definition get_stats :: "engine \<Rightarrow> kv_stats" where
  "get_stats s = kv_get_stats (en_kv s)"

end
