(* ===== verification/Engine_Contract.thy ===== *)
theory Engine_Contract
  imports Engine
begin

text \<open>
  What the engine promises over its operations: it refines the abstract state that maps every
  registered request to its context length, through the contract \<open>context_store\<close> of the KV cache.
\<close>

section \<open>Abstraction and invariant\<close>

definition en_ctx :: "engine \<Rightarrow> nat \<Rightarrow> nat option" where
  "en_ctx s = kv_context (en_kv s)"

definition engine_ok :: "engine \<Rightarrow> bool" where
  "engine_ok s \<longleftrightarrow> (\<exists>leak. kv_inv leak (en_kv s)) \<and> batch_ok (rn_batcher (en_runner s)) \<and>
     (\<forall>i. en_ctx s i \<noteq> None \<longrightarrow> i \<le> en_counter s) \<and>
     (\<forall>i. map_of (en_active s) i \<noteq> None \<longrightarrow> en_ctx s i \<noteq> None)"

abbreviation en_evictions :: "engine \<Rightarrow> nat" where
  "en_evictions s \<equiv> kv_evictions (en_kv s)"

lemma on_kv_cases:
  assumes "on_kv m s = (r, t)"
  obtains (err) e k where "m = (Inl e, k)" "r = Inl (KvRaised e)" "t = s\<lparr>en_kv := k\<rparr>"
  | (ok) a k where "m = (Inr a, k)" "r = Inr a" "t = s\<lparr>en_kv := k\<rparr>"
  using assms by (cases m; cases "fst m") (auto simp: on_kv_def)

lemma upd_batcher_sel [simp]:
  "en_kv (upd_batcher f s) = en_kv s" "en_active (upd_batcher f s) = en_active s"
  "en_counter (upd_batcher f s) = en_counter s" "en_config (upd_batcher f s) = en_config s"
  "rn_batcher (en_runner (upd_batcher f s)) = f (rn_batcher (en_runner s))"
  by (simp_all add: upd_batcher_def)

section \<open>The output loop\<close>

lemma step_outputs_spec:
  assumes "step_outputs outs results finished s = (r, t)"
  defines "final \<equiv> output_final (en_active s)"
  shows "\<exists>r' k. append_each append_tokens (map so_id (filter (\<lambda>out. \<not> final out) outs)) (en_kv s) = (r', k) \<and>
    t = s\<lparr>en_kv := k\<rparr> \<and>
    r = map_sum KvRaised (\<lambda>_. (results @ map (to_generation_output (en_active s)) outs,
                                finished @ map so_id (filter final outs))) r'"
  using assms(1) unfolding final_def
proof (induction outs arbitrary: results finished s)
  case (Cons out outs)
  show ?case
  proof (cases "output_final (en_active s) out")
    case True
    with Cons.prems have "step_outputs outs (results @ [to_generation_output (en_active s) out])
        (finished @ [so_id out]) s = (r, t)" by (simp add: Let_def)
    from Cons.IH[OF this] True show ?thesis by simp
  next
    case False
    obtain r1 s1 where kv: "on_kv (append_tokens (so_id out) 1 (en_kv s)) s = (r1, s1)" by fastforce
    from kv show ?thesis
    proof (cases rule: on_kv_cases)
      case (err e k)
      with Cons.prems False kv show ?thesis by (auto simp: Let_def)
    next
      case (ok a k)
      have "step_outputs outs (results @ [to_generation_output (en_active s) out]) finished s1 = (r, t)"
        using Cons.prems False kv ok by (simp add: Let_def)
      from Cons.IH[OF this] ok False show ?thesis by simp
    qed
  qed
qed auto

lemma fold_release:
  "en_kv (fold release_request is s) = fold unregister_sequence is (en_kv s)"
  "en_runner (fold release_request is s) = en_runner s"
  "en_counter (fold release_request is s) = en_counter s"
  "map_of (en_active (fold release_request is s)) i =
     (if i \<in> set is then None else map_of (en_active s) i)"
  by (induction "is" arbitrary: s) (auto simp: release_request_def map_of_delete)

text \<open>A step, successful or not, in terms of its outputs.\<close>

definition step_outs :: "engine \<Rightarrow> stream_output list" where
  "step_outs s = rn_buffer (snd (runner_step (en_runner s)))"

definition pending_ids :: "engine \<Rightarrow> nat list" where
  "pending_ids s = map so_id (filter (\<lambda>out. \<not> output_final (en_active s) out) (step_outs s))"

definition final_ids :: "engine \<Rightarrow> nat list" where
  "final_ids s = map so_id (filter (output_final (en_active s)) (step_outs s))"

lemma step_cases:
  assumes "step s = (r, t)"
  obtains (err) e k where "append_each append_tokens (pending_ids s) (en_kv s) = (Inl e, k)"
    "r = Inl (KvRaised e)"
    "t = s\<lparr>en_runner := (snd (runner_step (en_runner s)))\<lparr>rn_buffer := []\<rparr>, en_kv := k\<rparr>"
  | (ok) k u where "append_each append_tokens (pending_ids s) (en_kv s) = (Inr (), k)"
    "r = Inr (map (to_generation_output (en_active s)) (step_outs s))"
    "u = s\<lparr>en_runner := (snd (runner_step (en_runner s)))\<lparr>rn_buffer := []\<rparr>, en_kv := k\<rparr>"
    "t = fold release_request (final_ids s)
       (if final_ids s = [] then u else upd_batcher (update_requests_state (final_ids s)) u)"
proof -
  let ?s = "s\<lparr>en_runner := (snd (runner_step (en_runner s)))\<lparr>rn_buffer := []\<rparr>\<rparr>"
  obtain r1 s1 where loop: "step_outputs (step_outs s) [] [] ?s = (r1, s1)" by fastforce
  have st: "step s = eff_bind (r1, s1) (\<lambda>(results, finished) s.
      (Inr results, if finished = [] then s
        else fold release_request finished (upd_batcher (update_requests_state finished) s)))"
    using loop by (simp add: step_def pop_all_def step_outs_def split_beta)
  obtain r' k where L: "append_each append_tokens (pending_ids s) (en_kv s) = (r', k)"
    "s1 = ?s\<lparr>en_kv := k\<rparr>"
    "r1 = map_sum KvRaised (\<lambda>_. (map (to_generation_output (en_active s)) (step_outs s), final_ids s)) r'"
    using step_outputs_spec[OF loop] by (auto simp: pending_ids_def final_ids_def)
  show ?thesis
  proof (cases r')
    case (Inl e)
    with L st assms show ?thesis by (intro err) auto
  next
    case (Inr u)
    with L st assms show ?thesis by (intro ok[OF _ _ refl]) auto
  qed
qed

section \<open>Steps\<close>

lemma map_of_delete_en [simp]: "map_of (en_active (release_request i s)) j =
    (if j = i then None else map_of (en_active s) j)"
  by (simp add: release_request_def map_of_delete)

lemma runner_step_pop_ok:
  "batch_ok (rn_batcher r) \<Longrightarrow> batch_ok (rn_batcher ((snd (runner_step r))\<lparr>rn_buffer := []\<rparr>))"
  using runner_step_ok by simp

lemma step_evictions: "step s = (r, t) \<Longrightarrow> en_evictions s \<le> en_evictions t"
proof (cases rule: step_cases)
  fix k u assume A: "append_each append_tokens (pending_ids s) (en_kv s) = (Inr (), k)"
    "u = s\<lparr>en_runner := (snd (runner_step (en_runner s)))\<lparr>rn_buffer := []\<rparr>, en_kv := k\<rparr>"
    "t = fold release_request (final_ids s)
       (if final_ids s = [] then u else upd_batcher (update_requests_state (final_ids s)) u)"
  have ev: "kv_evictions (fold unregister_sequence is x) = kv_evictions x" for "is" x
    by (induction "is" arbitrary: x) simp_all
  have "en_kv t = fold unregister_sequence (final_ids s) k" using A(2,3) by (simp add: fold_release)
  with kv.each_evs[OF A(1)] ev show ?thesis by simp
qed (auto dest: kv.each_evs)

text \<open>A successful step on the abstract state.\<close>

lemma step_ok_ctx:
  assumes ok: "engine_ok s" and run: "step s = (Inr results, t)" and ev: "en_evictions t = en_evictions s"
  shows "engine_ok t" "set (pending_ids s) \<subseteq> dom (en_ctx s)"
    "en_ctx t = (\<lambda>i. if i \<in> set (final_ids s) then None
       else map_option (\<lambda>c. c + count_list (pending_ids s) i) (en_ctx s i))"
    "results = map (to_generation_output (en_active s)) (step_outs s)"
    "map_of (en_active t) = (\<lambda>i. if i \<in> set (final_ids s) then None else map_of (en_active s) i)"
    "en_counter t = en_counter s"
proof -
  obtain k u where A: "append_each append_tokens (pending_ids s) (en_kv s) = (Inr (), k)"
    "u = s\<lparr>en_runner := (snd (runner_step (en_runner s)))\<lparr>rn_buffer := []\<rparr>, en_kv := k\<rparr>"
    "t = fold release_request (final_ids s)
       (if final_ids s = [] then u else upd_batcher (update_requests_state (final_ids s)) u)"
    and res: "results = map (to_generation_output (en_active s)) (step_outs s)"
    using run by (cases rule: step_cases) auto
  have inv: "\<exists>leak. kv_inv leak (en_kv s)" using ok by (simp add: engine_ok_def)
  have kv: "en_kv t = fold unregister_sequence (final_ids s) k"
    and act: "map_of (en_active t) = (\<lambda>i. if i \<in> set (final_ids s) then None else map_of (en_active s) i)"
    and cnt: "en_counter t = en_counter s"
    using A(2,3) by (auto simp: fold_release)
  have evk: "kv_evictions (fold unregister_sequence is x) = kv_evictions x" for "is" x
    by (induction "is" arbitrary: x) simp_all
  have "kv_evictions k = kv_evictions (en_kv s)" using ev kv evk by simp
  note E = kv.each_ctx[OF inv A(1) this]
  have R: "(\<exists>leak. kv_inv leak (en_kv t)) \<and>
      kv_context (en_kv t) = (\<lambda>i. if i \<in> set (final_ids s) then None else kv_context k i)"
    using kv.release_ctx[of k "final_ids s"] E by (simp add: kv)
  show ctx: "en_ctx t = (\<lambda>i. if i \<in> set (final_ids s) then None
      else map_option (\<lambda>c. c + count_list (pending_ids s) i) (en_ctx s i))"
    using R E by (simp add: en_ctx_def fun_eq_iff)
  show "set (pending_ids s) \<subseteq> dom (en_ctx s)" using E by (simp add: en_ctx_def)
  show "results = map (to_generation_output (en_active s)) (step_outs s)" by (rule res)
  show "map_of (en_active t) = (\<lambda>i. if i \<in> set (final_ids s) then None else map_of (en_active s) i)"
    by (rule act)
  show "en_counter t = en_counter s" by (rule cnt)
  have "batch_ok (rn_batcher (en_runner t))"
    using ok runner_step_ok[of "en_runner s"] A(2,3)
    by (simp add: engine_ok_def fold_release update_requests_state_ok)
  with R ok ctx act cnt show "engine_ok t"
    by (auto simp: engine_ok_def split: if_splits)
qed

lemma step_err_ok:
  assumes ok: "engine_ok s" and run: "step s = (Inl e, t)" and ev: "en_evictions t = en_evictions s"
  shows "engine_ok t"
proof -
  obtain e' k where A: "append_each append_tokens (pending_ids s) (en_kv s) = (Inl e', k)"
    and t: "t = s\<lparr>en_runner := (snd (runner_step (en_runner s)))\<lparr>rn_buffer := []\<rparr>, en_kv := k\<rparr>"
    using run by (cases rule: step_cases) auto
  have inv: "\<exists>leak. kv_inv leak (en_kv s)" using ok by (simp add: engine_ok_def)
  have "(\<exists>leak. kv_inv leak k) \<and> dom (kv_context k) = dom (kv_context (en_kv s))"
    by (rule kv.each_inv[OF inv A]) (use ev in \<open>simp add: t\<close>)
  moreover from this have "kv_context k i \<noteq> None \<longleftrightarrow> kv_context (en_kv s) i \<noteq> None" for i
    by (metis domIff)
  ultimately show ?thesis
    using ok runner_step_ok[of "en_runner s"] by (simp add: engine_ok_def en_ctx_def t)
qed

section \<open>Adding and cancelling requests\<close>

lemma raise_if_cases: "raise_if b e s = (r, t) \<longleftrightarrow> t = s \<and> r = (if b then Inl e else Inr ())"
  by (auto simp: raise_if_def)

text \<open>How far a request gets before it raises.\<close>

lemma add_request_cases:
  assumes "add_request prompt params now s = (r, t)"
  defines "i \<equiv> Suc (en_counter s)"
    and "sp \<equiv> (case params of None \<Rightarrow> default_sampling_params | Some p \<Rightarrow> p)"
  obtains (bad_prompt) "r = Inl TypeError" "t = s\<lparr>en_counter := i\<rparr>"
  | (no_pages) e k where "register_sequence_with_prefix i prompt (en_kv s) = (Inl e, k)"
    "r = Inl (KvRaised e)" "t = s\<lparr>en_counter := i, en_kv := k\<rparr>"
  | (bad_params) m k where "register_sequence_with_prefix i prompt (en_kv s) = (Inr m, k)"
    "r = Inl TypeError" "t = s\<lparr>en_counter := i, en_kv := k\<rparr>"
  | (ok) m k where "register_sequence_with_prefix i prompt (en_kv s) = (Inr m, k)" "r = Inr i"
    "t = (upd_batcher (\<lambda>b. snd (batcher_add (new_request i prompt (sp_max_tokens sp) (sp_priority sp) now) b))
           (s\<lparr>en_counter := i, en_kv := k\<rparr>))\<lparr>en_active := AList.update i sp (en_active s)\<rparr>"
proof -
  obtain r1 k where reg: "register_sequence_with_prefix i prompt (en_kv s) = (r1, k)" by fastforce
  consider "\<not> list_all in_int32 prompt" | e where "list_all in_int32 prompt" "r1 = Inl e"
    | m where "list_all in_int32 prompt" "r1 = Inr m" by (cases r1) auto
  then show ?thesis
  proof cases
    case 1
    with assms show ?thesis by (intro bad_prompt) (auto simp: add_request_def Let_def raise_if_def)
  next
    case (2 e)
    with assms reg show ?thesis
      by (intro no_pages[of e k]) (auto simp: add_request_def Let_def raise_if_def on_kv_def)
  next
    case (3 m)
    show ?thesis
    proof (cases "in_int32 (sp_max_tokens sp) \<and> in_int32 (sp_priority sp)")
      case True
      with 3 assms reg show ?thesis
        by (intro ok[of m k]) (auto simp: add_request_def Let_def raise_if_def on_kv_def)
    next
      case False
      with 3 assms reg show ?thesis
        by (intro bad_params[of m k]) (auto simp: add_request_def Let_def raise_if_def on_kv_def)
    qed
  qed
qed

lemma fresh_ctx: "engine_ok s \<Longrightarrow> kv_context (en_kv s) (Suc (en_counter s)) = None"
  by (fastforce simp: engine_ok_def en_ctx_def)

lemma add_request_ok:
  assumes ok: "engine_ok s" and pk: "prompt_ok (en_kv s) prompt"
    and run: "add_request prompt params now s = (r, t)" and ev: "en_evictions t = en_evictions s"
  shows "engine_ok t"
proof -
  have inv: "\<exists>leak. kv_inv leak (en_kv s)" using ok by (simp add: engine_ok_def)
  note fresh = fresh_ctx[OF ok]
  have le: "en_ctx s i \<noteq> None \<Longrightarrow> i \<le> Suc (en_counter s)" for i
    using ok by (fastforce simp: engine_ok_def)
  from run show ?thesis
  proof (cases rule: add_request_cases)
    case bad_prompt
    with ok le show ?thesis by (simp add: engine_ok_def en_ctx_def)
  next
    case (no_pages e k)
    with kv.reg_fail[OF inv fresh pk no_pages(1)] ev ok le show ?thesis
      by (simp add: engine_ok_def en_ctx_def)
  next
    case (bad_params m k)
    with kv.reg_ctx[OF inv fresh pk bad_params(1)] ev ok le show ?thesis
      by (simp add: engine_ok_def en_ctx_def)
  next
    case (ok m k)
    with kv.reg_ctx[OF inv fresh pk ok(1)] ev assms(1) le show ?thesis
      by (simp add: engine_ok_def en_ctx_def batcher_add_ok new_request_def map_of_update)
  qed
qed

lemma cancel_ok: "engine_ok s \<Longrightarrow> engine_ok (cancel_request i s) \<and>
    en_ctx (cancel_request i s) = (en_ctx s)(i := None) \<and>
    en_evictions (cancel_request i s) = en_evictions s"
proof -
  assume ok: "engine_ok s"
  then have inv: "\<exists>leak. kv_inv leak (en_kv s)" by (simp add: engine_ok_def)
  from kv.unreg_ctx[OF inv, of i] ok show ?thesis
    by (auto simp: engine_ok_def en_ctx_def cancel_request_def release_request_def runner_cancel_def
        batcher_cancel_ok map_of_delete)
qed

section \<open>Runs\<close>

datatype engine_op =
  Add_Request "int list" "sampling_params option" nat
| Engine_Step
| Cancel_Request nat

fun engine_do :: "engine_op \<Rightarrow> engine \<Rightarrow> engine" where
  "engine_do (Add_Request prompt params now) s = snd (add_request prompt params now s)"
| "engine_do Engine_Step s = snd (step s)"
| "engine_do (Cancel_Request i) s = cancel_request i s"

definition engine_run :: "engine_op list \<Rightarrow> engine \<Rightarrow> engine" where
  "engine_run ops s = fold engine_do ops s"

text \<open>The prompts submitted to the engine avoid the reserved block hash.\<close>

fun op_prompt_ok :: "kv_cache \<Rightarrow> engine_op \<Rightarrow> bool" where
  "op_prompt_ok k (Add_Request prompt _ _) = prompt_ok k prompt"
| "op_prompt_ok k _ = True"

lemma each_frame: "append_each append_tokens is k = (r, k') \<Longrightarrow>
    kv_cfg k' = kv_cfg k \<and> kv_std_hash k' = kv_std_hash k"
proof (induction "is" arbitrary: k)
  case (Cons i "is")
  obtain r1 k1 where a: "append_tokens i 1 k = (r1, k1)" by fastforce
  from append_frame(1,2)[OF a] Cons a show ?case by (cases r1) auto
qed simp

lemma fold_unregister_frame: "kv_cfg (fold unregister_sequence is k) = kv_cfg k \<and>
    kv_std_hash (fold unregister_sequence is k) = kv_std_hash k"
  by (induction "is" arbitrary: k) simp_all

lemma engine_do_frame:
  assumes bs: "0 < kv_bs (en_kv s)"
  shows "kv_cfg (en_kv (engine_do op s)) = kv_cfg (en_kv s) \<and>
    kv_std_hash (en_kv (engine_do op s)) = kv_std_hash (en_kv s) \<and>
    en_evictions s \<le> en_evictions (engine_do op s)"
proof (cases op)
  case (Add_Request prompt params now)
  obtain r t where run: "add_request prompt params now s = (r, t)" by fastforce
  from run have "kv_cfg (en_kv t) = kv_cfg (en_kv s) \<and> kv_std_hash (en_kv t) = kv_std_hash (en_kv s) \<and>
      en_evictions s \<le> en_evictions t"
    by (cases rule: add_request_cases) (auto dest: register_frame[OF bs])
  with run Add_Request show ?thesis by simp
next
  case Engine_Step
  obtain r t where run: "step s = (r, t)" by fastforce
  from run have "kv_cfg (en_kv t) = kv_cfg (en_kv s) \<and> kv_std_hash (en_kv t) = kv_std_hash (en_kv s)"
    by (cases rule: step_cases) (auto dest: each_frame simp: fold_release fold_unregister_frame)
  with step_evictions[OF run] run Engine_Step show ?thesis by simp
next
  case (Cancel_Request i)
  then show ?thesis by (simp add: cancel_request_def release_request_def)
qed

lemma engine_run_frame:
  assumes "0 < kv_bs (en_kv s)"
  shows "kv_cfg (en_kv (engine_run ops s)) = kv_cfg (en_kv s) \<and> en_evictions s \<le> en_evictions (engine_run ops s)"
  using assms
proof (induction ops arbitrary: s)
  case (Cons op ops)
  note F = engine_do_frame[OF Cons.prems, of op]
  then have "0 < kv_bs (en_kv (engine_do op s))" using Cons.prems by simp
  from Cons.IH[OF this] F show ?case by (simp add: engine_run_def)
qed (simp add: engine_run_def)

lemma engine_do_ok:
  assumes "engine_ok s" "op_prompt_ok (en_kv s) op" "en_evictions (engine_do op s) = en_evictions s"
  shows "engine_ok (engine_do op s)"
proof (cases op)
  case (Add_Request prompt params now)
  obtain r t where run: "add_request prompt params now s = (r, t)" by fastforce
  with add_request_ok[OF assms(1) _ run] assms(2,3) Add_Request show ?thesis by simp
next
  case Engine_Step
  obtain r t where run: "step s = (r, t)" by fastforce
  with step_ok_ctx(1)[OF assms(1)] step_err_ok[OF assms(1)] assms(3) Engine_Step show ?thesis
    by (cases r) auto
next
  case (Cancel_Request i)
  with cancel_ok[OF assms(1)] show ?thesis by simp
qed

lemma engine_run_ok:
  assumes "engine_ok s" "\<forall>op \<in> set ops. op_prompt_ok (en_kv s) op"
    and "en_evictions (engine_run ops s) = en_evictions s"
  shows "engine_ok (engine_run ops s)"
  using assms
proof (induction ops arbitrary: s)
  case (Cons op ops)
  let ?t = "engine_do op s"
  have bs: "0 < kv_bs (en_kv s)" using Cons.prems(1) by (auto simp: engine_ok_def kv_inv_with_def shape_ok_def)
  note F = engine_do_frame[OF bs, of op]
  have run: "engine_run (op # ops) s = engine_run ops ?t" by (simp add: engine_run_def)
  have "en_evictions ?t \<le> en_evictions (engine_run ops ?t)"
    using engine_run_frame[of ?t ops] F bs by simp
  then have ev: "en_evictions ?t = en_evictions s" "en_evictions (engine_run ops ?t) = en_evictions ?t"
    using F Cons.prems(3) run by simp_all
  have ok: "engine_ok ?t" by (rule engine_do_ok[OF Cons.prems(1) _ ev(1)]) (use Cons.prems(2) in simp)
  have "op_prompt_ok (en_kv ?t) x = op_prompt_ok (en_kv s) x" for x
    using F by (cases x) (simp_all add: prompt_ok_def prompt_hashes_def)
  then have "\<forall>x \<in> set ops. op_prompt_ok (en_kv ?t) x" using Cons.prems(2) by simp
  from Cons.IH[OF ok this ev(2)] show ?case by (simp add: run)
qed (simp add: engine_run_def)

lemma engine_init_ok:
  assumes "engine_init True h kp vp c = Inr s" "0 < ec_block_size c"
  shows "engine_ok s"
proof -
  have "kv_inv (\<lambda>_. 0) (kv_init (to_native_kv_config c) h kp vp)"
    by (rule kv_inv_init) (use assms(2) in \<open>simp add: to_native_kv_config_def\<close>)
  moreover have "kv_context (kv_init (to_native_kv_config c) h kp vp) i = None" for i
    by (simp add: kv_context_def kv_init_def)
  ultimately show ?thesis
    using assms(1) by (auto simp: engine_init_def engine_ok_def en_ctx_def runner_init_def batch_ok_init)
qed

definition demo_engine_config :: "nat \<Rightarrow> nat \<Rightarrow> engine_config" where
  "demo_engine_config bs blocks =
     \<lparr>ec_num_layers = 1, ec_num_kv_heads = 1, ec_head_dim = 1, ec_vocab_size = 20,
      ec_eos_token_id = 2, ec_element_size_bytes = 2, ec_block_size = bs,
      ec_total_gpu_blocks = blocks, ec_enable_prefix_caching = False,
      ec_max_blocks_per_sequence = 4, ec_max_num_seqs = 2, ec_max_num_batched_tokens = 4\<rparr>"

definition demo_engine :: "nat \<Rightarrow> nat \<Rightarrow> engine" where
  "demo_engine bs blocks =
     \<lparr>en_config = demo_engine_config bs blocks, en_counter = 0, en_active = [],
      en_kv = kv_init (to_native_kv_config (demo_engine_config bs blocks)) word_of_int 1 2,
      en_runner = fresh_runner 2 4 20 2\<rparr>"

lemma demo_engine_init:
  "engine_init True word_of_int 1 2 (demo_engine_config bs blocks) = Inr (demo_engine bs blocks)"
  by (simp add: engine_init_def demo_engine_def demo_engine_config_def)

lemma demo_engine_ok: "0 < bs \<Longrightarrow> engine_ok (demo_engine bs blocks)"
  by (rule engine_init_ok[OF demo_engine_init]) (simp add: demo_engine_config_def)

lemma demo_prompt_ok [simp]: "prompt_ok (en_kv (demo_engine bs blocks)) prompt"
  by (simp add: prompt_ok_def demo_engine_def kv_init_def to_native_kv_config_def demo_engine_config_def)

section \<open>Properties\<close>

text \<open>
  C3: In every state that a run of add, step and cancel reaches without an eviction (and with
  prompts that avoid the reserved block hash), whichever of the operations raised, the KV cache and
  the scheduler satisfy their invariants, every active request is registered in the KV cache, and
  no id beyond the request counter is registered.
\<close>

theorem engine_invariant:
  assumes "engine_init True h kp vp c = Inr s" and "0 < ec_block_size c"
    and "\<forall>op \<in> set ops. op_prompt_ok (en_kv s) op" and "en_evictions (engine_run ops s) = 0"
  shows "engine_ok (engine_run ops s)"
proof -
  have "en_evictions s = 0" using assms(1) by (auto simp: engine_init_def kv_init_def)
  with assms(4) show ?thesis
    using engine_run_ok[OF engine_init_ok[OF assms(1,2)] assms(3)] by simp
qed

theorem engine_invariant_witness:
  "engine_ok (engine_run [Add_Request [7, 8] None 0, Engine_Step, Cancel_Request 1] (demo_engine 2 4))"
proof (rule engine_invariant[OF demo_engine_init])
  show "en_evictions (engine_run [Add_Request [7, 8] None 0, Engine_Step, Cancel_Request 1] (demo_engine 2 4)) = 0"
    by code_simp
qed (simp_all add: demo_engine_config_def)

text \<open>
  Adding a request without an eviction gives it the next id, activates it with its parameters, and
  changes the abstract state at that id only; cancelling one changes the state at its id only.
\<close>

lemma add_registers:
  assumes "engine_ok s" and "prompt_ok (en_kv s) prompt"
    and "add_request prompt params now s = (Inr i, t)" and "en_evictions t = en_evictions s"
  shows "engine_ok t \<and> i = Suc (en_counter s) \<and> en_counter t = i \<and>
    en_ctx t = (en_ctx s)(i \<mapsto> length prompt) \<and>
    map_of (en_active t) = (map_of (en_active s))(i \<mapsto> (case params of None \<Rightarrow> default_sampling_params | Some p \<Rightarrow> p))"
proof -
  have inv: "\<exists>leak. kv_inv leak (en_kv s)" using assms(1) by (simp add: engine_ok_def)
  note ok = add_request_ok[OF assms]
  from assms(3) show ?thesis
  proof (cases rule: add_request_cases)
    case (ok m k)
    with kv.reg_ctx[OF inv fresh_ctx[OF assms(1)] assms(2) ok(1)] assms(4)
      add_request_ok[OF assms] show ?thesis
      by (simp add: en_ctx_def map_of_update fun_eq_iff)
  qed simp_all
qed

lemma cancel_contract:
  assumes "engine_ok s"
  shows "engine_ok (cancel_request i s)" "en_ctx (cancel_request i s) = (en_ctx s)(i := None)"
    "map_of (en_active (cancel_request i s)) = (map_of (en_active s))(i := None)"
    "en_evictions (cancel_request i s) = en_evictions s" "en_counter (cancel_request i s) = en_counter s"
  using cancel_ok[OF assms, of i]
  by (auto simp: cancel_request_def release_request_def map_of_delete)

text \<open>
  C26: In a state that satisfies the invariant of the engine (the states that runs without evictions
  and with prompts that avoid the reserved block hash reach; not those after an eviction), a
  request whose prompt has no block hash equal to the reserved value 0 (when prefix caching is on),
  that is added without an eviction and cancelled again leaves no trace but the id it used up: in
  between its context has the length of its prompt and its parameters are those given, every other
  request's stay as they are, and after the cancellation the contexts, the active requests and the
  invariant are what they were.
\<close>

theorem request_withdrawn:
  assumes "engine_ok s" and "prompt_ok (en_kv s) prompt"
    and "add_request prompt params now s = (Inr i, t)" and "en_evictions t = en_evictions s"
  shows "let u = cancel_request i t in
    i = Suc (en_counter s) \<and> engine_ok t \<and> en_ctx t = (en_ctx s)(i \<mapsto> length prompt) \<and>
    map_of (en_active t) = (map_of (en_active s))(i \<mapsto> (case params of None \<Rightarrow> default_sampling_params | Some p \<Rightarrow> p)) \<and>
    engine_ok u \<and> en_ctx u = en_ctx s \<and> map_of (en_active u) = map_of (en_active s) \<and>
    en_counter u = i \<and> en_evictions u = en_evictions s"
proof -
  note added = add_registers[OF assms]
  then have "engine_ok t" by blast
  note gone = cancel_contract[OF this, of i]
  have new: "en_ctx s i = None" using fresh_ctx[OF assms(1)] added by (simp add: en_ctx_def)
  then have "map_of (en_active s) i = None" using assms(1) unfolding engine_ok_def by blast
  with new gone added assms(4) show ?thesis by (simp add: Let_def fun_upd_idem)
qed

theorem request_withdrawn_witness:
  "let t = snd (add_request [7, 8] None 0 (demo_engine 2 4)); u = cancel_request 1 t
   in map_of (en_active t) 1 = Some default_sampling_params \<and> en_ctx u = en_ctx (demo_engine 2 4) \<and> en_counter u = 1"
proof -
  let ?t = "snd (add_request [7, 8] None 0 (demo_engine 2 4))"
  have run: "add_request [7, 8] None 0 (demo_engine 2 4) = (Inr 1, ?t)" by (rule prod_eqI) (code_simp, simp)
  have ev: "en_evictions ?t = en_evictions (demo_engine 2 4)" by code_simp
  from request_withdrawn[OF demo_engine_ok demo_prompt_ok run ev] show ?thesis
    by (simp add: Let_def)
qed

text \<open>
  C2: In a state that satisfies the invariant of the engine (the states that runs without evictions
  and with prompts that avoid the reserved block hash reach; not those after an eviction), a
  step that returns without an eviction keeps the invariant and refines the abstract state: it
  reports every output of the model runner in order, with the stop-token check applied; the context
  of each request grows by its number of non-final outputs; and requests with a final output are
  released from the KV cache and the active table.
\<close>

theorem step_refines:
  assumes "engine_ok s" and "step s = (Inr results, t)" and "en_evictions t = en_evictions s"
  shows "engine_ok t \<and> results = map (to_generation_output (en_active s)) (step_outs s) \<and>
    en_ctx t = (\<lambda>i. if i \<in> set (final_ids s) then None
       else map_option (\<lambda>c. c + count_list (pending_ids s) i) (en_ctx s i)) \<and>
    map_of (en_active t) = (\<lambda>i. if i \<in> set (final_ids s) then None else map_of (en_active s) i)"
  using step_ok_ctx[OF assms] by blast

theorem step_refines_witness:
  "let s = snd (add_request [7, 8] None 0 (demo_engine 2 4)); t = snd (step s)
   in engine_ok t \<and> en_ctx s 1 = Some 2 \<and> en_ctx t 1 = Some 3 \<and> pending_ids s = [1]"
proof -
  define s where "s = snd (add_request [7, 8] None 0 (demo_engine 2 4))"
  have add: "add_request [7, 8] None 0 (demo_engine 2 4) = (Inr 1, s)" unfolding s_def by (rule prod_eqI) (code_simp, simp)
  have "en_evictions s = en_evictions (demo_engine 2 4)" unfolding s_def by code_simp
  note added = add_registers[OF demo_engine_ok demo_prompt_ok add this, simplified]
  have run: "step s = (Inr [\<lparr>go_request_id = 1, go_token_id = 9, go_is_final = False, go_error = None\<rparr>], snd (step s))"
    unfolding s_def by (rule prod_eqI) (code_simp, simp)
  have ids: "pending_ids s = [1]" "final_ids s = []" unfolding s_def by code_simp+
  have ev: "en_evictions (snd (step s)) = en_evictions s" unfolding s_def by code_simp
  have ctx: "en_ctx s 1 = Some 2" using added by simp
  have "engine_ok s" using added by blast
  from step_refines[OF this run ev] have "engine_ok (snd (step s))" "en_ctx (snd (step s)) 1 = Some 3"
    using ctx ids by simp_all
  with ctx ids(1) show ?thesis unfolding Let_def s_def by blast
qed

text \<open>
  A step that raises drops its outputs. With two one-token blocks in use by two
  requests, the step generates a token for each, raises \<open>OutOfPages\<close> while extending the first
  context, and leaves an empty stream buffer: both tokens are lost to the caller.
\<close>

theorem step_error_loses_outputs:
  "let s = engine_run [Add_Request [7] None 0, Add_Request [9] None 1] (demo_engine 1 2);
       (r, t) = step s
   in r = Inl (KvRaised OutOfPages) \<and> map so_token (step_outs s) = [8, 10] \<and>
      rn_buffer (en_runner t) = [] \<and> map rq_generated (bt_heap (rn_batcher (en_runner t))) = [[8], [10]]"
  by code_simp

text \<open>
  An empty prompt is rejected by the batcher, whose answer the engine ignores: the caller
  gets a request id, the request stays active and holds a cache block, but it is not queued.
\<close>

theorem empty_prompt_never_queued:
  "let (r, t) = add_request [] None 0 (demo_engine 2 4)
   in r = Inr 1 \<and> map fst (en_active t) = [1] \<and> st_allocated_blocks (get_stats t) = 1 \<and>
      get_pending_count (rn_batcher (en_runner t)) = 0 \<and> get_running_count (rn_batcher (en_runner t)) = 0"
  by code_simp

end
