(* ===== verification/Async_Engine.thy ===== *)
theory Async_Engine
  imports Engine_Contract "HOL-Library.Sublist"
begin

text \<open>
  \<open>AsyncLLMEngine\<close> of \<open>cudaforge/engine.py\<close>: the background loop that steps the synchronous engine
  and routes its outputs to per-request queues, and the generators that consume them.

  \<^item> \<open>asyncio\<close> is cooperative: a coroutine runs without interruption up to the next \<open>await\<close> that
    suspends. Putting into an unbounded queue never suspends, so one round of the loop, and the
    submission of a request, are atomic steps; the interleavings of such steps are the runs of the
    relation \<open>astep\<close>.
  \<^item> Every call of \<open>generate\<close> creates a queue of its own, kept in its stream; the dictionary of
    queues maps a request id to the index of the stream.
  \<^item> A generator is suspended in \<open>queue.get()\<close> or at \<open>yield\<close>; a cancellation of the awaiting task
    raises \<open>CancelledError\<close> there, while closing it at a \<open>yield\<close> raises \<open>GeneratorExit\<close>.
\<close>

section \<open>State\<close>

datatype stream_state = GETTING | YIELDED generation_output | DONE | CANCELLED | CLOSED

record stream =
  st_req :: nat
  st_queue :: "generation_output list"
  st_state :: stream_state
  st_received :: "generation_output list"

record async_engine =
  ae_engine :: engine
  ae_queues :: "(nat \<times> nat) list"
  ae_running :: bool
  ae_streams :: "stream list"

definition async_init :: "engine \<Rightarrow> async_engine" where
  "async_init e = \<lparr>ae_engine = e, ae_queues = [], ae_running = False, ae_streams = []\<rparr>"

definition async_start :: "async_engine \<Rightarrow> async_engine" where
  "async_start s = (if \<not> ae_running s then s\<lparr>ae_running := True\<rparr> else s)"

definition async_shutdown :: "async_engine \<Rightarrow> async_engine" where
  "async_shutdown s = (if ae_running s then s\<lparr>ae_running := False\<rparr> else s)"

definition upd_stream :: "nat \<Rightarrow> (stream \<Rightarrow> stream) \<Rightarrow> async_engine \<Rightarrow> async_engine" where
  "upd_stream k f s = s\<lparr>ae_streams := (ae_streams s)[k := f (ae_streams s ! k)]\<rparr>"

section \<open>The background loop\<close>

definition route_output :: "generation_output \<Rightarrow> async_engine \<Rightarrow> async_engine" where
  "route_output out s =
     (case map_of (ae_queues s) (go_request_id out) of
        None \<Rightarrow> s
      | Some k \<Rightarrow>
          let t = upd_stream k (\<lambda>st. st\<lparr>st_queue := st_queue st @ [out]\<rparr>) s
          in if go_is_final out then t\<lparr>ae_queues := AList.delete (go_request_id out) (ae_queues t)\<rparr> else t)"

text \<open>One round while the loop runs: the outputs of the step, and the state after routing them.\<close>

definition loop_round :: "async_engine \<Rightarrow> generation_output list \<times> async_engine" where
  "loop_round s =
     (let b = rn_batcher (en_runner (ae_engine s)) in
      if 0 < get_running_count b \<or> 0 < get_pending_count b then
        (case step (ae_engine s) of
           (Inr outs, e) \<Rightarrow> (outs, fold route_output outs (s\<lparr>ae_engine := e\<rparr>))
         | (Inl _, e) \<Rightarrow> ([], s\<lparr>ae_engine := e\<rparr>))
      else ([], s))"

section \<open>The generators\<close>

text \<open>From the first call of the generator to its first suspension.\<close>

definition generate ::
  "int list \<Rightarrow> sampling_params option \<Rightarrow> nat \<Rightarrow> async_engine \<Rightarrow> (engine_error, nat, async_engine) eff" where
  "generate prompt params now s0 =
     (let s = async_start s0 in
      case add_request prompt params now (ae_engine s) of
        (Inl e, en) \<Rightarrow> (Inl e, s\<lparr>ae_engine := en\<rparr>)
      | (Inr req_id, en) \<Rightarrow>
          (Inr (length (ae_streams s)),
           s\<lparr>ae_engine := en,
             ae_queues := AList.update req_id (length (ae_streams s)) (ae_queues s),
             ae_streams := ae_streams s @
               [\<lparr>st_req = req_id, st_queue = [], st_state = GETTING, st_received = []\<rparr>]\<rparr>))"

text \<open>\<open>queue.get()\<close> returns and the output is yielded; then the consumer asks for the next.\<close>

definition deliver :: "nat \<Rightarrow> async_engine \<Rightarrow> async_engine" where
  "deliver k s =
     upd_stream k (\<lambda>st. st\<lparr>st_queue := tl (st_queue st), st_state := YIELDED (hd (st_queue st)),
                          st_received := st_received st @ [hd (st_queue st)]\<rparr>) s"

definition resume :: "nat \<Rightarrow> async_engine \<Rightarrow> async_engine" where
  "resume k s =
     upd_stream k (\<lambda>st. case st_state st of
         YIELDED out \<Rightarrow> st\<lparr>st_state := (if go_is_final out then DONE else GETTING)\<rparr> | _ \<Rightarrow> st) s"

definition cancel_stream :: "nat \<Rightarrow> async_engine \<Rightarrow> async_engine" where
  "cancel_stream k s =
     (let req_id = st_req (ae_streams s ! k) in
      upd_stream k (\<lambda>st. st\<lparr>st_state := CANCELLED\<rparr>)
        (s\<lparr>ae_engine := cancel_request req_id (ae_engine s),
           ae_queues := AList.delete req_id (ae_queues s)\<rparr>))"

definition close_stream :: "nat \<Rightarrow> async_engine \<Rightarrow> async_engine" where
  "close_stream k s = upd_stream k (\<lambda>st. st\<lparr>st_state := CLOSED\<rparr>) s"

section \<open>Interleavings\<close>

definition suspended :: "stream \<Rightarrow> bool" where
  "suspended st = (case st_state st of GETTING \<Rightarrow> True | YIELDED _ \<Rightarrow> True | _ \<Rightarrow> False)"

text \<open>\<open>astep s outs t\<close>: one atomic step, in which the engine produced the outputs \<open>outs\<close>.\<close>

inductive astep :: "async_engine \<Rightarrow> generation_output list \<Rightarrow> async_engine \<Rightarrow> bool" where
  a_start: "astep s [] (async_start s)"
| a_shutdown: "astep s [] (async_shutdown s)"
| a_round: "ae_running s \<Longrightarrow> loop_round s = (outs, t) \<Longrightarrow> astep s outs t"
| a_generate: "generate prompt params now s = (r, t) \<Longrightarrow> astep s [] t"
| a_deliver: "k < length (ae_streams s) \<Longrightarrow> st_state (ae_streams s ! k) = GETTING \<Longrightarrow>
    st_queue (ae_streams s ! k) \<noteq> [] \<Longrightarrow> astep s [] (deliver k s)"
| a_resume: "k < length (ae_streams s) \<Longrightarrow> st_state (ae_streams s ! k) = YIELDED out \<Longrightarrow>
    astep s [] (resume k s)"
| a_cancel: "k < length (ae_streams s) \<Longrightarrow> suspended (ae_streams s ! k) \<Longrightarrow> astep s [] (cancel_stream k s)"
| a_close: "k < length (ae_streams s) \<Longrightarrow> st_state (ae_streams s ! k) = YIELDED out \<Longrightarrow>
    astep s [] (close_stream k s)"

inductive arun :: "async_engine \<Rightarrow> generation_output list \<Rightarrow> async_engine \<Rightarrow> bool" where
  arun_refl: "arun s [] s"
| arun_step: "arun s hist t \<Longrightarrow> astep t outs u \<Longrightarrow> arun s (hist @ outs) u"

section \<open>Outputs carry ids that were given out\<close>

definition ids_below :: "engine \<Rightarrow> bool" where
  "ids_below e \<longleftrightarrow> batch_ok (rn_batcher (en_runner e)) \<and> rn_buffer (en_runner e) = [] \<and>
     (\<forall>r \<in> set (bt_heap (rn_batcher (en_runner e))). rq_id r \<le> en_counter e)"

lemma same_ids: "same_requests s t \<Longrightarrow> map rq_id (bt_heap t) = map rq_id (bt_heap s)"
  by (rule nth_equalityI) (auto simp: same_requests_len same_requests_at)

lemma frame_ids: "heap_frame A s t \<Longrightarrow> map rq_id (bt_heap t) = map rq_id (bt_heap s)"
  by (rule nth_equalityI) (auto simp: heap_frame_def)

lemma finish_ids: "map rq_id (bt_heap (update_requests_state is s)) = map rq_id (bt_heap s)"
  using same_requests_finish[of s "is" s] by (intro same_ids) simp

lemma runner_step_ids:
  assumes "batch_ok (rn_batcher r)"
  shows "map rq_id (bt_heap (rn_batcher (snd (runner_step r)))) = map rq_id (bt_heap (rn_batcher r)) \<and>
    so_id ` set (rn_buffer (snd (runner_step r))) \<subseteq>
      so_id ` set (rn_buffer r) \<union> rq_id ` set (bt_heap (rn_batcher r))"
proof -
  obtain n t where run: "runner_step r = (n, t)" by fastforce
  from assms run have "map rq_id (bt_heap (rn_batcher t)) = map rq_id (bt_heap (rn_batcher r)) \<and>
    so_id ` set (rn_buffer t) \<subseteq> so_id ` set (rn_buffer r) \<union> rq_id ` set (bt_heap (rn_batcher r))"
  proof (cases rule: runner_step_cases)
    case (idle res b)
    then show ?thesis
      using schedule_step_spec[OF assms idle(1)] by (simp add: scheduled_def same_ids)
  next
    case (active res b pre dec outs1 b1 outs2 b2)
    have same: "same_requests (rn_batcher r) b" using active(2) by (simp add: scheduled_def)
    note I = same_ids[OF same] frame_ids[OF active(11)] frame_ids[OF active(14)]
    have in_heap: "rq_id (req_at x a) \<in> set (map rq_id (bt_heap x))" if "a < length (bt_heap x)" for x a
      using that by (simp add: image_iff) (metis nth_mem)
    have len: "a < length (bt_heap b)" if "a \<in> set (pre @ dec)" for a
    proof -
      have "a \<in> set (br_prefill res @ br_decode res)" using that active(3,4) by auto
      with scheduled_live[OF assms active(2), of a] show ?thesis by blast
    qed
    have O1: "so_id ` set outs1 \<subseteq> set (map rq_id (bt_heap b))"
    proof
      fix i assume "i \<in> so_id ` set outs1"
      then have "i \<in> (\<lambda>a. rq_id (req_at b a)) ` set pre"
        using arg_cong[OF emitted_ids[OF active(12)], of set] by simp
      with in_heap len show "i \<in> set (map rq_id (bt_heap b))" by auto
    qed
    have len1: "length (bt_heap b1) = length (bt_heap b)" using active(11) by (simp add: heap_frame_def)
    have O2: "so_id ` set outs2 \<subseteq> set (map rq_id (bt_heap b1))"
    proof
      fix i assume "i \<in> so_id ` set outs2"
      then have "i \<in> (\<lambda>a. rq_id (req_at b1 a)) ` set dec"
        using arg_cong[OF emitted_ids[OF active(15)], of set] by simp
      with in_heap len len1 show "i \<in> set (map rq_id (bt_heap b1))" by auto
    qed
    have buf: "rn_buffer t = rn_buffer r @ outs1 @ outs2" by (subst active(16)) simp
    have heap: "map rq_id (bt_heap (rn_batcher t)) = map rq_id (bt_heap b2)"
      by (subst active(16)) (simp add: finish_ids)
    have "so_id ` set (rn_buffer t) \<subseteq> so_id ` set (rn_buffer r) \<union> set (map rq_id (bt_heap (rn_batcher r)))"
      using O1 O2 unfolding buf I(1,2) set_append image_Un by blast
    with heap I show ?thesis by simp
  qed
  then show ?thesis by (simp add: run)
qed

lemma ids_below_intro:
  assumes "ids_below e" "map rq_id (bt_heap (rn_batcher (en_runner u))) = map rq_id (bt_heap (rn_batcher (en_runner e)))"
    "batch_ok (rn_batcher (en_runner u))" "en_counter e \<le> en_counter u" "rn_buffer (en_runner u) = []"
  shows "ids_below u"
proof -
  have "set (map rq_id (bt_heap (rn_batcher (en_runner u)))) \<subseteq> {..en_counter e}"
    unfolding assms(2) using assms(1) by (auto simp: ids_below_def)
  with assms(3-) show ?thesis by (fastforce simp: ids_below_def)
qed

lemma step_ids:
  assumes below: "ids_below e" and run: "step e = (r, u)"
  shows "ids_below u \<and> en_counter u = en_counter e \<and>
    (\<forall>outs. r = Inr outs \<longrightarrow> go_request_id ` set outs \<subseteq> {..en_counter e})"
proof -
  let ?r = "snd (runner_step (en_runner e))"
  have ok: "batch_ok (rn_batcher (en_runner e))" and buf: "rn_buffer (en_runner e) = []"
    using below by (simp_all add: ids_below_def)
  note R = runner_step_ids[OF ok] runner_step_ok[OF ok]
  have outs: "so_id ` set (step_outs e) \<subseteq> {..en_counter e}"
    using R(1) below by (auto simp: step_outs_def buf ids_below_def)
  from run show ?thesis
  proof (cases rule: step_cases)
    case (err x k)
    show ?thesis using err R by (auto intro!: ids_below_intro[OF below])
  next
    case (ok k v)
    have U: "en_counter u = en_counter e" "en_runner u = en_runner (if final_ids e = [] then v else
        upd_batcher (update_requests_state (final_ids e)) v)"
      using ok(3) by (simp_all add: ok(4) fold_release)
    then have "rn_batcher (en_runner u) = (if final_ids e = [] then rn_batcher ?r
        else update_requests_state (final_ids e) (rn_batcher ?r))" "rn_buffer (en_runner u) = []"
      using ok(3) by (simp_all add: upd_batcher_def)
    with R U(1) have "ids_below u"
      by (intro ids_below_intro[OF below]) (auto simp: finish_ids update_requests_state_ok)
    with U(1) ok(2) outs show ?thesis by (auto simp: to_generation_output_def)
  qed
qed

lemma add_ids:
  assumes below: "ids_below e" and run: "add_request prompt params now e = (r, u)"
  shows "ids_below u \<and> en_counter u = Suc (en_counter e) \<and> (\<forall>i. r = Inr i \<longrightarrow> i = Suc (en_counter e))"
proof -
  from run show ?thesis
  proof (cases rule: add_request_cases)
    case (ok m k)
    with below show ?thesis
      by (auto simp: ids_below_def batcher_add_ok new_request_def upd_batcher_def)
        (auto simp: batcher_add_def Let_def split: if_splits intro: le_SucI)
  qed (use below in \<open>auto simp: ids_below_def intro: le_SucI\<close>)
qed

lemma cancel_ids: "ids_below e \<Longrightarrow> ids_below (cancel_request i e) \<and>
    en_counter (cancel_request i e) = en_counter e"
proof -
  assume below: "ids_below e"
  have "map rq_id (bt_heap (snd (batcher_cancel i b))) = map rq_id (bt_heap b)" if "batch_ok b" for b
    using that by (intro same_ids) (auto simp: batcher_cancel_def Let_def split: option.splits)
  then show ?thesis using below
    by (intro conjI ids_below_intro[OF below])
      (auto simp: cancel_request_def release_request_def runner_cancel_def ids_below_def batcher_cancel_ok)
qed

section \<open>The outputs of one request\<close>

definition of_req :: "nat \<Rightarrow> generation_output list \<Rightarrow> generation_output list" where
  "of_req r outs = filter (\<lambda>out. go_request_id out = r) outs"

fun upto_final :: "generation_output list \<Rightarrow> generation_output list" where
  "upto_final [] = []"
| "upto_final (out # outs) = (if go_is_final out then [out] else out # upto_final outs)"

abbreviation ended :: "generation_output list \<Rightarrow> bool" where
  "ended outs \<equiv> list_ex go_is_final outs"

lemma of_req_append [simp]: "of_req r (xs @ ys) = of_req r xs @ of_req r ys"
  by (simp add: of_req_def)

lemma of_req_single: "of_req r [out] = (if go_request_id out = r then [out] else [])"
  by (simp add: of_req_def)

lemma upto_final_append: "upto_final (xs @ ys) = (if ended xs then upto_final xs else xs @ upto_final ys)"
  by (induction xs) auto

lemma upto_final_open: "\<not> ended xs \<Longrightarrow> upto_final xs = xs"
  by (induction xs) auto

lemma upto_final_ended: "ended xs \<Longrightarrow> upto_final xs \<noteq> [] \<and> go_is_final (last (upto_final xs)) \<and>
    \<not> ended (butlast (upto_final xs))"
  by (induction xs) auto

lemma prefix_upto_final: "prefix (upto_final xs) (upto_final (xs @ ys))"
  by (simp add: upto_final_append upto_final_open)

section \<open>The invariant of the routing\<close>

definition consumer_ok :: "stream \<Rightarrow> bool" where
  "consumer_ok st \<longleftrightarrow>
     (case st_state st of
        GETTING \<Rightarrow> \<not> ended (st_received st)
      | YIELDED out \<Rightarrow> st_received st \<noteq> [] \<and> last (st_received st) = out \<and> \<not> ended (butlast (st_received st))
      | DONE \<Rightarrow> st_received st \<noteq> [] \<and> go_is_final (last (st_received st))
      | _ \<Rightarrow> True)"

definition routed :: "generation_output list \<Rightarrow> (nat \<times> nat) list \<Rightarrow> nat \<Rightarrow> stream \<Rightarrow> bool" where
  "routed hist queues k st \<longleftrightarrow>
     (let outs = of_req (st_req st) hist; got = st_received st @ st_queue st in
      if st_state st = CANCELLED then map_of queues (st_req st) = None \<and> prefix got (upto_final outs)
      else got = upto_final outs \<and> (map_of queues (st_req st) = Some k \<longleftrightarrow> \<not> ended outs))"

definition routing_ok :: "async_engine \<Rightarrow> generation_output list \<Rightarrow> bool" where
  "routing_ok s hist \<longleftrightarrow>
     distinct (map st_req (ae_streams s)) \<and>
     (\<forall>k < length (ae_streams s). routed hist (ae_queues s) k (ae_streams s ! k) \<and>
        consumer_ok (ae_streams s ! k)) \<and>
     (\<forall>r k. map_of (ae_queues s) r = Some k \<longrightarrow> k < length (ae_streams s) \<and> st_req (ae_streams s ! k) = r)"

definition async_ok :: "async_engine \<Rightarrow> generation_output list \<Rightarrow> bool" where
  "async_ok s hist \<longleftrightarrow> routing_ok s hist \<and> ids_below (ae_engine s) \<and>
     set (map st_req (ae_streams s)) \<subseteq> {..en_counter (ae_engine s)} \<and>
     (\<forall>out \<in> set hist. go_request_id out \<le> en_counter (ae_engine s))"

lemma async_start_sel [simp]:
  "ae_engine (async_start s) = ae_engine s" "ae_streams (async_start s) = ae_streams s"
  "ae_queues (async_start s) = ae_queues s"
  by (simp_all add: async_start_def)

lemma consumer_ok_queue [simp]: "consumer_ok (st\<lparr>st_queue := q\<rparr>) = consumer_ok st"
  by (simp add: consumer_ok_def split: stream_state.split)

lemma upd_stream_sel [simp]:
  "ae_engine (upd_stream k f s) = ae_engine s" "ae_queues (upd_stream k f s) = ae_queues s"
  "ae_running (upd_stream k f s) = ae_running s"
  "ae_streams (upd_stream k f s) = (ae_streams s)[k := f (ae_streams s ! k)]"
  by (simp_all add: upd_stream_def)

lemma reqs_update [simp]: "st_req (f (xs ! k)) = st_req (xs ! k) \<Longrightarrow>
    map st_req (xs[k := f (xs ! k)]) = map st_req xs"
  by (cases "k < length xs") (auto intro!: nth_equalityI simp: nth_list_update_if list_update_beyond)

lemma route_ok:
  assumes ok: "routing_ok s hist"
  shows "routing_ok (route_output out s) (hist @ [out])"
proof (cases "map_of (ae_queues s) (go_request_id out)")
  case None
  have "routed (hist @ [out]) (ae_queues s) k (ae_streams s ! k)" if "k < length (ae_streams s)" for k
  proof -
    have "routed hist (ae_queues s) k (ae_streams s ! k)" using ok that by (simp add: routing_ok_def)
    then show ?thesis using None prefix_upto_final
      by (auto simp: routed_def Let_def of_req_single upto_final_append upto_final_open
          intro: prefix_order.trans split: if_splits)
  qed
  with ok None show ?thesis by (simp add: routing_ok_def route_output_def)
next
  case (Some k)
  let ?r = "go_request_id out" and ?st = "ae_streams s ! k"
  have k: "k < length (ae_streams s)" "st_req ?st = ?r" using ok Some by (auto simp: routing_ok_def)
  have R: "routed hist (ae_queues s) k ?st" "consumer_ok ?st" using ok k by (auto simp: routing_ok_def)
  have live: "st_state ?st \<noteq> CANCELLED" "\<not> ended (of_req ?r hist)"
    "st_received ?st @ st_queue ?st = of_req ?r hist"
    using R(1) Some k(2) by (auto simp: routed_def Let_def upto_final_open split: if_splits)
  let ?t = "route_output out s"
  have S: "ae_streams ?t = (ae_streams s)[k := ?st\<lparr>st_queue := st_queue ?st @ [out]\<rparr>]"
    "map_of (ae_queues ?t) = (if go_is_final out then (map_of (ae_queues s))(?r := None) else map_of (ae_queues s))"
    by (auto simp: route_output_def Some Let_def map_of_delete fun_eq_iff)
  have reqs: "map st_req (ae_streams ?t) = map st_req (ae_streams s)"
    unfolding S(1) by (rule reqs_update[where f = "\<lambda>st. st\<lparr>st_queue := st_queue st @ [out]\<rparr>"]) simp
  have "routed (hist @ [out]) (ae_queues ?t) j (ae_streams ?t ! j) \<and> consumer_ok (ae_streams ?t ! j)"
    if j: "j < length (ae_streams s)" for j
  proof (cases "j = k")
    case True
    have "st_received ?st @ st_queue ?st @ [out] = of_req ?r hist @ [out]" using live(3) by simp
    then show ?thesis using True k live R(2) Some
      by (auto simp: S routed_def Let_def of_req_single upto_final_append upto_final_open)
  next
    case False
    have "st_req (ae_streams s ! j) \<noteq> ?r"
      using False j k nth_eq_iff_index_eq[of "map st_req (ae_streams s)" j k] ok by (simp add: routing_ok_def)
    moreover have "routed hist (ae_queues s) j (ae_streams s ! j)" "consumer_ok (ae_streams s ! j)"
      using ok j by (auto simp: routing_ok_def)
    ultimately show ?thesis using False
      by (auto simp: S routed_def Let_def of_req_single)
  qed
  moreover have "i < length (ae_streams ?t) \<and> st_req (ae_streams ?t ! i) = r"
    if "map_of (ae_queues ?t) r = Some i" for r i
  proof -
    have "map_of (ae_queues s) r = Some i" using that S(2) by (auto split: if_splits)
    with ok have i: "i < length (ae_streams s)" "st_req (ae_streams s ! i) = r" by (auto simp: routing_ok_def)
    have len: "length (ae_streams ?t) = length (ae_streams s)" by (simp add: S(1))
    have "st_req (ae_streams ?t ! i) = st_req (ae_streams s ! i)"
      using arg_cong[OF reqs, of "\<lambda>l. l ! i"] i(1) len by simp
    with i len show ?thesis by simp
  qed
  ultimately show ?thesis using ok reqs by (simp add: routing_ok_def S(1))
qed

lemma route_all_ok: "routing_ok s hist \<Longrightarrow> routing_ok (fold route_output outs s) (hist @ outs)"
proof (induction outs arbitrary: s hist)
  case (Cons out outs)
  from Cons.IH[OF route_ok[OF Cons.prems, of out]] show ?case by simp
qed simp

lemma route_frame:
  "ae_engine (fold route_output outs s) = ae_engine s"
  "map st_req (ae_streams (fold route_output outs s)) = map st_req (ae_streams s)"
proof -
  have one: "ae_engine (route_output out s) = ae_engine s \<and>
    map st_req (ae_streams (route_output out s)) = map st_req (ae_streams s)" for out s
    using reqs_update[where f = "\<lambda>st. st\<lparr>st_queue := st_queue st @ [out]\<rparr>"]
    by (auto simp: route_output_def Let_def split: option.split)
  show "ae_engine (fold route_output outs s) = ae_engine s"
    "map st_req (ae_streams (fold route_output outs s)) = map st_req (ae_streams s)"
    by (induction outs arbitrary: s) (simp_all add: one)
qed

text \<open>Steps of a consumer change one stream, and only the part that was received.\<close>

lemma stream_step_ok:
  assumes ok: "async_ok s hist" and k: "k < length (ae_streams s)"
    and f: "st_req (f (ae_streams s ! k)) = st_req (ae_streams s ! k)"
      "st_state (ae_streams s ! k) \<noteq> CANCELLED" "st_state (f (ae_streams s ! k)) \<noteq> CANCELLED"
      "st_received (f (ae_streams s ! k)) @ st_queue (f (ae_streams s ! k)) =
         st_received (ae_streams s ! k) @ st_queue (ae_streams s ! k)"
      "consumer_ok (f (ae_streams s ! k))"
  shows "async_ok (upd_stream k f s) hist"
proof -
  have reqs: "map st_req ((ae_streams s)[k := f (ae_streams s ! k)]) = map st_req (ae_streams s)"
    by (rule reqs_update[where f = f]) (rule f(1))
  have nth: "st_req ((ae_streams s)[k := f (ae_streams s ! k)] ! j) = st_req (ae_streams s ! j)"
    if "j < length (ae_streams s)" for j
    using f(1) k by (simp add: nth_list_update_if)
  have "routed hist (ae_queues s) j ((ae_streams s)[k := f (ae_streams s ! k)] ! j) \<and>
      consumer_ok ((ae_streams s)[k := f (ae_streams s ! k)] ! j)" if j: "j < length (ae_streams s)" for j
  proof (cases "j = k")
    case True
    have "routed hist (ae_queues s) k (ae_streams s ! k)" using ok k by (simp add: async_ok_def routing_ok_def)
    with f True k show ?thesis by (simp add: routed_def Let_def)
  next
    case False
    with ok j show ?thesis by (simp add: async_ok_def routing_ok_def)
  qed
  moreover have "set (map st_req ((ae_streams s)[k := f (ae_streams s ! k)])) \<subseteq> {..en_counter (ae_engine s)}"
    unfolding reqs using ok by (simp add: async_ok_def)
  ultimately show ?thesis using ok reqs nth by (simp add: async_ok_def routing_ok_def)
qed

lemma round_ok:
  assumes ok: "async_ok s hist" and run: "loop_round s = (outs, t)"
  shows "async_ok t (hist @ outs)"
proof -
  obtain r e where st: "step (ae_engine s) = (r, e)" by fastforce
  have below: "ids_below (ae_engine s)" using ok by (simp add: async_ok_def)
  note I = step_ids[OF below st]
  have frame: "async_ok (s\<lparr>ae_engine := e\<rparr>) hist"
    using ok I by (simp add: async_ok_def routing_ok_def)
  show ?thesis
  proof (cases "outs = [] \<and> (t = s \<or> t = s\<lparr>ae_engine := e\<rparr>)")
    case True
    with ok frame show ?thesis by auto
  next
    case False
    then have R: "r = Inr outs" "t = fold route_output outs (s\<lparr>ae_engine := e\<rparr>)"
      using run st by (auto simp: loop_round_def Let_def split: if_splits sum.splits)
    have "routing_ok t (hist @ outs)"
      unfolding R(2) by (rule route_all_ok) (use frame in \<open>simp add: async_ok_def\<close>)
    moreover have "set (map st_req (ae_streams t)) \<subseteq> {..en_counter e}"
      unfolding R(2) route_frame(2) using ok I by (simp add: async_ok_def)
    moreover have "go_request_id ` set outs \<subseteq> {..en_counter e}" using I R(1) by simp
    ultimately show ?thesis using ok I R(2) by (auto simp: async_ok_def route_frame)
  qed
qed

lemma generate_ok:
  assumes ok: "async_ok s hist" and run: "generate prompt params now s = (r, t)"
  shows "async_ok t hist"
proof -
  obtain r' e where add: "add_request prompt params now (ae_engine s) = (r', e)" by fastforce
  have below: "ids_below (ae_engine s)" using ok by (simp add: async_ok_def)
  note I = add_ids[OF below add]
  show ?thesis
  proof (cases r')
    case (Inl x)
    then have "t = (async_start s)\<lparr>ae_engine := e\<rparr>"
      using run add by (simp add: generate_def Let_def)
    with ok I show ?thesis by (auto simp: async_ok_def routing_ok_def intro: le_SucI)
  next
    case (Inr i)
    let ?n = "length (ae_streams s)"
    have i: "i = Suc (en_counter (ae_engine s))" using I Inr by simp
    have T: "ae_engine t = e" "ae_queues t = AList.update i ?n (ae_queues s)" "ae_streams t = ae_streams s @
        [\<lparr>st_req = i, st_queue = [], st_state = GETTING, st_received = []\<rparr>]"
      using run add Inr by (auto simp: generate_def Let_def)
    have new: "of_req i hist = []" using ok i by (auto simp: of_req_def async_ok_def filter_empty_conv)
    have old: "st_req (ae_streams s ! k) \<noteq> i" if "k < ?n" for k
      using ok i nth_mem[OF that] by (fastforce simp: async_ok_def)
    have "routed hist (ae_queues t) k (ae_streams t ! k) \<and> consumer_ok (ae_streams t ! k)"
      if "k < Suc ?n" for k
    proof (cases "k = ?n")
      case True
      then show ?thesis by (simp add: T routed_def Let_def map_of_update new consumer_ok_def)
    next
      case False
      with that have k: "k < ?n" by simp
      then have "routed hist (ae_queues s) k (ae_streams s ! k) \<and> consumer_ok (ae_streams s ! k)"
        using ok by (simp add: async_ok_def routing_ok_def)
      with old[OF k] k show ?thesis by (simp add: T nth_append routed_def Let_def map_of_update)
    qed
    moreover have "distinct (map st_req (ae_streams t))"
      using ok i by (fastforce simp: T async_ok_def routing_ok_def)
    moreover have "k < Suc ?n \<and> st_req (ae_streams t ! k) = j" if "map_of (ae_queues t) j = Some k" for j k
      using that ok by (fastforce simp: T map_of_update nth_append async_ok_def routing_ok_def split: if_splits)
    ultimately show ?thesis using ok I Inr
      by (auto simp: async_ok_def routing_ok_def T(1,3) intro: le_SucI)
  qed
qed

lemma cancel_stream_ok:
  assumes ok: "async_ok s hist" and k: "k < length (ae_streams s)"
  shows "async_ok (cancel_stream k s) hist"
proof -
  let ?st = "ae_streams s ! k" and ?t = "cancel_stream k s"
  have T: "ae_engine ?t = cancel_request (st_req ?st) (ae_engine s)"
    "ae_queues ?t = AList.delete (st_req ?st) (ae_queues s)"
    "ae_streams ?t = (ae_streams s)[k := ?st\<lparr>st_state := CANCELLED\<rparr>]"
    by (simp_all add: cancel_stream_def Let_def)
  have reqs: "map st_req (ae_streams ?t) = map st_req (ae_streams s)"
    unfolding T(3) by (rule reqs_update[where f = "\<lambda>st. st\<lparr>st_state := CANCELLED\<rparr>"]) simp
  have I: "ids_below (ae_engine ?t) \<and> en_counter (ae_engine ?t) = en_counter (ae_engine s)"
    unfolding T(1) by (rule cancel_ids) (use ok in \<open>simp add: async_ok_def\<close>)
  have dist: "distinct (map st_req (ae_streams s))" using ok by (simp add: async_ok_def routing_ok_def)
  have "routed hist (ae_queues ?t) j (ae_streams ?t ! j) \<and> consumer_ok (ae_streams ?t ! j)"
    if j: "j < length (ae_streams s)" for j
  proof -
    have R: "routed hist (ae_queues s) j (ae_streams s ! j)" "consumer_ok (ae_streams s ! j)"
      using ok j by (auto simp: async_ok_def routing_ok_def)
    show ?thesis
    proof (cases "j = k")
      case True
      with R k show ?thesis
        by (auto simp: T routed_def Let_def map_of_delete consumer_ok_def split: if_splits)
    next
      case False
      with j k nth_eq_iff_index_eq[OF dist, of j k] have "st_req (ae_streams s ! j) \<noteq> st_req ?st" by simp
      with R False show ?thesis by (simp add: T routed_def Let_def map_of_delete)
    qed
  qed
  moreover have "j < length (ae_streams s) \<and> st_req (ae_streams ?t ! j) = r"
    if "map_of (ae_queues ?t) r = Some j" for r j
  proof -
    have "j < length (ae_streams s) \<and> st_req (ae_streams s ! j) = r"
      using that ok by (auto simp: T map_of_delete async_ok_def routing_ok_def split: if_splits)
    then show ?thesis using k by (auto simp: T nth_list_update_if)
  qed
  moreover have "set (map st_req (ae_streams ?t)) \<subseteq> {..en_counter (ae_engine s)}"
    unfolding reqs using ok by (simp add: async_ok_def)
  ultimately show ?thesis using ok I reqs by (simp add: async_ok_def routing_ok_def T(3))
qed

lemma astep_ok:
  assumes "async_ok s hist" "astep s outs t"
  shows "async_ok t (hist @ outs)"
  using assms(2)
proof (cases rule: astep.cases)
  case a_start
  with assms(1) show ?thesis by (simp add: async_ok_def routing_ok_def async_start_def)
next
  case a_shutdown
  with assms(1) show ?thesis by (simp add: async_ok_def routing_ok_def async_shutdown_def)
next
  case a_round
  with assms(1) show ?thesis by (simp add: round_ok)
next
  case (a_generate prompt params now r)
  with assms(1) show ?thesis by (simp add: generate_ok)
next
  case (a_deliver k)
  let ?st = "ae_streams s ! k"
  have "consumer_ok ?st" using assms(1) a_deliver by (simp add: async_ok_def routing_ok_def)
  with a_deliver show ?thesis
    by (auto simp: deliver_def consumer_ok_def intro!: stream_step_ok[OF assms(1)])
next
  case (a_resume k out)
  let ?st = "ae_streams s ! k"
  have "consumer_ok ?st" using assms(1) a_resume by (simp add: async_ok_def routing_ok_def)
  then have "st_received ?st \<noteq> []" "last (st_received ?st) = out" "\<not> ended (butlast (st_received ?st))"
    using a_resume by (simp_all add: consumer_ok_def)
  moreover from this have "ended (st_received ?st) \<longleftrightarrow> go_is_final out"
    by (cases "st_received ?st" rule: rev_cases) auto
  ultimately show ?thesis using a_resume
    by (auto simp: resume_def consumer_ok_def intro!: stream_step_ok[OF assms(1)])
next
  case (a_cancel k)
  with assms(1) show ?thesis by (simp add: cancel_stream_ok)
next
  case (a_close k out)
  with assms(1) show ?thesis
    by (auto simp: close_stream_def consumer_ok_def intro!: stream_step_ok[OF assms(1)])
qed

lemma arun_ok: "arun s hist t \<Longrightarrow> async_ok s [] \<Longrightarrow> async_ok t hist"
  by (induction rule: arun.induct) (auto intro: astep_ok)

lemma async_init_ok:
  assumes "engine_init True h kp vp c = Inr e"
  shows "async_ok (async_init e) []"
  using assms batch_ok_init
  by (auto simp: async_ok_def routing_ok_def async_init_def ids_below_def engine_init_def runner_init_def
      batcher_init_def)

section \<open>Cancelled streams stay cut off\<close>






section \<open>A concrete run\<close>

text \<open>One request for a given number of tokens, one round of the loop, and its first delivery.\<close>

definition demo_submitted :: "int \<Rightarrow> async_engine" where
  "demo_submitted n = snd (generate [7, 8] (Some (default_sampling_params\<lparr>sp_max_tokens := n\<rparr>)) 0
     (async_init (demo_engine 2 4)))"

definition demo_delivered :: "int \<Rightarrow> async_engine" where
  "demo_delivered n = deliver 0 (snd (loop_round (demo_submitted n)))"

lemma demo_states:
  "ae_running (demo_submitted 1)" "length (ae_streams (snd (loop_round (demo_submitted 1)))) = 1"
  "map st_state (ae_streams (snd (loop_round (demo_submitted 1)))) = [GETTING]"
  "map (length \<circ> st_queue) (ae_streams (snd (loop_round (demo_submitted 1)))) = [1]"
  by code_simp+

lemma demo_run: "arun (async_init (demo_engine 2 4)) (fst (loop_round (demo_submitted 1)))
    (snd (loop_round (demo_submitted 1)))"
proof -
  let ?s = "demo_submitted 1"
  have "astep (async_init (demo_engine 2 4)) [] ?s"
    unfolding demo_submitted_def by (rule a_generate[OF prod.collapse[symmetric]])
  moreover have "astep ?s (fst (loop_round ?s)) (snd (loop_round ?s))"
    by (rule a_round[OF demo_states(1)]) simp
  ultimately show ?thesis using arun_step[OF arun_step[OF arun_refl]] by fastforce
qed

section \<open>Properties\<close>

text \<open>
  C5: However submissions, rounds of the background loop, deliveries, cancellations, closings,
  starts and shutdowns interleave, a stream that was not cancelled has received, or has waiting in
  its queue, exactly the outputs that the engine reported for its request, in order and up to the
  first final one; a stream that is done has received the final output and has nothing waiting, and
  a stream still waiting for outputs is registered with the loop unless its final output is in its
  queue.
\<close>

theorem stream_delivery:
  assumes "engine_init True h kp vp c = Inr e" and "arun (async_init e) hist t"
    and "st \<in> set (ae_streams t)" and "st_state st \<noteq> CANCELLED"
  shows "st_received st @ st_queue st = upto_final (of_req (st_req st) hist) \<and>
    (st_state st = DONE \<longrightarrow> st_queue st = [] \<and> go_is_final (last (st_received st))) \<and>
    (st_state st = GETTING \<longrightarrow> dict_has (st_req st) (ae_queues t) \<or> list_ex go_is_final (st_queue st))"
proof -
  have ok: "async_ok t hist" using arun_ok[OF assms(2)] async_init_ok[OF assms(1)] by simp
  obtain k where k: "k < length (ae_streams t)" "st = ae_streams t ! k"
    using assms(3) by (auto simp: in_set_conv_nth)
  have R: "routed hist (ae_queues t) k st" "consumer_ok st"
    using ok k by (auto simp: async_ok_def routing_ok_def)
  let ?outs = "of_req (st_req st) hist"
  have got: "st_received st @ st_queue st = upto_final ?outs"
    "map_of (ae_queues t) (st_req st) = Some k \<longleftrightarrow> \<not> ended ?outs"
    using R(1) assms(4) by (simp_all add: routed_def Let_def)
  have "st_queue st = []" if "ended (st_received st)"
  proof (rule ccontr)
    assume "st_queue st \<noteq> []"
    then have "butlast (upto_final ?outs) = st_received st @ butlast (st_queue st)"
      by (simp add: got(1)[symmetric] butlast_append)
    moreover have "ended ?outs"
      using that upto_final_open[of ?outs] got(1) by (metis list_ex_append)
    ultimately show False using that upto_final_ended[of ?outs] by simp
  qed
  moreover have "ended (st_received st) \<and> go_is_final (last (st_received st))" if "st_state st = DONE"
    using R(2) that by (auto simp: consumer_ok_def list_ex_iff intro: last_in_set)
  moreover have "ended (st_queue st)" if "st_state st = GETTING" "ended ?outs"
  proof -
    have "ended (st_received st @ st_queue st)"
      unfolding got(1) using upto_final_ended[OF that(2)] by (auto simp: list_ex_iff)
    with R(2) that show ?thesis by (simp add: consumer_ok_def)
  qed
  ultimately show ?thesis using got by (auto simp: dict_has_def)
qed

theorem stream_delivery_witness:
  "let s = snd (loop_round (demo_submitted 1)); st = ae_streams s ! 0 in
   st_received st @ st_queue st = upto_final (of_req (st_req st) (fst (loop_round (demo_submitted 1))))"
proof -
  let ?s = "snd (loop_round (demo_submitted 1))"
  have "ae_streams ?s ! 0 \<in> set (ae_streams ?s)" using demo_states(2) by simp
  moreover have "st_state (ae_streams ?s ! 0) \<noteq> CANCELLED"
    using arg_cong[OF demo_states(3), of "\<lambda>l. l ! 0"] demo_states(2) by simp
  ultimately show ?thesis
    using stream_delivery[OF demo_engine_init demo_run] by (simp add: Let_def)
qed



text \<open>
  Closing a generator at a \<open>yield\<close>, as leaving an \<open>async for\<close> loop early does, raises
  \<open>GeneratorExit\<close>, which the handler for \<open>CancelledError\<close> misses: the request stays active in the
  engine and registered with the loop, and the next round still generates a token for it.
\<close>

theorem closed_stream_keeps_generating:
  "let s = close_stream 0 (demo_delivered 2); (outs, t) = loop_round s in
   map st_state (ae_streams s) = [CLOSED] \<and> map fst (en_active (ae_engine s)) = [1] \<and>
   map fst (ae_queues s) = [1] \<and> map go_request_id outs = [1] \<and>
   map (length \<circ> st_queue) (ae_streams t) = [1]"
  by code_simp

end
