(* ===== verification/Speculative.thy ===== *)
theory Speculative
  imports Prelude
begin

text \<open>
  \<open>cudaforge/speculative.py\<close>: the draft-and-verify loop of speculative decoding with rejection
  sampling, nucleus filtering of the bonus token, and the acceptance statistics.

  The model runners and the tensor library are not part of the repository: the two forward
  passes, softmax, sorting, multinomial sampling and the uniform generator are fields of the
  record \<open>runtime\<close>, the generator state is threaded through every draw. A tensor
  \<open>[batch, vocab]\<close> is a list of rows; a column of sampled tokens \<open>[batch, 1]\<close> is a list with one
  token per row. Floating point values are real numbers, minus infinity is \<open>None\<close>.
\<close>

section \<open>The runtime\<close>

record 'g runtime =
  rt_draft :: "nat list list \<Rightarrow> real list list list"
  rt_target :: "nat list list \<Rightarrow> real list list list"
  rt_softmax :: "real option list \<Rightarrow> real list"
  rt_argsort_desc :: "real list \<Rightarrow> nat list"
  rt_multinomial :: "real list list \<Rightarrow> 'g \<Rightarrow> nat list \<times> 'g"
  rt_rand :: "nat \<Rightarrow> 'g \<Rightarrow> real list \<times> 'g"

record spec_engine =
  se_k :: nat
  se_temperature :: real
  se_top_p :: real
  se_total_draft :: nat
  se_total_accepted :: nat

record spec_result =
  sr_accepted :: "nat list list"
  sr_num_accepted :: nat
  sr_draft_generated :: nat
  sr_acceptance_rate :: real

datatype spec_error = EmptyConcatenation

definition spec_init :: "nat \<Rightarrow> real \<Rightarrow> real \<Rightarrow> spec_engine" where
  "spec_init k temperature top_p =
     \<lparr>se_k = k, se_temperature = max temperature (1 / 100000), se_top_p = top_p,
      se_total_draft = 0, se_total_accepted = 0\<rparr>"

definition scaled_softmax :: "'g runtime \<Rightarrow> real \<Rightarrow> real list \<Rightarrow> real list" where
  "scaled_softmax rt temperature logits = rt_softmax rt (map (\<lambda>x. Some (x / temperature)) logits)"

section \<open>Nucleus sampling\<close>

fun cumsum_from :: "real \<Rightarrow> real list \<Rightarrow> real list" where
  "cumsum_from a [] = []"
| "cumsum_from a (x # xs) = (a + x) # cumsum_from (a + x) xs"

text \<open>The removal mask in sorted order: shifted by one, so the best token always stays.\<close>

definition sorted_removal :: "real \<Rightarrow> real list \<Rightarrow> bool list" where
  "sorted_removal top_p probs =
     (case map (\<lambda>c. top_p < c) (cumsum_from 0 probs) of [] \<Rightarrow> [] | m # ms \<Rightarrow> False # butlast (m # ms))"

text \<open>\<open>scatter\<close>: position \<open>idx ! j\<close> receives \<open>src ! j\<close>.\<close>

definition scatter_mask :: "nat list \<Rightarrow> bool list \<Rightarrow> bool list" where
  "scatter_mask idx src = fold (\<lambda>(i, b) m. m[i := b]) (zip idx src) src"

definition nucleus_filter :: "'g runtime \<Rightarrow> real \<Rightarrow> real list \<Rightarrow> real option list" where
  "nucleus_filter rt top_p logits =
     (if top_p < 1 then
        let idx = rt_argsort_desc rt logits;
            probs = rt_softmax rt (map (\<lambda>i. Some (logits ! i)) idx);
            mask = scatter_mask idx (sorted_removal top_p probs)
        in map (\<lambda>(x, b). if b then None else Some x) (zip logits mask)
      else map Some logits)"

definition sample_next_token ::
  "'g runtime \<Rightarrow> real \<Rightarrow> real \<Rightarrow> real list list \<Rightarrow> 'g \<Rightarrow> nat list \<times> 'g" where
  "sample_next_token rt temperature top_p logits g =
     rt_multinomial rt
       (map (\<lambda>row. rt_softmax rt (nucleus_filter rt top_p (map (\<lambda>x. x / temperature) row))) logits) g"

section \<open>Drafting\<close>

text \<open>\<open>torch.cat([ids, token], dim=-1)\<close>\<close>

definition append_column :: "nat list list \<Rightarrow> nat list \<Rightarrow> nat list list" where
  "append_column ids col = map (\<lambda>(row, t). row @ [t]) (zip ids col)"

definition last_logits :: "real list list list \<Rightarrow> real list list" where
  "last_logits logits = map last logits"

text \<open>Each round returns the token column and the probabilities it was drawn from.\<close>

fun draft_loop ::
  "'g runtime \<Rightarrow> real \<Rightarrow> nat \<Rightarrow> nat list list \<Rightarrow> 'g \<Rightarrow> (nat list \<times> real list list) list \<times> nat list list \<times> 'g" where
  "draft_loop rt temperature 0 ids g = ([], ids, g)"
| "draft_loop rt temperature (Suc n) ids g =
     (let probs = map (scaled_softmax rt temperature) (last_logits (rt_draft rt ids));
          (token, g) = rt_multinomial rt probs g;
          (rest, ids, g) = draft_loop rt temperature n (append_column ids token) g
      in ((token, probs) # rest, ids, g))"

section \<open>Verification\<close>

definition accept_ratio :: "real \<Rightarrow> real \<Rightarrow> real" where
  "accept_ratio p q = min 1 (q / (p + 1 / 10 ^ 8))"

text \<open>The weights of the replacement token: \<open>max(0, q - p)\<close>, or q when their sum vanishes.\<close>

definition residual_weights :: "real list \<Rightarrow> real list \<Rightarrow> real list" where
  "residual_weights p q =
     (let w = map (\<lambda>(b, a). max (b - a) 0) (zip q p) in
      if sum_list w \<le> 1 / 10 ^ 6 then q else w)"

text \<open>\<open>(r < acceptance_ratio).all()\<close> over the rows of the batch.\<close>

definition accept_all :: "real list \<Rightarrow> nat list \<Rightarrow> real list list \<Rightarrow> real list list \<Rightarrow> bool" where
  "accept_all r token draft target =
     list_all (\<lambda>i. r ! i < accept_ratio (draft ! i ! (token ! i)) (target ! i ! (token ! i)))
       [0..<length token]"

text \<open>The loop over the drafted columns; the boolean says that it was left by a rejection.\<close>

fun verify_loop ::
  "'g runtime \<Rightarrow> (nat list \<times> real list list) list \<Rightarrow> real list list list \<Rightarrow> 'g \<Rightarrow>
   nat list list \<times> bool \<times> 'g" where
  "verify_loop rt [] targets g = ([], False, g)"
| "verify_loop rt ((token, draft) # rest) targets g =
     (let target = hd targets;
          (r, g) = rt_rand rt (length token) g
      in if accept_all r token draft target
         then (let (more_tokens, rejected, g) = verify_loop rt rest (tl targets) g
               in (token # more_tokens, rejected, g))
         else (let (replacement, g) =
                     rt_multinomial rt (map (\<lambda>(p, q). residual_weights p q) (zip draft target)) g
               in ([replacement], True, g)))"

text \<open>\<open>target_logits[:, -(k+1):, :]\<close>, one entry per position.\<close>

definition candidate_logits :: "nat \<Rightarrow> real list list list \<Rightarrow> real list list list" where
  "candidate_logits k logits =
     map (\<lambda>j. map (\<lambda>rows. rows ! (length rows - (k + 1) + j)) logits) [0..<k + 1]"

definition spec_step ::
  "'g runtime \<Rightarrow> nat list list \<Rightarrow> spec_engine \<Rightarrow> 'g \<Rightarrow> (spec_error + spec_result) \<times> spec_engine \<times> 'g" where
  "spec_step rt input_ids s g =
     (let k = se_k s;
          (drafts, _, g) = draft_loop rt (se_temperature s) k input_ids g
      in if drafts = [] then (Inl EmptyConcatenation, s, g)
         else
           let verification = fold (\<lambda>col ids. append_column ids col) (map fst drafts) input_ids;
               candidates = candidate_logits k (rt_target rt verification);
               targets = map (map (scaled_softmax rt (se_temperature s))) candidates;
               (tokens, _, g) = verify_loop rt drafts targets g;
               (tokens, g) =
                 (if length tokens = k
                  then (let (final, g) = sample_next_token rt (se_temperature s) (se_top_p s) (last candidates) g
                        in (tokens @ [final], g))
                  else (tokens, g));
               n = length tokens
           in (Inr \<lparr>sr_accepted = tokens, sr_num_accepted = n, sr_draft_generated = k,
                    sr_acceptance_rate = real n / real k\<rparr>,
               s\<lparr>se_total_draft := se_total_draft s + k, se_total_accepted := se_total_accepted s + n\<rparr>, g))"

definition aggregate_acceptance_rate :: "spec_engine \<Rightarrow> real" where
  "aggregate_acceptance_rate s =
     (if se_total_draft s = 0 then 0 else real (se_total_accepted s) / real (se_total_draft s))"

section \<open>The verification loop\<close>

lemma draft_loop_length: "draft_loop rt temperature n ids g = (drafts, ids', g') \<Longrightarrow> length drafts = n"
  by (induction n arbitrary: ids g drafts) (auto simp: Let_def split: prod.splits)

text \<open>The state of the generator after the draws for the first \<open>i\<close> drafted columns.\<close>

fun draw_state :: "'g runtime \<Rightarrow> (nat list \<times> real list list) list \<Rightarrow> 'g \<Rightarrow> nat \<Rightarrow> 'g" where
  "draw_state rt drafts g 0 = g"
| "draw_state rt drafts g (Suc i) = snd (rt_rand rt (length (fst (drafts ! i))) (draw_state rt drafts g i))"

text \<open>
  Column \<open>i\<close> is accepted: in every row of the batch the draw is below \<open>min 1 (q / (p + 1e-8))\<close>, where
  \<open>p\<close> and \<open>q\<close> are the probabilities of the drafted token.
\<close>

definition draft_accepted ::
  "'g runtime \<Rightarrow> (nat list \<times> real list list) list \<Rightarrow> (nat \<Rightarrow> real list list) \<Rightarrow> 'g \<Rightarrow> nat \<Rightarrow> bool" where
  "draft_accepted rt drafts target g i \<longleftrightarrow>
     (let token = fst (drafts ! i); draft = snd (drafts ! i);
          r = fst (rt_rand rt (length token) (draw_state rt drafts g i))
      in \<forall>b < length token. r ! b < min 1 (target i ! b ! (token ! b) / (draft ! b ! (token ! b) + 1 / 10 ^ 8)))"

text \<open>The replacement of a rejected column: its weights, drawn after the draws of the columns before.\<close>

definition replacement ::
  "'g runtime \<Rightarrow> (nat list \<times> real list list) list \<Rightarrow> (nat \<Rightarrow> real list list) \<Rightarrow> 'g \<Rightarrow> nat \<Rightarrow> nat list \<times> 'g" where
  "replacement rt drafts target g i =
     rt_multinomial rt (map2 residual_weights (snd (drafts ! i)) (target i)) (draw_state rt drafts g (Suc i))"

lemma draw_state_Cons:
  "draw_state rt (d # rest) g (Suc i) = draw_state rt rest (snd (rt_rand rt (length (fst d)) g)) i"
  by (induction i) simp_all

lemma accepted_Cons:
  "draft_accepted rt (d # rest) target g (Suc i) \<longleftrightarrow>
     draft_accepted rt rest (\<lambda>j. target (Suc j)) (snd (rt_rand rt (length (fst d)) g)) i"
  "replacement rt (d # rest) target g (Suc i) =
     replacement rt rest (\<lambda>j. target (Suc j)) (snd (rt_rand rt (length (fst d)) g)) i"
  by (simp_all add: draft_accepted_def replacement_def draw_state_Cons del: draw_state.simps(2))

lemma accepted_head:
  "draft_accepted rt ((token, draft) # rest) target g 0 \<longleftrightarrow> accept_all (fst (rt_rand rt (length token) g)) token draft (target 0)"
  by (auto simp: draft_accepted_def accept_all_def accept_ratio_def list_all_iff Let_def)

text \<open>Where the verification stops, what it emits and the state of the generator it leaves.\<close>

definition verified ::
  "'g runtime \<Rightarrow> (nat list \<times> real list list) list \<Rightarrow> (nat \<Rightarrow> real list list) \<Rightarrow> 'g \<Rightarrow> nat \<Rightarrow> nat list list \<Rightarrow> 'g \<Rightarrow> bool" where
  "verified rt drafts target g m tokens g' \<longleftrightarrow>
     m \<le> length drafts \<and> (\<forall>i < m. draft_accepted rt drafts target g i) \<and>
     (if m < length drafts
      then \<not> draft_accepted rt drafts target g m \<and> g' = snd (replacement rt drafts target g m) \<and>
        tokens = take m (map fst drafts) @ [fst (replacement rt drafts target g m)]
      else g' = draw_state rt drafts g m \<and> tokens = map fst drafts)"

lemma verified_Cons:
  assumes "draft_accepted rt (d # rest) target g 0"
    and "verified rt rest (\<lambda>j. target (Suc j)) (snd (rt_rand rt (length (fst d)) g)) m tokens g'"
  shows "verified rt (d # rest) target g (Suc m) (fst d # tokens) g'"
  using assms unfolding verified_def
  by (auto simp: accepted_Cons draw_state_Cons less_Suc_eq_0_disj simp del: draw_state.simps(2) split: if_splits)

lemma verify_loop_spec:
  assumes "length drafts \<le> length targets"
  shows "verify_loop rt drafts targets g = (tokens, rejected, g') \<Longrightarrow>
   \<exists>m. verified rt drafts (\<lambda>i. targets ! i) g m tokens g'"
  using assms
proof (induction rt drafts targets g arbitrary: tokens rejected g' rule: verify_loop.induct)
  case (2 rt token draft rest targets g)
  obtain r g1 where r: "rt_rand rt (length token) g = (r, g1)" by fastforce
  obtain target more where t: "targets = target # more" using 2(3) by (cases targets) auto
  have head: "draft_accepted rt ((token, draft) # rest) (\<lambda>i. targets ! i) g 0 = accept_all r token draft target"
    by (simp add: accepted_head r t)
  show ?case
  proof (cases "accept_all r token draft (hd targets)")
    case True
    obtain m rej g2 where rec: "verify_loop rt rest (tl targets) g1 = (m, rej, g2)" by (metis prod_cases3)
    with 2(2) r True have eq: "tokens = token # m" "g' = g2" by simp_all
    have "length rest \<le> length (tl targets)" using 2(3) t by simp
    from 2(1)[OF refl r[symmetric] refl True rec this] obtain i where
      "verified rt rest (\<lambda>i. tl targets ! i) g1 i m g2" ..
    then have "verified rt ((token, draft) # rest) (\<lambda>i. targets ! i) g (Suc i) (token # m) g2"
      using verified_Cons[of rt "(token, draft)" rest "\<lambda>i. targets ! i" g i m g2] head True r t by simp
    then show ?thesis unfolding eq ..
  next
    case False
    then have "verified rt ((token, draft) # rest) (\<lambda>i. targets ! i) g 0 tokens g'"
      using 2(2) r head t by (auto simp: verified_def replacement_def split: prod.splits)
    then show ?thesis ..
  qed
qed (simp add: verified_def)

text \<open>
  A model that answers with the logits of every position: those of candidate \<open>j\<close> stand after the prompt
  and the first \<open>j\<close> drafted tokens.
\<close>

definition answers_positions :: "'g runtime \<Rightarrow> bool" where
  "answers_positions rt \<longleftrightarrow>
     (\<forall>ids n. (\<forall>row \<in> set ids. length row = n) \<longrightarrow> (\<forall>logits \<in> set (rt_target rt ids). length logits = n))"

lemma append_columns_length:
  "\<forall>row \<in> set ids. length row = n \<Longrightarrow>
   \<forall>row \<in> set (fold (\<lambda>col ids. append_column ids col) cols ids). length row = n + length cols"
proof (induction cols arbitrary: ids n)
  case (Cons col cols)
  have "\<forall>row \<in> set (append_column ids col). length row = Suc n"
    using Cons.prems by (auto simp: append_column_def dest: set_zip_leftD)
  from Cons.IH[OF this] show ?case by simp
qed simp

definition position_logits :: "'g runtime \<Rightarrow> nat list list \<Rightarrow> nat \<Rightarrow> nat list list \<Rightarrow> nat \<Rightarrow> real list list" where
  "position_logits rt input_ids n cols j =
     map (\<lambda>logits. logits ! (n - 1 + j)) (rt_target rt (fold (\<lambda>col ids. append_column ids col) cols input_ids))"

lemma candidates_are_positions:
  assumes "answers_positions rt" "\<forall>row \<in> set input_ids. length row = n" "0 < n" "length cols = k" "j \<le> k"
  shows "candidate_logits k (rt_target rt (fold (\<lambda>col ids. append_column ids col) cols input_ids)) ! j =
    position_logits rt input_ids n cols j"
proof -
  have "length logits = n + k" if "logits \<in> set (rt_target rt (fold (\<lambda>col ids. append_column ids col) cols input_ids))" for logits
    using append_columns_length[OF assms(2), of cols] assms(1,4) that unfolding answers_positions_def by blast
  moreover have "n + k - (k + 1) + j = n - 1 + j" using assms(3) by simp
  moreover have "candidate_logits k l ! j = map (\<lambda>rows. rows ! (length rows - (k + 1) + j)) l" for l :: "real list list list"
    using assms(5) by (simp add: candidate_logits_def nth_append)
  ultimately show ?thesis by (auto simp: position_logits_def)
qed

text \<open>What one step produces: the verified columns, and a bonus when there are \<open>k\<close> of them.\<close>

lemma spec_step_cases:
  assumes run: "spec_step rt ids s g = (Inr res, t, g')"
    and positions: "answers_positions rt" "\<forall>row \<in> set ids. length row = n" "0 < n"
  obtains drafts ids' g1 m tokens g2 where
    "draft_loop rt (se_temperature s) (se_k s) ids g = (drafts, ids', g1)" "length drafts = se_k s" "0 < se_k s"
    "verified rt drafts (\<lambda>i. map (scaled_softmax rt (se_temperature s)) (position_logits rt ids n (map fst drafts) i)) g1 m tokens g2"
    "sr_accepted res = (if length tokens = se_k s
       then tokens @ [fst (sample_next_token rt (se_temperature s) (se_top_p s) (position_logits rt ids n (map fst drafts) (se_k s)) g2)]
       else tokens)"
    "sr_num_accepted res = length (sr_accepted res)" "sr_draft_generated res = se_k s"
    "sr_acceptance_rate res = real (length (sr_accepted res)) / real (se_k s)"
    "t = s\<lparr>se_total_draft := se_total_draft s + se_k s, se_total_accepted := se_total_accepted s + length (sr_accepted res)\<rparr>"
proof -
  obtain drafts ids' g1 where dr: "draft_loop rt (se_temperature s) (se_k s) ids g = (drafts, ids', g1)"
    by (metis prod_cases3)
  note len = draft_loop_length[OF dr]
  have ne: "drafts \<noteq> []" using run dr by (auto simp: spec_step_def Let_def)
  define cands where "cands = candidate_logits (se_k s) (rt_target rt
     (fold (\<lambda>col ids. append_column ids col) (map fst drafts) ids))"
  define targets where "targets = map (map (scaled_softmax rt (se_temperature s))) cands"
  have count: "length cands = Suc (se_k s)" by (simp add: cands_def candidate_logits_def)
  have cand: "cands ! j = position_logits rt ids n (map fst drafts) j" if "j \<le> se_k s" for j
    unfolding cands_def using candidates_are_positions[OF positions, of "map fst drafts" "se_k s" j] len that by simp
  then have target: "targets ! j = map (scaled_softmax rt (se_temperature s)) (position_logits rt ids n (map fst drafts) j)"
    if "j \<le> se_k s" for j using count that by (simp add: targets_def)
  have final: "last cands = position_logits rt ids n (map fst drafts) (se_k s)"
    using cand[of "se_k s"] count last_conv_nth[of cands] by force
  obtain tokens rejected g2 where ver: "verify_loop rt drafts targets g1 = (tokens, rejected, g2)"
    by (metis prod_cases3)
  have "length drafts \<le> length targets" using len count by (simp add: targets_def)
  from verify_loop_spec[OF this ver] obtain m where m: "verified rt drafts (\<lambda>i. targets ! i) g1 m tokens g2" ..
  obtain bonus g3 where bonus: "sample_next_token rt (se_temperature s) (se_top_p s) (last cands) g2 = (bonus, g3)"
    by fastforce
  define all where "all = (if length tokens = se_k s then tokens @ [bonus] else tokens)"
  have R: "res = \<lparr>sr_accepted = all, sr_num_accepted = length all, sr_draft_generated = se_k s,
      sr_acceptance_rate = real (length all) / real (se_k s)\<rparr>"
    "t = s\<lparr>se_total_draft := se_total_draft s + se_k s, se_total_accepted := se_total_accepted s + length all\<rparr>"
    using run dr ne ver bonus
    by (auto simp: spec_step_def Let_def cands_def[symmetric] targets_def[symmetric] all_def split: if_splits)
  have "verified rt drafts f g1 m tokens g2 = verified rt drafts (\<lambda>i. targets ! i) g1 m tokens g2"
    if "\<And>i. i < length drafts \<Longrightarrow> f i = targets ! i" for f
    using that unfolding verified_def draft_accepted_def replacement_def by (auto split: if_splits)
  then have "verified rt drafts (\<lambda>i. map (scaled_softmax rt (se_temperature s)) (position_logits rt ids n (map fst drafts) i)) g1 m tokens g2"
    using m target len by simp
  moreover have "0 < se_k s" using ne len by (metis length_greater_0_conv)
  ultimately show ?thesis using that[OF dr len] bonus final by (simp add: R all_def)
qed

section \<open>Nucleus filtering\<close>

lemma cumsum_length [simp]: "length (cumsum_from a xs) = length xs"
  by (induction xs arbitrary: a) auto

lemma cumsum_Nil [simp]: "cumsum_from a xs = [] \<longleftrightarrow> xs = []"
  by (cases xs) auto

lemma cumsum_nth: "j < length xs \<Longrightarrow> cumsum_from a xs ! j = a + sum_list (take (Suc j) xs)"
  by (induction xs arbitrary: a j) (auto simp: nth_Cons split: nat.splits)

lemma sorted_removal_nth:
  "j < length probs \<Longrightarrow> sorted_removal top_p probs ! j \<longleftrightarrow> 0 < j \<and> top_p < sum_list (take j probs)"
  by (cases probs; cases j) (auto simp: sorted_removal_def nth_butlast cumsum_nth nth_Cons' split: list.splits)

lemma sorted_removal_length [simp]: "length (sorted_removal top_p probs) = length probs"
  by (cases probs) (auto simp: sorted_removal_def Suc_diff_le neq_Nil_conv split: list.splits)

lemma scatter_fold:
  "distinct (map fst ps) \<Longrightarrow> \<forall>(i, b) \<in> set ps. i < length m \<Longrightarrow>
   length (fold (\<lambda>(i, b) m. m[i := b]) ps m) = length m \<and>
   (\<forall>(i, b) \<in> set ps. fold (\<lambda>(i, b) m. m[i := b]) ps m ! i = b) \<and>
   (\<forall>i. i \<notin> fst ` set ps \<longrightarrow> fold (\<lambda>(i, b) m. m[i := b]) ps m ! i = m ! i)"
proof (induction ps arbitrary: m)
  case (Cons p ps)
  obtain i b where p: "p = (i, b)" by fastforce
  have "i \<notin> fst ` set ps" using Cons.prems(1) p by simp
  with Cons.IH[of "m[i := b]"] Cons.prems p show ?case
    by (auto simp: nth_list_update_if split: prod.splits) 
qed simp

lemma scatter_mask_nth:
  assumes "distinct idx" "set idx = {..<length src}" "j < length src"
  shows "scatter_mask idx src ! (idx ! j) = src ! j" "length (scatter_mask idx src) = length src"
proof -
  have len: "length idx = length src" using assms(1,2) distinct_card by fastforce
  have F: "length (scatter_mask idx src) = length src \<and> (\<forall>(i, b) \<in> set (zip idx src). scatter_mask idx src ! i = b)"
    unfolding scatter_mask_def
    using scatter_fold[of "zip idx src" src] assms len by (auto dest: set_zip_leftD)
  then show "length (scatter_mask idx src) = length src" by simp
  have "(idx ! j, src ! j) \<in> set (zip idx src)" using assms(3) len by (auto simp: set_zip)
  with F show "scatter_mask idx src ! (idx ! j) = src ! j" by auto
qed

section \<open>The distribution of an emitted token\<close>

definition distribution :: "real list \<Rightarrow> bool" where
  "distribution p \<longleftrightarrow> list_all (\<lambda>x. 0 \<le> x) p \<and> sum_list p = 1"

text \<open>
  The probability that a position of a single sequence emits token x: it was drafted (with
  probability \<open>p ! x\<close>) and accepted, or some draft was rejected and x is the replacement, drawn
  with probability proportional to its weight.
\<close>

definition emit_probability :: "real list \<Rightarrow> real list \<Rightarrow> nat \<Rightarrow> real" where
  "emit_probability p q x =
     p ! x * accept_ratio (p ! x) (q ! x) +
     (1 - (\<Sum>y < length p. p ! y * accept_ratio (p ! y) (q ! y))) *
       (residual_weights p q ! x / sum_list (residual_weights p q))"

lemma accepted_mass:
  assumes "0 \<le> p" "0 \<le> q"
  shows "p * accept_ratio p q \<le> min p q" "min p q - 1 / 10 ^ 8 \<le> p * accept_ratio p q"
proof -
  define e :: real where "e = 1 / 10 ^ 8"
  have e: "0 < e" by (simp add: e_def)
  then have pe: "0 < p + e" using assms by simp
  have r: "p * accept_ratio p q = min p (p * (q / (p + e)))"
    using assms by (simp add: accept_ratio_def e_def min_mult_distrib_left)
  have le_q: "p * (q / (p + e)) \<le> q" using assms pe e by (simp add: field_simps)
  have "q - e \<le> p * (q / (p + e)) \<or> p - e \<le> p * (q / (p + e))"
  proof (cases "q \<le> p + e")
    case True
    have "q * e \<le> (p + e) * e" using True e by (intro mult_right_mono) auto
    then have "(q - e) * (p + e) \<le> p * q" by (simp add: algebra_simps)
    then have "q - e \<le> p * (q / (p + e))" using pe by (simp add: field_simps)
    then show ?thesis ..
  next
    case False
    then have "p * (p + e) \<le> p * q" using assms by (intro mult_left_mono) auto
    then have "p \<le> p * (q / (p + e))" using pe by (simp add: field_simps)
    with e show ?thesis by simp
  qed
  with e le_q show "p * accept_ratio p q \<le> min p q" "min p q - 1 / 10 ^ 8 \<le> p * accept_ratio p q"
    unfolding r e_def[symmetric] by (auto simp: min_def split: if_splits)
qed

lemma dist_nth:
  assumes "distribution p" "x < length p"
  shows "0 \<le> p ! x" "(\<Sum>y < length p. p ! y) = 1"
  using assms by (auto simp: distribution_def list_all_length sum_list_sum_nth atLeast0LessThan)

lemma emit_probability_close:
  assumes p: "distribution p" and q: "distribution q" and len: "length q = length p" and x: "x < length p"
  shows "\<bar>emit_probability p q x - q ! x\<bar> \<le> 1 / 10 ^ 6 + real (length p + 1) / 10 ^ 8"
proof -
  define v where "v = length p"
  define e :: real where "e = 1 / 10 ^ 8"
  define a where "a y = p ! y * accept_ratio (p ! y) (q ! y)" for y
  define m where "m y = max (q ! y - p ! y) 0" for y
  define S where "S = (\<Sum>y < v. m y)"
  define D where "D = (\<Sum>y < v. min (p ! y) (q ! y) - a y)"
  have pos: "0 \<le> p ! y" "0 \<le> q ! y" if "y < v" for y
    using dist_nth(1)[OF p] dist_nth(1)[OF q] that len by (simp_all add: v_def)
  have qm: "q ! y = min (p ! y) (q ! y) + m y" for y by (simp add: m_def min_def max_def)
  have al: "a y \<le> min (p ! y) (q ! y)" "min (p ! y) (q ! y) - e \<le> a y" if "y < v" for y
    using accepted_mass[OF pos[OF that]] by (simp_all add: a_def e_def)
  have sums: "(\<Sum>y < v. q ! y) = 1" using dist_nth(2)[OF q] x len by (simp add: v_def)
  have D: "0 \<le> D" "D \<le> v * e"
    unfolding D_def using al sum_bounded_above[of "{..<v}" "\<lambda>y. min (p ! y) (q ! y) - a y" e]
    by (auto intro!: sum_nonneg simp: algebra_simps)
  have "(\<Sum>y < v. a y) = (\<Sum>y < v. min (p ! y) (q ! y)) - D" by (simp add: D_def sum_subtractf)
  also have "(\<Sum>y < v. min (p ! y) (q ! y)) = 1 - S"
    using sums unfolding S_def by (subst (asm) qm) (simp add: sum.distrib)
  finally have rest: "1 - (\<Sum>y < v. a y) = S + D" by simp
  have w: "map (\<lambda>(b, a). max (b - a) 0) (zip q p) = map m [0..<v]"
    by (rule nth_equalityI) (simp_all add: len v_def m_def)
  have sw: "sum_list (map m [0..<v]) = S" by (simp add: S_def interv_sum_list_conv_sum_set_nat atLeast0LessThan)
  have mx: "0 \<le> m x" "m x \<le> S"
    using x member_le_sum[of x "{..<v}" m] by (auto simp: S_def m_def v_def)
  have ax: "a x \<le> min (p ! x) (q ! x)" "min (p ! x) (q ! x) - e \<le> a x" using al x by (simp_all add: v_def)
  have bound: "1 / 10 ^ 6 + real (length p + 1) / 10 ^ 8 = 1 / 10 ^ 6 + v * e + e"
    by (simp add: v_def e_def field_simps)
  have e: "0 < e" by (simp add: e_def)
  have xe: "emit_probability p q x = a x + (S + D) * (residual_weights p q ! x / sum_list (residual_weights p q))"
    unfolding emit_probability_def v_def[symmetric] a_def[symmetric] rest ..
  show ?thesis
  proof (cases "S \<le> 1 / 10 ^ 6")
    case True
    then have "residual_weights p q = q" by (simp add: residual_weights_def w sw)
    then have E: "emit_probability p q x = a x + (S + D) * q ! x" using xe q by (simp add: distribution_def)
    have q1: "0 \<le> q ! x" "q ! x \<le> 1"
      using pos[of x] x sums member_le_sum[of x "{..<v}" "\<lambda>y. q ! y"] pos by (auto simp: v_def)
    have "0 \<le> (S + D) * q ! x" using mx D q1 by simp
    moreover have "(S + D) * q ! x \<le> S + D" using mx D q1 by (simp add: mult_left_le)
    ultimately show ?thesis unfolding bound E using ax qm[of x] mx D True e by (simp add: abs_le_iff)
  next
    case False
    then have "residual_weights p q = map m [0..<v]" by (simp add: residual_weights_def w sw)
    then have "emit_probability p q x = a x + (S + D) * (m x / S)" using xe sw x by (simp add: v_def)
    moreover have "0 < S" using False by (simp add: not_le less_trans[rotated])
    ultimately have E: "emit_probability p q x = a x + m x + D * (m x / S)"
      by (simp add: field_simps)
    have "0 \<le> m x / S" "m x / S \<le> 1" using mx \<open>0 < S\<close> by simp_all
    then have "0 \<le> D * (m x / S)" "D * (m x / S) \<le> D"
      using D mult_nonneg_nonneg mult_left_le by blast+
    moreover have "0 \<le> 1 / (10 :: real) ^ 6" "0 \<le> v * e" using e by simp_all
    ultimately show ?thesis unfolding bound E abs_le_iff using ax qm[of x] D e by (intro conjI) linarith+
  qed
qed

section \<open>Properties\<close>

text \<open>A runtime whose models give uniform logits over two tokens, for concrete runs.\<close>

definition uniform_softmax :: "real option list \<Rightarrow> real list" where
  "uniform_softmax xs = map (\<lambda>x. if x = None then 0 else 1 / real (length (filter (\<lambda>y. y \<noteq> None) xs))) xs"

definition demo_runtime :: "unit runtime" where
  "demo_runtime =
     \<lparr>rt_draft = map (\<lambda>_. [[0, 0]]), rt_target = map (map (\<lambda>_. [0, 0])),
      rt_softmax = uniform_softmax, rt_argsort_desc = (\<lambda>xs. [0..<length xs]),
      rt_multinomial = (\<lambda>rows g. (map (\<lambda>_. 0) rows, g)),
      rt_rand = (\<lambda>n g. (replicate n (1 - 1 / 10 ^ 9), g))\<rparr>"

definition demo_step :: "(spec_error + spec_result) \<times> spec_engine \<times> unit" where
  "demo_step = spec_step demo_runtime [[3]] (spec_init 1 1 1) ()"

lemma demo_step_eq:
  "demo_step = (Inr \<lparr>sr_accepted = [[0], [0]], sr_num_accepted = 2, sr_draft_generated = 1,
     sr_acceptance_rate = 2\<rparr>, (spec_init 1 1 1)\<lparr>se_total_draft := 1, se_total_accepted := 2\<rparr>, ())"
  by (simp add: demo_step_def demo_runtime_def spec_step_def spec_init_def Let_def append_column_def
      last_logits_def scaled_softmax_def uniform_softmax_def candidate_logits_def accept_all_def accept_ratio_def
      sample_next_token_def)

text \<open>
  C23: A speculative step that returns, with prompts of one positive length and a target model that answers with
  the logits of every position, emits the drafted columns up to the first rejected one, m of the k
  drafted: column i is accepted exactly when in every row the draw is below min(1, q / (p + 1e-8)),
  where p is the draft's probability of the token and q the target's after the prompt and i drafts.
  A rejected column is replaced by a draw from the residual weights at its position. When k columns
  were emitted (all accepted, or the last one replaced) a draw from the filtered distribution at the
  last position follows. The reported counts, the rate and the lifetime totals are those of the
  emitted columns.
\<close>

theorem spec_step_shape:
  assumes "spec_step rt input_ids s g = (Inr res, t, g')"
    and "answers_positions rt" and "\<forall>row \<in> set input_ids. length row = n" and "0 < n"
  shows "0 < se_k s \<and> (\<exists>drafts ids' g1 m. draft_loop rt (se_temperature s) (se_k s) input_ids g = (drafts, ids', g1) \<and>
      (let k = se_k s; logits = position_logits rt input_ids n (map fst drafts);
           target = \<lambda>i. map (scaled_softmax rt (se_temperature s)) (logits i);
           bonus = \<lambda>g. fst (sample_next_token rt (se_temperature s) (se_top_p s) (logits k) g)
       in length drafts = k \<and> m \<le> k \<and> (\<forall>i < m. draft_accepted rt drafts target g1 i) \<and>
         (if m < k
          then \<not> draft_accepted rt drafts target g1 m \<and>
            (let (token, g2) = replacement rt drafts target g1 m
             in sr_accepted res = take m (map fst drafts) @ [token] @ (if m + 1 = k then [bonus g2] else []))
          else sr_accepted res = map fst drafts @ [bonus (draw_state rt drafts g1 k)]))) \<and>
    sr_num_accepted res = length (sr_accepted res) \<and>
    sr_acceptance_rate res = real (sr_num_accepted res) / real (se_k s) \<and>
    se_total_draft t = se_total_draft s + se_k s \<and>
    se_total_accepted t = se_total_accepted s + sr_num_accepted res"
  using assms
proof (cases rule: spec_step_cases)
  case (1 drafts ids' g1 m tokens g2)
  show ?thesis
  proof (intro conjI exI[of _ drafts] exI[of _ ids'] exI[of _ g1] exI[of _ m])
    show "let k = se_k s; logits = position_logits rt input_ids n (map fst drafts);
           target = \<lambda>i. map (scaled_softmax rt (se_temperature s)) (logits i);
           bonus = \<lambda>g. fst (sample_next_token rt (se_temperature s) (se_top_p s) (logits k) g)
       in length drafts = k \<and> m \<le> k \<and> (\<forall>i < m. draft_accepted rt drafts target g1 i) \<and>
         (if m < k
          then \<not> draft_accepted rt drafts target g1 m \<and>
            (let (token, g2) = replacement rt drafts target g1 m
             in sr_accepted res = take m (map fst drafts) @ [token] @ (if m + 1 = k then [bonus g2] else []))
          else sr_accepted res = map fst drafts @ [bonus (draw_state rt drafts g1 k)])"
      using 1(2,4,5) unfolding verified_def Let_def by (cases "m < se_k s") (auto simp: split_beta)
  qed (use 1 in simp_all)
qed

text \<open>One draft, rejected: the replacement and a bonus are emitted.\<close>

theorem spec_step_shape_witness:
  "\<exists>res t g. demo_step = (Inr res, t, g) \<and> sr_num_accepted res = length (sr_accepted res) \<and>
     length (sr_accepted res) = 2"
proof -
  have answers: "answers_positions demo_runtime" by (auto simp: answers_positions_def demo_runtime_def)
  have prompts: "\<forall>row \<in> set [[3 :: nat]]. length row = 1" "(0 :: nat) < 1" by simp_all
  from spec_step_shape[OF demo_step_eq[unfolded demo_step_def] answers prompts] demo_step_eq show ?thesis by auto
qed

text \<open>
  C24: Rejection sampling emits the target distribution: for any draft and target
  distribution over a vocabulary of V tokens, the probability that a verified position of a single
  sequence emits a token differs from the target probability by at most 1e-6 + (V + 1) * 1e-8, the
  two tolerances in the code.
\<close>

theorem emission_matches_target:
  assumes "distribution p" and "distribution q" and "length q = length p" and "x < length p"
  shows "\<bar>emit_probability p q x - q ! x\<bar> \<le> 1 / 10 ^ 6 + real (length p + 1) / 10 ^ 8"
  using assms by (rule emit_probability_close)

theorem emission_matches_target_witness:
  "\<bar>emit_probability [1 / 2, 1 / 2] [3 / 4, 1 / 4] 0 - 3 / 4\<bar> \<le> 1 / 10 ^ 6 + 3 / 10 ^ 8"
  using emission_matches_target[of "[1 / 2, 1 / 2]" "[3 / 4, 1 / 4]" 0]
  by (simp add: distribution_def)

text \<open>
  Nucleus filtering keeps exactly the tokens that precede the point where the
  cumulative probability, in descending order, has exceeded \<open>top_p\<close>; the most likely token is
  always kept. (The sort returns a permutation of the vocabulary, softmax keeps the length.)
\<close>

theorem nucleus_exact:
  assumes "distinct (rt_argsort_desc rt logits)" and "set (rt_argsort_desc rt logits) = {..<length logits}"
    and "\<forall>xs. length (rt_softmax rt xs) = length xs" and "top_p < 1" and "j < length logits"
  shows "let i = rt_argsort_desc rt logits ! j;
             probs = rt_softmax rt (map (\<lambda>i. Some (logits ! i)) (rt_argsort_desc rt logits))
         in nucleus_filter rt top_p logits ! i =
            (if 0 < j \<and> top_p < sum_list (take j probs) then None else Some (logits ! i))"
proof -
  let ?idx = "rt_argsort_desc rt logits"
  let ?probs = "rt_softmax rt (map (\<lambda>i. Some (logits ! i)) ?idx)"
  have len: "length ?idx = length logits" using assms(1,2) distinct_card by fastforce
  then have lp: "length ?probs = length logits" using assms(3) by simp
  have i: "?idx ! j < length logits" using assms(2,5) len by (metis lessThan_iff nth_mem)
  note S = scatter_mask_nth[OF assms(1), of "sorted_removal top_p ?probs"]
  have "scatter_mask ?idx (sorted_removal top_p ?probs) ! (?idx ! j) \<longleftrightarrow> 0 < j \<and> top_p < sum_list (take j ?probs)"
    "length (scatter_mask ?idx (sorted_removal top_p ?probs)) = length logits"
    using S[of j] assms(2,5) lp by (simp_all add: sorted_removal_nth)
  then show ?thesis using assms(4) i by (simp add: nucleus_filter_def Let_def)
qed

theorem nucleus_exact_witness:
  "nucleus_filter demo_runtime (1 / 4) [0, 0] ! 1 = None"
proof -
  have "\<forall>xs. length (rt_softmax demo_runtime xs) = length xs"
    by (simp add: demo_runtime_def uniform_softmax_def)
  moreover have "rt_argsort_desc demo_runtime [0, 0] = [0, 1]" by (simp add: demo_runtime_def upt_rec)
  ultimately show ?thesis
    using nucleus_exact[of demo_runtime "[0, 0]" "1 / 4" 1]
    by (auto simp: Let_def demo_runtime_def uniform_softmax_def lessThan_Suc)
qed

text \<open>
  The guard of the bonus token counts the replacement of a rejected draft as accepted:
  with k = 1 and a rejected draft, the step still samples the bonus token, reports two accepted
  tokens for one drafted and an acceptance rate of 200 percent.
\<close>

theorem bonus_after_rejection:
  "\<not> accept_all [1 - 1 / 10 ^ 9] [0] [[1 / 2, 1 / 2]] [[1 / 2, 1 / 2]] \<and>
   fst demo_step = Inr \<lparr>sr_accepted = [[0], [0]], sr_num_accepted = 2, sr_draft_generated = 1, sr_acceptance_rate = 2\<rparr> \<and>
   aggregate_acceptance_rate (fst (snd demo_step)) = 2"
  by (simp add: demo_step_eq accept_all_def accept_ratio_def aggregate_acceptance_rate_def)

end
