(* ===== verification/Tensor.thy ===== *)
theory Tensor
  imports Prelude
begin

text \<open>
  Numerics shared by the quantization and evaluation components: rounding half to even (Python
  and PyTorch), clamping, and the elementary reductions over a flat tensor, a list of reals.
\<close>

section \<open>Rounding and clamping\<close>

definition round_half_even :: "real \<Rightarrow> int" where
  "round_half_even x =
     (let f = \<lfloor>x\<rfloor>; d = x - of_int f in
      if d < 1 / 2 then f else if 1 / 2 < d then f + 1 else if even f then f else f + 1)"

lemma round_half_even_error: "\<bar>of_int (round_half_even x) - x\<bar> \<le> 1 / 2"
  unfolding round_half_even_def Let_def by (auto simp: abs_le_iff)

lemma round_half_even_mono_bounds:
  "of_int a \<le> x \<Longrightarrow> a \<le> round_half_even x" "x \<le> of_int b \<Longrightarrow> round_half_even x \<le> b"
proof -
  show "a \<le> round_half_even x" if "of_int a \<le> x"
    using that unfolding round_half_even_def Let_def by (auto simp: le_floor_iff) linarith+
  show "round_half_even x \<le> b" if "x \<le> of_int b"
  proof (cases "x = of_int b")
    case True
    then show ?thesis by (simp add: round_half_even_def)
  next
    case False
    with that have "\<lfloor>x\<rfloor> < b" by (simp add: floor_less_iff)
    then show ?thesis unfolding round_half_even_def Let_def by auto
  qed
qed

definition clamp :: "'a :: linorder \<Rightarrow> 'a \<Rightarrow> 'a \<Rightarrow> 'a" where
  "clamp lo hi x = min (max x lo) hi"

lemma clamp_bounds: "lo \<le> hi \<Longrightarrow> lo \<le> clamp lo hi x \<and> clamp lo hi x \<le> hi"
  by (simp add: clamp_def)

lemma clamp_id: "lo \<le> x \<Longrightarrow> x \<le> hi \<Longrightarrow> clamp lo hi x = x"
  by (simp add: clamp_def)

section \<open>Reductions\<close>

definition t_sum :: "real list \<Rightarrow> real" where
  "t_sum xs = sum_list xs"

definition t_mean :: "real list \<Rightarrow> real" where
  "t_mean xs = sum_list xs / real (length xs)"

definition t_max :: "real list \<Rightarrow> real" where
  "t_max xs = fold max (tl xs) (hd xs)"

definition t_dot :: "real list \<Rightarrow> real list \<Rightarrow> real" where
  "t_dot xs ys = sum_list (map (\<lambda>(x, y). x * y) (zip xs ys))"

definition t_norm :: "real list \<Rightarrow> real" where
  "t_norm xs = sqrt (sum_list (map (\<lambda>x. x\<^sup>2) xs))"

definition t_diff :: "real list \<Rightarrow> real list \<Rightarrow> real list" where
  "t_diff xs ys = map (\<lambda>(x, y). x - y) (zip xs ys)"

definition t_sq :: "real list \<Rightarrow> real list" where
  "t_sq xs = map (\<lambda>x. x\<^sup>2) xs"

lemma fold_max_ge: "y \<le> fold max xs (y :: 'a :: linorder) \<and> (\<forall>x \<in> set xs. x \<le> fold max xs y)"
proof (induction xs arbitrary: y)
  case (Cons x xs)
  from Cons[of "max x y"] show ?case by (auto simp: max.commute)
qed simp

lemma fold_max_in: "fold max xs (y :: 'a :: linorder) \<in> insert y (set xs)"
proof (induction xs arbitrary: y)
  case (Cons x xs)
  from Cons[of "max x y"] show ?case by (auto simp: max_def split: if_splits)
qed simp

lemma t_max_ge: "x \<in> set xs \<Longrightarrow> x \<le> t_max xs"
  using fold_max_ge[of "hd xs" "tl xs"] by (cases xs) (auto simp: t_max_def)

lemma t_max_in: "xs \<noteq> [] \<Longrightarrow> t_max xs \<in> set xs"
  using fold_max_in[of "tl xs" "hd xs"] by (cases xs) (auto simp: t_max_def)

lemma sum_list_zip_sum:
  "length ys = length xs \<Longrightarrow> sum_list (map f (zip xs ys)) = (\<Sum>i < length xs. f (xs ! i, ys ! i))"
  for f :: "_ \<Rightarrow> real"
  by (simp add: sum_list_sum_nth atLeast0LessThan)

lemma t_norm_sq: "(t_norm xs)\<^sup>2 = (\<Sum>i < length xs. (xs ! i)\<^sup>2)"
  by (simp add: t_norm_def sum_list_sum_nth atLeast0LessThan sum_nonneg)

lemma t_norm_nonneg [simp]: "0 \<le> t_norm xs"
  by (auto simp: t_norm_def intro!: real_sqrt_ge_zero sum_list_nonneg)

lemma sum_cauchy_schwarz:
  fixes f g :: "nat \<Rightarrow> real"
  assumes "finite I"
  shows "(\<Sum>i \<in> I. f i * g i)\<^sup>2 \<le> (\<Sum>i \<in> I. (f i)\<^sup>2) * (\<Sum>i \<in> I. (g i)\<^sup>2)"
proof -
  define X where "X = (\<Sum>i \<in> I. (f i)\<^sup>2)"
  define Y where "Y = (\<Sum>i \<in> I. (g i)\<^sup>2)"
  define D where "D = (\<Sum>i \<in> I. f i * g i)"
  have "0 \<le> (\<Sum>i \<in> I. (Y * f i - D * g i)\<^sup>2)" by (simp add: sum_nonneg)
  also have "\<dots> = (\<Sum>i \<in> I. Y\<^sup>2 * (f i)\<^sup>2 - 2 * Y * D * (f i * g i) + D\<^sup>2 * (g i)\<^sup>2)"
    by (rule sum.cong) (simp_all add: power2_eq_square algebra_simps)
  also have "\<dots> = Y\<^sup>2 * X - 2 * Y * D * D + D\<^sup>2 * Y"
    by (simp add: sum.distrib sum_subtractf sum_distrib_left[symmetric] X_def Y_def D_def)
  also have "\<dots> = Y * (X * Y - D\<^sup>2)" by (simp add: power2_eq_square algebra_simps)
  finally have ge: "0 \<le> Y * (X * Y - D\<^sup>2)" .
  have Y: "0 \<le> Y" by (simp add: Y_def sum_nonneg)
  show ?thesis unfolding X_def[symmetric] Y_def[symmetric] D_def[symmetric]
  proof (cases "Y = 0")
    case True
    then have "\<forall>i \<in> I. g i = 0" using assms by (simp add: Y_def sum_nonneg_eq_0_iff)
    then show "D\<^sup>2 \<le> X * Y" by (simp add: D_def True)
  next
    case False
    with ge Y show "D\<^sup>2 \<le> X * Y" by (simp add: zero_le_mult_iff)
  qed
qed

lemma cauchy_schwarz:
  assumes "length ys = length xs"
  shows "\<bar>t_dot xs ys\<bar> \<le> t_norm xs * t_norm ys"
proof -
  let ?I = "{..<length xs}"
  have "(\<Sum>i \<in> ?I. xs ! i * ys ! i)\<^sup>2 \<le> (\<Sum>i \<in> ?I. (xs ! i)\<^sup>2) * (\<Sum>i \<in> ?I. (ys ! i)\<^sup>2)"
    by (rule sum_cauchy_schwarz) simp
  then have "(t_dot xs ys)\<^sup>2 \<le> (t_norm xs * t_norm ys)\<^sup>2"
    using assms by (simp add: t_dot_def sum_list_zip_sum power_mult_distrib t_norm_sq)
  then show ?thesis by (metis abs_le_square_iff abs_of_nonneg mult_nonneg_nonneg t_norm_nonneg)
qed

section \<open>Drift between two tensors\<close>

record drift =
  dr_mse :: real
  dr_rmse :: real
  dr_mae :: real
  dr_cosine :: real
  dr_snr_db :: real
  dr_max_error :: real

definition cosine_similarity :: "real list \<Rightarrow> real list \<Rightarrow> real" where
  "cosine_similarity xs ys = t_dot xs ys / (t_norm xs * t_norm ys + 1 / 10 ^ 12)"

definition snr_db :: "real list \<Rightarrow> real list \<Rightarrow> real" where
  "snr_db orig diff = 10 * log 10 (t_mean (t_sq orig) / (t_mean (t_sq diff) + 1 / 10 ^ 12) + 1 / 10 ^ 12)"

definition tensor_drift :: "real list \<Rightarrow> real list \<Rightarrow> drift" where
  "tensor_drift orig other =
     (let diff = t_diff orig other; mse = t_mean (t_sq diff)
      in \<lparr>dr_mse = mse, dr_rmse = sqrt mse, dr_mae = t_mean (map abs diff),
          dr_cosine = cosine_similarity orig other, dr_snr_db = snr_db orig diff,
          dr_max_error = t_max (map abs diff)\<rparr>)"

lemma cosine_bounds: "length ys = length xs \<Longrightarrow> \<bar>cosine_similarity xs ys\<bar> \<le> 1"
proof -
  assume "length ys = length xs"
  from cauchy_schwarz[OF this] have "\<bar>t_dot xs ys\<bar> \<le> t_norm xs * t_norm ys + 1 / 10 ^ 12" by simp
  moreover have "0 < t_norm xs * t_norm ys + 1 / 10 ^ 12" by (simp add: add_nonneg_pos)
  ultimately show ?thesis by (simp add: cosine_similarity_def)
qed

lemma mean_bounds:
  assumes "xs \<noteq> []" "\<forall>x \<in> set xs. a \<le> x \<and> x \<le> b"
  shows "a \<le> t_mean xs \<and> t_mean xs \<le> b"
proof -
  have "real (length xs) * a \<le> sum_list xs \<and> sum_list xs \<le> real (length xs) * b"
    using assms(2) by (induction xs) (auto simp: algebra_simps)
  with assms(1) show ?thesis by (simp add: t_mean_def field_simps)
qed

lemma mean_zero_iff:
  assumes "xs \<noteq> []" "\<forall>x \<in> set xs. 0 \<le> x"
  shows "t_mean xs = 0 \<longleftrightarrow> (\<forall>x \<in> set xs. x = 0)"
  using assms by (simp add: t_mean_def sum_list_nonneg_eq_0_iff)

lemma drift_bounds:
  assumes len: "length ys = length xs" and ne: "xs \<noteq> []"
  shows "let d = tensor_drift xs ys in 0 \<le> dr_mse d \<and> (dr_rmse d)\<^sup>2 = dr_mse d \<and>
    0 \<le> dr_mae d \<and> dr_mae d \<le> dr_max_error d \<and> dr_rmse d \<le> dr_max_error d \<and>
    \<bar>dr_cosine d\<bar> \<le> 1 \<and> (dr_mse d = 0 \<longleftrightarrow> xs = ys) \<and> (dr_max_error d = 0 \<longleftrightarrow> xs = ys)"
proof -
  define diff where "diff = t_diff xs ys"
  have dne: "diff \<noteq> []" using ne len by (auto simp: diff_def t_diff_def)
  have eq: "xs = ys \<longleftrightarrow> (\<forall>x \<in> set diff. x = 0)"
  proof
    assume "\<forall>x \<in> set diff. x = 0"
    then have "xs ! i - ys ! i = 0" if "i < length xs" for i
      using that len by (simp add: diff_def t_diff_def all_set_conv_all_nth)
    then show "xs = ys" using len by (intro nth_equalityI) simp_all
  qed (use len in \<open>auto simp: diff_def t_diff_def in_set_zip\<close>)
  define mx where "mx = t_max (map abs diff)"
  have mx: "\<bar>x\<bar> \<le> mx" if "x \<in> set diff" for x using that t_max_ge by (auto simp: mx_def)
  have mx0: "0 \<le> mx" using mx[of "hd diff"] dne by (meson abs_ge_zero hd_in_set order_trans)
  have mse: "0 \<le> t_mean (t_sq diff) \<and> t_mean (t_sq diff) \<le> mx\<^sup>2"
    by (rule mean_bounds) (use dne mx mx0 in \<open>auto simp: t_sq_def abs_le_square_iff[symmetric]\<close>)
  have mae: "0 \<le> t_mean (map abs diff) \<and> t_mean (map abs diff) \<le> mx"
    by (rule mean_bounds) (use dne mx in auto)
  have "sqrt (t_mean (t_sq diff)) \<le> mx" using mse mx0 by (simp add: real_le_lsqrt)
  moreover have "t_mean (t_sq diff) = 0 \<longleftrightarrow> xs = ys"
    using mean_zero_iff[of "t_sq diff"] dne eq by (simp add: t_sq_def)
  moreover have "mx = 0 \<longleftrightarrow> xs = ys"
  proof
    show "xs = ys" if "mx = 0" using mx that eq by fastforce
    show "mx = 0" if "xs = ys" using t_max_in[of "map abs diff"] dne eq that by (auto simp: mx_def)
  qed
  ultimately show ?thesis
    using mse mae cosine_bounds[OF len] by (simp add: tensor_drift_def Let_def diff_def[symmetric] mx_def[symmetric])
qed

end
