(* ===== verification/Quantization.thy ===== *)
theory Quantization
  imports Tensor
begin

text \<open>
  \<open>cudaforge/quantization.py\<close>: calibration of quantization scales, int8 conversion, int4 packing
  into bytes, and the drift report. A 2D tensor is a list of rows; a scale tensor broadcasts
  against it as in PyTorch (a dimension of size 1 is repeated). Floating point values are reals;
  the conversion of the scale to half precision is the argument \<open>half\<close>.
\<close>

unbundle bit_operations_syntax

section \<open>Calibration\<close>

datatype quant_mode = INT8_PER_TENSOR | INT8_PER_CHANNEL | INT4_PER_CHANNEL | SMOOTH_QUANT_INT8

type_synonym matrix = "real list list"

record quantization_scale =
  qs_scale :: matrix
  qs_zero_point :: "matrix option"
  qs_smooth_scale :: "matrix option"

datatype quant_error = EmptyReduction | AssertionError | IndexError

definition mat_shape :: "'a list list \<Rightarrow> nat \<Rightarrow> nat \<Rightarrow> bool" where
  "mat_shape m rows cols \<longleftrightarrow> length m = rows \<and> (\<forall>r \<in> set m. length r = cols)"

definition num_cols :: "matrix \<Rightarrow> nat" where
  "num_cols m = (case m of [] \<Rightarrow> 0 | r # _ \<Rightarrow> length r)"

text \<open>Maximum of the absolute values: over the whole tensor, per column, or per row.\<close>

definition abs_max :: "nat option \<Rightarrow> matrix \<Rightarrow> matrix" where
  "abs_max axis m =
     (case axis of
        None \<Rightarrow> [[t_max (map abs (concat m))]]
      | Some 0 \<Rightarrow> [map (\<lambda>j. t_max (map (\<lambda>r. \<bar>r ! j\<bar>) m)) [0..<num_cols m]]
      | Some _ \<Rightarrow> map (\<lambda>r. [t_max (map abs r)]) m)"

definition compute_minmax_scale ::
  "matrix \<Rightarrow> nat \<Rightarrow> nat option \<Rightarrow> bool \<Rightarrow> quant_error + quantization_scale" where
  "compute_minmax_scale m num_bits axis symmetric =
     (let qmax = (if symmetric then 2 ^ (num_bits - 1) - 1 else 2 ^ num_bits - 1 :: real) in
      if m = [] \<or> num_cols m = 0 then Inl EmptyReduction
      else Inr \<lparr>qs_scale = map (map (\<lambda>x. max (x / qmax) (1 / 10 ^ 8))) (abs_max axis m),
                qs_zero_point = None, qs_smooth_scale = None\<rparr>)"

text \<open>\<open>torch.pow\<close> on the non-negative magnitudes: the power 0 is 1 also for the base 0.\<close>

definition t_pow :: "real \<Rightarrow> real \<Rightarrow> real" where
  "t_pow x a = (if a = 0 then 1 else x powr a)"

definition compute_smoothquant_scales :: "real list \<Rightarrow> real list \<Rightarrow> real \<Rightarrow> real list" where
  "compute_smoothquant_scales act_max weight_max alpha =
     map (\<lambda>(a, w). max (t_pow a alpha / max (t_pow w (1 - alpha)) (1 / 10 ^ 8)) (1 / 10 ^ 5))
       (zip act_max weight_max)"

section \<open>Threshold search by KL divergence\<close>

text \<open>The bins \<open>range(start_idx, min(end_idx, i))\<close> that a target bin j covers.\<close>

definition bin_start :: "nat \<Rightarrow> nat \<Rightarrow> nat \<Rightarrow> real" where
  "bin_start i target j = real j * (real i / real target)"

definition bin_range :: "nat \<Rightarrow> nat \<Rightarrow> nat \<Rightarrow> nat list" where
  "bin_range i target j =
     [nat \<lfloor>bin_start i target j\<rfloor>..<min (nat \<lceil>bin_start i target (j + 1)\<rceil>) i]"

definition bin_weight :: "nat \<Rightarrow> nat \<Rightarrow> nat \<Rightarrow> nat \<Rightarrow> real" where
  "bin_weight i target j k =
     (let start = bin_start i target j; end_pos = bin_start i target (j + 1) in
      1 - (if k = nat \<lfloor>start\<rfloor> then start - of_int \<lfloor>start\<rfloor> else 0)
        - (if k + 1 = nat \<lceil>end_pos\<rceil> then of_int \<lceil>end_pos\<rceil> - end_pos else 0))"

definition reference_dist :: "real list \<Rightarrow> nat \<Rightarrow> real list" where
  "reference_dist hist i = (let r = take i hist in r[i - 1 := r ! (i - 1) + sum_list (drop i hist)])"

definition quantized_bin :: "real list \<Rightarrow> nat \<Rightarrow> nat \<Rightarrow> nat \<Rightarrow> real" where
  "quantized_bin ref i target j =
     sum_list (map (\<lambda>k. ref ! k * bin_weight i target j k) (bin_range i target j))"

text \<open>Expansion of the target bins: the non-empty reference bins of a target bin share its mass.\<close>

definition expand_bin :: "real list \<Rightarrow> nat \<Rightarrow> nat \<Rightarrow> real list \<Rightarrow> nat \<Rightarrow> real list" where
  "expand_bin ref i target q j =
     (let live = filter (\<lambda>k. 0 < ref ! k) (bin_range i target j) in
      if live = [] then q
      else fold (\<lambda>k q. q[k := quantized_bin ref i target j / real (length live)]) live q)"

definition expanded_dist :: "real list \<Rightarrow> nat \<Rightarrow> nat \<Rightarrow> real list" where
  "expanded_dist ref i target = fold (\<lambda>j q. expand_bin ref i target q j) [0..<target] (replicate i 0)"

definition kl_at :: "real list \<Rightarrow> nat \<Rightarrow> nat \<Rightarrow> real" where
  "kl_at hist target i =
     (let ref = reference_dist hist i;
          p = map (\<lambda>x. clamp (1 / 10 ^ 12) 1 (x / sum_list ref)) ref;
          q0 = map (clamp (1 / 10 ^ 12) 1) (expanded_dist ref i target);
          q = map (\<lambda>x. x / sum_list q0) q0
      in sum_list (map (\<lambda>(a, b). a * ln (a / b)) (zip p q)))"

text \<open>The scan keeps the first candidate with the least divergence; None stands for infinity.\<close>

fun kl_scan ::
  "(nat \<Rightarrow> real) \<Rightarrow> (nat \<Rightarrow> quant_error + real) \<Rightarrow> nat list \<Rightarrow> real option \<Rightarrow> real \<Rightarrow> quant_error + real" where
  "kl_scan kl mid [] best_kl threshold = Inr threshold"
| "kl_scan kl mid (i # is) best_kl threshold =
     (if (case best_kl of None \<Rightarrow> True | Some b \<Rightarrow> kl i < b)
      then res_bind (mid i) (\<lambda>t. kl_scan kl mid is (Some (kl i)) t)
      else kl_scan kl mid is best_kl threshold)"

definition mid_edge :: "real list \<Rightarrow> nat \<Rightarrow> quant_error + real" where
  "mid_edge edges i = (if i + 1 < length edges then Inr ((edges ! i + edges ! (i + 1)) / 2) else Inl IndexError)"

definition compute_kl_divergence_scale ::
  "real list \<Rightarrow> real list \<Rightarrow> nat \<Rightarrow> quant_error + real" where
  "compute_kl_divergence_scale histogram edges target_bins =
     (if histogram = [] then Inl IndexError
      else
        let hist = histogram[0 := 0] in
        if edges = [] then Inl IndexError
        else if sum_list hist = 0 then Inr (last edges)
        else if target_bins = 0 then Inl IndexError
        else kl_scan (kl_at hist target_bins) (mid_edge edges) [target_bins..<length hist] None (last edges))"

section \<open>int8 conversion\<close>

text \<open>Broadcasting of a scale tensor against the element (i, j).\<close>

definition bcast :: "matrix \<Rightarrow> nat \<Rightarrow> nat \<Rightarrow> real" where
  "bcast s i j = (let r = s ! (if length s = 1 then 0 else i) in r ! (if length r = 1 then 0 else j))"

definition mat_map2 :: "('a \<Rightarrow> real \<Rightarrow> 'b) \<Rightarrow> 'a list list \<Rightarrow> matrix \<Rightarrow> 'b list list" where
  "mat_map2 f m s = map (\<lambda>i. map (\<lambda>j. f (m ! i ! j) (bcast s i j)) [0..<length (m ! i)]) [0..<length m]"

definition quantize_int8 :: "matrix \<Rightarrow> matrix \<Rightarrow> bool \<Rightarrow> int list list" where
  "quantize_int8 m s symmetric =
     mat_map2 (\<lambda>x sc. if symmetric then clamp (-128) 127 (round_half_even (x / sc))
                       else clamp 0 255 (round_half_even (x / sc))) m s"

definition dequantize_int8 :: "int list list \<Rightarrow> matrix \<Rightarrow> matrix" where
  "dequantize_int8 q s = mat_map2 (\<lambda>x sc. of_int x * sc) q s"

section \<open>int4 packing\<close>








section \<open>Drift report\<close>

definition evaluate_numerical_drift :: "matrix \<Rightarrow> matrix \<Rightarrow> drift" where
  "evaluate_numerical_drift baseline dequantized = tensor_drift (concat baseline) (concat dequantized)"

section \<open>Lemmas\<close>




lemma mat_map2_nth:
  "i < length m \<Longrightarrow> j < length (m ! i) \<Longrightarrow> mat_map2 f m s ! i ! j = f (m ! i ! j) (bcast s i j)"
  "length (mat_map2 f m s) = length m" "i < length m \<Longrightarrow> length (mat_map2 f m s ! i) = length (m ! i)"
  by (simp_all add: mat_map2_def)

text \<open>Rounding to a grid of width \<open>sc\<close> within the range of the codes.\<close>

lemma grid_error:
  assumes "0 < sc" "of_int lo * sc \<le> x" "x \<le> of_int hi * sc" "lo \<le> hi"
  shows "\<bar>of_int (clamp lo hi (round_half_even (x / sc))) * sc - x\<bar> \<le> sc / 2"
proof -
  let ?c = "round_half_even (x / sc)"
  have "lo \<le> ?c" "?c \<le> hi"
    by (rule round_half_even_mono_bounds, use assms in \<open>simp add: field_simps\<close>)+
  then have "clamp lo hi ?c = ?c" by (rule clamp_id)
  moreover have "of_int ?c * sc - x = (of_int ?c - x / sc) * sc" using assms(1) by (simp add: field_simps)
  then have "\<bar>of_int ?c * sc - x\<bar> = \<bar>of_int ?c - x / sc\<bar> * sc" using assms(1) by (simp add: abs_mult)
  moreover have "\<bar>of_int ?c - x / sc\<bar> * sc \<le> 1 / 2 * sc"
    using round_half_even_error assms(1) by (intro mult_right_mono) auto
  ultimately show ?thesis by simp
qed

lemma kl_scan_some:
  "kl_scan kl mid is (Some b) th = Inr t \<Longrightarrow> sorted_wrt (<) is \<Longrightarrow>
   (t = th \<and> (\<forall>i \<in> set is. b \<le> kl i)) \<or>
   (\<exists>i \<in> set is. mid i = Inr t \<and> kl i < b \<and> (\<forall>i' \<in> set is. kl i \<le> kl i' \<and> (i' < i \<longrightarrow> kl i < kl i')))"
proof (induction "is" arbitrary: b th)
  case (Cons i "is")
  have later: "\<forall>x \<in> set is. i < x" using Cons.prems(2) by simp
  show ?case
  proof (cases "kl i < b")
    case True
    with Cons.prems obtain m where m: "mid i = Inr m" "kl_scan kl mid is (Some (kl i)) m = Inr t"
      by (auto simp: res_bind_Inr_iff)
    have "sorted_wrt (<) is" using Cons.prems(2) by simp
    from Cons.IH[OF m(2) this] show ?thesis
    proof
      assume "t = m \<and> (\<forall>x \<in> set is. kl i \<le> kl x)"
      with m(1) True later show ?thesis by (intro disjI2 bexI[of _ i]) (auto dest: less_asym)
    next
      assume "\<exists>x \<in> set is. mid x = Inr t \<and> kl x < kl i \<and> (\<forall>i' \<in> set is. kl x \<le> kl i' \<and> (i' < x \<longrightarrow> kl x < kl i'))"
      then obtain x where "x \<in> set is" "mid x = Inr t" "kl x < kl i"
        "\<forall>i' \<in> set is. kl x \<le> kl i' \<and> (i' < x \<longrightarrow> kl x < kl i')" by blast
      with True show ?thesis by (intro disjI2 bexI[of _ x]) auto
    qed
  next
    case False
    with Cons.prems have "kl_scan kl mid is (Some b) th = Inr t" "sorted_wrt (<) is" by simp_all
    from Cons.IH[OF this] show ?thesis
    proof
      assume "\<exists>x \<in> set is. mid x = Inr t \<and> kl x < b \<and> (\<forall>i' \<in> set is. kl x \<le> kl i' \<and> (i' < x \<longrightarrow> kl x < kl i'))"
      then obtain x where "x \<in> set is" "mid x = Inr t" "kl x < b"
        "\<forall>i' \<in> set is. kl x \<le> kl i' \<and> (i' < x \<longrightarrow> kl x < kl i')" by blast
      with False show ?thesis by (intro disjI2 bexI[of _ x]) auto
    qed (use False in auto)
  qed
qed simp

lemma kl_scan_none:
  assumes "kl_scan kl mid is None th = Inr t" "is \<noteq> []" "sorted_wrt (<) is"
  shows "\<exists>i \<in> set is. mid i = Inr t \<and> (\<forall>i' \<in> set is. kl i \<le> kl i' \<and> (i' < i \<longrightarrow> kl i < kl i'))"
proof -
  obtain i js where "is": "is = i # js" using assms(2) by (cases "is") auto
  have "kl_scan kl mid is (Some (kl i + 1)) th = Inr t" using assms(1) by (simp add: "is")
  from kl_scan_some[OF this assms(3)] show ?thesis by (force simp: "is")
qed

lemma kl_scan_total: "\<forall>i \<in> set is. \<exists>m. mid i = Inr m \<Longrightarrow> \<exists>t. kl_scan kl mid is b th = Inr t"
  by (induction "is" arbitrary: b th) (auto split: option.splits)

lemma minmax_scale_covers:
  assumes scale: "compute_minmax_scale m 8 axis True = Inr sc" and axis: "axis \<in> {None, Some 0, Some 1}"
    and shape: "mat_shape m rows cols" and ij: "i < rows" "j < cols"
  shows "0 < bcast (qs_scale sc) i j" "\<bar>m ! i ! j\<bar> \<le> 127 * bcast (qs_scale sc) i j"
proof -
  have rowi: "m ! i \<in> set m" "length (m ! i) = cols" and len: "length m = rows"
    using shape ij by (auto simp: mat_shape_def)
  have nc: "num_cols m = cols"
    using shape ij by (cases m) (auto simp: mat_shape_def num_cols_def)
  have sc: "qs_scale sc = map (map (\<lambda>x. max (x / 127) (1 / 10 ^ 8))) (abs_max axis m)"
    using scale by (auto simp: compute_minmax_scale_def Let_def split: if_splits)
  have "\<exists>x. bcast (qs_scale sc) i j = max (x / 127) (1 / 10 ^ 8) \<and> \<bar>m ! i ! j\<bar> \<le> x"
  proof -
    consider "axis = None" | "axis = Some 0" | "axis = Some 1" using axis by auto
    then show ?thesis
    proof cases
      case 1
      have "\<bar>m ! i ! j\<bar> \<in> set (map abs (concat m))" using rowi ij by force
      from t_max_ge[OF this] show ?thesis by (auto simp: 1 sc abs_max_def bcast_def)
    next
      case 2
      have "\<bar>m ! i ! j\<bar> \<in> set (map (\<lambda>r. \<bar>r ! j\<bar>) m)" using rowi by simp
      from t_max_ge[OF this] show ?thesis
        using ij nc by (intro exI[of _ "t_max (map (\<lambda>r. \<bar>r ! j\<bar>) m)"]) (auto simp: 2 sc abs_max_def bcast_def)
    next
      case 3
      have "\<bar>m ! i ! j\<bar> \<in> set (map abs (m ! i))" using rowi ij by simp
      from t_max_ge[OF this] show ?thesis
        using ij len by (intro exI[of _ "t_max (map abs (m ! i))"]) (auto simp: 3 sc abs_max_def bcast_def)
    qed
  qed
  then obtain x where x: "bcast (qs_scale sc) i j = max (x / 127) (1 / 10 ^ 8)" "\<bar>m ! i ! j\<bar> \<le> x" by blast
  show "0 < bcast (qs_scale sc) i j" by (simp add: x(1) less_max_iff_disj)
  have "x \<le> 127 * max (x / 127) (1 / 10 ^ 8)" by (simp add: max_def)
  with x show "\<bar>m ! i ! j\<bar> \<le> 127 * bcast (qs_scale sc) i j" by simp
qed

section \<open>Properties\<close>

text \<open>
  C28: int8 quantization with the scale that calibration computes for the same tensor (for the
  whole tensor, per column or per row) loses at most half a quantization step in every element.
\<close>

theorem int8_roundtrip:
  assumes "compute_minmax_scale m 8 axis True = Inr sc" and "axis \<in> {None, Some 0, Some 1}"
    and "mat_shape m rows cols" and "i < rows" and "j < cols"
  shows "\<bar>dequantize_int8 (quantize_int8 m (qs_scale sc) True) (qs_scale sc) ! i ! j - m ! i ! j\<bar> \<le>
    bcast (qs_scale sc) i j / 2"
proof -
  let ?s = "bcast (qs_scale sc) i j"
  note C = minmax_scale_covers[OF assms]
  have ij: "i < length m" "j < length (m ! i)" using assms(3,4,5) by (auto simp: mat_shape_def)
  have "dequantize_int8 (quantize_int8 m (qs_scale sc) True) (qs_scale sc) ! i ! j =
      of_int (clamp (-128) 127 (round_half_even (m ! i ! j / ?s))) * ?s"
    using ij by (simp add: dequantize_int8_def quantize_int8_def mat_map2_nth)
  then show ?thesis using grid_error[of ?s "-128" "m ! i ! j" 127] C by (auto simp: abs_le_iff)
qed

theorem int8_roundtrip_witness:
  "\<exists>sc. compute_minmax_scale [[1, -2], [4, 3]] 8 (Some 0) True = Inr sc \<and>
    \<bar>dequantize_int8 (quantize_int8 [[1, -2], [4, 3]] (qs_scale sc) True) (qs_scale sc) ! 1 ! 0 - 4\<bar> \<le>
      bcast (qs_scale sc) 1 0 / 2"
proof -
  obtain sc where sc: "compute_minmax_scale [[1, -2], [4, 3]] 8 (Some 0) True = Inr sc"
    by (simp add: compute_minmax_scale_def num_cols_def Let_def)
  from int8_roundtrip[OF sc, of 2 2 1 0] sc show ?thesis by (auto simp: mat_shape_def)
qed








text \<open>
  C30: A threshold search that returns, returns the midpoint of the first candidate bin whose KL
  divergence is the least among all candidates; the last edge when the histogram has no candidate
  bin, and also, whatever the candidates, when nothing is left in it after the zero bin is cleared.
\<close>

theorem kl_threshold_minimal:
  assumes "compute_kl_divergence_scale histogram edges target = Inr threshold"
    and "hist = histogram[0 := 0]"
  shows "if sum_list hist = 0 \<or> length hist \<le> target then threshold = last edges
    else \<exists>i. target \<le> i \<and> i < length hist \<and> threshold = (edges ! i + edges ! (i + 1)) / 2 \<and>
      (\<forall>i'. target \<le> i' \<longrightarrow> i' < length hist \<longrightarrow> kl_at hist target i \<le> kl_at hist target i') \<and>
      (\<forall>i'. target \<le> i' \<longrightarrow> i' < i \<longrightarrow> kl_at hist target i < kl_at hist target i')"
proof (cases "sum_list hist = 0")
  case True
  then show ?thesis using assms by (simp add: compute_kl_divergence_scale_def Let_def split: if_splits)
next
  case mass: False
  have scan: "kl_scan (kl_at hist target) (mid_edge edges) [target..<length hist] None (last edges) = Inr threshold"
    using assms mass by (simp add: compute_kl_divergence_scale_def Let_def split: if_splits)
  show ?thesis
  proof (cases "length hist \<le> target")
    case False
    then have "[target..<length hist] \<noteq> []" by (simp only: upt_eq_Nil_conv) auto
    from kl_scan_none[OF scan this sorted_wrt_upt] obtain i where "i \<in> {target..<length hist}" "mid_edge edges i = Inr threshold"
      "\<forall>i' \<in> {target..<length hist}. kl_at hist target i \<le> kl_at hist target i'"
      "\<forall>i' \<in> {target..<length hist}. i' < i \<longrightarrow> kl_at hist target i < kl_at hist target i'" unfolding set_upt by blast
    with False mass show ?thesis by (auto simp: mid_edge_def split: if_splits)
  qed (use scan in simp)
qed

theorem kl_threshold_minimal_witness:
  "\<exists>t. compute_kl_divergence_scale [5, 1, 2] [0, 1, 2, 3] 1 = Inr t \<and> (t = (1 + 2) / 2 \<or> t = (2 + 3) / 2)"
proof -
  have "\<exists>t. compute_kl_divergence_scale [5, 1, 2] [0, 1, 2, 3] 1 = Inr t"
  proof -
    have "compute_kl_divergence_scale [5, 1, 2] [0, 1, 2, 3] 1 =
        kl_scan (kl_at [0, 1, 2] 1) (mid_edge [0, 1, 2, 3]) [1..<3] None 3"
      by (simp add: compute_kl_divergence_scale_def Let_def numeral_eq_Suc del: kl_scan.simps upt_Suc)
    moreover have "\<forall>i \<in> set [1..<3]. \<exists>m. mid_edge [0, 1, 2, 3] i = Inr m"
    proof
      fix i :: nat assume "i \<in> set [1..<3]"
      then have "i + 1 < length [0, 1, 2, 3 :: real]" by simp
      then show "\<exists>m. mid_edge [0, 1, 2, 3] i = Inr m" unfolding mid_edge_def by (simp only: if_True) blast
    qed
    ultimately show ?thesis using kl_scan_total[of "[1..<3]"] by (simp only:)
  qed
  then obtain t where t: "compute_kl_divergence_scale [5, 1, 2] [0, 1, 2, 3] 1 = Inr t" ..
  from kl_threshold_minimal[OF t refl] obtain i where
    i: "1 \<le> i" "i < (3 :: nat)" "t = ([0, 1, 2, 3] ! i + [0, 1, 2, 3] ! (i + 1)) / 2" by auto
  from i(1,2) have "i = 1 \<or> i = 2" by auto
  with i(3) t show ?thesis by auto
qed

text \<open>
  The drift report of two tensors of the same size is consistent: its errors are
  non-negative, the mean absolute and root mean square errors are at most the maximal one, the cosine
  similarity lies in [-1, 1], and mean square and maximal error vanish exactly for equal tensors.
\<close>

theorem drift_report_consistent:
  assumes "length (concat b) = length (concat a)" and "concat a \<noteq> []"
  shows "let d = evaluate_numerical_drift a b in
    0 \<le> dr_mse d \<and> (dr_rmse d)\<^sup>2 = dr_mse d \<and> 0 \<le> dr_mae d \<and>
    dr_mae d \<le> dr_max_error d \<and> dr_rmse d \<le> dr_max_error d \<and> \<bar>dr_cosine d\<bar> \<le> 1 \<and>
    (dr_mse d = 0 \<longleftrightarrow> concat a = concat b) \<and> (dr_max_error d = 0 \<longleftrightarrow> concat a = concat b)"
  using drift_bounds[OF assms] by (simp add: evaluate_numerical_drift_def)

theorem drift_report_consistent_witness:
  "\<bar>dr_cosine (evaluate_numerical_drift [[1, 2]] [[2, 1]])\<bar> \<le> 1"
  using drift_report_consistent[of "[[2, 1]]" "[[1, 2]]"] by (simp add: Let_def)

end
