(* ===== verification/Accuracy.thy ===== *)
theory Accuracy
  imports Tensor "HOL-Library.Sublist"
begin

text \<open>
  \<open>eval_platform/pipelines/accuracy_eval.py\<close>: exact match, token accuracy and ROUGE-L over token
  sequences (with the dynamic program for the longest common subsequence), perplexity, and the drift
  of quantized logits. The framework's summed cross entropy and KL divergence are arguments.
\<close>

section \<open>Results\<close>

record perplexity_result =
  pr_perplexity :: "real option"
  pr_cross_entropy :: "real option"
  pr_tokens :: nat

record correctness_result =
  cr_exact_match :: real
  cr_rouge_l :: real
  cr_token_accuracy :: real
  cr_samples :: nat

record logit_drift_result =
  lr_drift :: drift
  lr_kl_divergence :: real

record accuracy_result =
  ar_task_name :: string
  ar_metric_score :: "real option"
  ar_num_samples :: nat
  ar_perplexity :: "perplexity_result option"
  ar_correctness :: "correctness_result option"

datatype accuracy_error = MismatchedSamples | ShapeMismatch

section \<open>Longest common subsequence\<close>

type_synonym table = "nat list list"

definition lcs_cell :: "int list \<Rightarrow> int list \<Rightarrow> nat \<Rightarrow> nat \<Rightarrow> table \<Rightarrow> table" where
  "lcs_cell seq1 seq2 i j dp =
     dp[i := (dp ! i)[j := (if seq1 ! (i - 1) = seq2 ! (j - 1) then dp ! (i - 1) ! (j - 1) + 1
                            else max (dp ! (i - 1) ! j) (dp ! i ! (j - 1)))]]"

definition lcs_row :: "int list \<Rightarrow> int list \<Rightarrow> nat \<Rightarrow> table \<Rightarrow> table" where
  "lcs_row seq1 seq2 i dp = fold (lcs_cell seq1 seq2 i) [1..<length seq2 + 1] dp"

definition lcs_table :: "int list \<Rightarrow> int list \<Rightarrow> table" where
  "lcs_table seq1 seq2 =
     fold (lcs_row seq1 seq2) [1..<length seq1 + 1]
       (replicate (length seq1 + 1) (replicate (length seq2 + 1) 0))"

definition lcs_length :: "int list \<Rightarrow> int list \<Rightarrow> nat" where
  "lcs_length seq1 seq2 = lcs_table seq1 seq2 ! length seq1 ! length seq2"

section \<open>Correctness of generations\<close>

definition token_matches :: "int list \<Rightarrow> int list \<Rightarrow> nat" where
  "token_matches gen ref = length (filter (\<lambda>i. gen ! i = ref ! i) [0..<min (length gen) (length ref)])"

definition token_accuracy :: "int list \<Rightarrow> int list \<Rightarrow> real" where
  "token_accuracy gen ref =
     (if 0 < min (length gen) (length ref)
      then real (token_matches gen ref) / real (max (length gen) (length ref)) else 0)"

definition rouge_f1 :: "int list \<Rightarrow> int list \<Rightarrow> real" where
  "rouge_f1 gen ref =
     (let l = lcs_length gen ref in
      if 0 < l \<and> 0 < length gen \<and> 0 < length ref then
        (let prec = real l / real (length gen); rec = real l / real (length ref) in
         if 0 < prec + rec then (2 * prec * rec) / (prec + rec) else 0)
      else 0)"

definition evaluate_correctness ::
  "int list list \<Rightarrow> int list list \<Rightarrow> accuracy_error + correctness_result" where
  "evaluate_correctness gens refs =
     (if length gens \<noteq> length refs then Inl MismatchedSamples
      else if gens = [] then
        Inr \<lparr>cr_exact_match = 0, cr_rouge_l = 0, cr_token_accuracy = 0, cr_samples = 0\<rparr>
      else
        let pairs = zip gens refs; total = real (length gens);
            (exact, rouge, acc) = fold (\<lambda>(gen, ref) (exact, rouge, acc).
               (if gen = ref then exact + 1 else exact, rouge + rouge_f1 gen ref,
                acc + token_accuracy gen ref)) pairs (0 :: nat, 0, 0)
        in Inr \<lparr>cr_exact_match = real exact / total, cr_rouge_l = rouge / total,
                cr_token_accuracy = acc / total, cr_samples = length gens\<rparr>)"

section \<open>Perplexity, drift and the combined evaluation\<close>

definition compute_perplexity ::
  "(real list list \<Rightarrow> int list \<Rightarrow> int \<Rightarrow> real) \<Rightarrow> real list list \<Rightarrow> int list \<Rightarrow> int \<Rightarrow> perplexity_result" where
  "compute_perplexity cross_entropy_sum flat_logits flat_targets ignore_index =
     (let valid = length (filter (\<lambda>t. t \<noteq> ignore_index) flat_targets) in
      if valid = 0 then \<lparr>pr_perplexity = None, pr_cross_entropy = None, pr_tokens = 0\<rparr>
      else let ce = cross_entropy_sum flat_logits flat_targets ignore_index / real valid
           in \<lparr>pr_perplexity = Some (exp ce), pr_cross_entropy = Some ce, pr_tokens = valid\<rparr>)"

definition compare_numerical_drift ::
  "(real list list \<Rightarrow> real list list \<Rightarrow> real) \<Rightarrow> real list list \<Rightarrow> real list list \<Rightarrow>
   accuracy_error + logit_drift_result" where
  "compare_numerical_drift kl fp16 quant =
     (if map length fp16 \<noteq> map length quant then Inl ShapeMismatch
      else Inr \<lparr>lr_drift = tensor_drift (concat fp16) (concat quant), lr_kl_divergence = kl fp16 quant\<rparr>)"

text \<open>The primary metric of a perplexity result is replaced only when it equals 0.\<close>

definition evaluate ::
  "string \<Rightarrow> (real list list \<Rightarrow> int list \<Rightarrow> int \<Rightarrow> real) \<Rightarrow> int list list option \<Rightarrow> int list list option \<Rightarrow>
   real list list option \<Rightarrow> int list option \<Rightarrow> accuracy_error + accuracy_result" where
  "evaluate task ce gens refs logits targets =
     (let perp = (case (logits, targets) of
                    (Some l, Some t) \<Rightarrow> Some (compute_perplexity ce l t (-100)) | _ \<Rightarrow> None);
          metric = (case perp of None \<Rightarrow> Some 0 | Some p \<Rightarrow> pr_perplexity p);
          samples = (case perp of None \<Rightarrow> 0 | Some p \<Rightarrow> pr_tokens p)
      in case (gens, refs) of
           (Some g, Some r) \<Rightarrow>
             res_bind (evaluate_correctness g r)
               (\<lambda>c. Inr \<lparr>ar_task_name = task,
                         ar_metric_score = (if metric = Some 0 then Some (cr_exact_match c) else metric),
                         ar_num_samples = cr_samples c, ar_perplexity = perp, ar_correctness = Some c\<rparr>)
         | _ \<Rightarrow> Inr \<lparr>ar_task_name = task, ar_metric_score = metric, ar_num_samples = samples,
                     ar_perplexity = perp, ar_correctness = None\<rparr>)"

section \<open>The table holds the lengths of common subsequences\<close>

fun lcs_ref :: "int list \<Rightarrow> int list \<Rightarrow> nat \<Rightarrow> nat \<Rightarrow> nat" where
  "lcs_ref xs ys 0 j = 0"
| "lcs_ref xs ys (Suc i) 0 = 0"
| "lcs_ref xs ys (Suc i) (Suc j) =
     (if xs ! i = ys ! j then lcs_ref xs ys i j + 1
      else max (lcs_ref xs ys i (Suc j)) (lcs_ref xs ys (Suc i) j))"

lemma lcs_ref_0 [simp]: "lcs_ref xs ys i 0 = 0"
  by (cases i) auto

text \<open>Rows before i are done, and row i up to column j; column 0 is 0 everywhere.\<close>

definition table_ok :: "int list \<Rightarrow> int list \<Rightarrow> nat \<Rightarrow> nat \<Rightarrow> table \<Rightarrow> bool" where
  "table_ok xs ys i j dp \<longleftrightarrow> length dp = length xs + 1 \<and> (\<forall>r \<in> set dp. length r = length ys + 1) \<and>
     (\<forall>a \<le> length xs. \<forall>b \<le> length ys. a < i \<or> a = i \<and> b \<le> j \<or> b = 0 \<longrightarrow> dp ! a ! b = lcs_ref xs ys a b)"

lemma table_okD:
  "table_ok xs ys i j dp \<Longrightarrow> a \<le> length xs \<Longrightarrow> b \<le> length ys \<Longrightarrow> a < i \<or> a = i \<and> b \<le> j \<or> b = 0 \<Longrightarrow>
   dp ! a ! b = lcs_ref xs ys a b"
  unfolding table_ok_def by blast

lemma cell_ok:
  assumes ok: "table_ok xs ys (Suc i) j dp" and lt: "i < length xs" "j < length ys"
  shows "table_ok xs ys (Suc i) (Suc j) (lcs_cell xs ys (Suc i) (Suc j) dp)"
proof -
  have rows: "length (dp ! a) = length ys + 1" if "a \<le> length xs" for a
    using ok that by (simp add: table_ok_def)
  have val: "dp ! i ! j = lcs_ref xs ys i j" "dp ! i ! Suc j = lcs_ref xs ys i (Suc j)"
    "dp ! Suc i ! j = lcs_ref xs ys (Suc i) j"
    by (rule table_okD[OF ok]; use lt in simp)+
  have new: "lcs_cell xs ys (Suc i) (Suc j) dp =
      dp[Suc i := (dp ! Suc i)[Suc j := lcs_ref xs ys (Suc i) (Suc j)]]"
    by (simp add: lcs_cell_def val)
  show ?thesis unfolding new table_ok_def
  proof (intro conjI allI impI ballI)
    show "length (dp[Suc i := (dp ! Suc i)[Suc j := lcs_ref xs ys (Suc i) (Suc j)]]) = length xs + 1"
      using ok by (simp add: table_ok_def)
    show "length r = length ys + 1"
      if "r \<in> set (dp[Suc i := (dp ! Suc i)[Suc j := lcs_ref xs ys (Suc i) (Suc j)]])" for r
    proof -
      have "r \<in> insert ((dp ! Suc i)[Suc j := lcs_ref xs ys (Suc i) (Suc j)]) (set dp)"
        using set_update_subset_insert that by (rule subsetD)
      then show ?thesis using ok rows[of "Suc i"] lt(1) by (elim insertE) (simp_all add: table_ok_def)
    qed
    fix a b assume ab: "a \<le> length xs" "b \<le> length ys" "a < Suc i \<or> a = Suc i \<and> b \<le> Suc j \<or> b = 0"
    have len: "Suc i < length dp" using ok lt by (simp add: table_ok_def)
    show "dp[Suc i := (dp ! Suc i)[Suc j := lcs_ref xs ys (Suc i) (Suc j)]] ! a ! b = lcs_ref xs ys a b"
    proof (cases "a = Suc i \<and> b = Suc j")
      case True
      then show ?thesis using len rows[of "Suc i"] lt by simp
    next
      case False
      with ab(3) have "a < Suc i \<or> a = Suc i \<and> b \<le> j \<or> b = 0" by auto
      with table_okD[OF ok ab(1,2)] have "dp ! a ! b = lcs_ref xs ys a b" by blast
      with False len show ?thesis by (auto simp: nth_list_update)
    qed
  qed
qed

lemma row_ok:
  assumes "table_ok xs ys i (length ys) dp" "i < length xs"
  shows "table_ok xs ys (Suc i) (length ys) (lcs_row xs ys (Suc i) dp)"
proof -
  have start: "table_ok xs ys (Suc i) 0 dp"
    using assms(1) by (auto simp: table_ok_def less_Suc_eq le_less)
  have "table_ok xs ys (Suc i) j (fold (lcs_cell xs ys (Suc i)) [1..<j + 1] dp)" if "j \<le> length ys" for j
    using that
  proof (induction j)
    case (Suc j)
    then have "table_ok xs ys (Suc i) j (fold (lcs_cell xs ys (Suc i)) [1..<j + 1] dp)" by simp
    from cell_ok[OF this assms(2)] Suc.prems show ?case by simp
  qed (simp add: start)
  then show ?thesis by (simp add: lcs_row_def)
qed

lemma lcs_length_ref: "lcs_length xs ys = lcs_ref xs ys (length xs) (length ys)"
proof -
  have "table_ok xs ys i (length ys) (fold (lcs_row xs ys) [1..<i + 1]
      (replicate (length xs + 1) (replicate (length ys + 1) 0)))" if "i \<le> length xs" for i
    using that
  proof (induction i)
    case 0
    show ?case by (auto simp: table_ok_def simp del: replicate_Suc)
  next
    case (Suc i)
    then have "table_ok xs ys i (length ys) (fold (lcs_row xs ys) [1..<i + 1]
      (replicate (length xs + 1) (replicate (length ys + 1) 0)))" by simp
    from row_ok[OF this] Suc.prems show ?case by simp
  qed
  from this[OF order_refl] show ?thesis
    unfolding lcs_length_def lcs_table_def by (rule table_okD) simp_all
qed

section \<open>The recurrence is the longest common subsequence\<close>

lemma subseq_snoc: "subseq zs (xs @ [x]) \<longleftrightarrow> subseq zs xs \<or> (\<exists>us. zs = us @ [x] \<and> subseq us xs)"
proof
  assume "subseq zs (xs @ [x])"
  then obtain us vs where uv: "zs = us @ vs" "subseq us xs" "subseq vs [x]" by (rule subseq_appendE)
  then show "subseq zs xs \<or> (\<exists>us. zs = us @ [x] \<and> subseq us xs)"
    by (cases vs) (auto simp: Cons_eq_append_conv split: if_splits)
qed (auto intro: subseq_rev_drop_many)

text \<open>\<open>n\<close> is the length of a longest common subsequence of \<open>xs\<close> and \<open>ys\<close>.\<close>

definition is_lcs :: "int list \<Rightarrow> int list \<Rightarrow> nat \<Rightarrow> bool" where
  "is_lcs xs ys n \<longleftrightarrow> (\<exists>zs. subseq zs xs \<and> subseq zs ys \<and> length zs = n) \<and>
     (\<forall>zs. subseq zs xs \<longrightarrow> subseq zs ys \<longrightarrow> length zs \<le> n)"

lemma is_lcs_equal: "is_lcs xs ys n \<Longrightarrow> is_lcs (xs @ [x]) (ys @ [x]) (Suc n)"
  unfolding is_lcs_def
proof (intro conjI allI impI; elim conjE exE)
  fix zs assume "subseq zs xs" "subseq zs ys" "length zs = n"
  then show "\<exists>zs. subseq zs (xs @ [x]) \<and> subseq zs (ys @ [x]) \<and> length zs = Suc n"
    by (intro exI[of _ "zs @ [x]"]) simp
next
  fix zs assume max: "\<forall>zs. subseq zs xs \<longrightarrow> subseq zs ys \<longrightarrow> length zs \<le> n"
    and zs: "subseq zs (xs @ [x])" "subseq zs (ys @ [x])"
  show "length zs \<le> Suc n"
  proof (cases zs rule: rev_cases)
    case (snoc us z)
    have "subseq us xs" "subseq us ys"
      using zs unfolding snoc subseq_snoc by (auto intro: subseq_order.order_trans[of us "us @ [z]"] subseq_rev_drop_many)
    with max snoc show ?thesis by simp
  qed simp
qed

lemma is_lcs_differ:
  assumes "x \<noteq> y" "is_lcs xs (ys @ [y]) n" "is_lcs (xs @ [x]) ys k"
  shows "is_lcs (xs @ [x]) (ys @ [y]) (max n k)"
proof -
  have up: "subseq zs xs \<or> subseq zs ys" if "subseq zs (xs @ [x])" "subseq zs (ys @ [y])" for zs
    using that assms(1) unfolding subseq_snoc by auto
  have "\<exists>zs. subseq zs (xs @ [x]) \<and> subseq zs (ys @ [y]) \<and> length zs = max n k"
    using assms(2,3) unfolding is_lcs_def max_def by (metis subseq_rev_drop_many)
  moreover have "length zs \<le> max n k" if "subseq zs (xs @ [x])" "subseq zs (ys @ [y])" for zs
    using up[OF that] that assms(2,3) unfolding is_lcs_def by (meson max.coboundedI1 max.coboundedI2)
  ultimately show ?thesis unfolding is_lcs_def by blast
qed

lemma lcs_ref_is_lcs:
  "i \<le> length xs \<Longrightarrow> j \<le> length ys \<Longrightarrow> is_lcs (take i xs) (take j ys) (lcs_ref xs ys i j)"
proof (induction xs ys i j rule: lcs_ref.induct)
  case (3 xs ys i j)
  have t: "take (Suc i) xs = take i xs @ [xs ! i]" "take (Suc j) ys = take j ys @ [ys ! j]"
    using "3.prems" by (simp_all add: take_Suc_conv_app_nth)
  show ?case
  proof (cases "xs ! i = ys ! j")
    case True
    with "3.IH"(1)[OF True] "3.prems" is_lcs_equal[of "take i xs" "take j ys" _ "xs ! i"] show ?thesis
      by (simp add: t)
  next
    case False
    from is_lcs_differ[OF False, of "take i xs" "take j ys"] "3.IH"(2,3)[OF False] "3.prems" False
    show ?thesis by (simp add: t)
  qed
qed (auto simp: is_lcs_def)

lemma lcs_length_is_lcs: "is_lcs xs ys (lcs_length xs ys)"
  using lcs_ref_is_lcs[of "length xs" xs "length ys" ys] by (simp add: lcs_length_ref)

lemma lcs_length_le: "lcs_length xs ys \<le> length xs" "lcs_length xs ys \<le> length ys"
  using lcs_length_is_lcs[of xs ys] list_emb_length unfolding is_lcs_def by fastforce+

lemma lcs_length_self: "lcs_length xs xs = length xs"
  using lcs_length_is_lcs[of xs xs] lcs_length_le(1)[of xs xs] unfolding is_lcs_def by (simp add: le_antisym)

section \<open>Scores\<close>

lemma token_accuracy_bounds: "0 \<le> token_accuracy gen ref \<and> token_accuracy gen ref \<le> 1"
proof -
  have "token_matches gen ref \<le> min (length gen) (length ref)"
    unfolding token_matches_def by (metis diff_zero length_filter_le length_upt)
  then have "real (token_matches gen ref) \<le> real (max (length gen) (length ref))" by linarith
  then show ?thesis by (auto simp: token_accuracy_def divide_le_eq)
qed

lemma harmonic: 
  fixes l g r :: real
  assumes "0 < l" "0 < g" "0 < r"
  shows "(2 * (l / g) * (l / r)) / (l / g + l / r) = 2 * l / (g + r)"
proof -
  have "l / g + l / r = l * (g + r) / (g * r)" using assms by (simp add: add_frac_eq algebra_simps)
  then show ?thesis using assms by simp
qed

lemma rouge_value: "0 < length gen \<Longrightarrow> 0 < length ref \<Longrightarrow>
    rouge_f1 gen ref = 2 * real (lcs_length gen ref) / real (length gen + length ref)"
  using harmonic[of "real (lcs_length gen ref)" "real (length gen)" "real (length ref)"]
  by (cases "lcs_length gen ref = 0") (simp_all add: rouge_f1_def Let_def add_pos_pos)

lemma rouge_bounds: "0 \<le> rouge_f1 gen ref \<and> rouge_f1 gen ref \<le> 1"
proof (cases "0 < length gen \<and> 0 < length ref")
  case True
  have "2 * lcs_length gen ref \<le> length gen + length ref"
    using lcs_length_le[of gen ref] by simp
  then have "2 * real (lcs_length gen ref) \<le> real (length gen + length ref)" by linarith
  then show ?thesis using True by (simp add: rouge_value divide_le_eq)
qed (auto simp: rouge_f1_def Let_def)

lemma correctness_fold:
  "fold (\<lambda>(gen, ref) (exact, rouge, acc).
       (if gen = ref then exact + 1 else exact, rouge + rouge_f1 gen ref, acc + token_accuracy gen ref)) ps (e, r, a) =
     (e + length (filter (\<lambda>(g, h). g = h) ps), r + sum_list (map (\<lambda>(g, h). rouge_f1 g h) ps),
      a + sum_list (map (\<lambda>(g, h). token_accuracy g h) ps))"
  by (induction ps arbitrary: e r a) auto

lemma evaluate_correctness_value:
  assumes "length gens = length refs" "gens \<noteq> []"
  defines "ps \<equiv> zip gens refs"
  shows "evaluate_correctness gens refs = Inr
    \<lparr>cr_exact_match = real (length (filter (\<lambda>(g, h). g = h) ps)) / real (length gens),
     cr_rouge_l = t_mean (map (\<lambda>(g, h). rouge_f1 g h) ps),
     cr_token_accuracy = t_mean (map (\<lambda>(g, h). token_accuracy g h) ps), cr_samples = length gens\<rparr>"
  using assms by (simp add: evaluate_correctness_def Let_def correctness_fold t_mean_def)

section \<open>Properties\<close>

text \<open>
  C9: The dynamic program computes the length of a longest common subsequence: some common
  subsequence has this length and none is longer.
\<close>

theorem lcs_longest: "is_lcs seq1 seq2 (lcs_length seq1 seq2)"
  by (rule lcs_length_is_lcs)

text \<open>
  Correctness evaluation raises exactly on a different number of samples; otherwise every
  score lies in [0, 1]. For at least one sample, exact match is 1 exactly when all generations equal
  their references, and then, if no reference is empty, ROUGE-L and token accuracy are 1 too.
\<close>

theorem correctness_scores:
  "case evaluate_correctness gens refs of
     Inl e \<Rightarrow> length gens \<noteq> length refs
   | Inr c \<Rightarrow> length gens = length refs \<and> cr_samples c = length gens \<and>
       cr_exact_match c \<in> {0..1} \<and> cr_rouge_l c \<in> {0..1} \<and> cr_token_accuracy c \<in> {0..1} \<and>
       (gens = [] \<or> cr_exact_match c = 1 \<longleftrightarrow> gens = refs) \<and>
       (gens = refs \<and> gens \<noteq> [] \<and> [] \<notin> set gens \<longrightarrow> cr_rouge_l c = 1 \<and> cr_token_accuracy c = 1)"
proof (cases "length gens = length refs \<and> gens \<noteq> []")
  case True
  let ?ps = "zip gens refs"
  have len: "length gens = length refs" and ne: "gens \<noteq> []" using True by auto
  note V = evaluate_correctness_value[OF len ne]
  have le: "length (filter (\<lambda>(g, h). g = h) ?ps) \<le> length gens"
    using length_filter_le[of _ ?ps] len by (metis length_zip min.idem)
  have "length (filter (\<lambda>(g, h). g = h) ?ps) = length gens \<longleftrightarrow> (\<forall>p \<in> set ?ps. fst p = snd p)"
    using len by (metis (mono_tags, lifting) case_prod_unfold filter_True length_filter_less length_zip min.idem nat_neq_iff)
  also have "\<dots> \<longleftrightarrow> gens = refs" using len
    by (metis (no_types, lifting) in_set_zip list_eq_iff_zip_eq nth_equalityI nth_zip fst_conv snd_conv nth_mem length_zip min.idem)
  finally have exact: "length (filter (\<lambda>(g, h). g = h) ?ps) = length gens \<longleftrightarrow> gens = refs" .
  have rouge: "0 \<le> t_mean (map (\<lambda>(g, h). rouge_f1 g h) ?ps) \<and> t_mean (map (\<lambda>(g, h). rouge_f1 g h) ?ps) \<le> 1"
    by (rule mean_bounds) (use len ne rouge_bounds in auto)
  have acc: "0 \<le> t_mean (map (\<lambda>(g, h). token_accuracy g h) ?ps) \<and> t_mean (map (\<lambda>(g, h). token_accuracy g h) ?ps) \<le> 1"
    by (rule mean_bounds) (use len ne token_accuracy_bounds in auto)
  have self: "t_mean (map (\<lambda>(g, h). rouge_f1 g h) ?ps) = 1 \<and> t_mean (map (\<lambda>(g, h). token_accuracy g h) ?ps) = 1"
    if "gens = refs" "[] \<notin> set gens"
  proof -
    have one: "rouge_f1 g g = 1 \<and> token_accuracy g g = 1" if "g \<noteq> []" for g
      using that by (simp add: rouge_value lcs_length_self token_accuracy_def token_matches_def)
    have one': "rouge_f1 (refs ! n) (refs ! n) = 1 \<and> token_accuracy (refs ! n) (refs ! n) = 1"
      if "n < length refs" for n
      using one[of "refs ! n"] nth_mem[OF that] \<open>gens = refs\<close> \<open>[] \<notin> set gens\<close> by metis
    have R: "\<forall>x \<in> set (map (\<lambda>(g, h). rouge_f1 g h) ?ps). 1 \<le> x \<and> x \<le> 1"
      using one' that by (auto simp: in_set_zip)
    have A: "\<forall>x \<in> set (map (\<lambda>(g, h). token_accuracy g h) ?ps). 1 \<le> x \<and> x \<le> 1"
      using one' that by (auto simp: in_set_zip)
    have N: "map f ?ps \<noteq> []" for f :: "int list \<times> int list \<Rightarrow> real" using len ne by auto
    show ?thesis using mean_bounds[OF N R] mean_bounds[OF N A] by linarith
  qed
  have "real (length (filter (\<lambda>(g, h). g = h) ?ps)) / real (length gens) = 1 \<longleftrightarrow> gens = refs"
    using exact ne by (auto simp: divide_eq_1_iff eq_commute[of "length gens"])
  then show ?thesis using le len ne rouge acc self unfolding V by (auto simp: divide_le_eq)
qed (auto simp: evaluate_correctness_def)

theorem correctness_scores_witness:
  "\<exists>c. evaluate_correctness [[1, 2], [3]] [[1, 2], [3]] = Inr c \<and> cr_exact_match c = 1 \<and> cr_rouge_l c = 1"
  using correctness_scores[of "[[1, 2], [3]]" "[[1, 2], [3]]"]
  by (simp add: evaluate_correctness_def split: sum.splits)

end
