(* ===== verification/Text_Lib.thy ===== *)
theory Text_Lib
  imports Tensor
begin

text \<open>
  String operations of the language as the components use them, on 8-bit characters: stripping and
  splitting at whitespace, lower case, prefixes and suffixes, decimal printing, and rounding to a
  number of digits.
\<close>

section \<open>Whitespace\<close>

definition is_space :: "char \<Rightarrow> bool" where
  "is_space c = (let n = of_char c :: nat in 9 \<le> n \<and> n \<le> 13 \<or> 28 \<le> n \<and> n \<le> 32 \<or> n = 133 \<or> n = 160)"

definition newline :: char where
  "newline = char_of (10 :: nat)"

definition lstrip :: "string \<Rightarrow> string" where
  "lstrip s = dropWhile is_space s"

definition rstrip :: "string \<Rightarrow> string" where
  "rstrip s = rev (lstrip (rev s))"

definition strip :: "string \<Rightarrow> string" where
  "strip s = rstrip (lstrip s)"

text \<open>\<open>str.split()\<close> without a separator\<close>

function split_ws :: "string \<Rightarrow> string list" where
  "split_ws s =
     (case lstrip s of [] \<Rightarrow> []
      | c # cs \<Rightarrow> takeWhile (\<lambda>x. \<not> is_space x) (c # cs) # split_ws (dropWhile (\<lambda>x. \<not> is_space x) (c # cs)))"
  by pat_completeness auto

termination split_ws
proof (relation "measure length")
  fix s c cs
  assume s: "lstrip s = c # cs"
  then have "\<not> is_space c" by (metis dropWhile_eq_Cons_conv lstrip_def)
  then have "length (dropWhile (\<lambda>x. \<not> is_space x) (c # cs)) < Suc (length cs)"
    using length_dropWhile_le[of "\<lambda>x. \<not> is_space x" cs] by simp
  also have "Suc (length cs) \<le> length s"
    using length_dropWhile_le[of is_space s] s by (simp add: lstrip_def)
  finally show "(dropWhile (\<lambda>x. \<not> is_space x) (c # cs), s) \<in> measure length" by simp
qed simp

declare split_ws.simps [simp del]

text \<open>\<open>re.sub(r"\s+", " ", text)\<close>\<close>

function collapse_ws :: "string \<Rightarrow> string" where
  "collapse_ws [] = []"
| "collapse_ws (c # cs) =
     (if is_space c then CHR '' '' # collapse_ws (dropWhile is_space cs) else c # collapse_ws cs)"
  by pat_completeness auto

termination collapse_ws
  by (relation "measure length") (auto simp: le_imp_less_Suc length_dropWhile_le)

fun unwords :: "string list \<Rightarrow> string" where
  "unwords [] = []"
| "unwords [w] = w"
| "unwords (w # ws) = w @ CHR '' '' # unwords ws"

lemma lstrip_Nil: "lstrip s = [] \<longleftrightarrow> (\<forall>c \<in> set s. is_space c)"
  by (simp add: lstrip_def dropWhile_eq_Nil_conv)

lemma lstrip_hd: "lstrip s = c # cs \<Longrightarrow> \<not> is_space c"
  by (metis dropWhile_eq_Cons_conv lstrip_def)

lemma lstrip_idem [simp]: "lstrip (lstrip s) = lstrip s"
  by (simp add: lstrip_def)

lemma lstrip_spaces: "\<forall>c \<in> set sp. is_space c \<Longrightarrow> lstrip (sp @ t) = lstrip t"
  by (simp add: lstrip_def)

lemma rstrip_Nil: "rstrip s = [] \<longleftrightarrow> (\<forall>c \<in> set s. is_space c)"
  by (simp add: rstrip_def lstrip_Nil)

lemma strip_Nil: "strip s = [] \<longleftrightarrow> (\<forall>c \<in> set s. is_space c)"
  using lstrip_Nil[of s] lstrip_hd[of s] by (cases "lstrip s") (auto simp: strip_def rstrip_Nil)

lemma rstrip_append: "\<not> (\<forall>c \<in> set t. is_space c) \<Longrightarrow> rstrip (s @ t) = s @ rstrip t"
  by (auto simp: rstrip_def lstrip_def dropWhile_append)

lemma rstrip_word: "w \<noteq> [] \<Longrightarrow> \<forall>c \<in> set w. \<not> is_space c \<Longrightarrow> rstrip (w @ t) = w @ rstrip t"
proof (cases "\<forall>c \<in> set t. is_space c")
  case True
  assume "w \<noteq> []" "\<forall>c \<in> set w. \<not> is_space c"
  then have "lstrip (rev w) = rev w"
    by (cases w rule: rev_cases) (simp_all add: lstrip_def)
  moreover have "lstrip (rev (w @ t)) = lstrip (rev w)" using True lstrip_spaces[of "rev t" "rev w"] by simp
  ultimately show ?thesis using True rstrip_Nil[of t] by (simp add: rstrip_def)
qed (simp add: rstrip_append)

lemma strip_framed:
  assumes "s \<noteq> []" "\<not> is_space (hd s)" "\<not> is_space (last s)"
  shows "strip (s @ [newline, newline]) = s"
proof -
  have "is_space newline" by (simp add: newline_def is_space_def)
  moreover have "lstrip (s @ [newline, newline]) = s @ [newline, newline]"
    using assms(1,2) by (cases s) (simp_all add: lstrip_def)
  ultimately show ?thesis
    using assms(1,3) by (cases s rule: rev_cases) (simp_all add: strip_def rstrip_def lstrip_def)
qed

lemma collapse_word: "\<forall>c \<in> set w. \<not> is_space c \<Longrightarrow> collapse_ws (w @ t) = w @ collapse_ws t"
  by (induction w) auto

lemma collapse_gap:
  assumes "sp \<noteq> []" "\<forall>c \<in> set sp. is_space c" "t = [] \<or> \<not> is_space (hd t)"
  shows "collapse_ws (sp @ t) = CHR '' '' # collapse_ws t"
proof -
  have "dropWhile is_space (tl sp @ t) = t"
    using assms by (cases sp; cases t) auto
  with assms(1,2) show ?thesis by (cases sp) auto
qed

lemma split_ws_Nil: "split_ws s = [] \<longleftrightarrow> (\<forall>c \<in> set s. is_space c)"
  using lstrip_Nil[of s] by (subst split_ws.simps) (auto split: list.split)

lemma split_ws_lstrip: "split_ws (lstrip s) = split_ws s"
  by (subst (1 2) split_ws.simps) simp

lemma split_ws_word:
  assumes "w \<noteq> []" "\<forall>c \<in> set w. \<not> is_space c" "t = [] \<or> is_space (hd t)"
  shows "split_ws (w @ t) = w # split_ws t"
proof -
  obtain c cs where w: "w = c # cs" using assms(1) by (cases w) auto
  have l: "lstrip (w @ t) = c # (cs @ t)" using assms(2) w by (simp add: lstrip_def)
  have "takeWhile (\<lambda>x. \<not> is_space x) (w @ t) = w" "dropWhile (\<lambda>x. \<not> is_space x) (w @ t) = t"
    using assms(2,3) by (cases t; auto simp: takeWhile_append dropWhile_append)+
  then show ?thesis using l w by (subst split_ws.simps) simp
qed

text \<open>The first word of a string, with the induction hypothesis for what follows.\<close>

lemma first_word:
  assumes "lstrip s = c # cs"
  obtains w rest where "rest = dropWhile (\<lambda>x. \<not> is_space x) (c # cs)" "lstrip s = w @ rest" "w \<noteq> []"
    "\<forall>x \<in> set w. \<not> is_space x" "rest = [] \<or> is_space (hd rest)" "split_ws s = w # split_ws rest"
proof -
  let ?w = "takeWhile (\<lambda>x. \<not> is_space x) (c # cs)" and ?rest = "dropWhile (\<lambda>x. \<not> is_space x) (c # cs)"
  have "?w \<noteq> []" "\<forall>x \<in> set ?w. \<not> is_space x" using lstrip_hd[OF assms] by (auto dest: set_takeWhileD)
  moreover have "split_ws s = ?w # split_ws ?rest" using assms by (subst split_ws.simps) simp
  moreover have "?rest = [] \<or> is_space (hd ?rest)" by (metis hd_dropWhile)
  moreover have "lstrip s = ?w @ ?rest" by (simp only: takeWhile_dropWhile_id assms)
  ultimately show ?thesis using that[OF refl] by blast
qed

text \<open>Normalised whitespace: the words joined by single blanks.\<close>

lemma collapse_strip: "collapse_ws (strip s) = unwords (split_ws s)"
proof (induction s rule: split_ws.induct)
  case (1 s)
  show ?case
  proof (cases "lstrip s")
    case Nil
    then show ?thesis using split_ws_Nil[of s] strip_Nil[of s] lstrip_Nil[of s] by simp
  next
    case (Cons c cs)
    obtain w rest where W: "rest = dropWhile (\<lambda>x. \<not> is_space x) (c # cs)" "lstrip s = w @ rest" "w \<noteq> []"
      "\<forall>x \<in> set w. \<not> is_space x" "rest = [] \<or> is_space (hd rest)" "split_ws s = w # split_ws rest"
      by (rule first_word[OF Cons])
    note w = W(3,4) and sp = W(6)
    have st: "strip s = w @ rstrip rest" unfolding strip_def W(2) by (rule rstrip_word[OF w])
    show ?thesis
    proof (cases "\<forall>x \<in> set rest. is_space x")
      case True
      then have "rstrip rest = []" "split_ws rest = []" by (simp_all only: rstrip_Nil split_ws_Nil)
      with st sp show ?thesis using collapse_word[OF w(2), of "[]"] by simp
    next
      case False
      define gap where "gap = takeWhile is_space rest"
      define t where "t = lstrip rest"
      note gt = gap_def t_def
      have cat: "rest = gap @ t" by (simp only: gap_def t_def lstrip_def takeWhile_dropWhile_id)
      have gap: "gap \<noteq> []" "\<forall>x \<in> set gap. is_space x"
      proof -
        have "rest \<noteq> []" using False by auto
        then have "is_space (hd rest)" using W(5) by simp
        then show "gap \<noteq> []" unfolding gt(1) using \<open>rest \<noteq> []\<close> by (cases rest) simp_all
        show "\<forall>x \<in> set gap. is_space x" unfolding gt(1) by (auto dest: set_takeWhileD)
      qed
      have nt: "\<not> (\<forall>x \<in> set t. is_space x)" using False cat gap(2) by (metis Un_iff set_append)
      have "rstrip rest = gap @ strip rest"
        unfolding strip_def t_def[symmetric] by (subst cat) (rule rstrip_append[OF nt])
      moreover have "strip rest = [] \<or> \<not> is_space (hd (strip rest))"
      proof -
        obtain d ds where d: "t = d # ds" using nt by (cases t) auto
        have "\<not> is_space d" using d unfolding t_def by (rule lstrip_hd)
        moreover have "strip rest = rstrip ([d] @ ds)" unfolding strip_def t_def[symmetric] d by simp
        ultimately show ?thesis using rstrip_word[of "[d]" ds] by simp
      qed
      ultimately have "collapse_ws (strip s) = w @ CHR '' '' # collapse_ws (strip rest)"
        unfolding st using collapse_word[OF w(2)] collapse_gap[OF gap] by simp
      also have "collapse_ws (strip rest) = unwords (split_ws rest)" unfolding W(1) by (rule "1.IH"[OF Cons])
      finally show ?thesis using sp False split_ws_Nil[of rest] by (cases "split_ws rest") simp_all
    qed
  qed
qed

lemma split_unwords:
  "\<forall>w \<in> set ws. w \<noteq> [] \<and> (\<forall>c \<in> set w. \<not> is_space c) \<Longrightarrow> split_ws (unwords ws) = ws"
proof (induction ws rule: unwords.induct)
  case 1
  then show ?case by (simp add: split_ws_Nil)
next
  case (2 w)
  then show ?case using split_ws_word[of w "[]"] by (simp add: split_ws_Nil)
next
  case (3 w v ws)
  have blank: "is_space (CHR '' '')" by (simp add: is_space_def)
  have "split_ws (CHR '' '' # unwords (v # ws)) = split_ws (unwords (v # ws))"
    using blank split_ws_lstrip[of "CHR '' '' # unwords (v # ws)"] split_ws_lstrip[of "unwords (v # ws)"]
    by (simp add: lstrip_def)
  with 3 show ?case
    using split_ws_word[of w "CHR '' '' # unwords (v # ws)"] blank by simp
qed

lemma split_ws_words: "\<forall>w \<in> set (split_ws s). w \<noteq> [] \<and> (\<forall>c \<in> set w. \<not> is_space c)"
proof (induction s rule: split_ws.induct)
  case (1 s)
  show ?case
  proof (cases "lstrip s")
    case Nil
    then show ?thesis by (subst split_ws.simps) simp
  next
    case (Cons c cs)
    obtain w rest where W: "rest = dropWhile (\<lambda>x. \<not> is_space x) (c # cs)" "lstrip s = w @ rest" "w \<noteq> []"
      "\<forall>x \<in> set w. \<not> is_space x" "rest = [] \<or> is_space (hd rest)" "split_ws s = w # split_ws rest"
      by (rule first_word[OF Cons])
    have "\<forall>w \<in> set (split_ws rest). w \<noteq> [] \<and> (\<forall>c \<in> set w. \<not> is_space c)"
      unfolding W(1) by (rule "1.IH"[OF Cons])
    with W(3,4) show ?thesis unfolding W(6) by simp
  qed
qed

section \<open>Case, prefixes and numbers\<close>

definition lower_char :: "char \<Rightarrow> char" where
  "lower_char c =
     (let n = of_char c :: nat in
      if 65 \<le> n \<and> n \<le> 90 \<or> 192 \<le> n \<and> n \<le> 222 \<and> n \<noteq> 215 then char_of (n + 32) else c)"

definition str_lower :: "string \<Rightarrow> string" where
  "str_lower s = map lower_char s"

definition starts_with :: "string \<Rightarrow> string \<Rightarrow> bool" where
  "starts_with p s \<longleftrightarrow> take (length p) s = p"

definition ends_with :: "string \<Rightarrow> string \<Rightarrow> bool" where
  "ends_with p s \<longleftrightarrow> drop (length s - length p) s = p"

fun show_nat :: "nat \<Rightarrow> string" where
  "show_nat n = (if n < 10 then [char_of (48 + n)] else show_nat (n div 10) @ [char_of (48 + n mod 10)])"

declare show_nat.simps [simp del]

text \<open>\<open>f"{n:04d}"\<close>\<close>

definition show_nat_padded :: "nat \<Rightarrow> nat \<Rightarrow> string" where
  "show_nat_padded width n = replicate (width - length (show_nat n)) (CHR ''0'') @ show_nat n"

definition show_int :: "int \<Rightarrow> string" where
  "show_int i = (if i < 0 then CHR ''-'' # show_nat (nat (- i)) else show_nat (nat i))"

definition read_digits :: "string \<Rightarrow> nat" where
  "read_digits s = foldl (\<lambda>n c. 10 * n + (of_char c - 48)) 0 s"

lemma read_show_nat: "read_digits (show_nat n) = n"
proof (induction n rule: show_nat.induct)
  case (1 n)
  then show ?case by (subst show_nat.simps) (auto simp: read_digits_def)
qed

lemma read_zeros: "read_digits (replicate k (CHR ''0'') @ s) = read_digits s"
  by (induction k) (simp_all add: read_digits_def)

lemma show_nat_padded_inj: "show_nat_padded w m = show_nat_padded w n \<Longrightarrow> m = n"
  by (metis read_show_nat read_zeros show_nat_padded_def)

text \<open>\<open>round(x, 2)\<close> and \<open>round(x, 4)\<close>\<close>

definition round2 :: "real \<Rightarrow> real" where
  "round2 x = of_int (round_half_even (x * 100)) / 100"

definition round4 :: "real \<Rightarrow> real" where
  "round4 x = of_int (round_half_even (x * 10000)) / 10000"

lemma round4_unit: "0 \<le> x \<Longrightarrow> x \<le> 1 \<Longrightarrow> 0 \<le> round4 x \<and> round4 x \<le> 1"
  using round_half_even_mono_bounds(1)[of 0 "x * 10000"] round_half_even_mono_bounds(2)[of "x * 10000" 10000]
  by (simp add: round4_def)

lemma round4_error: "\<bar>round4 x - x\<bar> \<le> 1 / 20000"
  using round_half_even_error[of "x * 10000"] by (simp add: round4_def field_simps abs_le_iff)

end
