(* ===== verification/Pareto.thy ===== *)
theory Pareto
  imports Text_Lib
begin

text \<open>
  \<open>eval_platform/statistics/pareto.py\<close>: the Pareto frontier of benchmark points under
  objectives that are maximised or minimised, and the normalised distance of every other point
  to it. Floating point values are real numbers; a numpy matrix is a list of rows.
\<close>

section \<open>Points and objectives\<close>

datatype meta_value = MetaStr string | MetaInt int | MetaFloat real

record pareto_point =
  pp_id :: string
  pp_metrics :: "(string \<times> real) list"
  pp_metadata :: "(string \<times> meta_value) list"
  pp_optimal :: bool
  pp_distance :: real

datatype pareto_error = InvalidDirection string

definition metric_get :: "(string \<times> real) list \<Rightarrow> string \<Rightarrow> real" where
  "metric_get m k = (case map_of m k of None \<Rightarrow> 0 | Some v \<Rightarrow> v)"

text \<open>One row of the criteria matrix, in which higher is better in every column.\<close>

fun criteria_row :: "(string \<times> string) list \<Rightarrow> pareto_point \<Rightarrow> pareto_error + real list" where
  "criteria_row [] pt = Inr []"
| "criteria_row ((metric, objective) # objs) pt =
     (let val = metric_get (pp_metrics pt) metric;
          direction = str_lower objective
      in if direction = ''maximize'' then res_bind (criteria_row objs pt) (\<lambda>r. Inr (val # r))
         else if direction = ''minimize'' then res_bind (criteria_row objs pt) (\<lambda>r. Inr (- val # r))
         else Inl (InvalidDirection direction))"

fun criteria_matrix :: "(string \<times> string) list \<Rightarrow> pareto_point list \<Rightarrow> pareto_error + real list list" where
  "criteria_matrix objs [] = Inr []"
| "criteria_matrix objs (pt # pts) =
     res_bind (criteria_row objs pt) (\<lambda>r. res_bind (criteria_matrix objs pts) (\<lambda>m. Inr (r # m)))"

section \<open>Dominance\<close>

text \<open>\<open>np.all(a >= b) and np.any(a > b)\<close>\<close>

definition dominates :: "real list \<Rightarrow> real list \<Rightarrow> bool" where
  "dominates a b \<longleftrightarrow> list_all (\<lambda>(x, y). y \<le> x) (zip a b) \<and> list_ex (\<lambda>(x, y). y < x) (zip a b)"

text \<open>The scan of one point: only points that are still flagged can dominate it.\<close>

definition scan_point :: "real list list \<Rightarrow> nat \<Rightarrow> bool list \<Rightarrow> bool list" where
  "scan_point m i opt =
     (if \<not> opt ! i then opt
      else if list_ex (\<lambda>j. i \<noteq> j \<and> opt ! j \<and> dominates (m ! j) (m ! i)) [0..<length m]
      then opt[i := False] else opt)"

definition optimal_flags :: "real list list \<Rightarrow> bool list" where
  "optimal_flags m = fold (scan_point m) [0..<length m] (replicate (length m) True)"

section \<open>Distances\<close>

definition column :: "real list list \<Rightarrow> nat \<Rightarrow> real list" where
  "column m j = map (\<lambda>r. r ! j) m"

definition min_list_real :: "real list \<Rightarrow> real" where
  "min_list_real xs = fold min (tl xs) (hd xs)"

definition max_list_real :: "real list \<Rightarrow> real" where
  "max_list_real xs = fold max (tl xs) (hd xs)"

definition col_range :: "real list list \<Rightarrow> nat \<Rightarrow> real" where
  "col_range m j =
     (let d = max_list_real (column m j) - min_list_real (column m j) in if d = 0 then 1 else d)"

definition norm_row :: "real list list \<Rightarrow> nat \<Rightarrow> real list \<Rightarrow> real list" where
  "norm_row m k r = map (\<lambda>j. (r ! j - min_list_real (column m j)) / col_range m j) [0..<k]"

definition row_distance :: "real list \<Rightarrow> real list \<Rightarrow> real" where
  "row_distance a b = sqrt (sum_list (map (\<lambda>(x, y). (x - y)\<^sup>2) (zip a b)))"

definition frontier_rows :: "real list list \<Rightarrow> bool list \<Rightarrow> real list list" where
  "frontier_rows m opt = map fst (filter snd (zip m opt))"

definition frontier_distance :: "real list list \<Rightarrow> nat \<Rightarrow> bool list \<Rightarrow> nat \<Rightarrow> real" where
  "frontier_distance m k opt i =
     (if opt ! i then 0
      else min_list_real (map (\<lambda>f. row_distance (norm_row m k f) (norm_row m k (m ! i))) (frontier_rows m opt)))"

definition compute_pareto_frontier ::
  "pareto_point list \<Rightarrow> (string \<times> string) list \<Rightarrow> pareto_error + pareto_point list" where
  "compute_pareto_frontier points objectives =
     (if points = [] then Inr []
      else res_bind (criteria_matrix objectives points)
        (\<lambda>m. let opt = optimal_flags m in
           Inr (map (\<lambda>i. (points ! i)\<lparr>pp_optimal := opt ! i,
                            pp_distance := frontier_distance m (length objectives) opt i\<rparr>)
                 [0..<length points])))"

section \<open>The flags are exact\<close>

lemma dominates_iff:
  "length a = length b \<Longrightarrow> dominates a b \<longleftrightarrow>
     (\<forall>j < length a. b ! j \<le> a ! j) \<and> (\<exists>j < length a. b ! j < a ! j)"
  by (auto simp: dominates_def list_all_length list_ex_length)

text \<open>Rows of criteria, ordered componentwise: dominance is the strict order.\<close>

datatype criteria = Criteria (values_of: "real list")

instantiation criteria :: order
begin

definition less_eq_criteria :: "criteria \<Rightarrow> criteria \<Rightarrow> bool" where
  "less_eq_criteria a b = list_all2 (\<le>) (values_of a) (values_of b)"

definition less_criteria :: "criteria \<Rightarrow> criteria \<Rightarrow> bool" where
  "less_criteria a b = (list_all2 (\<le>) (values_of a) (values_of b) \<and> a \<noteq> b)"

instance
proof
  fix a b c :: criteria
  show "a \<le> a" by (simp add: less_eq_criteria_def list.rel_refl)
  show "a \<le> b \<Longrightarrow> b \<le> c \<Longrightarrow> a \<le> c"
    unfolding less_eq_criteria_def by (erule (1) list_all2_trans[rotated]) simp
  show anti: "a \<le> b \<Longrightarrow> b \<le> a \<Longrightarrow> a = b"
    unfolding less_eq_criteria_def
    by (intro criteria.expand nth_equalityI) (auto simp: list_all2_conv_all_nth intro: order_antisym)
  show "(a < b) = (a \<le> b \<and> \<not> b \<le> a)"
    using list_all2_antisym[of "(\<le>)" "(\<le>)" "values_of a" "values_of b"]
    by (auto simp: less_eq_criteria_def less_criteria_def criteria.expand list.rel_refl)
qed

end

lemma dominates_less: "length a = length b \<Longrightarrow> dominates a b \<longleftrightarrow> Criteria b < Criteria a"
  by (auto simp: dominates_iff less_criteria_def list_all2_conv_all_nth list_eq_iff_nth_eq less_le)

lemma dominates_irrefl: "\<not> dominates a a"
  by (simp add: dominates_less)

text \<open>A maximal row above a dominated point dominates it and is not dominated itself.\<close>

definition dominated :: "real list list \<Rightarrow> nat \<Rightarrow> bool" where
  "dominated m i \<longleftrightarrow> (\<exists>j < length m. dominates (m ! j) (m ! i))"

definition rows_ok :: "nat \<Rightarrow> real list list \<Rightarrow> bool" where
  "rows_ok k m \<longleftrightarrow> (\<forall>r \<in> set m. length r = k)"

lemma best_dominator:
  assumes rows: "rows_ok k m" and i: "i < length m" "dominated m i"
  shows "\<exists>j < length m. \<not> dominated m j \<and> dominates (m ! j) (m ! i)"
proof -
  have len: "length (m ! j) = k" if "j < length m" for j using rows that by (simp add: rows_ok_def)
  have "finite (Criteria ` set m)" "Criteria (m ! i) \<in> Criteria ` set m" using i(1) by simp_all
  from finite_has_maximal2[OF this] obtain j where
    j: "j < length m" "Criteria (m ! i) \<le> Criteria (m ! j)"
    and top: "\<And>l. l < length m \<Longrightarrow> \<not> Criteria (m ! j) < Criteria (m ! l)"
    by (fastforce simp: in_set_conv_nth order.strict_iff_order)
  have nd: "\<not> dominated m j" using top len j(1) by (auto simp: dominated_def dominates_less)
  then have "m ! i \<noteq> m ! j" using i(2) by (auto simp: dominated_def)
  then have "dominates (m ! j) (m ! i)" using j i(1) len by (simp add: dominates_less order.strict_iff_order)
  with nd j(1) show ?thesis by blast
qed

lemma scan_fold:
  assumes rows: "rows_ok k m" and n: "n \<le> length m"
  shows "let opt = fold (scan_point m) [0..<n] (replicate (length m) True) in
    length opt = length m \<and> (\<forall>i < length m. opt ! i \<longleftrightarrow> n \<le> i \<or> \<not> dominated m i)"
  using n
proof (induction n)
  case (Suc n)
  define opt where "opt = fold (scan_point m) [0..<n] (replicate (length m) True)"
  have IH: "length opt = length m" "\<And>i. i < length m \<Longrightarrow> opt ! i \<longleftrightarrow> n \<le> i \<or> \<not> dominated m i"
    using Suc by (auto simp: Let_def opt_def)
  have step: "fold (scan_point m) [0..<Suc n] (replicate (length m) True) = scan_point m n opt"
    by (simp add: opt_def)
  have n: "n < length m" using Suc.prems by simp
  have "list_ex (\<lambda>j. n \<noteq> j \<and> opt ! j \<and> dominates (m ! j) (m ! n)) [0..<length m] \<longleftrightarrow> dominated m n"
  proof
    assume "dominated m n"
    from best_dominator[OF rows n this] obtain j where
      j: "j < length m" "\<not> dominated m j" "dominates (m ! j) (m ! n)" by blast
    then have "n \<noteq> j" "opt ! j" using IH(2) dominates_irrefl by auto
    with j show "list_ex (\<lambda>j. n \<noteq> j \<and> opt ! j \<and> dominates (m ! j) (m ! n)) [0..<length m]"
      by (auto simp: list_ex_iff)
  qed (auto simp: list_ex_iff dominated_def)
  then show ?case
    unfolding step Let_def using IH n
    by (auto simp: scan_point_def nth_list_update_if le_less_Suc_eq not_less_eq_eq)
qed simp

lemma optimal_flags_iff:
  assumes "rows_ok k m"
  shows "length (optimal_flags m) = length m \<and>
    (\<forall>i < length m. optimal_flags m ! i \<longleftrightarrow> \<not> dominated m i)"
  using scan_fold[OF assms order_refl] by (simp add: optimal_flags_def Let_def)

section \<open>Rows, errors and distances\<close>

definition valid_directions :: "(string \<times> string) list \<Rightarrow> bool" where
  "valid_directions objs \<longleftrightarrow> (\<forall>p \<in> set objs. str_lower (snd p) \<in> {''maximize'', ''minimize''})"

text \<open>The value of an objective, oriented so that higher is better.\<close>

definition oriented :: "pareto_point \<Rightarrow> string \<times> string \<Rightarrow> real" where
  "oriented pt p = (if str_lower (snd p) = ''maximize'' then metric_get (pp_metrics pt) (fst p)
                    else - metric_get (pp_metrics pt) (fst p))"

lemma criteria_row_iff:
  "(\<exists>r. criteria_row objs pt = Inr r) \<longleftrightarrow> valid_directions objs"
  "criteria_row objs pt = Inr r \<Longrightarrow> r = map (oriented pt) objs"
  by (induction objs pt arbitrary: r rule: criteria_row.induct)
    (auto simp: valid_directions_def Let_def res_bind_Inr_iff oriented_def split: if_splits)

lemma criteria_matrix_iff:
  "pts \<noteq> [] \<Longrightarrow> (\<exists>m. criteria_matrix objs pts = Inr m) \<longleftrightarrow> valid_directions objs"
  "criteria_matrix objs pts = Inr m \<Longrightarrow> m = map (\<lambda>pt. map (oriented pt) objs) pts"
proof (induction pts arbitrary: m)
  case (Cons pt pts)
  { case 1
    have "(\<exists>m. criteria_matrix objs pts = Inr m)" if "valid_directions objs"
      using Cons.IH(1) that by (cases "pts = []") auto
    then show ?case using criteria_row_iff(1)[of objs pt] by (auto simp: res_bind_Inr_iff)
  next
    case 2
    then show ?case using criteria_row_iff(2)[of objs pt] Cons.IH(2) by (auto simp: res_bind_Inr_iff) }
qed auto

lemma frontier_rows_set:
  "length opt = length m \<Longrightarrow> set (frontier_rows m opt) = {m ! i |i. i < length m \<and> opt ! i}"
  by (force simp: frontier_rows_def set_zip)

lemma min_list_real_in: "xs \<noteq> [] \<Longrightarrow> min_list_real xs \<in> set xs"
proof -
  have "fold min ys (y::real) \<in> insert y (set ys)" for ys y
    by (induction ys arbitrary: y) (auto simp: min_def split: if_splits)
  then show "xs \<noteq> [] \<Longrightarrow> min_list_real xs \<in> set xs" by (cases xs) (auto simp: min_list_real_def)
qed

lemma member_le_sum_list_real: "(x::real) \<in> set xs \<Longrightarrow> \<forall>v \<in> set xs. 0 \<le> v \<Longrightarrow> x \<le> sum_list xs"
  by (induction xs) (auto simp: sum_list_nonneg add_increasing add_increasing2)

lemma row_distance_pos:
  assumes "length a = length b" "a \<noteq> b"
  shows "0 < row_distance a b"
proof -
  obtain j where j: "j < length a" "a ! j \<noteq> b ! j" using assms by (metis nth_equalityI)
  then have "(a ! j, b ! j) \<in> set (zip a b)" using assms(1) by (auto simp: set_zip)
  then have "(a ! j - b ! j)\<^sup>2 \<in> (\<lambda>(x, y). (x - y)\<^sup>2) ` set (zip a b)" by force
  then have "(a ! j - b ! j)\<^sup>2 \<le> sum_list (map (\<lambda>(x, y). (x - y)\<^sup>2) (zip a b))"
    by (intro member_le_sum_list_real) auto
  moreover have "0 < (a ! j - b ! j)\<^sup>2" using j by simp
  ultimately have "0 < sum_list (map (\<lambda>(x, y). (x - y)\<^sup>2) (zip a b))" by linarith
  then show ?thesis by (simp add: row_distance_def)
qed

lemma norm_row_inj:
  assumes "length a = k" "length b = k" "norm_row m k a = norm_row m k b"
  shows "a = b"
proof (rule nth_equalityI)
  fix j assume "j < length a"
  with assms have "(a ! j - min_list_real (column m j)) / col_range m j =
      (b ! j - min_list_real (column m j)) / col_range m j"
    by (simp add: norm_row_def map_eq_conv)
  moreover have "col_range m j \<noteq> 0" by (simp add: col_range_def Let_def)
  ultimately show "a ! j = b ! j" by simp
qed (use assms in simp)

text \<open>A point off the frontier is at a positive distance from it.\<close>

lemma frontier_distance_pos:
  assumes rows: "rows_ok k m" and i: "i < length m" "\<not> optimal_flags m ! i"
  shows "0 < frontier_distance m k (optimal_flags m) i"
proof -
  note flags = optimal_flags_iff[OF rows]
  let ?fr = "frontier_rows m (optimal_flags m)"
  have dom: "dominated m i" using flags i by blast
  from best_dominator[OF rows i(1) dom] obtain j where
    j: "j < length m" "optimal_flags m ! j" "dominates (m ! j) (m ! i)" using flags by blast
  have fr: "set ?fr = {m ! l |l. l < length m \<and> optimal_flags m ! l}" using flags by (simp add: frontier_rows_set)
  have ne: "?fr \<noteq> []" using fr j by auto
  have pos: "0 < row_distance (norm_row m k f) (norm_row m k (m ! i))" if f: "f \<in> set ?fr" for f
  proof (rule row_distance_pos)
    show "length (norm_row m k f) = length (norm_row m k (m ! i))" by (simp add: norm_row_def)
    obtain l where l: "l < length m" "f = m ! l" "\<not> dominated m l" using f fr flags by auto
    show "norm_row m k f \<noteq> norm_row m k (m ! i)"
    proof
      assume "norm_row m k f = norm_row m k (m ! i)"
      then have "f = m ! i" using rows l i(1) by (auto simp: rows_ok_def intro: norm_row_inj)
      with l(2,3) dom show False unfolding dominated_def by metis
    qed
  qed
  have "min_list_real (map (\<lambda>f. row_distance (norm_row m k f) (norm_row m k (m ! i))) ?fr)
      \<in> (\<lambda>f. row_distance (norm_row m k f) (norm_row m k (m ! i))) ` set ?fr"
    using min_list_real_in[of "map (\<lambda>f. row_distance (norm_row m k f) (norm_row m k (m ! i))) ?fr"] ne by simp
  with pos i(2) show ?thesis by (auto simp: frontier_distance_def)
qed

section \<open>Properties\<close>

text \<open>One point dominates another under the objectives.\<close>

definition better :: "(string \<times> string) list \<Rightarrow> pareto_point \<Rightarrow> pareto_point \<Rightarrow> bool" where
  "better objs p q \<longleftrightarrow> (\<forall>x \<in> set objs. oriented q x \<le> oriented p x) \<and>
     (\<exists>x \<in> set objs. oriented q x < oriented p x)"

lemma dominates_better:
  "dominates (map (oriented p) objs) (map (oriented q) objs) \<longleftrightarrow> better objs p q"
proof -
  have "dominates (map (oriented p) objs) (map (oriented q) objs) \<longleftrightarrow>
      (\<forall>j < length objs. oriented q (objs ! j) \<le> oriented p (objs ! j)) \<and>
      (\<exists>j < length objs. oriented q (objs ! j) < oriented p (objs ! j))"
    by (auto simp: dominates_iff)
  then show ?thesis unfolding better_def all_set_conv_all_nth by (metis in_set_conv_nth nth_mem)
qed
    
text \<open>
  C35: A result lists every point once, in order, with its data unchanged; a point is flagged
  Pareto-optimal exactly when no point of the input is at least as good in every objective and
  better in one, flagged points have distance 0 and all others a positive distance.
\<close>

theorem pareto_exact:
  assumes "compute_pareto_frontier points objectives = Inr out"
  shows "length out = length points \<and> (\<forall>i < length points.
    (out ! i)\<lparr>pp_optimal := pp_optimal (points ! i), pp_distance := pp_distance (points ! i)\<rparr> = points ! i \<and>
    (pp_optimal (out ! i) \<longleftrightarrow> (\<forall>q \<in> set points. \<not> better objectives q (points ! i))) \<and>
    (if pp_optimal (out ! i) then pp_distance (out ! i) = 0 else 0 < pp_distance (out ! i)))"
proof (cases "points = []")
  case True
  with assms show ?thesis by (simp add: compute_pareto_frontier_def)
next
  case False
  let ?k = "length objectives"
  obtain m where m: "criteria_matrix objectives points = Inr m"
    and out: "out = map (\<lambda>i. (points ! i)\<lparr>pp_optimal := optimal_flags m ! i,
        pp_distance := frontier_distance m ?k (optimal_flags m) i\<rparr>) [0..<length points]"
    using assms False by (auto simp: compute_pareto_frontier_def res_bind_Inr_iff Let_def)
  have mm: "m = map (\<lambda>pt. map (oriented pt) objectives) points" by (rule criteria_matrix_iff(2)[OF m])
  then have rows: "rows_ok ?k m" and len: "length m = length points" by (auto simp: rows_ok_def)
  have dom: "dominated m i \<longleftrightarrow> (\<exists>q \<in> set points. better objectives q (points ! i))" if "i < length points" for i
  proof -
    have "dominates (m ! j) (m ! i) \<longleftrightarrow> better objectives (points ! j) (points ! i)" if "j < length points" for j
      using that \<open>i < length points\<close> by (simp add: mm dominates_better)
    then have "dominated m i \<longleftrightarrow> (\<exists>j < length points. better objectives (points ! j) (points ! i))"
      unfolding dominated_def len by blast
    then show ?thesis by (metis in_set_conv_nth)
  qed
  show ?thesis
  proof (intro conjI allI impI)
    fix i assume i: "i < length points"
    have flag: "optimal_flags m ! i \<longleftrightarrow> (\<forall>q \<in> set points. \<not> better objectives q (points ! i))"
      using optimal_flags_iff[OF rows] dom[OF i] i len by simp
    show "(out ! i)\<lparr>pp_optimal := pp_optimal (points ! i), pp_distance := pp_distance (points ! i)\<rparr> = points ! i"
      using i by (simp add: out)
    show "pp_optimal (out ! i) \<longleftrightarrow> (\<forall>q \<in> set points. \<not> better objectives q (points ! i))"
      using i flag by (simp add: out)
    show "if pp_optimal (out ! i) then pp_distance (out ! i) = 0 else 0 < pp_distance (out ! i)"
      using i len frontier_distance_pos[OF rows, of i] by (cases "optimal_flags m ! i") (simp_all add: out frontier_distance_def)
  qed (simp add: out)
qed

theorem pareto_exact_witness:
  "\<exists>out. compute_pareto_frontier
      [\<lparr>pp_id = ''a'', pp_metrics = [(''tps'', 2)], pp_metadata = [], pp_optimal = False, pp_distance = 0\<rparr>]
      [(''tps'', ''Maximize'')] = Inr out \<and> length out = 1"
proof -
  let ?p = "\<lparr>pp_id = ''a'', pp_metrics = [(''tps'', 2)], pp_metadata = [], pp_optimal = False, pp_distance = 0\<rparr>"
  have "valid_directions [(''tps'', ''Maximize'')]"
    by code_simp
  then obtain m where "criteria_matrix [(''tps'', ''Maximize'')] [?p] = Inr m"
    using criteria_matrix_iff(1)[of "[?p]"] by blast
  then obtain out where "compute_pareto_frontier [?p] [(''tps'', ''Maximize'')] = Inr out"
    by (simp add: compute_pareto_frontier_def Let_def)
  with pareto_exact[OF this] show ?thesis by auto
qed

text \<open>
  The computation raises \<open>ValueError\<close> exactly when there is a point and some objective's
  direction is neither "maximize" nor "minimize" up to letter case.
\<close>

theorem pareto_errors:
  "(\<exists>e. compute_pareto_frontier points objectives = Inl e) = (points \<noteq> [] \<and> \<not> valid_directions objectives)"
proof (cases "points = []")
  case False
  from criteria_matrix_iff(1)[OF this, of objectives] show ?thesis
    by (cases "criteria_matrix objectives points") (auto simp: compute_pareto_frontier_def False Let_def)
qed (simp add: compute_pareto_frontier_def)

end
