(* ===== verification/Flash_Attention.thy ===== *)
theory Flash_Attention
  imports Tensor
begin

text \<open>
  \<open>kernels/triton/flash_attn_triton.py\<close>: the tiled attention kernel with online softmax. The rows of
  a tile are independent, so the kernel is modelled per query row; masked loads give 0, minus
  infinity is \<open>None\<close>, and \<open>half\<close> is the rounding to half precision that the casts apply.
\<close>

section \<open>The kernel\<close>

type_synonym matrix = "real list list"

text \<open>\<open>tl.load(ptrs, mask=row < N_CTX, other=0.0)\<close>\<close>

definition load_row :: "nat \<Rightarrow> matrix \<Rightarrow> nat \<Rightarrow> real list" where
  "load_row width m i = (if i < length m then m ! i else replicate width 0)"

definition max_opt :: "real option \<Rightarrow> real option \<Rightarrow> real option" where
  "max_opt a b = (case (a, b) of (None, _) \<Rightarrow> b | (_, None) \<Rightarrow> a | (Some x, Some y) \<Rightarrow> Some (max x y))"

text \<open>\<open>exp(x - m)\<close> for a finite \<open>m\<close>; the running maximum is finite from the first tile on.\<close>

definition exp_sub :: "real option \<Rightarrow> real option \<Rightarrow> real" where
  "exp_sub x m = (case (x, m) of (Some a, Some b) \<Rightarrow> exp (a - b) | _ \<Rightarrow> 0)"

definition weighted_sum :: "nat \<Rightarrow> (real \<times> real list) list \<Rightarrow> real list" where
  "weighted_sum width ps = map (\<lambda>d. sum_list (map (\<lambda>(w, v). w * v ! d) ps)) [0..<width]"

record softmax_state =
  sm_max :: "real option"
  sm_sum :: real
  sm_acc :: "real list"

definition softmax_init :: "nat \<Rightarrow> softmax_state" where
  "softmax_init width = \<lparr>sm_max = None, sm_sum = 0, sm_acc = replicate width 0\<rparr>"

text \<open>One tile: the scores of its columns, with their value rows.\<close>

definition online_step ::
  "(real \<Rightarrow> real) \<Rightarrow> nat \<Rightarrow> (real option \<times> real list) list \<Rightarrow> softmax_state \<Rightarrow> softmax_state" where
  "online_step half width tile s =
     (let m = fold max_opt (map fst tile) (sm_max s);
          p = map (\<lambda>(x, v). (exp_sub x m, v)) tile;
          alpha = exp_sub (sm_max s) m
      in \<lparr>sm_max = m, sm_sum = sm_sum s * alpha + sum_list (map fst p),
          sm_acc = map2 (+) (map (\<lambda>a. a * alpha) (sm_acc s))
                     (weighted_sum width (map (\<lambda>(w, v). (half w, v)) p))\<rparr>)"

definition tile_scores ::
  "(real \<Rightarrow> real) \<Rightarrow> nat \<Rightarrow> bool \<Rightarrow> real list \<Rightarrow> nat \<Rightarrow> matrix \<Rightarrow> matrix \<Rightarrow> nat list \<Rightarrow> (real option \<times> real list) list" where
  "tile_scores half width causal q row k v cols =
     map (\<lambda>j. (if causal \<and> row < j then None else Some (t_dot q (load_row width k j)), load_row width v j)) cols"

text \<open>\<open>range(0, end_n, BLOCK_N)\<close>\<close>

definition tiles :: "nat \<Rightarrow> nat \<Rightarrow> nat list list" where
  "tiles end_n block_n = map (\<lambda>t. [t * block_n..<Suc t * block_n]) [0..<(end_n + block_n - 1) div block_n]"

definition end_column :: "bool \<Rightarrow> nat \<Rightarrow> nat \<Rightarrow> nat \<Rightarrow> nat" where
  "end_column causal n_ctx block_m row =
     (if \<not> causal then n_ctx else min n_ctx ((row div block_m + 1) * block_m))"

definition flash_row ::
  "(real \<Rightarrow> real) \<Rightarrow> nat \<Rightarrow> nat \<Rightarrow> nat \<Rightarrow> bool \<Rightarrow> real \<Rightarrow> matrix \<Rightarrow> matrix \<Rightarrow> matrix \<Rightarrow> nat \<Rightarrow> real list" where
  "flash_row half width block_m block_n causal scale q k v row =
     (let qs = map (\<lambda>x. half (x * scale)) (q ! row);
          s = fold (\<lambda>cols. online_step half width (tile_scores half width causal qs row k v cols))
                (tiles (end_column causal (length q) block_m row) block_n) (softmax_init width)
      in map (\<lambda>a. half (a / sm_sum s)) (sm_acc s))"

text \<open>The launcher: one matrix per batch element and head, blocks of 64 rows and columns.\<close>

definition flash_attn ::
  "(real \<Rightarrow> real) \<Rightarrow> nat \<Rightarrow> bool \<Rightarrow> real option \<Rightarrow> matrix list list \<Rightarrow> matrix list list \<Rightarrow> matrix list list \<Rightarrow>
   matrix list list" where
  "flash_attn half width causal sm_scale q k v =
     (let scale = (case sm_scale of None \<Rightarrow> 1 / sqrt (real width) | Some s \<Rightarrow> s) in
      map (\<lambda>z. map (\<lambda>h. map (flash_row half width 64 64 causal scale (q ! z ! h) (k ! z ! h) (v ! z ! h))
                           [0..<length (q ! z ! h)])
             [0..<length (q ! z)]) [0..<length q])"

section \<open>The reference\<close>

text \<open>Attention of one query row over given columns: softmax weights without rescaling.\<close>

definition attention_row :: "nat \<Rightarrow> real list \<Rightarrow> (real list \<times> real list) list \<Rightarrow> real list" where
  "attention_row width q kvs =
     (let ws = map (\<lambda>(k, v). (exp (t_dot q k), v)) kvs
      in map (\<lambda>a. a / sum_list (map fst ws)) (weighted_sum width ws))"

text \<open>The columns that the kernel attends to: all in the tiles up to the end column, without a mask.\<close>

definition attended :: "bool \<Rightarrow> nat \<Rightarrow> nat \<Rightarrow> nat \<Rightarrow> nat \<Rightarrow> nat list" where
  "attended causal n_ctx block_m block_n row =
     filter (\<lambda>j. \<not> (causal \<and> row < j)) (concat (tiles (end_column causal n_ctx block_m row) block_n))"

section \<open>Online softmax\<close>

text \<open>The state after the scores \<open>done\<close>, for some shift that is any real number.\<close>

definition finite_scores :: "(real option \<times> real list) list \<Rightarrow> (real \<times> real list) list" where
  "finite_scores xs = map (\<lambda>(x, v). (the x, v)) (filter (\<lambda>(x, v). x \<noteq> None) xs)"

definition shifted :: "real \<Rightarrow> (real \<times> real list) list \<Rightarrow> (real \<times> real list) list" where
  "shifted m xs = map (\<lambda>(x, v). (exp (x - m), v)) xs"

definition softmax_inv :: "nat \<Rightarrow> (real option \<times> real list) list \<Rightarrow> softmax_state \<Rightarrow> bool" where
  "softmax_inv width done s \<longleftrightarrow>
     (case sm_max s of
        None \<Rightarrow> finite_scores done = [] \<and> sm_sum s = 0 \<and> sm_acc s = replicate width 0
      | Some m \<Rightarrow> sm_sum s = sum_list (map fst (shifted m (finite_scores done))) \<and>
          sm_acc s = weighted_sum width (shifted m (finite_scores done)))"

lemma weighted_sum_append:
  "weighted_sum width (xs @ ys) = map2 (+) (weighted_sum width xs) (weighted_sum width ys)"
  by (rule nth_equalityI) (simp_all add: weighted_sum_def)

lemma weighted_sum_scale:
  "weighted_sum width (map (\<lambda>(w, v). (w * c, v)) xs) = map (\<lambda>a. a * c) (weighted_sum width xs)"
  by (simp add: weighted_sum_def sum_list_mult_const[symmetric] comp_def split_def mult.assoc mult.commute[of c])

lemma shifted_shift: "shifted m xs = map (\<lambda>(w, v). (w * exp (n - m), v)) (shifted n xs)"
  by (simp add: shifted_def comp_def split_def exp_add[symmetric])

lemma sum_scale: "sum_list (map fst (map (\<lambda>(w, v). (w * c, v)) xs)) = sum_list (map fst xs) * (c :: real)"
  by (simp add: comp_def split_def sum_list_mult_const)

lemma masked_sums:
  "sum_list (map fst (map (\<lambda>(x, v). (exp_sub x (Some m), v)) xs)) = sum_list (map fst (shifted m (finite_scores xs)))"
  "weighted_sum width (map (\<lambda>(x, v). (exp_sub x (Some m), v)) xs) = weighted_sum width (shifted m (finite_scores xs))"
proof -
  show "sum_list (map fst (map (\<lambda>(x, v). (exp_sub x (Some m), v)) xs)) = sum_list (map fst (shifted m (finite_scores xs)))"
    by (induction xs) (auto simp: finite_scores_def shifted_def exp_sub_def split: option.splits)
  have "sum_list (map (\<lambda>(w, v). w * v ! d) (map (\<lambda>(x, v). (exp_sub x (Some m), v)) xs)) =
    sum_list (map (\<lambda>(w, v). w * v ! d) (shifted m (finite_scores xs)))" for d
    by (induction xs) (auto simp: finite_scores_def shifted_def exp_sub_def split: option.splits)
  then show "weighted_sum width (map (\<lambda>(x, v). (exp_sub x (Some m), v)) xs) =
    weighted_sum width (shifted m (finite_scores xs))"
    by (simp add: weighted_sum_def)
qed

lemma fold_max_opt: "fold max_opt xs m = None \<longleftrightarrow> m = None \<and> (\<forall>x \<in> set xs. x = None)"
  by (induction xs arbitrary: m) (auto simp: max_opt_def split: option.splits)

lemma finite_scores_append [simp]: "finite_scores (xs @ ys) = finite_scores xs @ finite_scores ys"
  by (simp add: finite_scores_def)

lemma shifted_append [simp]: "shifted m (xs @ ys) = shifted m xs @ shifted m ys"
  by (simp add: shifted_def)

lemma length_weighted_sum [simp]: "length (weighted_sum width xs) = width"
  by (simp add: weighted_sum_def)

lemma weighted_sum_Nil [simp]: "weighted_sum width [] = replicate width 0"
  by (simp add: weighted_sum_def map_replicate_const)

lemma online_step_inv:
  assumes inv: "softmax_inv width done s"
  shows "softmax_inv width (done @ tile) (online_step id width tile s)"
proof (cases "fold max_opt (map fst tile) (sm_max s)")
  case None
  then have "sm_max s = None" "\<forall>x \<in> set tile. fst x = None" by (auto simp: fold_max_opt)
  moreover from this have "finite_scores tile = []" by (auto simp: finite_scores_def filter_empty_conv)
  moreover have "map (\<lambda>(x, v). (exp_sub x None, v)) tile = map (\<lambda>(x, v). (0, v)) tile"
    "exp_sub x None = 0" for x
    by (auto simp: exp_sub_def split: option.split)
  moreover have "weighted_sum width (map (\<lambda>(x, v). (0, v)) tile) = replicate width 0"
    by (simp add: weighted_sum_def comp_def split_def map_replicate_const sum_list_replicate)
  ultimately show ?thesis using inv None
    by (simp add: softmax_inv_def online_step_def Let_def comp_def split_def map_replicate_const
        zip_replicate1 sum_list_replicate)
next
  case (Some m)
  let ?new = "shifted m (finite_scores tile)"
  have old: "sm_sum s * exp_sub (sm_max s) (Some m) = sum_list (map fst (shifted m (finite_scores done))) \<and>
    map (\<lambda>a. a * exp_sub (sm_max s) (Some m)) (sm_acc s) = weighted_sum width (shifted m (finite_scores done))"
  proof (cases "sm_max s")
    case None
    with inv show ?thesis by (simp add: softmax_inv_def exp_sub_def shifted_def)
  next
    case (Some n)
    with inv show ?thesis unfolding shifted_shift[of m _ n]
      by (simp only: sum_scale weighted_sum_scale) (simp add: softmax_inv_def exp_sub_def)
  qed
  have "online_step id width tile s = \<lparr>sm_max = Some m,
    sm_sum = sm_sum s * exp_sub (sm_max s) (Some m) +
      sum_list (map fst (map (\<lambda>(x, v). (exp_sub x (Some m), v)) tile)),
    sm_acc = map2 (+) (map (\<lambda>a. a * exp_sub (sm_max s) (Some m)) (sm_acc s))
      (weighted_sum width (map (\<lambda>(x, v). (exp_sub x (Some m), v)) tile))\<rparr>"
    unfolding online_step_def Let_def Some by (simp add: comp_def split_def)
  then show ?thesis unfolding masked_sums using old
    by (simp add: softmax_inv_def weighted_sum_append)
qed

lemma online_fold_inv:
  "softmax_inv width done s \<Longrightarrow>
   softmax_inv width (done @ concat ts) (fold (online_step id width) ts s)"
proof (induction ts arbitrary: "done" s)
  case (Cons tile ts)
  from Cons.IH[OF online_step_inv[OF Cons.prems, of tile]] show ?case by (simp add: id_def)
qed simp

lemma softmax_init_inv: "softmax_inv width [] (softmax_init width)"
  by (simp add: softmax_inv_def softmax_init_def finite_scores_def)

text \<open>Normalising removes the shift.\<close>

lemma softmax_result:
  assumes inv: "softmax_inv width done s" and ne: "finite_scores done \<noteq> []"
  shows "map (\<lambda>a. a / sm_sum s) (sm_acc s) =
    map (\<lambda>a. a / sum_list (map fst (shifted 0 (finite_scores done))))
      (weighted_sum width (shifted 0 (finite_scores done)))"
proof -
  obtain m where m: "sm_max s = Some m" using inv ne by (auto simp: softmax_inv_def split: option.splits)
  let ?c = "exp (0 - m)"
  have "sm_sum s = sum_list (map fst (shifted 0 (finite_scores done))) * ?c"
    "sm_acc s = map (\<lambda>a. a * ?c) (weighted_sum width (shifted 0 (finite_scores done)))"
    using inv m unfolding softmax_inv_def
    by (simp_all only: option.case shifted_shift[of m _ 0] sum_scale weighted_sum_scale)
  then show ?thesis by (simp add: comp_def)
qed

section \<open>The columns of the tiles\<close>

lemma concat_tiles: "concat (tiles e block_n) = [0..<(e + block_n - 1) div block_n * block_n]"
proof -
  have "concat (map (\<lambda>t. [t * block_n..<Suc t * block_n]) [0..<n]) = [0..<n * block_n]" for n
  proof (induction n)
    case (Suc n)
    have "[0..<Suc n * block_n] = [0..<n * block_n] @ [n * block_n..<Suc n * block_n]"
      using upt_add_eq_append[of 0 "n * block_n" block_n] by (simp add: add.commute)
    with Suc show ?case by simp
  qed simp
  then show ?thesis by (simp add: tiles_def)
qed

lemma cdiv_bounds:
  assumes "0 < (b :: nat)"
  shows "n \<le> (n + b - 1) div b * b" "b dvd n \<Longrightarrow> (n + b - 1) div b * b = n"
proof -
  have "n + b - 1 < (n + b - 1) div b * b + b" using dividend_less_div_times[OF assms, of "n + b - 1"] by simp
  then show "n \<le> (n + b - 1) div b * b" using assms by simp
  assume "b dvd n"
  then obtain c where "n = b * c" by (rule dvdE)
  moreover have "(b * c + (b - 1)) div b = c" using assms by (intro div_nat_eqI) (simp_all add: algebra_simps)
  ultimately show "(n + b - 1) div b * b = n" using assms by simp
qed

lemma filter_upt_le: "filter (\<lambda>j. \<not> row < j) [0..<n] = [0..<min n (Suc row)]"
proof (induction n)
  case (Suc n)
  then show ?case by (cases "n \<le> row"; cases "n = Suc row") (simp_all add: min_def)
qed simp

lemma attended_columns:
  assumes "0 < block_m" "0 < block_n" "row < n"
  shows "attended causal n block_m block_n row =
    [0..<if causal then Suc row else (n + block_n - 1) div block_n * block_n]"
proof (cases causal)
  case True
  have "row < (row div block_m + 1) * block_m"
    using dividend_less_div_times[OF assms(1), of row] by simp
  with assms(3) have "row < end_column True n block_m row" by (simp add: end_column_def)
  with cdiv_bounds(1)[OF assms(2), of "end_column True n block_m row"] True show ?thesis
    by (simp add: attended_def concat_tiles filter_upt_le min_absorb2 del: upt_Suc)
qed (simp add: attended_def concat_tiles end_column_def)

lemma flash_row_attention:
  assumes "0 < block_m" "0 < block_n" "row < length q"
  shows "flash_row id width block_m block_n causal scale q k v row =
    attention_row width (map (\<lambda>x. x * scale) (q ! row))
      (map (\<lambda>j. (load_row width k j, load_row width v j)) (attended causal (length q) block_m block_n row))"
proof -
  let ?qs = "map (\<lambda>x. x * scale) (q ! row)"
  let ?cols = "tiles (end_column causal (length q) block_m row) block_n"
  let ?score = "tile_scores id width causal ?qs row k v"
  let ?s = "fold (online_step id width) (map ?score ?cols) (softmax_init width)"
  have "concat (map ?score ?cols) = ?score (concat ?cols)"
    unfolding tile_scores_def[abs_def] map_concat ..
  then have inv: "softmax_inv width (?score (concat ?cols)) ?s"
    using online_fold_inv[OF softmax_init_inv, of width "map ?score ?cols"] by simp
  have fin: "finite_scores (?score cols) = map (\<lambda>j. (t_dot ?qs (load_row width k j), load_row width v j))
      (filter (\<lambda>j. \<not> (causal \<and> row < j)) cols)" for cols
    by (induction cols) (auto simp: finite_scores_def tile_scores_def)
  have "row < (if causal then Suc row else (length q + block_n - 1) div block_n * block_n)"
    using cdiv_bounds(1)[OF assms(2), of "length q"] assms(3) by (simp add: less_le_trans)
  then have "attended causal (length q) block_m block_n row \<noteq> []"
    unfolding attended_columns[OF assms] upt_eq_Nil_conv by linarith
  then have ne: "finite_scores (?score (concat ?cols)) \<noteq> []" by (simp add: fin attended_def)
  have "flash_row id width block_m block_n causal scale q k v row = map (\<lambda>a. a / sm_sum ?s) (sm_acc ?s)"
    by (simp add: flash_row_def Let_def fold_map comp_def)
  also have "\<dots> = attention_row width ?qs
      (map (\<lambda>j. (load_row width k j, load_row width v j)) (attended causal (length q) block_m block_n row))"
    unfolding softmax_result[OF inv ne] fin
    by (simp add: attention_row_def Let_def shifted_def attended_def comp_def)
  finally show ?thesis .
qed

lemma dot_zero: "t_dot q (replicate n 0) = 0"
proof (induction q arbitrary: n)
  case (Cons x q)
  then show ?case by (cases n) (simp_all add: t_dot_def)
qed (simp add: t_dot_def)

text \<open>Rows past the end have score 0 and value 0, so each of them adds 1 to the denominator only.\<close>

lemma padded_sums:
  fixes q :: "real list" and width :: nat
  assumes "length k = n" "length v = n" "n \<le> m"
  defines "ws \<equiv> \<lambda>cols. map (\<lambda>j. (exp (t_dot q (load_row width k j)), load_row width v j)) cols"
  shows "sum_list (map fst (ws [0..<m])) = sum_list (map fst (ws [0..<n])) + real (m - n)"
    "weighted_sum width (ws [0..<m]) = weighted_sum width (ws [0..<n])"
proof -
  have split: "[0..<m] = [0..<n] @ [n..<m]" using upt_add_eq_append[of 0 n "m - n"] assms(3) by simp
  have pad: "ws [n..<m] = replicate (m - n) (1, replicate width 0)"
    using assms(1,2) by (intro nth_equalityI) (simp_all add: ws_def load_row_def dot_zero)
  have app: "ws (a @ b) = ws a @ ws b" for a b by (simp add: ws_def)
  show "sum_list (map fst (ws [0..<m])) = sum_list (map fst (ws [0..<n])) + real (m - n)"
    by (simp only: split app pad) (simp add: sum_list_replicate)
  have zero: "weighted_sum width (replicate c (1, replicate width 0)) = replicate width 0" for c
    by (rule nth_equalityI) (simp_all add: weighted_sum_def sum_list_replicate)
  show "weighted_sum width (ws [0..<m]) = weighted_sum width (ws [0..<n])"
    by (simp only: split app pad weighted_sum_append zero)
      (rule nth_equalityI, simp_all add: weighted_sum_def)
qed

section \<open>Properties\<close>

text \<open>
  C6: In exact arithmetic and for any block sizes, the tiled kernel with its running maximum
  and rescaling computes softmax attention: the output of a row is the sum of the value rows
  weighted by the exponentials of the scaled scores, over the columns up to the row when causal and
  over all columns otherwise. Without the causal mask the columns that fill up the last tile
  are not masked: each of them adds 1 to the denominator.
\<close>

theorem flash_attention_exact:
  assumes "0 < block_m" and "0 < block_n" and "row < length q"
    and "length k = length q" and "length v = length q"
  shows "flash_row id width block_m block_n causal scale q k v row =
    (let cols = [0..<if causal then Suc row else length q];
         pad = (if causal then 0 else (length q + block_n - 1) div block_n * block_n - length q);
         w = (\<lambda>j. exp (t_dot (map (\<lambda>x. x * scale) (q ! row)) (k ! j)))
     in map (\<lambda>d. sum_list (map (\<lambda>j. w j * v ! j ! d) cols) / (sum_list (map w cols) + real pad)) [0..<width])"
proof -
  let ?q = "map (\<lambda>x. x * scale) (q ! row)"
  let ?n = "if causal then Suc row else length q"
  let ?m = "if causal then Suc row else (length q + block_n - 1) div block_n * block_n"
  let ?ws = "\<lambda>cols. map (\<lambda>j. (exp (t_dot ?q (load_row width k j)), load_row width v j)) cols"
  have sums: "sum_list (map fst (?ws [0..<?m])) = sum_list (map fst (?ws [0..<?n])) + real (?m - ?n)"
    "weighted_sum width (?ws [0..<?m]) = weighted_sum width (?ws [0..<?n])"
    using padded_sums[OF assms(4,5) cdiv_bounds(1)[OF assms(2)], where q = ?q and width = width] by (auto split: if_splits)
  have in_range: "load_row width k j = k ! j" "load_row width v j = v ! j" if "j < ?n" for j
    using that assms(3-5) by (auto simp: load_row_def split: if_splits)
  have W: "?ws [0..<?n] = map (\<lambda>j. (exp (t_dot ?q (k ! j)), v ! j)) [0..<?n]"
    by (rule map_cong) (use in_range in auto)
  have pad: "?m - ?n = (if causal then 0 else (length q + block_n - 1) div block_n * block_n - length q)" by simp
  have D: "sum_list (map fst (?ws [0..<?m])) = sum_list (map (\<lambda>j. exp (t_dot ?q (k ! j))) [0..<?n]) + real (?m - ?n)"
    unfolding sums(1) W by (simp only: map_map comp_def fst_conv)
  have A: "attention_row width ?q (map (\<lambda>j. (load_row width k j, load_row width v j)) cols) =
      map (\<lambda>a. a / sum_list (map fst (?ws cols))) (weighted_sum width (?ws cols))" for cols
    by (simp only: attention_row_def Let_def map_map comp_def prod.case)
  show ?thesis
    unfolding flash_row_attention[OF assms(1-3)] attended_columns[OF assms(1-3)] A D sums(2) W pad
    by (simp only: weighted_sum_def map_map comp_def prod.case Let_def)
qed

theorem flash_attention_exact_witness:
  "flash_row id 1 64 64 False 1 [[1]] [[1]] [[1]] 0 = [exp 1 / (exp 1 + 63)]"
  using flash_attention_exact[of 64 64 0 "[[1]]" "[[1]]" "[[1]]" 1 False 1] by (simp add: t_dot_def)

end
