(* ===== verification/Fused_Kernels.thy ===== *)
theory Fused_Kernels
  imports Tensor
begin

text \<open>
  The remaining Triton kernels of \<open>kernels/triton\<close>: rotary position embedding in place
  (\<open>fused_rope_triton.py\<close>), the matrix product with packed 4-bit weights
  (\<open>int4_dequant_triton.py\<close>) and token selection (\<open>sampling_triton.py\<close>). \<open>half\<close> is the rounding
  to half precision; the instances of a grid are executed one after the other, in any order they
  write to disjoint places.
\<close>

unbundle bit_operations_syntax

section \<open>Rotary position embedding\<close>

type_synonym tensor4 = "real list list list list"

text \<open>The vector of one head: the first half is paired with the second, a last odd element stays.\<close>

definition rope_vec :: "(real \<Rightarrow> real) \<Rightarrow> nat \<Rightarrow> real list \<Rightarrow> real list \<Rightarrow> real list \<Rightarrow> real list" where
  "rope_vec half head_dim cs sn x =
     (let h = head_dim div 2 in
      map (\<lambda>d. if d < h then half (x ! d * cs ! d - x ! (d + h) * sn ! d)
               else if d < 2 * h then half (x ! (d - h) * sn ! (d - h) + x ! d * cs ! (d - h))
               else x ! d) [0..<length x])"

definition at_head :: "nat \<times> nat \<times> nat \<Rightarrow> tensor4 \<Rightarrow> real list" where
  "at_head p t = (case p of (b, s, h) \<Rightarrow> t ! b ! s ! h)"

definition upd_head :: "nat \<times> nat \<times> nat \<Rightarrow> (real list \<Rightarrow> real list) \<Rightarrow> tensor4 \<Rightarrow> tensor4" where
  "upd_head p f t = (case p of (b, s, h) \<Rightarrow> t[b := (t ! b)[s := (t ! b ! s)[h := f (t ! b ! s ! h)]]])"

definition rope_program ::
  "(real \<Rightarrow> real) \<Rightarrow> nat \<Rightarrow> nat \<Rightarrow> nat \<Rightarrow> nat \<Rightarrow> real list list \<Rightarrow> real list list \<Rightarrow> nat \<times> nat \<times> bool \<Rightarrow>
   tensor4 \<times> tensor4 \<Rightarrow> tensor4 \<times> tensor4" where
  "rope_program half head_dim seq_len num_q num_kv cs sn instance_id qk =
     (case (instance_id, qk) of ((token, head, is_key), (q, k)) \<Rightarrow>
        let batch_id = token div seq_len; seq_id = token mod seq_len;
            rotate = rope_vec half head_dim (cs ! seq_id) (sn ! seq_id)
        in if \<not> is_key then (if head < num_q then (upd_head (batch_id, seq_id, head) rotate q, k) else (q, k))
           else if head < num_kv then (q, upd_head (batch_id, seq_id, head) rotate k) else (q, k))"

definition rope_grid :: "nat \<Rightarrow> nat \<Rightarrow> (nat \<times> nat \<times> bool) list" where
  "rope_grid total_tokens max_heads =
     List.product [0..<total_tokens] (List.product [0..<max_heads] [False, True])"

definition fused_rope ::
  "(real \<Rightarrow> real) \<Rightarrow> nat \<times> nat \<times> nat \<times> nat \<Rightarrow> nat \<Rightarrow> real list list \<Rightarrow> real list list \<Rightarrow> tensor4 \<Rightarrow> tensor4 \<Rightarrow>
   tensor4 \<times> tensor4" where
  "fused_rope half shape num_kv cs sn q k =
     (case shape of (batch, seq_len, num_q, head_dim) \<Rightarrow>
        fold (rope_program half head_dim seq_len num_q num_kv cs sn)
          (rope_grid (batch * seq_len) (max num_q num_kv)) (q, k))"

definition shaped :: "nat \<Rightarrow> nat \<Rightarrow> nat \<Rightarrow> tensor4 \<Rightarrow> bool" where
  "shaped batch seq_len heads t \<longleftrightarrow> length t = batch \<and>
     (\<forall>b < batch. length (t ! b) = seq_len \<and> (\<forall>s < seq_len. length (t ! b ! s) = heads))"

lemma nth_update_at: "j < length xs \<Longrightarrow> xs[i := x] ! j = (if i = j then x else xs ! j)"
  by auto

lemma shaped_upd: "shaped B S H t \<Longrightarrow> shaped B S H (upd_head p f t)"
  by (cases p) (auto simp: shaped_def upd_head_def nth_update_at)

lemma at_head_upd:
  assumes "shaped B S H t" "b < B" "s < S" "h < H"
  shows "at_head p (upd_head (b, s, h) f t) = (if p = (b, s, h) then f (at_head p t) else at_head p t)"
proof -
  obtain b' s' h' where p: "p = (b', s', h')" by (cases p)
  show ?thesis using assms
    by (cases "b' = b"; cases "s' = s"; cases "h' = h") (auto simp: p at_head_def upd_head_def shaped_def)
qed

text \<open>Executing a list of distinct instances rotates exactly the heads they address, once.\<close>

lemma rope_fold:
  assumes "distinct ps" "\<forall>(token, head, key) \<in> set ps. token < B * S"
    and "shaped B S nq q" "shaped B S nkv k" "b < B" "s < S"
    and "fold (rope_program half hdim S nq nkv cs sn) ps (q, k) = (q1, k1)"
  shows "(h < nq \<longrightarrow> at_head (b, s, h) q1 = (if (b * S + s, h, False) \<in> set ps
      then rope_vec half hdim (cs ! s) (sn ! s) (at_head (b, s, h) q) else at_head (b, s, h) q)) \<and>
    (h < nkv \<longrightarrow> at_head (b, s, h) k1 = (if (b * S + s, h, True) \<in> set ps
      then rope_vec half hdim (cs ! s) (sn ! s) (at_head (b, s, h) k) else at_head (b, s, h) k))"
  using assms
proof (induction ps arbitrary: q k)
  case (Cons p ps)
  obtain token head key where p: "p = (token, head, key)" by (cases p)
  obtain q' k' where step: "rope_program half hdim S nq nkv cs sn p (q, k) = (q', k')" by fastforce
  let ?b = "token div S" and ?s = "token mod S"
  have S: "0 < S" using Cons.prems(6) by simp
  have "token < B * S" using Cons.prems(2) p by simp
  then have r: "?b < B" "?s < S" using S by (simp_all add: less_mult_imp_div_less)
  have same: "b = ?b \<and> s = ?s \<longleftrightarrow> token = b * S + s"
    using Cons.prems(6) by auto
  have q': "q' = (if \<not> key \<and> head < nq then upd_head (?b, ?s, head) (rope_vec half hdim (cs ! ?s) (sn ! ?s)) q else q)"
    and k': "k' = (if key \<and> head < nkv then upd_head (?b, ?s, head) (rope_vec half hdim (cs ! ?s) (sn ! ?s)) k else k)"
    using step by (auto simp: rope_program_def p Let_def split: if_splits)
  have sh: "shaped B S nq q'" "shaped B S nkv k'" using Cons.prems by (simp_all add: q' k' shaped_upd)
  have Q: "at_head (b, s, h) q' = (if p = (b * S + s, h, False)
      then rope_vec half hdim (cs ! s) (sn ! s) (at_head (b, s, h) q) else at_head (b, s, h) q)" if "h < nq"
    using at_head_upd[OF Cons.prems(3) r, of head "(b, s, h)"] that same by (auto simp: q' p)
  have K: "at_head (b, s, h) k' = (if p = (b * S + s, h, True)
      then rope_vec half hdim (cs ! s) (sn ! s) (at_head (b, s, h) k) else at_head (b, s, h) k)" if "h < nkv"
    using at_head_upd[OF Cons.prems(4) r, of head "(b, s, h)"] that same by (auto simp: k' p)
  have rest: "fold (rope_program half hdim S nq nkv cs sn) ps (q', k') = (q1, k1)"
    using Cons.prems(7) step by simp
  have ps: "distinct ps" "\<forall>(token, head, key) \<in> set ps. token < B * S" "p \<notin> set ps" using Cons.prems by auto
  note IH = Cons.IH[OF ps(1,2) sh Cons.prems(5,6) rest]
  show ?case
  proof (intro conjI impI)
    assume h: "h < nq"
    with IH Q[OF h] ps(3) show "at_head (b, s, h) q1 = (if (b * S + s, h, False) \<in> set (p # ps)
      then rope_vec half hdim (cs ! s) (sn ! s) (at_head (b, s, h) q) else at_head (b, s, h) q)" by auto
  next
    assume h: "h < nkv"
    with IH K[OF h] ps(3) show "at_head (b, s, h) k1 = (if (b * S + s, h, True) \<in> set (p # ps)
      then rope_vec half hdim (cs ! s) (sn ! s) (at_head (b, s, h) k) else at_head (b, s, h) k)" by auto
  qed
qed simp

lemma grid_distinct: "distinct (rope_grid n m)"
  by (simp add: rope_grid_def distinct_product)

lemma grid_set: "set (rope_grid n m) = {(token, head, key). token < n \<and> head < m}"
  by (auto simp: rope_grid_def)

lemma token_bound: "b < B \<Longrightarrow> s < S \<Longrightarrow> b * S + s < B * S" for b B s S :: nat
proof -
  assume "b < B" "s < S"
  then have "b * S + s < Suc b * S" by simp
  also have "\<dots> \<le> B * S" using \<open>b < B\<close> by (intro mult_le_mono1) simp
  finally show ?thesis .
qed

lemma fused_rope_heads:
  assumes "shaped B S nq q" "shaped B S nkv k" "b < B" "s < S"
    and "fused_rope half (B, S, nq, hdim) nkv cs sn q k = (q1, k1)"
  shows "h < nq \<Longrightarrow> q1 ! b ! s ! h = rope_vec half hdim (cs ! s) (sn ! s) (q ! b ! s ! h)"
    "h < nkv \<Longrightarrow> k1 ! b ! s ! h = rope_vec half hdim (cs ! s) (sn ! s) (k ! b ! s ! h)"
proof -
  let ?ps = "rope_grid (B * S) (max nq nkv)"
  have run: "fold (rope_program half hdim S nq nkv cs sn) ?ps (q, k) = (q1, k1)"
    using assms(5) by (simp add: fused_rope_def)
  have "\<forall>(token, head, key) \<in> set ?ps. token < B * S" by (auto simp: grid_set)
  note R = rope_fold[OF grid_distinct this assms(1-4) run, of h]
  show "h < nq \<Longrightarrow> q1 ! b ! s ! h = rope_vec half hdim (cs ! s) (sn ! s) (q ! b ! s ! h)"
    "h < nkv \<Longrightarrow> k1 ! b ! s ! h = rope_vec half hdim (cs ! s) (sn ! s) (k ! b ! s ! h)"
    using R token_bound[OF assms(3,4)] by (simp_all add: grid_set at_head_def less_max_iff_disj)
qed

text \<open>The rotation of position m, with one angle per pair.\<close>

definition rope_at :: "(nat \<Rightarrow> real) \<Rightarrow> nat \<Rightarrow> nat \<Rightarrow> real list \<Rightarrow> real list" where
  "rope_at theta head_dim m x =
     rope_vec id head_dim (map (\<lambda>d. cos (real m * theta d)) [0..<head_dim div 2])
       (map (\<lambda>d. sin (real m * theta d)) [0..<head_dim div 2]) x"

lemma rope_at_nth:
  assumes "length x = w" "d < w"
  defines "h \<equiv> w div 2"
  shows "rope_at theta w m x ! d =
    (if d < h then x ! d * cos (real m * theta d) - x ! (d + h) * sin (real m * theta d)
     else if d < 2 * h then x ! (d - h) * sin (real m * theta (d - h)) + x ! d * cos (real m * theta (d - h))
     else x ! d)"
  using assms by (auto simp: rope_at_def rope_vec_def Let_def)

lemma dot_halves:
  assumes "length x = w" "length y = w"
  defines "h \<equiv> w div 2"
  shows "t_dot x y = (\<Sum>d < h. x ! d * y ! d + x ! (d + h) * y ! (d + h)) + (\<Sum>d = 2 * h..<w. x ! d * y ! d)"
proof -
  have "t_dot x y = (\<Sum>d < w. x ! d * y ! d)"
    using sum_list_zip_sum[of y x "\<lambda>(a, b). a * b"] assms by (simp add: t_dot_def)
  also have "\<dots> = (\<Sum>d \<in> {0..<h}. x ! d * y ! d) + (\<Sum>d \<in> {h..<2 * h}. x ! d * y ! d) + (\<Sum>d = 2 * h..<w. x ! d * y ! d)"
    using sum.atLeastLessThan_concat[of 0 h "2 * h" "\<lambda>d. x ! d * y ! d"]
      sum.atLeastLessThan_concat[of 0 "2 * h" w "\<lambda>d. x ! d * y ! d"] by (simp add: h_def atLeast0LessThan)
  also have "(\<Sum>d \<in> {h..<2 * h}. x ! d * y ! d) = (\<Sum>d \<in> {0..<h}. x ! (d + h) * y ! (d + h))"
    using sum.shift_bounds_nat_ivl[of "\<lambda>d. x ! d * y ! d" 0 h h] by (simp add: mult_2)
  finally show ?thesis by (simp add: sum.distrib atLeast0LessThan)
qed

lemma rotate_pair:
  "(a * cos u - b * sin u) * (c * cos v - d * sin v) + (a * sin u + b * cos u) * (c * sin v + d * cos v) =
   (a * c + b * d) * cos (u - v) + (b * c - a * d) * sin (v - u)" for a b c d u v :: real
  by (simp add: cos_diff sin_diff algebra_simps)

section \<open>Matrix product with packed 4-bit weights\<close>

definition cdiv :: "nat \<Rightarrow> nat \<Rightarrow> nat" where
  "cdiv n b = (n + b - 1) div b"

text \<open>\<open>(b_packed >> shift) & 0x0F\<close>: eight codes per word along k.\<close>

definition nibble :: "32 word \<Rightarrow> nat \<Rightarrow> 32 word" where
  "nibble w k = drop_bit (k mod 8 * 4) w AND 15"

text \<open>One element of an output tile: the loop over the blocks of k, with masked loads.\<close>

definition gemm_block ::
  "(real \<Rightarrow> real) \<Rightarrow> nat \<Rightarrow> nat \<Rightarrow> nat \<Rightarrow> real list list \<Rightarrow> 32 word list list \<Rightarrow> real list list \<Rightarrow>
   nat \<Rightarrow> nat \<Rightarrow> nat \<Rightarrow> real" where
  "gemm_block half group_size block_k k_len a b_quant scales m n blk =
     sum_list (map (\<lambda>j. (if j < k_len then a ! m ! j else 0) *
         half (real (unat (nibble (if j < k_len then b_quant ! (j div 8) ! n else 0) j)) *
               scales ! (blk * block_k div group_size) ! n))
       [blk * block_k..<Suc blk * block_k])"

definition gemm_element ::
  "(real \<Rightarrow> real) \<Rightarrow> nat \<Rightarrow> nat \<Rightarrow> nat \<Rightarrow> real list list \<Rightarrow> 32 word list list \<Rightarrow> real list list \<Rightarrow> nat \<Rightarrow> nat \<Rightarrow> real" where
  "gemm_element half group_size block_k k_len a b_quant scales m n =
     fold (\<lambda>blk acc. acc + gemm_block half group_size block_k k_len a b_quant scales m n blk)
       [0..<cdiv k_len block_k] 0"

text \<open>The launcher: blocks of 32; the zero points are passed to the kernel, which does not read them.\<close>

definition int4_gemm_dequant ::
  "(real \<Rightarrow> real) \<Rightarrow> nat \<times> nat \<Rightarrow> nat \<Rightarrow> real list list \<Rightarrow> 32 word list list \<Rightarrow> real list list \<Rightarrow>
   real list list option \<Rightarrow> nat \<Rightarrow> real list list" where
  "int4_gemm_dequant half a_shape n_cols a b_quant scales zeros group_size =
     (case a_shape of (rows, k_len) \<Rightarrow>
        map (\<lambda>m. map (\<lambda>n. half (gemm_element half group_size 32 k_len a b_quant scales m n)) [0..<n_cols])
          [0..<rows])"

lemma nibble_value: "unat (nibble w k) = unat w div 16 ^ (k mod 8) mod 16"
proof -
  have "(15 :: 32 word) = mask 4" by (simp add: mask_eq_exp_minus_1)
  then have "nibble w k = take_bit 4 (drop_bit (k mod 8 * 4) w)"
    by (simp add: nibble_def take_bit_eq_mask)
  then have "unat (nibble w k) = take_bit 4 (drop_bit (k mod 8 * 4) (unat w))"
    by (simp only: unsigned_take_bit_eq unat_drop_bit_eq)
  then show ?thesis by (simp add: take_bit_eq_mod drop_bit_eq_div power_mult mult.commute)
qed

lemma cdiv_ge: "0 < b \<Longrightarrow> n \<le> cdiv n b * b"
  using dividend_less_div_times[of b "n + b - 1"] by (simp add: cdiv_def)

lemma block_of: "0 < b \<Longrightarrow> j \<in> set [blk * b..<Suc blk * b] \<Longrightarrow> j div b = blk" for b :: nat
  by (intro div_nat_eqI) (auto simp: algebra_simps)

lemma fold_blocks:
  assumes "\<And>blk. blk < n \<Longrightarrow> g blk = sum_list (map f [blk * b..<Suc blk * b])"
  shows "fold (\<lambda>blk acc. acc + g blk) [0..<n] (0 :: real) = sum_list (map f [0..<n * b])"
  using assms
proof (induction n)
  case (Suc n)
  have "[0..<Suc n * b] = [0..<n * b] @ [n * b..<Suc n * b]"
    using upt_add_eq_append[of 0 "n * b" b] by (simp add: add.commute)
  with Suc show ?case by simp
qed simp

section \<open>Token selection\<close>

text \<open>\<open>tl.argmax\<close>: the first index of the maximum.\<close>

definition first_argmax :: "real list \<Rightarrow> nat" where
  "first_argmax xs = length (takeWhile (\<lambda>x. x < t_max xs) xs)"

definition sample_row :: "nat \<Rightarrow> real \<Rightarrow> real list \<Rightarrow> nat" where
  "sample_row block_v temperature logits =
     (let padded = map (\<lambda>i. if i < length logits then logits ! i else - (10 ^ 9)) [0..<block_v];
          scaled = (if 1 / 10 ^ 5 < temperature then map (\<lambda>x. x / temperature) padded else padded);
          max_logit = t_max scaled;
          exps = map (\<lambda>x. exp (x - max_logit)) scaled;
          probs = map (\<lambda>e. e / t_sum exps) exps
      in first_argmax probs)"

definition fused_sampling :: "(nat \<Rightarrow> nat) \<Rightarrow> nat \<Rightarrow> real list list \<Rightarrow> real \<Rightarrow> nat list" where
  "fused_sampling next_power_of_2 vocab_size logits temperature =
     map (sample_row (next_power_of_2 vocab_size) temperature) logits"

lemma t_max_mono_map:
  assumes "xs \<noteq> []" "\<And>x y. f x \<le> f y \<longleftrightarrow> x \<le> y"
  shows "t_max (map f xs) = f (t_max xs)"
proof (rule antisym)
  have "t_max (map f xs) \<in> f ` set xs" using t_max_in[of "map f xs"] assms(1) by simp
  then show "t_max (map f xs) \<le> f (t_max xs)" using t_max_ge assms(2) by fastforce
  show "f (t_max xs) \<le> t_max (map f xs)" using t_max_in[OF assms(1)] by (intro t_max_ge) simp
qed

lemma first_argmax_map:
  assumes "xs \<noteq> []" "\<And>x y. f x \<le> f y \<longleftrightarrow> x \<le> y"
  shows "first_argmax (map f xs) = first_argmax xs"
proof -
  have "f x < f y \<longleftrightarrow> x < y" for x y using assms(2) by (meson not_le)
  then show ?thesis
    by (simp add: first_argmax_def t_max_mono_map[OF assms] takeWhile_map comp_def)
qed

lemma first_argmax_spec:
  assumes "xs \<noteq> []"
  shows "first_argmax xs < length xs \<and> xs ! first_argmax xs = t_max xs \<and>
    (\<forall>j < first_argmax xs. xs ! j < t_max xs)"
proof -
  obtain i where i: "i < length xs" "xs ! i = t_max xs"
    using t_max_in[OF assms] by (auto simp: in_set_conv_nth)
  have lt: "length (takeWhile (\<lambda>x. x < t_max xs) xs) < length xs"
  proof (rule ccontr)
    assume "\<not> ?thesis"
    then have "takeWhile (\<lambda>x. x < t_max xs) xs = xs"
      by (metis length_takeWhile_le le_antisym not_le takeWhile_eq_take take_all)
    then show False using i by (metis less_irrefl nth_mem set_takeWhileD)
  qed
  have "\<not> xs ! first_argmax xs < t_max xs"
    using nth_length_takeWhile[OF lt] by (simp add: first_argmax_def)
  moreover have "xs ! first_argmax xs \<le> t_max xs" using lt by (intro t_max_ge) (simp add: first_argmax_def)
  moreover have "xs ! j < t_max xs" if "j < first_argmax xs" for j
    using that nth_mem[of j "takeWhile (\<lambda>x. x < t_max xs) xs"] set_takeWhileD
    by (fastforce simp: first_argmax_def takeWhile_nth)
  ultimately show ?thesis using lt by (auto simp: first_argmax_def)
qed

lemma sample_row_argmax:
  assumes "logits \<noteq> []" "length logits \<le> block_v" "\<forall>x \<in> set logits. - (10 ^ 9) < x"
  shows "sample_row block_v temperature logits = first_argmax logits"
proof -
  define pad where "pad = map (\<lambda>i. if i < length logits then logits ! i else - (10 ^ 9)) [0..<block_v]"
  define scaled where "scaled = (if 1 / 10 ^ 5 < temperature then map (\<lambda>x. x / temperature) pad else pad)"
  define exps where "exps = map (\<lambda>x. exp (x - t_max scaled)) scaled"
  have ne: "pad \<noteq> []" using assms(1,2) by (cases logits) (auto simp: pad_def)
  then have ne2: "scaled \<noteq> []" "exps \<noteq> []" by (auto simp: scaled_def exps_def)
  have split: "pad = logits @ replicate (block_v - length logits) (- (10 ^ 9))"
    using assms(2) by (intro nth_equalityI) (auto simp: pad_def nth_append)
  have "\<forall>x \<in> set exps. 0 < x" by (auto simp: exps_def)
  with ne2(2) have pos: "0 < t_sum exps"
    unfolding t_sum_def by (induction exps rule: list_nonempty_induct) auto
  have "sample_row block_v temperature logits = first_argmax (map (\<lambda>e. e / t_sum exps) exps)"
    by (simp only: sample_row_def Let_def pad_def[symmetric] scaled_def[symmetric] exps_def[symmetric])
  also have "\<dots> = first_argmax exps"
    by (rule first_argmax_map[OF ne2(2)]) (use pos in \<open>simp add: divide_le_cancel\<close>)
  also have "\<dots> = first_argmax scaled"
    unfolding exps_def by (rule first_argmax_map[OF ne2(1)]) simp
  also have "\<dots> = first_argmax pad"
  proof (cases "1 / 10 ^ 5 < temperature")
    case True
    then have "0 < temperature" by (rule less_trans[rotated]) simp
    with True show ?thesis
      unfolding scaled_def by (simp add: first_argmax_map[OF ne] divide_le_cancel)
  qed (simp add: scaled_def)
  also have "t_max pad = t_max logits"
  proof (rule antisym)
    have "- (10 ^ 9) < t_max logits" using assms(3) t_max_in[OF assms(1)] by blast
    moreover have "t_max pad \<in> set logits \<union> {- (10 ^ 9)}" using t_max_in[OF ne] by (auto simp: split)
    ultimately show "t_max pad \<le> t_max logits" using t_max_ge[of "t_max pad" logits] by auto
    show "t_max logits \<le> t_max pad" using t_max_in[OF assms(1)] by (intro t_max_ge) (simp add: split)
  qed
  then have "first_argmax pad = first_argmax logits"
    using t_max_in[OF assms(1)] by (auto simp: first_argmax_def split takeWhile_append)
  finally show ?thesis .
qed

lemma gemm_element_sum:
  assumes "0 < block_k"
  shows "gemm_element id group_size block_k k_len a b_quant scales m n =
    sum_list (map (\<lambda>k. a ! m ! k * (real (unat (nibble (b_quant ! (k div 8) ! n) k)) *
        scales ! (k div block_k * block_k div group_size) ! n)) [0..<k_len])"
proof -
  let ?f = "\<lambda>j. (if j < k_len then a ! m ! j else 0) *
      (real (unat (nibble (if j < k_len then b_quant ! (j div 8) ! n else 0) j)) *
       scales ! (j div block_k * block_k div group_size) ! n)"
  have "gemm_block id group_size block_k k_len a b_quant scales m n blk =
      sum_list (map ?f [blk * block_k..<Suc blk * block_k])" for blk
    unfolding gemm_block_def using block_of[OF assms]
    by (intro arg_cong[of _ _ sum_list] map_cong refl) (simp only: id_apply)
  then have "gemm_element id group_size block_k k_len a b_quant scales m n =
      sum_list (map ?f [0..<cdiv k_len block_k * block_k])"
    unfolding gemm_element_def by (intro fold_blocks)
  also have "[0..<cdiv k_len block_k * block_k] = [0..<k_len] @ [k_len..<cdiv k_len block_k * block_k]"
    using upt_add_eq_append[of 0 k_len "cdiv k_len block_k * block_k - k_len"] cdiv_ge[OF assms, of k_len] by simp
  also have "sum_list (map ?f ([0..<k_len] @ [k_len..<cdiv k_len block_k * block_k])) = sum_list (map ?f [0..<k_len])"
  proof -
    have "map ?f [k_len..<cdiv k_len block_k * block_k] = map (\<lambda>_. 0) [k_len..<cdiv k_len block_k * block_k]"
      by (rule map_cong) simp_all
    then show ?thesis by (simp only: map_append sum_list_append) simp
  qed
  also have "\<dots> = sum_list (map (\<lambda>k. a ! m ! k * (real (unat (nibble (b_quant ! (k div 8) ! n) k)) *
        scales ! (k div block_k * block_k div group_size) ! n)) [0..<k_len])"
    by (intro arg_cong[of _ _ sum_list] map_cong refl) simp
  finally show ?thesis .
qed

section \<open>Properties\<close>

text \<open>
  The grid of the rotary embedding rotates every query head and every key head of every
  token exactly once, with the cosines and sines of its position, also when the numbers of query
  and key heads differ.
\<close>

theorem rope_rotates_every_head:
  assumes "shaped batch seq_len num_q q" and "shaped batch seq_len num_kv k"
    and "fused_rope half (batch, seq_len, num_q, head_dim) num_kv cs sn q k = (q1, k1)"
    and "b < batch" and "s < seq_len"
  shows "(\<forall>h < num_q. q1 ! b ! s ! h = rope_vec half head_dim (cs ! s) (sn ! s) (q ! b ! s ! h)) \<and>
    (\<forall>h < num_kv. k1 ! b ! s ! h = rope_vec half head_dim (cs ! s) (sn ! s) (k ! b ! s ! h))"
  using fused_rope_heads[OF assms(1,2,4,5,3)] by blast

theorem rope_rotates_every_head_witness:
  "fst (fused_rope id (1, 1, 1, 2) 1 [[0]] [[1]] [[[[3, 4]]]] [[[[5, 6]]]]) ! 0 ! 0 ! 0 = [-4, 3]"
proof -
  obtain q1 k1 where run: "fused_rope id (1, 1, 1, 2) 1 [[0]] [[1]] [[[[3, 4]]]] [[[[5, 6]]]] = (q1, k1)" by fastforce
  from rope_rotates_every_head[OF _ _ run, of 0 0] have "q1 ! 0 ! 0 ! 0 = rope_vec id 2 [0] [1] [3, 4]"
    by (simp add: shaped_def)
  then show ?thesis unfolding run by (simp add: rope_vec_def upt_rec Let_def)
qed

text \<open>
  C33: In exact arithmetic the rotation keeps inner products up to the distance of the
  positions: rotating the query to position m and the key to position m + n gives the same score as
  an unrotated query and a key at position n. In particular norms are kept.
\<close>

theorem rope_relative_position:
  assumes "length x = w" and "length y = w"
  shows "t_dot (rope_at theta w m x) (rope_at theta w (m + n) y) = t_dot x (rope_at theta w n y) \<and>
    t_dot (rope_at theta w m x) (rope_at theta w m x) = t_dot x x"
proof -
  let ?h = "w div 2"
  have len: "length (rope_at theta w m z) = w" if "length z = w" for m z
    using that by (simp add: rope_at_def rope_vec_def Let_def)
  have dot: "t_dot (rope_at theta w m x) (rope_at theta w l z) =
      (\<Sum>d < ?h. (x ! d * z ! d + x ! (d + ?h) * z ! (d + ?h)) * cos (real m * theta d - real l * theta d) +
         (x ! (d + ?h) * z ! d - x ! d * z ! (d + ?h)) * sin (real l * theta d - real m * theta d)) +
      (\<Sum>d = 2 * ?h..<w. x ! d * z ! d)" if "length z = w" for m l z
  proof -
    have pair: "(rope_at theta w m x ! d * rope_at theta w l z ! d +
        rope_at theta w m x ! (d + ?h) * rope_at theta w l z ! (d + ?h)) =
        (x ! d * z ! d + x ! (d + ?h) * z ! (d + ?h)) * cos (real m * theta d - real l * theta d) +
         (x ! (d + ?h) * z ! d - x ! d * z ! (d + ?h)) * sin (real l * theta d - real m * theta d)"
      if d: "d < ?h" for d
    proof -
      have "d < w" "d + ?h < w" "\<not> d + ?h < ?h" "d + ?h < 2 * ?h" using d by auto
      then show ?thesis using d rotate_pair[of "x ! d" "real m * theta d" "x ! (d + ?h)" "z ! d" "real l * theta d" "z ! (d + ?h)"]
        by (simp add: rope_at_nth[OF assms(1)] rope_at_nth[OF \<open>length z = w\<close>])
    qed
    have rest: "rope_at theta w m x ! d * rope_at theta w l z ! d = x ! d * z ! d"
      if "2 * ?h \<le> d" "d < w" for d
      using that by (simp add: rope_at_nth[OF assms(1)] rope_at_nth[OF \<open>length z = w\<close>])
    show ?thesis
      unfolding dot_halves[OF len[OF assms(1)] len[OF that]]
      by (rule arg_cong2[of _ _ _ _ "(+)"]; rule sum.cong; simp add: pair rest)
  qed
  have zero: "rope_at theta w 0 x = x"
    using assms(1) by (intro nth_equalityI) (auto simp: len rope_at_nth[OF assms(1)])
  have "t_dot x (rope_at theta w n y) = t_dot (rope_at theta w 0 x) (rope_at theta w n y)" by (simp add: zero)
  moreover have "real m * theta d - real (m + n) * theta d = real 0 * theta d - real n * theta d"
    "real (m + n) * theta d - real m * theta d = real n * theta d - real 0 * theta d" for d
    by (simp_all add: algebra_simps)
  ultimately have "t_dot (rope_at theta w m x) (rope_at theta w (m + n) y) = t_dot x (rope_at theta w n y)"
    by (simp only: dot[OF assms(2)])
  moreover have "t_dot (rope_at theta w m x) (rope_at theta w m x) = t_dot x x"
    using dot[OF assms(1), of m m] dot[OF assms(1), of 0 0] by (simp add: zero)
  ultimately show ?thesis by blast
qed

theorem rope_relative_position_witness:
  "t_dot (rope_at (\<lambda>d. 1) 2 3 [1, 2]) (rope_at (\<lambda>d. 1) 2 3 [1, 2]) = 5"
  using rope_relative_position[of "[1, 2]" 2 "[1, 2]" "\<lambda>d. 1" 3 0] by (simp add: t_dot_def)

text \<open>
  C31: In exact arithmetic an element of the fused product is the product of the activation row
  with the dequantized column: code \<open>k mod 8\<close> of word \<open>k div 8\<close> times the scale of a group. The
  scale is looked up once per block of 32, so it is the scale of the group of k exactly when blocks
  do not straddle groups, as for group sizes divisible by 32.
\<close>

theorem int4_gemm_exact:
  assumes "m < rows" and "n < n_cols" and "0 < group_size"
  shows "int4_gemm_dequant id (rows, k_len) n_cols a b_quant scales zeros group_size ! m ! n =
    sum_list (map (\<lambda>k. a ! m ! k * (real (unat (b_quant ! (k div 8) ! n) div 16 ^ (k mod 8) mod 16) *
       scales ! (if 32 dvd group_size then k div group_size else k div 32 * 32 div group_size) ! n)) [0..<k_len])"
proof -
  have "k div 32 * 32 div group_size = k div group_size" if dvd: "32 dvd group_size" for k
  proof -
    obtain c where c: "group_size = 32 * c" using dvd by (rule dvdE)
    have "k div 32 * 32 div (32 * c) = k div 32 div c" by (simp add: div_mult2_eq)
    also have "\<dots> = k div (32 * c)" by (simp add: div_mult2_eq)
    finally show ?thesis by (simp add: c)
  qed
  then show ?thesis
    using assms(1,2) by (cases "32 dvd group_size") (simp_all add: int4_gemm_dequant_def gemm_element_sum nibble_value)
qed

theorem int4_gemm_exact_witness:
  "int4_gemm_dequant id (1, 2) 1 [[1, 2]] [[0x35]] [[10]] None 128 ! 0 ! 0 = 110"
  using int4_gemm_exact[of 0 1 0 1 128 2 "[[1, 2]]" "[[0x35]]" "[[10]]" None] by (simp add: upt_rec)

text \<open>
  Token selection is greedy: for every temperature the selected token of a row is the first
  one with the largest logit, provided all logits are above the value that fills the padding.
\<close>

theorem sampling_is_argmax:
  assumes "logits \<noteq> []" and "length logits \<le> next_power_of_2 (length logits)"
    and "\<forall>x \<in> set logits. - (10 ^ 9) < x"
  shows "let i = hd (fused_sampling next_power_of_2 (length logits) [logits] temperature) in
    i < length logits \<and> logits ! i = t_max logits \<and> (\<forall>j < i. logits ! j < t_max logits)"
  using first_argmax_spec[OF assms(1)] sample_row_argmax[OF assms] by (simp add: fused_sampling_def Let_def)

theorem sampling_is_argmax_witness:
  "let i = hd (fused_sampling (\<lambda>n. 4) 3 [[1, 5, 2]] (1 / 2)) in [1, 5, 2] ! i = t_max [1, 5, 2]"
  using sampling_is_argmax[of "[1, 5, 2]" "\<lambda>n. 4" "1 / 2"] by (simp add: Let_def numeral_3_eq_3)

end
