(* ===== verification/Serving.thy ===== *)
theory Serving
  imports Text_Lib
begin

text \<open>
  The HTTP layer of \<open>src/serving\<close>: request validation (\<open>schema.py\<close> and the models of
  \<open>api/v1/generate.py\<close>), the token events of the generation route, the backpressure gate
  (\<open>middleware.py\<close>, \<open>app.py\<close>) with the concurrency semaphore, the health probes and the metrics.

  \<^item> A string is a list of 8-bit characters; numbers in floating point are reals.
  \<^item> The JSON encoder of the chunk model and the parser are arguments of the functions that use them.
  \<^item> The life of a request is a step relation: a step is what the code does between two points where
    it waits. The framework returns from the gate when the response object exists, before the
    body of a streaming response is sent.
\<close>

section \<open>Validation\<close>

record generation_request =
  gr_prompt :: string
  gr_max_tokens :: int
  gr_temperature :: real
  gr_top_p :: real
  gr_repetition_penalty :: real
  gr_stream :: bool
  gr_stop_sequences :: "string list option"

text \<open>The declared bounds of the numeric fields, the same in both modules.\<close>

definition fields_in_bounds :: "generation_request \<Rightarrow> bool" where
  "fields_in_bounds r \<longleftrightarrow> 1 \<le> gr_max_tokens r \<and> gr_max_tokens r \<le> 4096 \<and>
     0 \<le> gr_temperature r \<and> gr_temperature r \<le> 2 \<and> 0 \<le> gr_top_p r \<and> gr_top_p r \<le> 1 \<and>
     8 / 10 \<le> gr_repetition_penalty r \<and> gr_repetition_penalty r \<le> 2"

datatype serving_error = ValidationError | HTTPError nat string

text \<open>\<open>GenerationRequest\<close> of \<open>generate.py\<close>: the prompt is checked and kept as it is.\<close>

definition validate_route :: "generation_request \<Rightarrow> serving_error + generation_request" where
  "validate_route r =
     (if \<not> fields_in_bounds r \<or> length (gr_prompt r) < 1 then Inl ValidationError
      else if strip (gr_prompt r) = [] then Inl ValidationError else Inr r)"

text \<open>\<open>GenerationRequest\<close> of \<open>schema.py\<close>: string fields are stripped before their constraints.\<close>

definition validate_schema :: "generation_request \<Rightarrow> serving_error + generation_request" where
  "validate_schema r0 =
     (let r = r0\<lparr>gr_prompt := strip (gr_prompt r0),
                 gr_stop_sequences := map_option (map strip) (gr_stop_sequences r0)\<rparr> in
      if \<not> fields_in_bounds r \<or> length (gr_prompt r) < 1 then Inl ValidationError
      else if gr_prompt r = [] then Inl ValidationError else Inr r)"

definition default_request :: "string \<Rightarrow> generation_request" where
  "default_request prompt =
     \<lparr>gr_prompt = prompt, gr_max_tokens = 256, gr_temperature = 7 / 10, gr_top_p = 9 / 10,
      gr_repetition_penalty = 1, gr_stream = True, gr_stop_sequences = None\<rparr>"

section \<open>Token events\<close>

record token_chunk =
  tc_token_id :: int
  tc_text :: string
  tc_logprob :: "real option"
  tc_step_latency_ms :: real
  tc_is_final :: bool

record generation_response =
  gs_request_id :: string
  gs_prompt :: string
  gs_text :: string
  gs_finish_reason :: string
  gs_tokens :: nat
  gs_total_latency_ms :: real
  gs_ttft_ms :: real

definition dummy_tokens :: "string \<Rightarrow> string list" where
  "dummy_tokens prompt =
     take 5 (split_ws prompt) @ [''is'', ''optimized'', ''by'', ''CUDAForge'', ''engine.'']"

text \<open>The chunks of the generator; \<open>latency n\<close> is the time that step n takes.\<close>

definition token_chunks :: "generation_request \<Rightarrow> (nat \<Rightarrow> real) \<Rightarrow> token_chunk list" where
  "token_chunks r latency =
     (let tokens = dummy_tokens (gr_prompt r);
          total_steps = nat (min (gr_max_tokens r) (int (length tokens)))
      in map (\<lambda>idx. \<lparr>tc_token_id = 1000 + int idx, tc_text = tokens ! idx @ '' '',
                    tc_logprob = Some (- (5 / 100)), tc_step_latency_ms = round2 (latency idx),
                    tc_is_final = (idx = total_steps - 1)\<rparr>) [0..<total_steps])"

definition sse_event :: "(token_chunk \<Rightarrow> string) \<Rightarrow> token_chunk \<Rightarrow> string" where
  "sse_event dump chunk = ''data: '' @ dump chunk @ [newline, newline]"

definition token_stream :: "(token_chunk \<Rightarrow> string) \<Rightarrow> generation_request \<Rightarrow> (nat \<Rightarrow> real) \<Rightarrow> string list" where
  "token_stream dump r latency = map (sse_event dump) (token_chunks r latency)"

text \<open>The loop of the non-streaming route; the parser returns the text field or raises.\<close>

fun collect_texts :: "(string \<Rightarrow> string option) \<Rightarrow> string list \<Rightarrow> string list option" where
  "collect_texts loads_text [] = Some []"
| "collect_texts loads_text (event # events) =
     (if take 6 event = ''data: '' then
        (let raw_json = strip (drop 6 event) in
         if raw_json \<noteq> [] then
           (case loads_text raw_json of None \<Rightarrow> None
            | Some text \<Rightarrow> map_option (Cons text) (collect_texts loads_text events))
         else collect_texts loads_text events)
      else collect_texts loads_text events)"

definition sync_response ::
  "(string \<Rightarrow> string option) \<Rightarrow> string \<Rightarrow> generation_request \<Rightarrow> real \<Rightarrow> string list \<Rightarrow> serving_error + generation_response" where
  "sync_response loads_text req_id r total_latency events =
     (case collect_texts loads_text events of
        None \<Rightarrow> Inl (HTTPError 500 ''ERR_INTERNAL'')
      | Some texts \<Rightarrow> Inr \<lparr>gs_request_id = req_id, gs_prompt = gr_prompt r, gs_text = concat texts,
          gs_finish_reason = ''stop'', gs_tokens = length texts,
          gs_total_latency_ms = round2 total_latency, gs_ttft_ms = 15\<rparr>)"

definition generate_sync ::
  "(token_chunk \<Rightarrow> string) \<Rightarrow> (string \<Rightarrow> string option) \<Rightarrow> string \<Rightarrow> generation_request \<Rightarrow> (nat \<Rightarrow> real) \<Rightarrow> real \<Rightarrow>
   serving_error + generation_response" where
  "generate_sync dump loads_text req_id r latency total_latency =
     sync_response loads_text req_id r total_latency (token_stream dump r latency)"

text \<open>
  A step that raises ends the stream with an error event; \<open>fault\<close> gives the text of the error that
  the step of a chunk raises.
\<close>

definition error_event :: "(string \<Rightarrow> string) \<Rightarrow> string \<Rightarrow> string" where
  "error_event encode err = ''event: error'' @ [newline] @ ''data: '' @ encode err @ [newline, newline]"

fun emit_events ::
  "(token_chunk \<Rightarrow> string) \<Rightarrow> (string \<Rightarrow> string) \<Rightarrow> (token_chunk \<Rightarrow> string option) \<Rightarrow> token_chunk list \<Rightarrow> string list" where
  "emit_events dump encode fault [] = []"
| "emit_events dump encode fault (c # cs) =
     (case fault c of
        Some err \<Rightarrow> [error_event encode err]
      | None \<Rightarrow> sse_event dump c # emit_events dump encode fault cs)"

text \<open>The semaphore of the application, made on first use.\<close>

definition ensure_semaphore :: "int option \<Rightarrow> int" where
  "ensure_semaphore permits = (case permits of None \<Rightarrow> 32 | Some n \<Rightarrow> n)"

record error_body =
  eb_status :: nat
  eb_code :: string
  eb_message :: string
  eb_detail :: string

definition global_exception_handler :: "string \<Rightarrow> error_body" where
  "global_exception_handler exc =
     \<lparr>eb_status = 500, eb_code = ''ERR_INTERNAL_SERVER_ERROR'',
      eb_message = ''An unhandled execution error occurred inside the engine.'', eb_detail = exc\<rparr>"

lemma collect_stream:
  assumes "\<forall>c. dump c \<noteq> [] \<and> \<not> is_space (hd (dump c)) \<and> \<not> is_space (last (dump c)) \<and> loads_text (dump c) = Some (tc_text c)"
  shows "collect_texts loads_text (map (sse_event dump) cs) = Some (map tc_text cs)"
proof (induction cs)
  case (Cons c cs)
  have "drop 6 (sse_event dump c) = dump c @ [newline, newline]" "take 6 (sse_event dump c) = ''data: ''"
    by (simp_all add: sse_event_def)
  with Cons assms show ?case by (simp add: strip_framed)
qed simp

section \<open>The gate and the semaphore\<close>

definition exempt_app :: "string list" where
  "exempt_app = [''/healthz'', ''/metrics'', ''/v1/health'', ''/v1/health/ready'', ''/v1/metrics'', ''/docs'',
     ''/openapi.json'', ''/redoc'']"

definition exempt_middleware :: "string list" where
  "exempt_middleware = [''/healthz'', ''/v1/health'', ''/v1/health/ready'', ''/metrics'', ''/v1/metrics'', ''/docs'',
     ''/redoc'', ''/openapi.json'']"

datatype gate = Pass | Shed | Admit

definition gate :: "string list \<Rightarrow> int \<Rightarrow> int \<Rightarrow> string \<Rightarrow> int \<Rightarrow> gate" where
  "gate exempt max_concurrent max_queue path in_flight =
     (if path \<in> set exempt then Pass else if max_concurrent + max_queue \<le> in_flight then Shed else Admit)"

text \<open>The class of \<open>middleware.py\<close> and the function of \<open>app.py\<close> are the same gate.\<close>

lemma gates_agree: "gate exempt_middleware mc mq path n = gate exempt_app mc mq path n"
  by (auto simp: gate_def exempt_app_def exempt_middleware_def)

text \<open>
  The phases of a request behind the gate: waiting for a permit, running the non-streaming route,
  its streaming response built but not started, streaming, finished with a status, or gone while
  its permit was never given back.
\<close>

datatype phase = WAITING bool | SYNC | STREAM_READY | STREAMING | FINISHED nat | LEAKED

record server =
  sv_in_flight :: int
  sv_permits :: int
  sv_phases :: "phase list"

definition server_init :: "int \<Rightarrow> server" where
  "server_init permits = \<lparr>sv_in_flight = 0, sv_permits = permits, sv_phases = []\<rparr>"

definition set_phase :: "nat \<Rightarrow> phase \<Rightarrow> server \<Rightarrow> server" where
  "set_phase i p s = s\<lparr>sv_phases := (sv_phases s)[i := p]\<rparr>"

text \<open>\<open>finally: active_in_flight_requests -= 1\<close>\<close>

definition leave_gate :: "server \<Rightarrow> server" where
  "leave_gate s = s\<lparr>sv_in_flight := sv_in_flight s - 1\<rparr>"

definition release :: "server \<Rightarrow> server" where
  "release s = s\<lparr>sv_permits := sv_permits s + 1\<rparr>"

definition enter :: "int \<Rightarrow> int \<Rightarrow> string \<Rightarrow> bool \<Rightarrow> server \<Rightarrow> server" where
  "enter max_concurrent max_queue path stream s =
     (case gate exempt_app max_concurrent max_queue path (sv_in_flight s) of
        Pass \<Rightarrow> s
      | Shed \<Rightarrow> s\<lparr>sv_phases := sv_phases s @ [FINISHED 503]\<rparr>
      | Admit \<Rightarrow> s\<lparr>sv_in_flight := sv_in_flight s + 1, sv_phases := sv_phases s @ [WAITING stream]\<rparr>)"

text \<open>The acquired permit, and for a stream the response object that the gate passes on.\<close>

definition acquire :: "nat \<Rightarrow> bool \<Rightarrow> server \<Rightarrow> server" where
  "acquire i stream s =
     (let t = s\<lparr>sv_permits := sv_permits s - 1\<rparr>
      in if stream then leave_gate (set_phase i STREAM_READY t) else set_phase i SYNC t)"

inductive sstep :: "int \<Rightarrow> int \<Rightarrow> server \<Rightarrow> server \<Rightarrow> bool" for mc mq where
  s_enter: "sstep mc mq s (enter mc mq path stream s)"
| s_acquire: "i < length (sv_phases s) \<Longrightarrow> sv_phases s ! i = WAITING stream \<Longrightarrow> 0 < sv_permits s \<Longrightarrow>
    sstep mc mq s (acquire i stream s)"
| s_timeout: "i < length (sv_phases s) \<Longrightarrow> sv_phases s ! i = WAITING stream \<Longrightarrow> sv_permits s \<le> 0 \<Longrightarrow>
    sstep mc mq s (leave_gate (set_phase i (FINISHED 503) s))"
| s_gave_up: "i < length (sv_phases s) \<Longrightarrow> sv_phases s ! i = WAITING stream \<Longrightarrow>
    sstep mc mq s (leave_gate (set_phase i (FINISHED 499) s))"
| s_answered: "i < length (sv_phases s) \<Longrightarrow> sv_phases s ! i = SYNC \<Longrightarrow>
    sstep mc mq s (leave_gate (set_phase i (FINISHED 200) (release s)))"
| s_failed: "i < length (sv_phases s) \<Longrightarrow> sv_phases s ! i = SYNC \<Longrightarrow>
    sstep mc mq s (leave_gate (set_phase i (FINISHED 500) (release s)))"
| s_sync_cancelled: "i < length (sv_phases s) \<Longrightarrow> sv_phases s ! i = SYNC \<Longrightarrow>
    sstep mc mq s (leave_gate (set_phase i LEAKED s))"
| s_stream_started: "i < length (sv_phases s) \<Longrightarrow> sv_phases s ! i = STREAM_READY \<Longrightarrow>
    sstep mc mq s (set_phase i STREAMING s)"
| s_stream_never_started: "i < length (sv_phases s) \<Longrightarrow> sv_phases s ! i = STREAM_READY \<Longrightarrow>
    sstep mc mq s (set_phase i LEAKED s)"
| s_stream_ended: "i < length (sv_phases s) \<Longrightarrow> sv_phases s ! i = STREAMING \<Longrightarrow>
    sstep mc mq s (set_phase i (FINISHED 200) (release s))"

inductive sreach :: "int \<Rightarrow> int \<Rightarrow> server \<Rightarrow> server \<Rightarrow> bool" for mc mq where
  sreach_refl: "sreach mc mq s s"
| sreach_step: "sreach mc mq s t \<Longrightarrow> sstep mc mq t u \<Longrightarrow> sreach mc mq s u"

section \<open>Probes\<close>

record readiness =
  rd_status :: string
  rd_cuda :: bool
  rd_semaphore :: bool
  rd_in_flight :: int

text \<open>The status code of the degraded branch is a name that the framework does not define.\<close>

datatype probe_error = AttributeError string

definition readiness_probe :: "bool \<Rightarrow> int option \<Rightarrow> probe_error + nat \<times> readiness" where
  "readiness_probe cuda semaphore =
     (case semaphore of
        Some val \<Rightarrow> Inr (200, \<lparr>rd_status = ''ready'', rd_cuda = cuda, rd_semaphore = True,
                                rd_in_flight = max 0 (32 - val)\<rparr>)
      | None \<Rightarrow> Inl (AttributeError ''HTTP_530_SERVICE_OFFLINE_ANOTHER''))"

record liveness =
  lv_status :: string
  lv_timestamp :: real
  lv_uptime :: real
  lv_version :: string

definition liveness_probe :: "real option \<Rightarrow> real \<Rightarrow> liveness" where
  "liveness_probe start_time now =
     \<lparr>lv_status = ''healthy'', lv_timestamp = now,
      lv_uptime = round2 (now - (case start_time of None \<Rightarrow> now | Some t \<Rightarrow> t)), lv_version = ''1.0.0''\<rparr>"

record root_health =
  rh_status :: string
  rh_uptime :: real
  rh_active :: int
  rh_max :: int

definition health_check :: "real option \<Rightarrow> real \<Rightarrow> server \<Rightarrow> root_health" where
  "health_check start_time now s =
     \<lparr>rh_status = ''healthy'', rh_uptime = round2 (now - (case start_time of None \<Rightarrow> now | Some t \<Rightarrow> t)),
      rh_active = sv_in_flight s, rh_max = 32\<rparr>"

section \<open>Metrics\<close>

record metrics =
  mt_batch_size :: int
  mt_kv_usage :: real
  mt_tps :: real
  mt_tokens_total :: int
  mt_latencies :: "real list"
  mt_p99_ms :: real
  mt_vram_allocated :: real
  mt_vram_reserved :: real
  mt_fragmentation :: real

definition metrics_init :: metrics where
  "metrics_init = \<lparr>mt_batch_size = 0, mt_kv_usage = 0, mt_tps = 0, mt_tokens_total = 0, mt_latencies = [],
     mt_p99_ms = 0, mt_vram_allocated = 0, mt_vram_reserved = 0, mt_fragmentation = 0\<rparr>"

definition record_request_duration :: "real \<Rightarrow> metrics \<Rightarrow> metrics" where
  "record_request_duration d m =
     m\<lparr>mt_latencies := mt_latencies m @ [d], mt_p99_ms := round2 (d * 1000)\<rparr>"

definition set_batch_size :: "int \<Rightarrow> metrics \<Rightarrow> metrics" where
  "set_batch_size n m = m\<lparr>mt_batch_size := max 0 n\<rparr>"

definition update_kv_cache_usage :: "real \<Rightarrow> real \<Rightarrow> metrics \<Rightarrow> metrics" where
  "update_kv_cache_usage allocated capacity m =
     m\<lparr>mt_kv_usage := (if 0 < capacity then round2 (allocated / capacity * 100) else 0)\<rparr>"

definition record_tokens_generated :: "int \<Rightarrow> real \<Rightarrow> metrics \<Rightarrow> metrics" where
  "record_tokens_generated n elapsed m =
     (if 0 < n then
        let t = m\<lparr>mt_tokens_total := mt_tokens_total m + n\<rparr>
        in if 0 < elapsed then t\<lparr>mt_tps := round2 (of_int n / elapsed)\<rparr> else t
      else m)"

text \<open>The allocator's numbers are arguments; the result is the dictionary that is returned.\<close>

definition refresh_cuda_hardware_telemetry ::
  "(real \<times> real) option \<Rightarrow> metrics \<Rightarrow> (string \<times> real) list \<times> metrics" where
  "refresh_cuda_hardware_telemetry device m =
     (case device of
        None \<Rightarrow> ([(''allocated'', 0), (''reserved'', 0), (''fragmentation'', 0)],
                  m\<lparr>mt_vram_allocated := 0, mt_vram_reserved := 0, mt_fragmentation := 0\<rparr>)
      | Some (allocated, reserved) \<Rightarrow>
          let frag = (if 0 < reserved then 1 - allocated / reserved else 0);
              frag_clamped = max 0 (min 1 frag)
          in ([(''allocated'', allocated), (''reserved'', reserved), (''fragmentation'', frag_clamped)],
              m\<lparr>mt_vram_allocated := allocated, mt_vram_reserved := reserved,
                mt_fragmentation := round4 frag_clamped\<rparr>))"

definition prometheus_metrics :: "(metrics \<Rightarrow> string) \<Rightarrow> (real \<times> real) option \<Rightarrow> metrics \<Rightarrow> string \<times> metrics" where
  "prometheus_metrics generate_latest device m =
     (let (_, t) = refresh_cuda_hardware_telemetry device m in (generate_latest t, t))"

datatype metric_op =
  Request_Duration real
| Batch_Size int
| Kv_Usage real real
| Tokens_Generated int real
| Refresh "(real \<times> real) option"

fun metric_do :: "metric_op \<Rightarrow> metrics \<Rightarrow> metrics" where
  "metric_do (Request_Duration d) m = record_request_duration d m"
| "metric_do (Batch_Size n) m = set_batch_size n m"
| "metric_do (Kv_Usage a t) m = update_kv_cache_usage a t m"
| "metric_do (Tokens_Generated n e) m = record_tokens_generated n e m"
| "metric_do (Refresh d) m = snd (refresh_cuda_hardware_telemetry d m)"

definition metrics_ok :: "metrics \<Rightarrow> bool" where
  "metrics_ok m \<longleftrightarrow> 0 \<le> mt_batch_size m \<and> 0 \<le> mt_tokens_total m \<and>
     0 \<le> mt_fragmentation m \<and> mt_fragmentation m \<le> 1 \<and>
     (mt_latencies m \<noteq> [] \<longrightarrow> mt_p99_ms m = round2 (last (mt_latencies m) * 1000))"

lemma metric_do_ok: "metrics_ok m \<Longrightarrow> metrics_ok (metric_do op m)"
proof (cases op)
  case (Refresh d)
  have "0 \<le> round4 (max 0 (min 1 f)) \<and> round4 (max 0 (min 1 f)) \<le> 1" for f by (rule round4_unit) simp_all
  moreover assume "metrics_ok m"
  ultimately show ?thesis
    unfolding Refresh by (cases d) (auto simp: metrics_ok_def refresh_cuda_hardware_telemetry_def Let_def split_beta)
qed (auto simp: metrics_ok_def record_request_duration_def set_batch_size_def update_kv_cache_usage_def
    record_tokens_generated_def Let_def)

section \<open>Conservation of permits\<close>

fun holds_permit :: "phase \<Rightarrow> bool" where
  "holds_permit SYNC = True"
| "holds_permit STREAM_READY = True"
| "holds_permit STREAMING = True"
| "holds_permit _ = False"

fun in_gate :: "phase \<Rightarrow> bool" where
  "in_gate (WAITING _) = True"
| "in_gate SYNC = True"
| "in_gate _ = False"

definition count_phases :: "(phase \<Rightarrow> bool) \<Rightarrow> server \<Rightarrow> int" where
  "count_phases P s = int (length (filter P (sv_phases s)))"

definition server_ok :: "int \<Rightarrow> int \<Rightarrow> server \<Rightarrow> bool" where
  "server_ok permits limit s \<longleftrightarrow>
     0 \<le> sv_permits s \<and> sv_permits s + count_phases holds_permit s + count_phases (\<lambda>p. p = LEAKED) s = permits \<and>
     sv_in_flight s = count_phases in_gate s \<and> sv_in_flight s \<le> limit"

lemma count_update:
  assumes "i < length xs"
  shows "int (length (filter P (xs[i := x]))) =
    int (length (filter P xs)) - (if P (xs ! i) then 1 else 0) + (if P x then 1 else 0)"
proof -
  have "filter P xs = filter P (take i xs) @ filter P [xs ! i] @ filter P (drop (Suc i) xs)"
    using assms by (metis Cons_nth_drop_Suc append_Cons append_Nil append_take_drop_id filter_append)
  then show ?thesis by (simp add: upd_conv_take_nth_drop[OF assms])
qed

lemma server_sel [simp]:
  "sv_permits (set_phase i p s) = sv_permits s" "sv_in_flight (set_phase i p s) = sv_in_flight s"
  "sv_permits (leave_gate s) = sv_permits s" "sv_in_flight (leave_gate s) = sv_in_flight s - 1"
  "sv_permits (release s) = sv_permits s + 1" "sv_in_flight (release s) = sv_in_flight s"
  "sv_phases (leave_gate s) = sv_phases s" "sv_phases (release s) = sv_phases s"
  "sv_phases (set_phase i p s) = (sv_phases s)[i := p]"
  by (simp_all add: set_phase_def leave_gate_def release_def)

lemma count_sel [simp]:
  "count_phases P (leave_gate s) = count_phases P s" "count_phases P (release s) = count_phases P s"
  "i < length (sv_phases s) \<Longrightarrow> count_phases P (set_phase i p s) =
     count_phases P s - (if P (sv_phases s ! i) then 1 else 0) + (if P p then 1 else 0)"
  by (simp_all add: count_phases_def count_update)

lemma sstep_ok:
  assumes "server_ok permits (mc + mq) s" "sstep mc mq s t"
  shows "server_ok permits (mc + mq) t"
  using assms(2)
proof (cases rule: sstep.cases)
  case (s_enter path stream)
  with assms(1) show ?thesis
    by (auto simp: server_ok_def enter_def gate_def count_phases_def)
next
  case (s_acquire i stream)
  have "count_phases P (s\<lparr>sv_permits := p\<rparr>) = count_phases P s" for P p by (simp add: count_phases_def)
  with s_acquire assms(1) show ?thesis
    by (auto simp: server_ok_def acquire_def Let_def)
qed (use assms(1) in \<open>auto simp: server_ok_def\<close>)

lemma sreach_ok: "sreach mc mq s t \<Longrightarrow> server_ok permits (mc + mq) s \<Longrightarrow> server_ok permits (mc + mq) t"
  by (induction rule: sreach.induct) (auto intro: sstep_ok)

lemma server_init_ok: "0 \<le> permits \<Longrightarrow> 0 \<le> limit \<Longrightarrow> server_ok permits limit (server_init permits)"
  by (simp add: server_ok_def server_init_def count_phases_def)

lemma sstep_leaks:
  assumes "sstep mc mq s t"
  shows "count_phases (\<lambda>p. p = LEAKED) s \<le> count_phases (\<lambda>p. p = LEAKED) t"
  using assms
proof (cases rule: sstep.cases)
  case (s_enter path stream)
  then show ?thesis by (auto simp: enter_def count_phases_def split: gate.split)
next
  case (s_acquire i stream)
  have "count_phases P (s\<lparr>sv_permits := p\<rparr>) = count_phases P s" for P p by (simp add: count_phases_def)
  with s_acquire show ?thesis by (auto simp: acquire_def Let_def)
qed auto

lemma sreach_leaks: "sreach mc mq s t \<Longrightarrow> count_phases (\<lambda>p. p = LEAKED) s \<le> count_phases (\<lambda>p. p = LEAKED) t"
  by (induction rule: sreach.induct) (auto dest: sstep_leaks)

section \<open>Properties\<close>

text \<open>
  The two request models accept the same requests: numeric fields within their bounds and
  a prompt that is not only whitespace. They keep different prompts: the route model keeps the
  prompt as sent, the schema model the stripped one.
\<close>

theorem validators_agree:
  "(\<exists>v. validate_route r = Inr v) = (\<exists>v. validate_schema r = Inr v) \<and>
   (\<exists>v. validate_route r = Inr v) = (fields_in_bounds r \<and> (\<exists>c \<in> set (gr_prompt r). \<not> is_space c)) \<and>
   (case (validate_route r, validate_schema r) of
      (Inr v, Inr w) \<Rightarrow> v = r \<and> gr_prompt w = strip (gr_prompt r) | (e, f) \<Rightarrow> e = Inl ValidationError \<and> f = Inl ValidationError)"
proof -
  have B: "fields_in_bounds (r\<lparr>gr_prompt := p, gr_stop_sequences := q\<rparr>) = fields_in_bounds r" for p q
    by (simp add: fields_in_bounds_def)
  have N: "strip (gr_prompt r) \<noteq> [] \<Longrightarrow> gr_prompt r \<noteq> []" using strip_Nil by auto
  show ?thesis
    using strip_Nil[of "gr_prompt r"] N by (auto simp: validate_route_def validate_schema_def Let_def B Suc_le_eq)
qed

text \<open>
  If the parser reads back the text of an encoded chunk, and encoded chunks neither begin
  nor end with whitespace, the non-streaming route answers with the concatenation of the texts
  that the streaming route sends. Every valid request gets min(max_tokens, number of tokens)
  chunks, at least one, of which exactly the last is final.
\<close>

theorem sync_matches_stream:
  assumes "\<forall>c. dump c \<noteq> [] \<and> \<not> is_space (hd (dump c)) \<and> \<not> is_space (last (dump c)) \<and>
      loads_text (dump c) = Some (tc_text c)"
    and "validate_route r = Inr r"
  shows "let chunks = token_chunks r latency in
    chunks \<noteq> [] \<and> int (length chunks) = min (gr_max_tokens r) (int (length (dummy_tokens (gr_prompt r)))) \<and>
    map tc_is_final chunks = replicate (length chunks - 1) False @ [True] \<and>
    map_sum id (\<lambda>resp. (gs_text resp, gs_tokens resp)) (generate_sync dump loads_text req_id r latency elapsed) =
      Inr (concat (map tc_text chunks), length chunks)"
proof -
  let ?chunks = "token_chunks r latency"
  have ge: "1 \<le> gr_max_tokens r" using assms(2) by (auto simp: validate_route_def fields_in_bounds_def split: if_splits)
  have len: "int (length ?chunks) = min (gr_max_tokens r) (int (length (dummy_tokens (gr_prompt r))))"
    using ge by (simp add: token_chunks_def Let_def)
  moreover have "0 < length (dummy_tokens (gr_prompt r))" by (simp add: dummy_tokens_def)
  ultimately have pos: "0 < length ?chunks" using ge by linarith
  have "map tc_is_final ?chunks = replicate (length ?chunks - 1) False @ [True]"
    using pos by (intro nth_equalityI) (auto simp: token_chunks_def Let_def nth_append)
  with len pos show ?thesis
    by (simp add: Let_def generate_sync_def sync_response_def token_stream_def collect_stream[OF assms(1)])
qed

definition demo_dump :: "token_chunk \<Rightarrow> string" where
  "demo_dump c = ''{'' @ tc_text c @ ''}''"

theorem sync_matches_stream_witness:
  "map_sum id gs_tokens (generate_sync demo_dump (\<lambda>s. Some (butlast (tl s))) ''req''
      (default_request ''hi'') (\<lambda>i. 0) 0) = Inr (length (token_chunks (default_request ''hi'') (\<lambda>i. 0)))"
proof -
  have "\<forall>c. demo_dump c \<noteq> [] \<and> \<not> is_space (hd (demo_dump c)) \<and> \<not> is_space (last (demo_dump c)) \<and>
      (\<lambda>s. Some (butlast (tl s))) (demo_dump c) = Some (tc_text c)"
    by (simp add: demo_dump_def is_space_def)
  moreover have "validate_route (default_request ''hi'') = Inr (default_request ''hi'')"
    by (simp add: validate_route_def default_request_def fields_in_bounds_def strip_def rstrip_def lstrip_def is_space_def)
  ultimately show ?thesis
    using sync_matches_stream[of demo_dump "\<lambda>s. Some (butlast (tl s))" "default_request ''hi''" "\<lambda>i. 0" "''req''" 0]
    by (cases "generate_sync demo_dump (\<lambda>s. Some (butlast (tl s))) ''req'' (default_request ''hi'') (\<lambda>i. 0) 0")
      (auto simp: Let_def)
qed

lemma emit_no_fault: "\<forall>c \<in> set cs. fault c = None \<Longrightarrow> emit_events dump encode fault cs = map (sse_event dump) cs"
  by (induction cs) auto

lemma emit_fault:
  "\<forall>c \<in> set pre. fault c = None \<Longrightarrow> fault c = Some err \<Longrightarrow>
   emit_events dump encode fault (pre @ c # post) = map (sse_event dump) pre @ [error_event encode err]"
  by (induction pre) auto

lemma collect_append_other:
  "take 6 event \<noteq> ''data: '' \<Longrightarrow> collect_texts loads_text (events @ [event]) = collect_texts loads_text events"
  by (induction events) (auto simp: Let_def split: option.splits)

text \<open>
  When a step of the generator raises, the streaming route sends the chunks before it and an
  error event, but the non-streaming route skips that event and answers with the text so far, as
  finished with reason \<open>stop\<close>.
\<close>

theorem sync_hides_fault:
  assumes "\<forall>c. dump c \<noteq> [] \<and> \<not> is_space (hd (dump c)) \<and> \<not> is_space (last (dump c)) \<and>
      loads_text (dump c) = Some (tc_text c)"
    and "token_chunks r latency = pre @ c # post" "\<forall>c \<in> set pre. fault c = None" "fault c = Some err"
  shows "let events = emit_events dump encode fault (token_chunks r latency) in
    events = map (sse_event dump) pre @ [error_event encode err] \<and>
    map_sum id (\<lambda>resp. (gs_text resp, gs_finish_reason resp)) (sync_response loads_text req_id r elapsed events) =
      Inr (concat (map tc_text pre), ''stop'')"
proof -
  have ev: "emit_events dump encode fault (token_chunks r latency) = map (sse_event dump) pre @ [error_event encode err]"
    unfolding assms(2) by (rule emit_fault[OF assms(3,4)])
  have "take 6 (error_event encode err) \<noteq> ''data: ''" by (simp add: error_event_def)
  then show ?thesis
    by (simp add: ev sync_response_def collect_append_other collect_stream[OF assms(1)] Let_def)
qed

theorem sync_hides_fault_witness:
  "map_sum id gs_text (sync_response (\<lambda>s. Some (butlast (tl s))) ''req'' (default_request ''hi'') 0
     (emit_events demo_dump (\<lambda>e. e) (\<lambda>c. if tc_token_id c = 1001 then Some ''oom'' else None)
        (token_chunks (default_request ''hi'') (\<lambda>i. 0)))) = Inr ''hi ''"
proof -
  have d: "\<forall>c. demo_dump c \<noteq> [] \<and> \<not> is_space (hd (demo_dump c)) \<and> \<not> is_space (last (demo_dump c)) \<and>
      (\<lambda>s. Some (butlast (tl s))) (demo_dump c) = Some (tc_text c)"
    by (simp add: demo_dump_def is_space_def)
  let ?cs = "token_chunks (default_request ''hi'') (\<lambda>i. 0)"
  have dt: "dummy_tokens ''hi'' = [''hi'', ''is'', ''optimized'', ''by'', ''CUDAForge'', ''engine.'']" by code_simp
  then have cs: "?cs = [?cs ! 0] @ ?cs ! 1 # drop 2 ?cs"
    by (simp add: token_chunks_def default_request_def Let_def upt_rec)
  have nth: "?cs ! i = \<lparr>tc_token_id = 1000 + int i, tc_text = dummy_tokens ''hi'' ! i @ '' '', tc_logprob = Some (- (5 / 100)),
      tc_step_latency_ms = round2 0, tc_is_final = (i = 5)\<rparr>" if "i < 6" for i
    using that by (simp add: token_chunks_def default_request_def dt Let_def)
  have id: "tc_token_id (?cs ! 0) = 1000" "tc_token_id (?cs ! 1) = 1001" "tc_text (?cs ! 0) = ''hi ''"
    by (simp_all add: nth dt)
  have "let events = emit_events demo_dump (\<lambda>e. e) (\<lambda>c. if tc_token_id c = 1001 then Some ''oom'' else None) ?cs in
    events = map (sse_event demo_dump) [?cs ! 0] @ [error_event (\<lambda>e. e) ''oom''] \<and>
    map_sum id (\<lambda>resp. (gs_text resp, gs_finish_reason resp))
      (sync_response (\<lambda>s. Some (butlast (tl s))) ''req'' (default_request ''hi'') 0 events) =
      Inr (concat (map tc_text [?cs ! 0]), ''stop'')"
    by (rule sync_hides_fault[OF d cs]) (simp_all add: id[unfolded One_nat_def])
  then show ?thesis
    by (cases "sync_response (\<lambda>s. Some (butlast (tl s))) ''req'' (default_request ''hi'') 0
     (emit_events demo_dump (\<lambda>e. e) (\<lambda>c. if tc_token_id c = 1001 then Some ''oom'' else None) ?cs)")
      (simp_all add: Let_def id)
qed

text \<open>
  C36: However requests enter, acquire, time out, fail, stream and are cancelled, every permit of
  the semaphore is free, held by a running request or lost to a leaked one; the in-flight counter
  is the number of requests waiting or running without a stream and never exceeds the limit; and
  the readiness probe counts permits that are held or lost.
\<close>

theorem permits_conserved:
  assumes "sreach mc mq (server_init 32) s" and "0 \<le> mc + mq"
  shows "0 \<le> sv_permits s \<and>
    sv_permits s + count_phases holds_permit s + count_phases (\<lambda>p. p = LEAKED) s = 32 \<and>
    sv_in_flight s = count_phases in_gate s \<and> sv_in_flight s \<le> mc + mq \<and>
    map_sum id (rd_in_flight \<circ> snd) (readiness_probe cuda (Some (sv_permits s))) =
      Inr (count_phases holds_permit s + count_phases (\<lambda>p. p = LEAKED) s)"
proof -
  have ok: "server_ok 32 (mc + mq) s" using sreach_ok[OF assms(1) server_init_ok] assms(2) by simp
  have nonneg: "0 \<le> count_phases P s" for P by (simp add: count_phases_def)
  have "sv_permits s \<le> 32"
    using ok nonneg[of holds_permit] nonneg[of "\<lambda>p. p = LEAKED"] unfolding server_ok_def by linarith
  with ok show ?thesis by (simp add: server_ok_def readiness_probe_def max_def)
qed

lemma demo_acquired:
  "sreach 1 0 (server_init p) (acquire 0 False (enter 1 0 ''/v1/generate'' False (server_init p)))" if "0 < p"
proof -
  let ?s = "enter 1 0 ''/v1/generate'' False (server_init p)"
  have "sv_phases ?s = [WAITING False]" "sv_permits ?s = p"
    by (simp_all add: enter_def gate_def exempt_app_def server_init_def)
  with that have "sstep 1 0 ?s (acquire 0 False ?s)" by (intro s_acquire) simp_all
  then show ?thesis by (intro sreach_step[OF sreach_step[OF sreach_refl s_enter]])
qed

theorem permits_conserved_witness:
  "sv_permits (acquire 0 False (enter 1 0 ''/v1/generate'' False (server_init 32))) \<ge> 0"
  using permits_conserved[OF demo_acquired] by simp

text \<open>
  Permits that leak, from a cancelled non-streaming request or a stream that never starts,
  are lost for good: once all permits have leaked, no later request ever gets one.
\<close>

theorem leaked_permits_block:
  assumes "sreach mc mq (server_init permits) s" and "0 \<le> permits" and "0 \<le> mc + mq"
    and "count_phases (\<lambda>p. p = LEAKED) s = permits" and "sreach mc mq s t"
  shows "sv_permits t = 0 \<and> count_phases holds_permit t = 0"
proof -
  have "server_ok permits (mc + mq) t"
    by (rule sreach_ok[OF assms(5) sreach_ok[OF assms(1) server_init_ok[OF assms(2,3)]]])
  moreover have "permits \<le> count_phases (\<lambda>p. p = LEAKED) t" using sreach_leaks[OF assms(5)] assms(4) by simp
  moreover have "0 \<le> count_phases holds_permit t" by (simp add: count_phases_def)
  ultimately show ?thesis by (simp add: server_ok_def)
qed

theorem leaked_permits_block_witness:
  "let s = leave_gate (set_phase 0 LEAKED (acquire 0 False (enter 1 0 ''/v1/generate'' False (server_init 1))))
   in sv_permits s = 0 \<and> count_phases holds_permit s = 0"
proof -
  let ?s = "acquire 0 False (enter 1 0 ''/v1/generate'' False (server_init 1))"
  let ?t = "leave_gate (set_phase 0 LEAKED ?s)"
  have s: "sv_phases ?s = [SYNC]"
    by (simp add: acquire_def Let_def enter_def gate_def exempt_app_def server_init_def)
  then have "sstep 1 0 ?s ?t" by (intro s_sync_cancelled) simp_all
  from sreach_step[OF demo_acquired[OF zero_less_one] this] have "sreach 1 0 (server_init 1) ?t" .
  moreover have "count_phases (\<lambda>p. p = LEAKED) ?t = 1" by (simp add: count_phases_def s)
  ultimately show ?thesis using leaked_permits_block[OF _ _ _ _ sreach_refl, of 1 0 1 ?t] by (simp add: Let_def)
qed

text \<open>
  Under any sequence of updates the gauges keep their ranges (batch size and token total are
  not negative, the fragmentation ratio is in [0, 1]), and the latency gauge labelled p99 holds the
  last observed duration.
\<close>

theorem metrics_ranges:
  "metrics_ok (fold metric_do ops metrics_init)"
proof -
  have "metrics_ok m \<Longrightarrow> metrics_ok (fold metric_do ops m)" for m
    by (induction ops arbitrary: m) (simp_all add: metric_do_ok)
  then show ?thesis by (simp add: metrics_ok_def metrics_init_def)
qed

end
