(* ===== verification/Workloads.thy ===== *)
theory Workloads
  imports Text_Lib
begin

text \<open>
  \<open>eval_platform/workloads\<close>: the data set loader (synthetic samples, JSON lines, batches) and the
  analysis of generation errors between a baseline and a quantized model. The JSON parser is an
  argument; the fields of a line that are present have their documented types.
\<close>

section \<open>Samples\<close>

record 'm sample =
  es_id :: string
  es_prompt :: string
  es_reference :: string
  es_task_type :: string
  es_metadata :: 'm

datatype workload_error = ValueError string | FileNotFoundError string | JSONDecodeError

definition base_word :: string where
  "base_word = ''CUDAForge system optimization benchmark sequence. ''"

definition synthetic_prompt :: "int \<Rightarrow> string" where
  "synthetic_prompt prompt_token_len =
     (let repeat_count = max 1 (prompt_token_len div 6);
          text = concat (replicate (nat repeat_count) base_word);
          stop = prompt_token_len * 4
      in if 0 \<le> stop then take (nat stop) text else take (length text - nat (- stop)) text)"

definition create_synthetic_workload ::
  "int \<Rightarrow> int \<Rightarrow> string \<Rightarrow> (int \<times> nat) sample list" where
  "create_synthetic_workload num_samples prompt_token_len task_type =
     map (\<lambda>idx. \<lparr>es_id = ''synth_'' @ show_nat_padded 4 idx,
                 es_prompt = synthetic_prompt prompt_token_len @ '' [Sample '' @ show_nat idx @ ''] Answer:'',
                 es_reference = ''Reference output for sample '' @ show_nat idx,
                 es_task_type = task_type, es_metadata = (prompt_token_len, idx)\<rparr>)
       [0..<nat num_samples]"

record 'm json_line =
  jl_id :: "string option"
  jl_prompt :: "string option"
  jl_reference :: "string option"
  jl_target :: "string option"
  jl_task_type :: "string option"
  jl_metadata :: "'m option"

definition get :: "'a option \<Rightarrow> 'a \<Rightarrow> 'a" where
  "get x dflt = (case x of None \<Rightarrow> dflt | Some v \<Rightarrow> v)"

definition sample_of_line :: "'m \<Rightarrow> string \<Rightarrow> nat \<Rightarrow> 'm json_line \<Rightarrow> 'm sample" where
  "sample_of_line no_metadata task_type line_idx r =
     \<lparr>es_id = get (jl_id r) (''sample_'' @ show_nat line_idx), es_prompt = get (jl_prompt r) [],
      es_reference = get (jl_reference r) (get (jl_target r) []),
      es_task_type = get (jl_task_type r) task_type, es_metadata = get (jl_metadata r) no_metadata\<rparr>"

fun load_lines ::
  "(string \<Rightarrow> 'm json_line option) \<Rightarrow> 'm \<Rightarrow> string \<Rightarrow> nat \<Rightarrow> string list \<Rightarrow> workload_error + 'm sample list" where
  "load_lines loads no_metadata task_type line_idx [] = Inr []"
| "load_lines loads no_metadata task_type line_idx (l # ls) =
     (let line = strip l in
      if line = [] then load_lines loads no_metadata task_type (line_idx + 1) ls
      else case loads line of None \<Rightarrow> Inl JSONDecodeError
           | Some r \<Rightarrow> res_bind (load_lines loads no_metadata task_type (line_idx + 1) ls)
               (\<lambda>ss. Inr (sample_of_line no_metadata task_type line_idx r # ss)))"

definition load_from_jsonl ::
  "(string \<Rightarrow> 'm json_line option) \<Rightarrow> 'm \<Rightarrow> (string \<Rightarrow> string list option) \<Rightarrow> string \<Rightarrow> string \<Rightarrow>
   workload_error + 'm sample list" where
  "load_from_jsonl loads no_metadata read_lines path task_type =
     (case read_lines path of
        None \<Rightarrow> Inl (FileNotFoundError path)
      | Some ls \<Rightarrow> load_lines loads no_metadata task_type 0 ls)"

text \<open>\<open>range(0, n, step)\<close> and the slices of the batches\<close>

definition stream_dataset :: "'a list \<Rightarrow> int \<Rightarrow> workload_error + 'a list list" where
  "stream_dataset samples batch_size =
     (if batch_size = 0 then Inl (ValueError ''range() arg 3 must not be zero'')
      else if batch_size < 0 then Inr []
      else let b = nat batch_size
           in Inr (map (\<lambda>i. take b (drop (i * b) samples)) [0..<(length samples + b - 1) div b]))"

section \<open>Error analysis\<close>

datatype error_category = QUANT_DIVERGENCE | NONE_PASSED | REASONING_DRIFT | NONE | EXACT_MATCH_FAIL

record diagnostic =
  sd_sample_id :: string
  sd_task_type :: string
  sd_prompt :: string
  sd_expected :: string
  sd_baseline :: string
  sd_quantized :: string
  sd_baseline_correct :: bool
  sd_quantized_correct :: bool
  sd_divergence :: bool
  sd_category :: error_category

record analysis_report =
  ar_total :: nat
  ar_baseline_accuracy :: real
  ar_quantized_accuracy :: real
  ar_degradation :: real
  ar_counts :: "(error_category \<times> nat) list"
  ar_failed_ids :: "string list"
  ar_diagnostics :: "diagnostic list"

definition normalize_text :: "string \<Rightarrow> string" where
  "normalize_text text = collapse_ws (str_lower (strip text))"

definition evaluate_exact_match :: "string \<Rightarrow> string \<Rightarrow> bool" where
  "evaluate_exact_match prediction reference = (normalize_text prediction = normalize_text reference)"

definition categorize :: "bool \<Rightarrow> bool \<Rightarrow> error_category" where
  "categorize base_correct quant_correct =
     (if base_correct \<and> \<not> quant_correct then QUANT_DIVERGENCE
      else if \<not> base_correct \<and> \<not> quant_correct then NONE_PASSED
      else if \<not> base_correct \<and> quant_correct then REASONING_DRIFT else NONE)"

definition diagnose :: "'m sample \<Rightarrow> string \<Rightarrow> string \<Rightarrow> diagnostic" where
  "diagnose s base_out quant_out =
     (let base_correct = evaluate_exact_match base_out (es_reference s);
          quant_correct = evaluate_exact_match quant_out (es_reference s)
      in \<lparr>sd_sample_id = es_id s, sd_task_type = es_task_type s, sd_prompt = es_prompt s,
          sd_expected = es_reference s, sd_baseline = base_out, sd_quantized = quant_out,
          sd_baseline_correct = base_correct, sd_quantized_correct = quant_correct,
          sd_divergence = (normalize_text base_out \<noteq> normalize_text quant_out),
          sd_category = categorize base_correct quant_correct\<rparr>)"

text \<open>The accumulators of the loop: correct counts, category counts, failed ids, diagnostics.\<close>

definition initial_counts :: "(error_category \<times> nat) list" where
  "initial_counts = [(EXACT_MATCH_FAIL, 0), (QUANT_DIVERGENCE, 0), (REASONING_DRIFT, 0), (NONE_PASSED, 0)]"

definition count_category :: "error_category \<Rightarrow> (error_category \<times> nat) list \<Rightarrow> (error_category \<times> nat) list" where
  "count_category c counts =
     (case map_of counts c of None \<Rightarrow> counts | Some n \<Rightarrow> AList.update c (n + 1) counts)"

definition analyze_step ::
  "diagnostic \<Rightarrow> nat \<times> nat \<times> (error_category \<times> nat) list \<times> string list \<times> diagnostic list \<Rightarrow>
   nat \<times> nat \<times> (error_category \<times> nat) list \<times> string list \<times> diagnostic list" where
  "analyze_step d acc =
     (case acc of (base, quant, counts, failed, ds) \<Rightarrow>
        (if sd_baseline_correct d then base + 1 else base,
         if sd_quantized_correct d then quant + 1 else quant,
         count_category (sd_category d) counts,
         if sd_category d \<in> {QUANT_DIVERGENCE, NONE_PASSED} then failed @ [sd_sample_id d] else failed,
         ds @ [d]))"

definition analyze_quantization_drift ::
  "'m sample list \<Rightarrow> string list \<Rightarrow> string list \<Rightarrow> workload_error + analysis_report" where
  "analyze_quantization_drift samples baseline quantized =
     (if length samples \<noteq> length baseline \<or> length samples \<noteq> length quantized
      then Inl (ValueError ''Sample and output list lengths must match exactly.'')
      else if samples = [] then Inl (ValueError ''Cannot perform error analysis on empty sample set.'')
      else
        let ds = map (\<lambda>(s, b, q). diagnose s b q) (zip samples (zip baseline quantized));
            (base, quant, counts, failed, diags) = fold analyze_step ds (0, 0, initial_counts, [], []);
            n = real (length samples)
        in Inr \<lparr>ar_total = length samples, ar_baseline_accuracy = round4 (real base / n),
                ar_quantized_accuracy = round4 (real quant / n),
                ar_degradation = round4 (real base / n - real quant / n), ar_counts = counts,
                ar_failed_ids = failed, ar_diagnostics = diags\<rparr>)"

section \<open>Normalisation\<close>

lemma lower_char_space: "is_space (lower_char c) = is_space c"
proof -
  have "(of_char c :: nat) < 256" by simp
  then show ?thesis
    by (auto simp: lower_char_def is_space_def Let_def of_char_of take_bit_eq_mod split: if_splits)
qed

lemma lower_char_code: "(of_char (lower_char c) :: nat) =
    (let n = of_char c in if 65 \<le> n \<and> n \<le> 90 \<or> 192 \<le> n \<and> n \<le> 222 \<and> n \<noteq> 215 then n + 32 else n)"
proof -
  have "(of_char c :: nat) < 256" by simp
  then show ?thesis by (simp add: lower_char_def Let_def of_char_of take_bit_eq_mod)
qed

lemma lower_lower [simp]: "str_lower (str_lower s) = str_lower s"
proof -
  have "lower_char (lower_char c) = lower_char c" for c
    unfolding lower_char_def[of "lower_char c"] lower_char_code by (auto simp: Let_def lower_char_def)
  then show ?thesis by (simp add: str_lower_def)
qed

lemma lower_words: "split_ws (str_lower s) = map str_lower (split_ws s)"
proof (induction s rule: split_ws.induct)
  case (1 s)
  have L: "lstrip (str_lower s) = str_lower (lstrip s)"
    by (simp add: lstrip_def str_lower_def dropWhile_map comp_def lower_char_space)
  show ?case
  proof (cases "lstrip s")
    case Nil
    then show ?thesis using L by (subst (1 2) split_ws.simps) (simp add: str_lower_def)
  next
    case (Cons c cs)
    obtain w rest where W: "rest = dropWhile (\<lambda>x. \<not> is_space x) (c # cs)" "lstrip s = w @ rest" "w \<noteq> []"
      "\<forall>x \<in> set w. \<not> is_space x" "rest = [] \<or> is_space (hd rest)" "split_ws s = w # split_ws rest"
      by (rule first_word[OF Cons])
    have "split_ws (str_lower s) = split_ws (str_lower w @ str_lower rest)"
      using split_ws_lstrip[of "str_lower s"] unfolding L W(2) by (simp add: str_lower_def)
    also have "\<dots> = str_lower w # split_ws (str_lower rest)"
      using W(3-5) by (intro split_ws_word) (cases rest; auto simp: str_lower_def lower_char_space)+
    also have "split_ws (str_lower rest) = map str_lower (split_ws rest)"
      unfolding W(1) by (rule "1.IH"[OF Cons])
    finally show ?thesis by (simp add: W(6))
  qed
qed

lemma lower_lstrip: "lstrip (str_lower s) = str_lower (lstrip s)"
  by (simp add: lstrip_def str_lower_def dropWhile_map comp_def lower_char_space)

lemma lower_rev: "rev (str_lower s) = str_lower (rev s)"
  by (simp add: str_lower_def rev_map)

lemma lower_strip: "strip (str_lower s) = str_lower (strip s)"
  by (simp only: strip_def rstrip_def lower_lstrip lower_rev)

lemma normalize_words: "normalize_text s = unwords (map str_lower (split_ws s))"
  by (simp add: normalize_text_def lower_strip[symmetric] collapse_strip lower_words)

lemma unwords_inj:
  assumes "\<forall>w \<in> set xs \<union> set ys. w \<noteq> [] \<and> (\<forall>c \<in> set w. \<not> is_space c)" "unwords xs = unwords ys"
  shows "xs = ys"
  using split_unwords[of xs] split_unwords[of ys] assms by (metis UnCI)

section \<open>Batches\<close>

lemma batches_concat:
  assumes "0 < b"
  shows "concat (map (\<lambda>i. take b (drop (i * b) xs)) [0..<n]) = take (n * b) xs"
proof (induction n)
  case (Suc n)
  then show ?case by (simp add: take_add[symmetric] add.commute)
qed simp

section \<open>The loop of the analysis\<close>

definition of_category :: "error_category \<Rightarrow> diagnostic list \<Rightarrow> nat" where
  "of_category c ds = length (filter (\<lambda>d. sd_category d = c) ds)"

lemma count_category_at: "map_of (count_category c counts) d =
    (if d = c then map_option Suc (map_of counts d) else map_of counts d)"
  by (auto simp: count_category_def map_of_update split: option.split)

lemma analyze_fold:
  assumes "\<forall>d \<in> set ds. sd_category d = categorize (sd_baseline_correct d) (sd_quantized_correct d)"
    and "fold analyze_step ds (b, q, counts, failed, acc) = (b', q', counts', failed', acc')"
  shows "b' = b + length (filter sd_baseline_correct ds) \<and> q' = q + length (filter sd_quantized_correct ds) \<and>
    failed' = failed @ map sd_sample_id (filter (\<lambda>d. \<not> sd_quantized_correct d) ds) \<and> acc' = acc @ ds \<and>
    (\<forall>c. map_of counts' c = map_option (\<lambda>n. n + of_category c ds) (map_of counts c))"
  using assms
proof (induction ds arbitrary: b q counts failed acc)
  case Nil
  then show ?case by (simp add: of_category_def option.map_ident)
next
  case (Cons d ds)
  obtain b1 q1 c1 f1 a1 where step: "analyze_step d (b, q, counts, failed, acc) = (b1, q1, c1, f1, a1)"
    by (metis prod_cases5)
  have S: "b1 = (if sd_baseline_correct d then b + 1 else b)" "q1 = (if sd_quantized_correct d then q + 1 else q)"
    "c1 = count_category (sd_category d) counts"
    "f1 = (if sd_quantized_correct d then failed else failed @ [sd_sample_id d])" "a1 = acc @ [d]"
    using step Cons.prems(1) by (auto simp: analyze_step_def categorize_def)
  have rest: "fold analyze_step ds (b1, q1, c1, f1, a1) = (b', q', counts', failed', acc')"
    using Cons.prems(2) step by simp
  have C: "map_of c1 c = map_option (\<lambda>n. n + of_category c [d]) (map_of counts c)" for c
    by (auto simp: S(3) count_category_at of_category_def option.map_ident intro: option.map_cong)
  have "of_category c (d # ds) = of_category c [d] + of_category c ds" for c by (simp add: of_category_def)
  with Cons.IH[OF _ rest] Cons.prems(1) C show ?case
    by (simp add: S(1,2,4,5) option.map_comp comp_def add.assoc)
qed

lemma category_balance:
  assumes "\<forall>d \<in> set ds. sd_category d = categorize (sd_baseline_correct d) (sd_quantized_correct d)"
  shows "length (filter sd_baseline_correct ds) + of_category REASONING_DRIFT ds =
      length (filter sd_quantized_correct ds) + of_category QUANT_DIVERGENCE ds"
    "of_category QUANT_DIVERGENCE ds + of_category NONE_PASSED ds + of_category REASONING_DRIFT ds +
      length (filter (\<lambda>d. sd_baseline_correct d \<and> sd_quantized_correct d) ds) = length ds"
    "of_category EXACT_MATCH_FAIL ds = 0"
  using assms by (induction ds) (auto simp: of_category_def categorize_def)

section \<open>Properties\<close>

text \<open>
  Streaming a data set partitions it: the batches in order are the samples, none is empty,
  all but the last have the batch size and the last has at most that. A batch size of 0 raises and a
  negative one silently yields nothing.
\<close>

theorem stream_partitions:
  "case stream_dataset samples batch_size of
     Inl e \<Rightarrow> batch_size = 0
   | Inr batches \<Rightarrow> (if 0 < batch_size then
       concat batches = samples \<and> [] \<notin> set batches \<and>
       (\<forall>i < length batches. length (batches ! i) \<le> nat batch_size \<and>
          (Suc i < length batches \<longrightarrow> length (batches ! i) = nat batch_size))
       else batches = [])"
proof (cases "0 < batch_size")
  case True
  define b where "b = nat batch_size"
  define n where "n = (length samples + b - 1) div b"
  have b: "0 < b" using True by (simp add: b_def)
  have n: "length samples \<le> n * b" "i < n \<Longrightarrow> i * b < length samples" for i
  proof -
    have "length samples + b - 1 < n * b + b"
      unfolding n_def using dividend_less_div_times[OF b, of "length samples + b - 1"] by simp
    then show "length samples \<le> n * b" using b by simp
    assume "i < n"
    then have "Suc i * b \<le> n * b" by (intro mult_le_mono1) simp
    also have "\<dots> \<le> length samples + b - 1" by (simp add: n_def)
    finally show "i * b < length samples" using b by simp
  qed
  have run: "stream_dataset samples batch_size = Inr (map (\<lambda>i. take b (drop (i * b) samples)) [0..<n])"
    using True by (simp add: stream_dataset_def Let_def b_def n_def)
  have full: "b \<le> length samples - i * b" if "Suc i < n" for i
    using n(2)[of "Suc i"] that by simp
  have "[] \<notin> set (map (\<lambda>i. take b (drop (i * b) samples)) [0..<n])"
    using n(2) b by (force simp: not_le)
  then show ?thesis
    unfolding run using True n(1) full
    by (auto simp: batches_concat[OF b] b_def[symmetric] min_def dest: full)
qed (auto simp: stream_dataset_def)

text \<open>
  Two outputs match exactly when they have the same words up to case; normalising is
  idempotent.
\<close>

theorem exact_match_words:
  "evaluate_exact_match a b = (map str_lower (split_ws a) = map str_lower (split_ws b)) \<and>
   normalize_text (normalize_text a) = normalize_text a"
proof
  have low: "\<forall>w \<in> set (map str_lower (split_ws s)). w \<noteq> [] \<and> (\<forall>c \<in> set w. \<not> is_space c)" for s
    using split_ws_words[of "str_lower s"] by (simp only: lower_words)
  show "evaluate_exact_match a b = (map str_lower (split_ws a) = map str_lower (split_ws b))"
    unfolding evaluate_exact_match_def normalize_words
  proof
    assume "unwords (map str_lower (split_ws a)) = unwords (map str_lower (split_ws b))"
    then show "map str_lower (split_ws a) = map str_lower (split_ws b)"
      by (rule unwords_inj[rotated]) (use low[of a] low[of b] in blast)
  qed (simp only:)
  have "normalize_text (normalize_text a) = unwords (map str_lower (map str_lower (split_ws a)))"
    by (simp only: normalize_words split_unwords[OF low])
  also have "\<dots> = normalize_text a" by (simp only: map_map comp_def lower_lower normalize_words)
  finally show "normalize_text (normalize_text a) = normalize_text a" .
qed

text \<open>
  Error analysis raises exactly on lists of different lengths and on no samples. Otherwise the
  failed ids are the samples that the quantized model gets wrong, in order; every category count
  is the number of its diagnostics, so that the counts and the samples that both models get right
  add up to the total; the degradation is the difference of the divergences and the
  reasoning drifts over the total, rounded; and the category for a failed exact match is never used.
\<close>

theorem analysis_consistent:
  "case analyze_quantization_drift samples baseline quantized of
     Inl e \<Rightarrow> \<not> (length samples = length baseline \<and> length samples = length quantized \<and> samples \<noteq> [])
   | Inr rep \<Rightarrow> (let ds = ar_diagnostics rep; n = length samples in
       ar_total rep = n \<and> length ds = n \<and> map sd_sample_id ds = map es_id samples \<and>
       ar_failed_ids rep = map sd_sample_id (filter (\<lambda>d. \<not> sd_quantized_correct d) ds) \<and>
       list_all (\<lambda>c. map_of (ar_counts rep) c = Some (of_category c ds))
         [EXACT_MATCH_FAIL, QUANT_DIVERGENCE, REASONING_DRIFT, NONE_PASSED] \<and>
       of_category QUANT_DIVERGENCE ds + of_category NONE_PASSED ds + of_category REASONING_DRIFT ds +
         length (filter (\<lambda>d. sd_baseline_correct d \<and> sd_quantized_correct d) ds) = n \<and>
       of_category EXACT_MATCH_FAIL ds = 0 \<and>
       ar_degradation rep =
         round4 ((real (of_category QUANT_DIVERGENCE ds) - real (of_category REASONING_DRIFT ds)) / real n))"
proof (cases "length samples = length baseline \<and> length samples = length quantized \<and> samples \<noteq> []")
  case False
  then show ?thesis by (auto simp: analyze_quantization_drift_def)
next
  case True
  define ds where "ds = map (\<lambda>(s, b, q). diagnose s b q) (zip samples (zip baseline quantized))"
  obtain b q counts failed acc where loop: "fold analyze_step ds (0, 0, initial_counts, [], []) = (b, q, counts, failed, acc)"
    by (metis prod_cases5)
  have cat: "\<forall>d \<in> set ds. sd_category d = categorize (sd_baseline_correct d) (sd_quantized_correct d)"
    by (auto simp: ds_def diagnose_def Let_def)
  note L = analyze_fold[OF cat loop] and B = category_balance[OF cat]
  have len: "length ds = length samples" using True by (simp add: ds_def)
  have ids: "map sd_sample_id ds = map es_id samples"
    using True by (intro nth_equalityI) (auto simp: ds_def diagnose_def Let_def)
  have "real b - real q = real (of_category QUANT_DIVERGENCE ds) - real (of_category REASONING_DRIFT ds)"
    using L B(1) by linarith
  then have deg: "real b / real (length samples) - real q / real (length samples) =
      (real (of_category QUANT_DIVERGENCE ds) - real (of_category REASONING_DRIFT ds)) / real (length samples)"
    by (simp add: diff_divide_distrib[symmetric])
  have run: "analyze_quantization_drift samples baseline quantized = Inr
      \<lparr>ar_total = length samples, ar_baseline_accuracy = round4 (real b / real (length samples)),
       ar_quantized_accuracy = round4 (real q / real (length samples)),
       ar_degradation = round4 (real b / real (length samples) - real q / real (length samples)),
       ar_counts = counts, ar_failed_ids = failed, ar_diagnostics = acc\<rparr>"
    using True loop by (simp add: analyze_quantization_drift_def Let_def ds_def[symmetric])
  from L B(2,3) len ids show ?thesis
    unfolding run deg by (simp add: Let_def initial_counts_def)
qed

text \<open>
  The samples of a synthetic workload are pairwise distinct: as many as asked for, with
  distinct ids.
\<close>

theorem synthetic_ids_distinct:
  "let ss = create_synthetic_workload num_samples prompt_token_len task_type in
   length ss = nat num_samples \<and> distinct (map es_id ss)"
  using show_nat_padded_inj
  by (auto simp: create_synthetic_workload_def Let_def comp_def distinct_map inj_on_def)

end
