(* ===== verification/Statistics.thy ===== *)
theory Statistics
  imports Tensor
begin

text \<open>
  \<open>eval_platform/statistics/analyzer.py\<close> and \<open>eval_platform/pipelines/latency_eval.py\<close>: percentiles,
  the summary of a latency distribution with bootstrap confidence intervals, and the profile of a
  generation loop. A missing value (NaN) is \<open>None\<close>; the percentile and median functions of the array
  library and its seeded resampling are fields of \<open>stats_lib\<close>, used through the contract \<open>quantile\<close>;
  the elapsed times that the device reports are an argument.
\<close>

section \<open>Percentiles of sorted data\<close>

definition percentile :: "real list \<Rightarrow> real \<Rightarrow> real" where
  "percentile sorted_data q =
     (if sorted_data = [] then 0
      else let idx = real (length sorted_data - 1) * q;
               floor_idx = nat \<lfloor>idx\<rfloor>; ceil_idx = nat \<lceil>idx\<rceil>
           in if floor_idx = ceil_idx then sorted_data ! floor_idx
              else let weight = idx - real floor_idx
                   in sorted_data ! floor_idx * (1 - weight) + sorted_data ! ceil_idx * weight)"

definition percentile_of :: "real list \<Rightarrow> real \<Rightarrow> real" where
  "percentile_of xs q = percentile (sort xs) q"

text \<open>The contract of a percentile function: it stays within the data and is monotone.\<close>

locale quantile =
  fixes pct :: "real list \<Rightarrow> real \<Rightarrow> real"
  assumes pct_lower: "xs \<noteq> [] \<Longrightarrow> 0 \<le> q \<Longrightarrow> q \<le> 1 \<Longrightarrow> \<exists>x \<in> set xs. x \<le> pct xs q"
    and pct_upper: "xs \<noteq> [] \<Longrightarrow> 0 \<le> q \<Longrightarrow> q \<le> 1 \<Longrightarrow> \<exists>x \<in> set xs. pct xs q \<le> x"
    and pct_mono: "xs \<noteq> [] \<Longrightarrow> 0 \<le> p \<Longrightarrow> p \<le> q \<Longrightarrow> q \<le> 1 \<Longrightarrow> pct xs p \<le> pct xs q"
begin

lemma pct_within:
  assumes "xs \<noteq> []" "0 \<le> q" "q \<le> 1" "\<forall>x \<in> set xs. a \<le> x \<and> x \<le> b"
  shows "a \<le> pct xs q \<and> pct xs q \<le> b"
  using pct_lower[OF assms(1-3)] pct_upper[OF assms(1-3)] assms(4) by fastforce

text \<open>A percentile interval of statistics that lie in a range lies in that range.\<close>

lemma pct_interval:
  assumes "xs \<noteq> []" "0 \<le> alpha" "alpha \<le> 1 / 2" "\<forall>x \<in> set xs. a \<le> x \<and> x \<le> b"
  shows "a \<le> pct xs alpha \<and> pct xs alpha \<le> pct xs (1 - alpha) \<and> pct xs (1 - alpha) \<le> b"
  using assms pct_within[of xs alpha a b] pct_within[of xs "1 - alpha" a b]
    pct_mono[of xs alpha "1 - alpha"] by simp

end

text \<open>The indices that a percentile interpolates between.\<close>

lemma percentile_weights:
  assumes "xs \<noteq> []" "0 \<le> q" "q \<le> 1"
  obtains f c w where "f \<le> c" "c < length xs" "c = (if w = 0 then f else Suc f)" "0 \<le> w" "w < 1"
    "real (length xs - 1) * q = real f + w" "percentile xs q = xs ! f + w * (xs ! c - xs ! f)"
proof -
  let ?idx = "real (length xs - 1) * q"
  define f where "f = nat \<lfloor>?idx\<rfloor>"
  define w where "w = ?idx - real f"
  define c where "c = (if w = 0 then f else Suc f)"
  have idx: "0 \<le> ?idx" "?idx \<le> real (length xs - 1)" using assms by (simp_all add: mult_left_le)
  then have f: "real f = of_int \<lfloor>?idx\<rfloor>" by (simp add: f_def)
  have w: "0 \<le> w" "w < 1" using f by (simp_all add: w_def) linarith+
  have c: "nat \<lceil>?idx\<rceil> = c"
  proof (cases "w = 0")
    case True
    then have "?idx = real f" by (simp add: w_def)
    then show ?thesis using True by (simp add: c_def)
  next
    case False
    with w have "real f < ?idx" "?idx \<le> real (Suc f)" unfolding w_def by linarith+
    then have "of_int (int (Suc f)) - 1 < ?idx" "?idx \<le> of_int (int (Suc f))" by linarith+
    then have "\<lceil>?idx\<rceil> = int (Suc f)" by (rule ceiling_unique)
    then show ?thesis using False by (simp add: c_def)
  qed
  have "c \<le> length xs - 1"
  proof (rule ccontr)
    assume "\<not> c \<le> length xs - 1"
    then have "length xs - 1 < f \<or> w \<noteq> 0 \<and> length xs - 1 < Suc f" by (auto simp: c_def split: if_splits)
    then have "real (length xs - 1) < real f + w \<or> w \<noteq> 0 \<and> real (length xs - 1) \<le> real f"
      using w by auto
    with idx w show False by (auto simp: w_def)
  qed
  then have "c < length xs" using assms(1) by (cases xs) auto
  moreover have "percentile xs q = xs ! f + w * (xs ! c - xs ! f)"
  proof (cases "f = c")
    case True
    then show ?thesis
      unfolding percentile_def Let_def f_def[symmetric] c using assms(1) by simp
  next
    case False
    then show ?thesis
      unfolding percentile_def Let_def f_def[symmetric] c w_def[symmetric]
      using assms(1) by (simp add: algebra_simps)
  qed
  moreover have "f \<le> c" by (simp add: c_def)
  moreover have "?idx = real f + w" unfolding w_def by simp
  ultimately show ?thesis using w by (intro that[OF _ _ c_def])
qed

lemma between:
  assumes "(a :: real) \<le> b" "0 \<le> w" "w \<le> 1"
  shows "a \<le> a + w * (b - a)" "a + w * (b - a) \<le> b"
  using assms mult_right_mono[of w 1 "b - a"] by simp_all

lemma percentile_mono:
  assumes "sorted xs" "xs \<noteq> []" "0 \<le> p" "p \<le> q" "q \<le> 1"
  shows "percentile xs p \<le> percentile xs q"
proof -
  have pq: "p \<le> 1" "0 \<le> q" using assms by simp_all
  from percentile_weights[OF assms(2,3) pq(1)] obtain f c v where P: "f \<le> c" "c < length xs"
    "c = (if v = 0 then f else Suc f)" "0 \<le> v" "v < 1" "real (length xs - 1) * p = real f + v"
    "percentile xs p = xs ! f + v * (xs ! c - xs ! f)" .
  from percentile_weights[OF assms(2) pq(2) assms(5)] obtain g d w where Q: "g \<le> d" "d < length xs"
    "d = (if w = 0 then g else Suc g)" "0 \<le> w" "w < 1" "real (length xs - 1) * q = real g + w"
    "percentile xs q = xs ! g + w * (xs ! d - xs ! g)" .
  have up: "xs ! f \<le> xs ! c" "xs ! g \<le> xs ! d" using assms(1) P(1,2) Q(1,2) by (simp_all add: sorted_nth_mono)
  note BP = between[OF up(1) P(4) less_imp_le[OF P(5)], folded P(7)]
  note BQ = between[OF up(2) Q(4) less_imp_le[OF Q(5)], folded Q(7)]
  have "real (length xs - 1) * p \<le> real (length xs - 1) * q" using assms(4) by (rule mult_left_mono) simp
  then have le: "real f + v \<le> real g + w" by (simp only: P(6) Q(6))
  show ?thesis
  proof (cases "f = g")
    case True
    then have vw: "v \<le> w" using le by simp
    show ?thesis
    proof (cases "v = 0")
      case True
      with \<open>f = g\<close> BQ(1) show ?thesis by (simp add: P(7))
    next
      case False
      with vw P(4) have "d = c" using P(3) Q(3) \<open>f = g\<close> by simp
      with vw up(1) True show ?thesis by (simp add: P(7) Q(7) mult_right_mono)
    qed
  next
    case False
    with le P(4,5) Q(4,5) have "f < g" by linarith
    then have "c \<le> g" using P(3) by simp
    then have "xs ! c \<le> xs ! g" using assms(1) Q(1,2) by (simp add: sorted_nth_mono)
    with BP(2) BQ(1) show ?thesis by linarith
  qed
qed

interpretation lat: quantile percentile_of
proof
  fix xs :: "real list" and q :: real
  assume A: "xs \<noteq> []" "0 \<le> q" "q \<le> 1"
  then have ne: "sort xs \<noteq> []" by (metis set_empty set_sort)
  from percentile_weights[OF ne A(2,3)] obtain f c w where W: "f \<le> c" "c < length (sort xs)"
    "c = (if w = 0 then f else Suc f)" "0 \<le> w" "w < 1" "real (length (sort xs) - 1) * q = real f + w"
    "percentile (sort xs) q = sort xs ! f + w * (sort xs ! c - sort xs ! f)" .
  have "sort xs ! f \<le> sort xs ! c" by (rule sorted_nth_mono) (use W(1,2) in simp_all)
  from between[OF this W(4) less_imp_le[OF W(5)], folded W(7)]
  have "sort xs ! f \<le> percentile_of xs q" "percentile_of xs q \<le> sort xs ! c" by (simp_all add: percentile_of_def)
  moreover have "sort xs ! f \<in> set xs" "sort xs ! c \<in> set xs"
    using W(1,2) nth_mem[of f "sort xs"] nth_mem[of c "sort xs"] by simp_all
  ultimately show "\<exists>x \<in> set xs. x \<le> percentile_of xs q" "\<exists>x \<in> set xs. percentile_of xs q \<le> x"
    by blast+
next
  fix xs :: "real list" and p q :: real
  assume "xs \<noteq> []" "0 \<le> p" "p \<le> q" "q \<le> 1"
  moreover from this have "sort xs \<noteq> []" by (metis set_empty set_sort)
  ultimately show "percentile_of xs p \<le> percentile_of xs q"
    unfolding percentile_of_def by (intro percentile_mono) simp_all
qed

section \<open>Summary of a latency distribution\<close>

record stats_lib =
  sl_percentile :: "real list \<Rightarrow> real \<Rightarrow> real"
  sl_median :: "real list \<Rightarrow> real"
  sl_resamples :: "nat \<Rightarrow> real list \<Rightarrow> nat \<Rightarrow> real list list"

record confidence_interval =
  ci_lower :: real
  ci_upper :: real
  ci_level :: real

record distribution_summary =
  ds_count :: nat
  ds_mean :: real
  ds_std_dev :: real
  ds_variance :: real
  ds_p50 :: real
  ds_p90 :: real
  ds_p95 :: real
  ds_p99 :: real
  ds_p99_9 :: real
  ds_iqr :: real
  ds_mad :: real
  ds_mean_ci :: confidence_interval
  ds_p95_ci :: confidence_interval
  ds_p99_ci :: confidence_interval

datatype stats_error = EmptyDataset | CudaUnavailable | StepFailed string

text \<open>The sample variance, with \<open>n - 1\<close> in the denominator.\<close>

definition sample_variance :: "real list \<Rightarrow> real" where
  "sample_variance xs = sum_list (map (\<lambda>x. (x - t_mean xs)\<^sup>2) xs) / (real (length xs) - 1)"

definition bootstrap_ci ::
  "stats_lib \<Rightarrow> real list \<Rightarrow> (real list \<Rightarrow> real) \<Rightarrow> int \<Rightarrow> real \<Rightarrow> nat \<Rightarrow> confidence_interval" where
  "bootstrap_ci lib data stat_fn num_bootstrap level seed =
     (if length data < 2 \<or> num_bootstrap \<le> 0
      then \<lparr>ci_lower = stat_fn data, ci_upper = stat_fn data, ci_level = level\<rparr>
      else let stats = map stat_fn (sl_resamples lib seed data (nat num_bootstrap));
               alpha = (1 - level) / 2
           in \<lparr>ci_lower = sl_percentile lib stats (alpha * 100),
               ci_upper = sl_percentile lib stats ((1 - alpha) * 100), ci_level = level\<rparr>)"

definition present :: "real option list \<Rightarrow> real list" where
  "present samples = map the (filter (\<lambda>x. x \<noteq> None) samples)"

definition compute_distribution ::
  "stats_lib \<Rightarrow> real option list \<Rightarrow> int \<Rightarrow> real \<Rightarrow> nat \<Rightarrow> stats_error + distribution_summary" where
  "compute_distribution lib samples num_bootstrap level seed =
     (let data = present samples; pct = sl_percentile lib data;
          var = (if 1 < length data then sample_variance data else 0) in
      if data = [] then Inl EmptyDataset
      else Inr
        \<lparr>ds_count = length data, ds_mean = t_mean data, ds_std_dev = sqrt var, ds_variance = var,
         ds_p50 = pct 50, ds_p90 = pct 90, ds_p95 = pct 95, ds_p99 = pct 99, ds_p99_9 = pct (999 / 10),
         ds_iqr = pct 75 - pct 25, ds_mad = sl_median lib (map (\<lambda>x. \<bar>x - pct 50\<bar>) data),
         ds_mean_ci = bootstrap_ci lib data t_mean num_bootstrap level seed,
         ds_p95_ci = bootstrap_ci lib data (\<lambda>xs. sl_percentile lib xs 95) num_bootstrap level seed,
         ds_p99_ci = bootstrap_ci lib data (\<lambda>xs. sl_percentile lib xs 99) num_bootstrap level seed\<rparr>)"

section \<open>Profile of a generation loop\<close>

record latency_profile =
  lp_ttft_ms :: real
  lp_itl_mean_ms :: real
  lp_itl_p50_ms :: real
  lp_itl_p95_ms :: real
  lp_itl_p99_ms :: real
  lp_itl_std_ms :: real
  lp_prefill_tps :: real
  lp_generation_tps :: real
  lp_total_sec :: real
  lp_num_tokens :: int
  lp_latencies :: "real list"

text \<open>
  The steps that \<open>step_fn\<close> is called with, and the profile. \<open>raises n\<close> is the text of the exception of
  the n-th call, if it raises; \<open>elapsed n\<close> is the time between the two events of the n-th measured call.
\<close>

definition warmup_calls :: "nat \<Rightarrow> int \<Rightarrow> int list" where
  "warmup_calls warmup_runs gen_len = concat (replicate warmup_runs [0..min gen_len 4 - 1])"

definition step_calls :: "nat \<Rightarrow> int \<Rightarrow> int list" where
  "step_calls warmup_runs gen_len = warmup_calls warmup_runs gen_len @ 0 # [1..gen_len - 1]"

definition first_raise :: "(nat \<Rightarrow> string option) \<Rightarrow> nat \<Rightarrow> string option" where
  "first_raise raises n = map_option (\<lambda>i. the (raises i)) (find (\<lambda>i. raises i \<noteq> None) [0..<n])"

lemma first_raise_None: "first_raise raises n = None \<longleftrightarrow> list_all (\<lambda>i. raises i = None) [0..<n]"
  by (auto simp: first_raise_def find_None_iff list_all_iff)

definition profile_generation_loop ::
  "bool \<Rightarrow> (nat \<Rightarrow> string option) \<Rightarrow> nat \<Rightarrow> (nat \<Rightarrow> real) \<Rightarrow> int \<Rightarrow> int \<Rightarrow> int \<Rightarrow> stats_error + int list \<times> latency_profile" where
  "profile_generation_loop cuda raises warmup_runs elapsed prompt_len gen_len batch_size =
     (if \<not> cuda then Inl CudaUnavailable
      else case first_raise raises (length (step_calls warmup_runs gen_len)) of
        Some e \<Rightarrow> Inl (StepFailed e)
      | None \<Rightarrow>
        let ttft = elapsed 0;
            steps = [1..gen_len - 1];
            measured = map (\<lambda>i. elapsed (Suc i)) [0..<length steps];
            itl = (if measured = [] then [ttft] else measured);
            sorted_itl = sort itl;
            total = t_sum itl
        in Inr (step_calls warmup_runs gen_len,
          \<lparr>lp_ttft_ms = ttft, lp_itl_mean_ms = t_mean itl,
           lp_itl_p50_ms = percentile sorted_itl (50 / 100), lp_itl_p95_ms = percentile sorted_itl (95 / 100),
           lp_itl_p99_ms = percentile sorted_itl (99 / 100),
           lp_itl_std_ms = (if 1 < length itl then sqrt (sample_variance itl) else 0),
           lp_prefill_tps = (if 0 < ttft then of_int (batch_size * prompt_len) / (ttft / 1000) else 0),
           lp_generation_tps =
             (if 0 < total then (of_int batch_size * real (length itl)) / (total / 1000) else 0),
           lp_total_sec = (ttft + total) / 1000, lp_num_tokens = gen_len, lp_latencies = itl\<rparr>))"

section \<open>Ranges of the summary\<close>

lemma sample_variance_nonneg: "1 < length xs \<Longrightarrow> 0 \<le> sample_variance xs"
  unfolding sample_variance_def by (intro divide_nonneg_nonneg sum_list_nonneg) auto

lemma bootstrap_within:
  assumes lib: "quantile (\<lambda>xs q. sl_percentile lib xs (100 * q))"
    and data: "data \<noteq> []" "\<forall>xs. xs \<noteq> [] \<and> set xs \<subseteq> set data \<longrightarrow> a \<le> stat_fn xs \<and> stat_fn xs \<le> b"
    and draws: "sl_resamples lib seed data (nat num) \<noteq> [] \<or> num \<le> 0"
      "\<forall>xs \<in> set (sl_resamples lib seed data (nat num)). xs \<noteq> [] \<and> set xs \<subseteq> set data"
    and level: "0 \<le> level" "level \<le> 1"
  shows "let ci = bootstrap_ci lib data stat_fn num level seed in
    a \<le> ci_lower ci \<and> ci_lower ci \<le> ci_upper ci \<and> ci_upper ci \<le> b"
proof (cases "length data < 2 \<or> num \<le> 0")
  case True
  with data show ?thesis by (simp add: bootstrap_ci_def)
next
  case False
  let ?stats = "map stat_fn (sl_resamples lib seed data (nat num))"
  have "?stats \<noteq> []" "\<forall>x \<in> set ?stats. a \<le> x \<and> x \<le> b" using data(2) draws False by auto
  from quantile.pct_interval[OF lib this(1) _ _ this(2), of "(1 - level) / 2"] level False
  show ?thesis by (simp add: bootstrap_ci_def Let_def algebra_simps)
qed

definition demo_lib :: stats_lib where
  "demo_lib = \<lparr>sl_percentile = (\<lambda>xs q. percentile_of xs (q / 100)),
     sl_median = (\<lambda>xs. percentile_of xs (1 / 2)), sl_resamples = (\<lambda>seed data n. replicate n data)\<rparr>"

section \<open>Properties\<close>

text \<open>
  If the library's percentile function keeps its contract and resampling draws from the
  data, the summary of samples that lie in a range, of which at least one is a number, lies in that
  range: the percentiles increase with their level, the interquartile range and the variance are
  not negative, and the confidence intervals of the mean and of the tail percentiles are intervals
  inside the range. Only a data set without numbers raises.
\<close>

theorem distribution_ranges:
  assumes "quantile (\<lambda>xs q. sl_percentile lib xs (100 * q))"
    and "\<forall>x \<in> set (present samples). a \<le> x \<and> x \<le> b" and "0 \<le> level" and "level \<le> 1"
    and "\<forall>data. length (sl_resamples lib seed data (nat num)) = nat num"
    and "\<forall>data. \<forall>xs \<in> set (sl_resamples lib seed data (nat num)). length xs = length data \<and> set xs \<subseteq> set data"
  shows "case compute_distribution lib samples num level seed of
      Inl _ \<Rightarrow> present samples = []
    | Inr s \<Rightarrow> ds_count s = length (present samples) \<and>
        a \<le> ds_mean s \<and> ds_mean s \<le> b \<and> a \<le> ds_p50 s \<and> ds_p50 s \<le> ds_p90 s \<and> ds_p90 s \<le> ds_p95 s \<and>
        ds_p95 s \<le> ds_p99 s \<and> ds_p99 s \<le> ds_p99_9 s \<and> ds_p99_9 s \<le> b \<and>
        0 \<le> ds_iqr s \<and> 0 \<le> ds_variance s \<and> (ds_std_dev s)\<^sup>2 = ds_variance s \<and>
        list_all (\<lambda>ci. a \<le> ci_lower ci \<and> ci_lower ci \<le> ci_upper ci \<and> ci_upper ci \<le> b)
          [ds_mean_ci s, ds_p95_ci s, ds_p99_ci s]"
proof (cases "present samples = []")
  case True
  then show ?thesis by (simp add: compute_distribution_def)
next
  case False
  let ?data = "present samples"
  have P: "a \<le> sl_percentile lib xs p \<and> sl_percentile lib xs p \<le> b"
    if "xs \<noteq> []" "set xs \<subseteq> set ?data" "0 \<le> p" "p \<le> 100" for xs p
    using quantile.pct_within[OF assms(1) that(1), of "p / 100" a b] assms(2) that by auto
  have M: "sl_percentile lib ?data p \<le> sl_percentile lib ?data q" if "0 \<le> p" "p \<le> q" "q \<le> 100" for p q
    using quantile.pct_mono[OF assms(1) False, of "p / 100" "q / 100"] that by simp
  have mean: "a \<le> t_mean xs \<and> t_mean xs \<le> b" if "xs \<noteq> []" "set xs \<subseteq> set ?data" for xs
    using mean_bounds[OF that(1), of a b] assms(2) that(2) by auto
  have draw: "xs \<noteq> [] \<and> set xs \<subseteq> set ?data" if "xs \<in> set (sl_resamples lib seed ?data (nat num))" for xs
    using assms(6)[rule_format, OF that] False by auto
  have draws: "sl_resamples lib seed ?data (nat num) \<noteq> [] \<or> num \<le> 0"
    "\<forall>xs \<in> set (sl_resamples lib seed ?data (nat num)). xs \<noteq> [] \<and> set xs \<subseteq> set ?data"
    using assms(5)[rule_format, of ?data] draw by auto
  have ci: "let ci = bootstrap_ci lib ?data f num level seed in
      a \<le> ci_lower ci \<and> ci_lower ci \<le> ci_upper ci \<and> ci_upper ci \<le> b"
    if "\<forall>xs. xs \<noteq> [] \<and> set xs \<subseteq> set ?data \<longrightarrow> a \<le> f xs \<and> f xs \<le> b" for f
    by (rule bootstrap_within[OF assms(1) False that draws assms(3,4)])
  have CI: "let ci = bootstrap_ci lib ?data t_mean num level seed in
      a \<le> ci_lower ci \<and> ci_lower ci \<le> ci_upper ci \<and> ci_upper ci \<le> b"
    "let ci = bootstrap_ci lib ?data (\<lambda>xs. sl_percentile lib xs 95) num level seed in
      a \<le> ci_lower ci \<and> ci_lower ci \<le> ci_upper ci \<and> ci_upper ci \<le> b"
    "let ci = bootstrap_ci lib ?data (\<lambda>xs. sl_percentile lib xs 99) num level seed in
      a \<le> ci_lower ci \<and> ci_lower ci \<le> ci_upper ci \<and> ci_upper ci \<le> b"
    by (rule ci; use mean P in simp)+
  have "0 \<le> (if 1 < length ?data then sample_variance ?data else 0)"
    using sample_variance_nonneg by simp
  with False CI mean[OF False order_refl] P[OF False order_refl, of 50] P[OF False order_refl, of "999 / 10"]
    M[of 50 90] M[of 90 95] M[of 95 99] M[of 99 "999 / 10"] M[of 25 75]
  show ?thesis by (simp add: compute_distribution_def Let_def)
qed

theorem distribution_ranges_witness:
  "\<exists>s. compute_distribution demo_lib [Some 1, None, Some 3] 2 (9 / 10) 42 = Inr s \<and>
     1 \<le> ds_p50 s \<and> ds_p50 s \<le> ds_p99 s \<and> ds_p99 s \<le> 3"
proof -
  have "quantile (\<lambda>xs q. sl_percentile demo_lib xs (100 * q))"
    using lat.quantile_axioms by (simp add: demo_lib_def)
  from distribution_ranges[OF this, of "[Some 1, None, Some 3]" 1 3 "9 / 10" 42 2]
  show ?thesis
    by (cases "compute_distribution demo_lib [Some 1, None, Some 3] 2 (9 / 10) 42")
      (auto simp: demo_lib_def present_def)
qed

text \<open>
  Profiling a generation loop whose steps do not raise calls the step function for the warmup rounds, then once per
  step from 0 to the last, and reports inter-token percentiles that increase and lie in the
  range of the latencies, and throughputs that multiplied by the measured time give the token
  counts. When a single token is generated, its latency counts twice in the total.
\<close>

theorem latency_profile_consistent:
  assumes "\<forall>i. 0 < elapsed i" and "\<forall>n. raises n = None"
  shows "\<exists>calls p. profile_generation_loop True raises warmup elapsed prompt_len gen_len batch = Inr (calls, p) \<and>
    calls = warmup_calls warmup gen_len @ 0 # [1..gen_len - 1] \<and>
    length (lp_latencies p) = max 1 (nat (gen_len - 1)) \<and>
    lp_itl_p50_ms p \<le> lp_itl_p95_ms p \<and> lp_itl_p95_ms p \<le> lp_itl_p99_ms p \<and>
    (\<exists>x \<in> set (lp_latencies p). x \<le> lp_itl_p50_ms p) \<and> (\<exists>x \<in> set (lp_latencies p). lp_itl_p99_ms p \<le> x) \<and>
    lp_generation_tps p * (t_sum (lp_latencies p) / 1000) = of_int batch * real (length (lp_latencies p)) \<and>
    lp_prefill_tps p * (lp_ttft_ms p / 1000) = of_int (batch * prompt_len) \<and>
    lp_total_sec p * 1000 = lp_ttft_ms p + t_sum (lp_latencies p) \<and>
    (gen_len \<le> 1 \<longrightarrow> lp_total_sec p * 1000 = 2 * lp_ttft_ms p)"
proof -
  obtain calls p where run: "profile_generation_loop True raises warmup elapsed prompt_len gen_len batch = Inr (calls, p)"
    using assms(2) first_raise_None[of raises] by (simp add: profile_generation_loop_def Let_def list_all_iff split: option.splits)
  define itl where "itl = (if [1..gen_len - 1] = [] then [elapsed 0]
    else map (\<lambda>i. elapsed (Suc i)) [0..<length [1..gen_len - 1]])"
  have p: "calls = warmup_calls warmup gen_len @ 0 # [1..gen_len - 1]" "lp_latencies p = itl"
    "lp_itl_p50_ms p = percentile_of itl (50 / 100)" "lp_itl_p95_ms p = percentile_of itl (95 / 100)"
    "lp_itl_p99_ms p = percentile_of itl (99 / 100)" "lp_ttft_ms p = elapsed 0"
    "lp_total_sec p = (elapsed 0 + t_sum itl) / 1000"
    "lp_generation_tps p = (if 0 < t_sum itl then (of_int batch * real (length itl)) / (t_sum itl / 1000) else 0)"
    "lp_prefill_tps p = (if 0 < elapsed 0 then of_int (batch * prompt_len) / (elapsed 0 / 1000) else 0)"
    using run by (auto simp: profile_generation_loop_def Let_def itl_def percentile_of_def step_calls_def split: if_splits option.splits)
  have ne: "itl \<noteq> []" by (simp add: itl_def)
  have len: "length itl = max 1 (nat (gen_len - 1))" by (auto simp: itl_def)
  have "\<forall>x \<in> set itl. 0 < x" using assms(1) by (auto simp: itl_def)
  with ne have sum: "0 < t_sum itl" unfolding t_sum_def by (induction itl rule: list_nonempty_induct) auto
  have one: "t_sum itl = elapsed 0" if "gen_len \<le> 1" using that by (simp add: itl_def t_sum_def)
  show ?thesis
    using run p(1) len lat.pct_mono[OF ne, of "50 / 100" "95 / 100"] lat.pct_mono[OF ne, of "95 / 100" "99 / 100"]
      lat.pct_lower[OF ne, of "50 / 100"] lat.pct_upper[OF ne, of "99 / 100"] sum one assms(1)[rule_format, of 0]
    by (intro exI[of _ calls] exI[of _ p]) (simp add: p)
qed

theorem latency_profile_consistent_witness:
  "\<exists>calls p. profile_generation_loop True (\<lambda>_. None) 1 (\<lambda>i. 2) 8 3 1 = Inr (calls, p) \<and> calls = [0, 1, 2, 0, 1, 2] \<and>
     lp_prefill_tps p * (lp_ttft_ms p / 1000) = 8"
proof -
  have "warmup_calls 1 3 @ 0 # [1..3 - 1] = [0, 1, 2, 0, 1, 2]" by (simp add: warmup_calls_def upto.simps)
  with latency_profile_consistent[of "\<lambda>i. 2" "\<lambda>_. None" 1 8 3 1] show ?thesis by force
qed

end
