(* ===== verification/Tracking.thy ===== *)
theory Tracking
  imports Text_Lib
begin

text \<open>
  \<open>eval_platform/tracking/artifact_store.py\<close>: the artifact store over the file system.

  \<^item> A file system maps resolved paths, lists of components, to the contents of regular files;
    creating directories never fails. A run id and a file name are one component each.
  \<^item> The digest of SHA-256, the serializers and the clock are arguments. A serializer that fails
    leaves what it has written so far.
\<close>

section \<open>Artifact store\<close>

type_synonym path = "string list"
type_synonym file_system = "path \<Rightarrow> string option"

record manifest =
  mf_artifact_id :: string
  mf_filename :: string
  mf_sha256 :: string
  mf_size :: nat
  mf_content_type :: string
  mf_created_at :: string
  mf_relative_path :: path

datatype tracking_error = FileNotFound path | NoActiveRun string | SerializationError string

text \<open>The chunks that \<open>f.read(65536)\<close> returns, up to the first empty one.\<close>

function read_chunks :: "nat \<Rightarrow> string \<Rightarrow> string list" where
  "read_chunks chunk content =
     (if chunk = 0 \<or> content = [] then [] else take chunk content # read_chunks chunk (drop chunk content))"
  by pat_completeness auto

termination read_chunks
  by (relation "measure (\<lambda>(_, content). length content)") auto

declare read_chunks.simps [simp del]

definition compute_sha256 :: "(string \<Rightarrow> string) \<Rightarrow> string \<Rightarrow> string" where
  "compute_sha256 digest content = digest (concat (read_chunks 65536 content))"

definition store_file ::
  "(string \<Rightarrow> string) \<Rightarrow> path \<Rightarrow> string \<Rightarrow> path \<Rightarrow> string \<Rightarrow> string \<Rightarrow> file_system \<Rightarrow>
   (tracking_error, manifest, file_system) eff" where
  "store_file digest base now src run_id content_type fs =
     (case fs src of
        None \<Rightarrow> (Inl (FileNotFound src), fs)
      | Some content \<Rightarrow>
          let dest = base @ [run_id, last src];
              fs' = (if src \<noteq> dest then fs(dest \<mapsto> content) else fs);
              stored = the (fs' dest);
              sha = compute_sha256 digest stored
          in (Inr \<lparr>mf_artifact_id = ''art_'' @ take 12 sha, mf_filename = last src, mf_sha256 = sha,
                   mf_size = length stored, mf_content_type = content_type, mf_created_at = now,
                   mf_relative_path = [run_id, last src]\<rparr>, fs'))"

definition with_suffix :: "string \<Rightarrow> string \<Rightarrow> string" where
  "with_suffix suffix filename = (if \<not> ends_with suffix filename then filename @ suffix else filename)"

text \<open>Writing a serialized value: the outcome of the serializer and the bytes it wrote.\<close>

definition store_serialized ::
  "(string \<Rightarrow> string) \<Rightarrow> path \<Rightarrow> string \<Rightarrow> ('d \<Rightarrow> string option \<times> string) \<Rightarrow> string \<Rightarrow> string \<Rightarrow> 'd \<Rightarrow> string \<Rightarrow>
   string \<Rightarrow> file_system \<Rightarrow> (tracking_error, manifest, file_system) eff" where
  "store_serialized digest base now serialize suffix content_type data run_id filename fs =
     (let target = base @ [run_id, with_suffix suffix filename];
          (err, written) = serialize data;
          fs' = fs(target \<mapsto> written)
      in case err of Some e \<Rightarrow> (Inl (SerializationError e), fs')
         | None \<Rightarrow> store_file digest base now target run_id content_type fs')"

definition store_json where
  "store_json digest base now json_dump =
     store_serialized digest base now json_dump ''.json'' ''application/json''"

definition store_pt_tensor where
  "store_pt_tensor digest base now torch_save =
     store_serialized digest base now torch_save ''.pt'' ''application/octet-stream''"

text \<open>A manifest is verified against the store by hashing the file it points to.\<close>

definition verifies :: "(string \<Rightarrow> string) \<Rightarrow> path \<Rightarrow> manifest \<Rightarrow> file_system \<Rightarrow> bool" where
  "verifies digest base m fs \<longleftrightarrow>
     (case fs (base @ mf_relative_path m) of
        None \<Rightarrow> False | Some content \<Rightarrow> digest content = mf_sha256 m \<and> length content = mf_size m)"

text \<open>
  What the logger relies on: a store operation that returns yields a manifest that verifies, and
  an operation touches no other file than the one it names.
\<close>

locale artifact_op =
  fixes digest :: "string \<Rightarrow> string" and base :: path
    and op :: "'i \<Rightarrow> file_system \<Rightarrow> (tracking_error, manifest, file_system) eff"
    and target :: "'i \<Rightarrow> path"
  assumes op_verifies: "op i fs = (Inr m, fs') \<Longrightarrow> verifies digest base m fs'"
    and op_path: "op i fs = (Inr m, fs') \<Longrightarrow> base @ mf_relative_path m = target i"
    and op_frame: "op i fs = (r, fs') \<Longrightarrow> p \<noteq> target i \<Longrightarrow> fs' p = fs p"
begin

text \<open>A manifest keeps verifying while other artifacts are stored.\<close>

lemma verifies_stable:
  assumes "verifies digest base m fs" "op i fs = (r, fs')" "base @ mf_relative_path m \<noteq> target i"
  shows "verifies digest base m fs'"
  using assms(1) op_frame[OF assms(2,3)] by (simp add: verifies_def)

end

section \<open>The store keeps the contract\<close>

lemma chunks_concat: "0 < chunk \<Longrightarrow> concat (read_chunks chunk content) = content"
  by (induction chunk content rule: read_chunks.induct) (subst read_chunks.simps, auto)

lemma sha_of_content: "compute_sha256 digest content = digest content"
  by (simp add: compute_sha256_def chunks_concat)

lemma store_file_result:
  assumes "store_file digest base now src run_id ctype fs = (Inr m, fs')"
  shows "\<exists>content. fs src = Some content \<and> fs' (base @ [run_id, last src]) = Some content \<and>
    mf_sha256 m = digest content \<and> mf_size m = length content \<and> mf_relative_path m = [run_id, last src] \<and>
    mf_filename m = last src \<and> mf_content_type m = ctype"
  using assms by (auto simp: store_file_def Let_def sha_of_content split: option.splits if_splits)

lemma store_file_frame:
  "store_file digest base now src run_id ctype fs = (r, fs') \<Longrightarrow> p \<noteq> base @ [run_id, last src] \<Longrightarrow> fs' p = fs p"
  by (auto simp: store_file_def Let_def split: option.splits if_splits)

definition file_op where
  "file_op digest base now = (\<lambda>(src, run_id, ctype). store_file digest base now src run_id ctype)"

definition json_op where
  "json_op digest base now dump = (\<lambda>(data, run_id, filename). store_json digest base now dump data run_id filename)"

definition pt_op where
  "pt_op digest base now save = (\<lambda>(data, run_id, filename). store_pt_tensor digest base now save data run_id filename)"

interpretation file_store: artifact_op digest base "file_op digest base now" "\<lambda>(src, run_id, ctype). base @ [run_id, last src]"
  for digest base now
  by unfold_locales (auto simp: file_op_def verifies_def dest!: store_file_result dest: store_file_frame)

lemma store_serialized_contract:
  assumes "store_serialized digest base now ser suffix ctype data run_id filename fs = (r, fs')"
  defines "target \<equiv> base @ [run_id, with_suffix suffix filename]"
  shows "r = Inr m \<Longrightarrow> verifies digest base m fs' \<and> base @ mf_relative_path m = target"
    "p \<noteq> target \<Longrightarrow> fs' p = fs p"
    "fst (ser data) = None \<Longrightarrow> fs' target = Some (snd (ser data)) \<and> (\<exists>m. r = Inr m)"
proof -
  obtain err written where s: "ser data = (err, written)" by fastforce
  show "r = Inr m \<Longrightarrow> verifies digest base m fs' \<and> base @ mf_relative_path m = target"
    using assms(1) by (auto simp: store_serialized_def Let_def s verifies_def target_def
        split: option.splits dest!: store_file_result)
  show "p \<noteq> target \<Longrightarrow> fs' p = fs p"
    using assms(1) by (auto simp: store_serialized_def Let_def s target_def split: option.splits dest: store_file_frame)
  show "fst (ser data) = None \<Longrightarrow> fs' target = Some (snd (ser data)) \<and> (\<exists>m. r = Inr m)"
    using assms(1) by (auto simp: store_serialized_def Let_def s target_def store_file_def)
qed

interpretation json_store: artifact_op digest base "json_op digest base now dump"
    "\<lambda>(data, run_id, filename). base @ [run_id, with_suffix ''.json'' filename]"
  for digest base now dump
  by unfold_locales (auto simp: json_op_def store_json_def dest: store_serialized_contract(1,2))

interpretation pt_store: artifact_op digest base "pt_op digest base now save"
    "\<lambda>(data, run_id, filename). base @ [run_id, with_suffix ''.pt'' filename]"
  for digest base now save
  by unfold_locales (auto simp: pt_op_def store_pt_tensor_def dest: store_serialized_contract(1,2))

end
