(* ===== verification/Experiment.thy ===== *)
theory Experiment
  imports Tracking
begin

text \<open>
  \<open>eval_platform/tracking/experiment_logger.py\<close>: seeds, the provenance of a run, and the run's
  record from the start of the run to the manifest written at its end.

  \<^item> What the host answers (git, the CUDA runtime, the clock, the JSON encoder) is a record of
    arguments. A command of git that fails to start or exits with an error gives \<open>None\<close>.
  \<^item> The body of the \<open>with\<close> statement is a function on the logger that returns, raises an
    \<open>Exception\<close>, or leaves with another \<open>BaseException\<close> such as an interrupt. It reaches the record
    through the logger's operations, none of which sets \<open>current_run\<close> back to \<open>None\<close>.
\<close>

section \<open>Seeds\<close>

record seeds =
  sd_random :: "int option"
  sd_numpy :: "int option"
  sd_torch :: "int option"
  sd_cuda :: "int option"
  sd_deterministic :: bool
  sd_benchmark :: bool

text \<open>NumPy accepts seeds of 32 bits; by then \<open>random\<close> is seeded.\<close>

definition set_global_seed :: "bool \<Rightarrow> int \<Rightarrow> seeds \<Rightarrow> (string, unit, seeds) eff" where
  "set_global_seed cuda_available seed s =
     (let s1 = s\<lparr>sd_random := Some seed\<rparr>
      in if seed < 0 \<or> 2 ^ 32 \<le> seed then (Inl ''Seed must be between 0 and 2**32 - 1'', s1)
         else let s2 = s1\<lparr>sd_numpy := Some seed, sd_torch := Some seed\<rparr>
           in (Inr (), if cuda_available
                       then s2\<lparr>sd_cuda := Some seed, sd_deterministic := True, sd_benchmark := False\<rparr>
                       else s2))"

section \<open>Provenance\<close>

record git_state =
  gs_commit_hash :: string
  gs_branch_name :: string
  gs_is_dirty :: bool
  gs_commit_timestamp :: string

text \<open>The output of a command, decoded as ASCII and stripped.\<close>

definition git_text :: "(string list \<Rightarrow> string option) \<Rightarrow> string list \<Rightarrow> string option" where
  "git_text git args =
     Option.bind (git args) (\<lambda>out. if \<forall>c \<in> set out. of_char c < (128::nat) then Some (strip out) else None)"

definition capture_git_state :: "(string list \<Rightarrow> string option) \<Rightarrow> git_state" where
  "capture_git_state git =
     (case Option.bind (git_text git [''rev-parse'', ''HEAD'']) (\<lambda>commit_hash.
           Option.bind (git_text git [''rev-parse'', ''--abbrev-ref'', ''HEAD'']) (\<lambda>branch_name.
           Option.bind (git_text git [''status'', ''--porcelain'']) (\<lambda>dirty_check.
           Option.bind (git_text git [''log'', ''-1'', ''--format=%cd'', ''--date=iso'']) (\<lambda>commit_time.
           Some \<lparr>gs_commit_hash = commit_hash, gs_branch_name = branch_name,
                 gs_is_dirty = (0 < length dirty_check), gs_commit_timestamp = commit_time\<rparr>)))) of
        Some st \<Rightarrow> st
      | None \<Rightarrow> \<lparr>gs_commit_hash = ''UNKNOWN'', gs_branch_name = ''UNKNOWN'', gs_is_dirty = True,
                 gs_commit_timestamp = ''UNKNOWN''\<rparr>)"

record cuda_device =
  cd_name :: string
  cd_count :: nat
  cd_total_memory :: nat
  cd_cudnn_version :: "nat option"

record platform_info =
  pi_platform :: string
  pi_python_version :: string
  pi_torch_version :: string
  pi_cuda_version :: "string option"
  pi_cpu_count :: "nat option"
  pi_device :: "cuda_device option"

record hardware_state =
  hs_platform :: string
  hs_python_version :: string
  hs_torch_version :: string
  hs_cuda_version :: "string option"
  hs_cudnn_version :: "nat option"
  hs_gpu_device_name :: string
  hs_gpu_count :: nat
  hs_total_vram_gb :: real
  hs_cpu_count :: nat

definition capture_hardware_state :: "platform_info \<Rightarrow> hardware_state" where
  "capture_hardware_state p =
     (let dev = pi_device p;
          vram_gb = (case dev of Some d \<Rightarrow> real (cd_total_memory d) / 1024 ^ 3 | None \<Rightarrow> 0)
      in \<lparr>hs_platform = pi_platform p, hs_python_version = pi_python_version p,
          hs_torch_version = pi_torch_version p, hs_cuda_version = pi_cuda_version p,
          hs_cudnn_version = (case dev of Some d \<Rightarrow> cd_cudnn_version d | None \<Rightarrow> None),
          hs_gpu_device_name = (case dev of Some d \<Rightarrow> cd_name d | None \<Rightarrow> ''N/A (CPU Only)''),
          hs_gpu_count = (case dev of Some d \<Rightarrow> cd_count d | None \<Rightarrow> 0),
          hs_total_vram_gb = round2 vram_gb,
          hs_cpu_count = (case pi_cpu_count p of Some n \<Rightarrow> if n = 0 then 1 else n | None \<Rightarrow> 1)\<rparr>)"

section \<open>Runs\<close>

record 'v run_record =
  rr_run_id :: string
  rr_experiment_name :: string
  rr_seed :: int
  rr_status :: string
  rr_start_time :: string
  rr_end_time :: "string option"
  rr_git_state :: "git_state option"
  rr_hardware_state :: "hardware_state option"
  rr_parameters :: "(string \<times> 'v) list"
  rr_metrics :: "(string \<times> 'v) list"
  rr_artifacts :: "manifest list"
  rr_error_log :: "string option"

record 'v logger =
  lg_experiment_name :: string
  lg_store :: path
  lg_current_run :: "'v run_record option"
  lg_files :: file_system
  lg_seeds :: seeds

record 'v host =
  ho_digest :: "string \<Rightarrow> string"
  ho_dump :: "'v run_record \<Rightarrow> string option \<times> string"
  ho_git :: "string list \<Rightarrow> string option"
  ho_platform :: platform_info
  ho_timestamp :: string
  ho_start :: string
  ho_end :: string
  ho_now :: string

text \<open>The constructor; \<open>resolve\<close> makes the root of the store absolute.\<close>

definition new_logger :: "(string \<Rightarrow> path) \<Rightarrow> string \<Rightarrow> string \<Rightarrow> file_system \<Rightarrow> seeds \<Rightarrow> 'v logger" where
  "new_logger resolve experiment_name store_root files sd =
     \<lparr>lg_experiment_name = experiment_name, lg_store = resolve store_root, lg_current_run = None,
      lg_files = files, lg_seeds = sd\<rparr>"

text \<open>\<open>dict.update\<close>: the position of a key that is present is kept.\<close>

definition dict_update :: "(string \<times> 'v) list \<Rightarrow> (string \<times> 'v) list \<Rightarrow> (string \<times> 'v) list" where
  "dict_update d new = fold (\<lambda>(k, v). AList.update k v) new d"

definition no_active_run :: "string \<Rightarrow> string" where
  "no_active_run what = ''No active run. Call start_run() before logging '' @ what @ ''.''"

definition log_parameters :: "(string \<times> 'v) list \<Rightarrow> 'v logger \<Rightarrow> (tracking_error, unit, 'v logger) eff" where
  "log_parameters params lg =
     (case lg_current_run lg of
        None \<Rightarrow> (Inl (NoActiveRun (no_active_run ''parameters'')), lg)
      | Some run \<Rightarrow> (Inr (), lg\<lparr>lg_current_run := Some (run\<lparr>rr_parameters := dict_update (rr_parameters run) params\<rparr>)\<rparr>))"

definition log_metrics :: "(string \<times> 'v) list \<Rightarrow> 'v logger \<Rightarrow> (tracking_error, unit, 'v logger) eff" where
  "log_metrics metrics lg =
     (case lg_current_run lg of
        None \<Rightarrow> (Inl (NoActiveRun (no_active_run ''metrics'')), lg)
      | Some run \<Rightarrow> (Inr (), lg\<lparr>lg_current_run := Some (run\<lparr>rr_metrics := dict_update (rr_metrics run) metrics\<rparr>)\<rparr>))"

definition log_artifact ::
  "'v host \<Rightarrow> path \<Rightarrow> string \<Rightarrow> 'v logger \<Rightarrow> (tracking_error, manifest, 'v logger) eff" where
  "log_artifact h src content_type lg =
     (case lg_current_run lg of
        None \<Rightarrow> (Inl (NoActiveRun (no_active_run ''artifacts'')), lg)
      | Some run \<Rightarrow>
          (case store_file (ho_digest h) (lg_store lg) (ho_now h) src (rr_run_id run) content_type (lg_files lg) of
             (Inl e, fs) \<Rightarrow> (Inl e, lg\<lparr>lg_files := fs\<rparr>)
           | (Inr m, fs) \<Rightarrow>
               (Inr m, lg\<lparr>lg_files := fs, lg_current_run := Some (run\<lparr>rr_artifacts := rr_artifacts run @ [m]\<rparr>)\<rparr>)))"

definition flush_run_manifest :: "'v host \<Rightarrow> 'v logger \<Rightarrow> (tracking_error, unit, 'v logger) eff" where
  "flush_run_manifest h lg =
     (case lg_current_run lg of
        None \<Rightarrow> (Inr (), lg)
      | Some run \<Rightarrow>
          (case store_json (ho_digest h) (lg_store lg) (ho_now h) (ho_dump h) run (rr_run_id run)
                  ''run_manifest.json'' (lg_files lg) of
             (Inl e, fs) \<Rightarrow> (Inl e, lg\<lparr>lg_files := fs\<rparr>)
           | (Inr m, fs) \<Rightarrow> (Inr (), lg\<lparr>lg_files := fs\<rparr>)))"

datatype 'a outcome = Returned 'a | Raised string | Interrupted

fun error_text :: "tracking_error \<Rightarrow> string" where
  "error_text (FileNotFound src) =
     ''Source file for artifact does not exist: '' @ concat (map (\<lambda>c. ''/'' @ c) src)"
| "error_text (NoActiveRun msg) = msg"
| "error_text (SerializationError msg) = msg"

definition on_run :: "('v run_record \<Rightarrow> 'v run_record) \<Rightarrow> 'v logger \<Rightarrow> 'v logger" where
  "on_run f lg = lg\<lparr>lg_current_run := map_option f (lg_current_run lg)\<rparr>"

definition run_id_of :: "string option \<Rightarrow> string \<Rightarrow> int \<Rightarrow> string" where
  "run_id_of run_name timestamp seed =
     (case run_name of Some (c # cs) \<Rightarrow> c # cs | _ \<Rightarrow> ''run'') @ ''_'' @ timestamp @ ''_'' @ show_int seed"

text \<open>The end of the \<open>with\<close> block, with the body's outcome.\<close>

definition finish_run :: "'v host \<Rightarrow> 'a outcome \<Rightarrow> 'v logger \<Rightarrow> 'a outcome \<times> 'v logger" where
  "finish_run h res lg =
     (let lg1 = (case res of Returned _ \<Rightarrow> on_run (rr_status_update (\<lambda>_. ''SUCCESS'')) lg
                 | Raised err \<Rightarrow> on_run (\<lambda>r. r\<lparr>rr_status := ''FAILED'', rr_error_log := Some err\<rparr>) lg
                 | Interrupted \<Rightarrow> lg);
          lg2 = on_run (rr_end_time_update (\<lambda>_. Some (ho_end h))) lg1
      in case flush_run_manifest h lg2 of
           (Inl e, lg3) \<Rightarrow> (Raised (error_text e), lg3)
         | (Inr _, lg3) \<Rightarrow> (res, lg3))"

definition new_run :: "'v host \<Rightarrow> string option \<Rightarrow> int \<Rightarrow> 'v logger \<Rightarrow> 'v run_record" where
  "new_run h run_name seed lg =
     \<lparr>rr_run_id = run_id_of run_name (ho_timestamp h) seed,
      rr_experiment_name = lg_experiment_name lg, rr_seed = seed, rr_status = ''RUNNING'',
      rr_start_time = ho_start h, rr_end_time = None,
      rr_git_state = Some (capture_git_state (ho_git h)),
      rr_hardware_state = Some (capture_hardware_state (ho_platform h)),
      rr_parameters = [], rr_metrics = [], rr_artifacts = [], rr_error_log = None\<rparr>"

definition start_run ::
  "'v host \<Rightarrow> string option \<Rightarrow> int \<Rightarrow> ('v logger \<Rightarrow> 'a outcome \<times> 'v logger) \<Rightarrow> 'v logger \<Rightarrow> 'a outcome \<times> 'v logger" where
  "start_run h run_name seed body lg =
     (case set_global_seed (pi_device (ho_platform h) \<noteq> None) seed (lg_seeds lg) of
        (Inl e, s) \<Rightarrow> (Raised e, lg\<lparr>lg_seeds := s\<rparr>)
      | (Inr _, s) \<Rightarrow>
          let (res, lg') = body (lg\<lparr>lg_seeds := s, lg_current_run := Some (new_run h run_name seed lg)\<rparr>)
          in finish_run h res lg')"

section \<open>Runs whose body logs\<close>

datatype 'v log_op =
    Log_Parameters "(string \<times> 'v) list"
  | Log_Metrics "(string \<times> 'v) list"
  | Log_Artifact path string

definition log_step :: "'v host \<Rightarrow> 'v log_op \<Rightarrow> 'v logger \<Rightarrow> (tracking_error, unit, 'v logger) eff" where
  "log_step h op lg =
     (case op of
        Log_Parameters params \<Rightarrow> log_parameters params lg
      | Log_Metrics metrics \<Rightarrow> log_metrics metrics lg
      | Log_Artifact src content_type \<Rightarrow> eff_bind (log_artifact h src content_type lg) (\<lambda>m lg'. (Inr (), lg')))"

text \<open>A body that logs in order and raises the first error.\<close>

fun log_body :: "'v host \<Rightarrow> 'v log_op list \<Rightarrow> 'v logger \<Rightarrow> unit outcome \<times> 'v logger" where
  "log_body h [] lg = (Returned (), lg)"
| "log_body h (op # ops) lg =
     (case log_step h op lg of
        (Inl e, lg') \<Rightarrow> (Raised (error_text e), lg')
      | (Inr _, lg') \<Rightarrow> log_body h ops lg')"

definition artifact_names :: "'v log_op list \<Rightarrow> string list" where
  "artifact_names ops = concat (map (\<lambda>op. case op of Log_Artifact src _ \<Rightarrow> [last src] | _ \<Rightarrow> []) ops)"

text \<open>The artifacts of the current run are the files with their names, and all of them verify.\<close>

definition artifacts_ok :: "'v host \<Rightarrow> 'v logger \<Rightarrow> bool" where
  "artifacts_ok h lg \<longleftrightarrow>
     (case lg_current_run lg of None \<Rightarrow> True
      | Some run \<Rightarrow> \<forall>m \<in> set (rr_artifacts run).
          mf_relative_path m = [rr_run_id run, mf_filename m] \<and>
          verifies (ho_digest h) (lg_store lg) m (lg_files lg))"

definition logged_names :: "'v logger \<Rightarrow> string set" where
  "logged_names lg = (case lg_current_run lg of None \<Rightarrow> {} | Some run \<Rightarrow> mf_filename ` set (rr_artifacts run))"

definition run_of :: "'v logger \<Rightarrow> string option" where
  "run_of lg = map_option rr_run_id (lg_current_run lg)"

lemma log_artifact_ok:
  assumes ok: "artifacts_ok h lg" and fresh: "last src \<notin> logged_names lg"
    and op: "log_artifact h src ctype lg = (r, lg')"
  shows "artifacts_ok h lg'" "logged_names lg' \<subseteq> insert (last src) (logged_names lg)"
    "run_of lg' = run_of lg" "lg_store lg' = lg_store lg"
proof -
  have "artifacts_ok h lg' \<and> logged_names lg' \<subseteq> insert (last src) (logged_names lg) \<and>
    run_of lg' = run_of lg \<and> lg_store lg' = lg_store lg"
  proof (cases "lg_current_run lg")
    case None
    with op ok show ?thesis by (auto simp: log_artifact_def)
  next
    case (Some run)
    define i where "i = (src, rr_run_id run, ctype)"
    obtain q fs where st: "file_op (ho_digest h) (lg_store lg) (ho_now h) i (lg_files lg) = (q, fs)" by fastforce
    have stable: "verifies (ho_digest h) (lg_store lg) m fs" if m: "m \<in> set (rr_artifacts run)" for m
    proof (rule file_store.verifies_stable[OF _ st])
      show "verifies (ho_digest h) (lg_store lg) m (lg_files lg)" using ok Some m by (simp add: artifacts_ok_def)
      have "mf_filename m \<noteq> last src" using fresh Some m by (force simp: logged_names_def)
      moreover have "mf_relative_path m = [rr_run_id run, mf_filename m]" using ok Some m by (simp add: artifacts_ok_def)
      ultimately show "lg_store lg @ mf_relative_path m \<noteq> (case i of (src, run_id, ctype) \<Rightarrow> lg_store lg @ [run_id, last src])"
        by (simp add: i_def)
    qed
    have new: "mf_relative_path m = [rr_run_id run, mf_filename m] \<and> mf_filename m = last src \<and>
        verifies (ho_digest h) (lg_store lg) m fs" if "q = Inr m" for m
      using st that file_store.op_verifies[OF st[unfolded that]] by (auto simp: file_op_def i_def dest!: store_file_result)
    show ?thesis
      using op Some st stable new ok
      by (auto simp: log_artifact_def file_op_def i_def artifacts_ok_def logged_names_def run_of_def split: sum.splits)
  qed
  then show "artifacts_ok h lg'" "logged_names lg' \<subseteq> insert (last src) (logged_names lg)"
    "run_of lg' = run_of lg" "lg_store lg' = lg_store lg" by blast+
qed

lemma log_data_ok:
  assumes "log_step h op lg = (r, lg')" "\<And>src ctype. op \<noteq> Log_Artifact src ctype"
  shows "artifacts_ok h lg' = artifacts_ok h lg" "logged_names lg' = logged_names lg"
    "run_of lg' = run_of lg" "lg_store lg' = lg_store lg"
  using assms
  by (auto simp: log_step_def log_parameters_def log_metrics_def artifacts_ok_def logged_names_def run_of_def
      split: log_op.splits option.splits)

lemma log_body_ok:
  assumes "artifacts_ok h lg" "log_body h ops lg = (r, lg')"
    "distinct (artifact_names ops)" "logged_names lg \<inter> set (artifact_names ops) = {}"
  shows "artifacts_ok h lg' \<and> logged_names lg' \<subseteq> logged_names lg \<union> set (artifact_names ops) \<and>
    run_of lg' = run_of lg \<and> lg_store lg' = lg_store lg"
  using assms
proof (induction ops arbitrary: lg)
  case (Cons op ops)
  obtain q lg1 where st: "log_step h op lg = (q, lg1)" by fastforce
  have step: "artifacts_ok h lg1 \<and> logged_names lg1 \<subseteq> logged_names lg \<union> set (artifact_names [op]) \<and>
    run_of lg1 = run_of lg \<and> lg_store lg1 = lg_store lg"
  proof (cases op)
    case (Log_Artifact src ctype)
    obtain q' lg2 where la: "log_artifact h src ctype lg = (q', lg2)" by fastforce
    have "last src \<notin> logged_names lg" using Cons.prems(4) Log_Artifact by (auto simp: artifact_names_def)
    note facts = log_artifact_ok[OF Cons.prems(1) this la]
    have "lg1 = lg2" using st la by (auto simp: log_step_def Log_Artifact eff_bind_def split: sum.splits)
    then show ?thesis using facts by (simp add: Log_Artifact artifact_names_def)
  qed (use log_data_ok[OF st] Cons.prems(1) in auto)
  have names: "artifact_names (op # ops) = artifact_names [op] @ artifact_names ops" by (simp add: artifact_names_def)
  show ?case
  proof (cases q)
    case (Inl e)
    then show ?thesis using Cons.prems(2) st step by (auto simp: names)
  next
    case (Inr u)
    have "log_body h ops lg1 = (r, lg')" using Cons.prems(2) st Inr by simp
    from Cons.IH[OF _ this] show ?thesis using step Cons.prems(3,4) by (auto simp: names)
  qed
qed auto

section \<open>The end of a run\<close>

lemma with_suffix_manifest [simp]: "with_suffix ''.json'' ''run_manifest.json'' = ''run_manifest.json''"
  by code_simp

lemma finish_run_result:
  assumes run: "lg_current_run lg = Some run" and fin: "finish_run h res lg = (res', lg')"
    and dump: "\<And>r. fst (ho_dump h r) = None"
  shows "res' = res"
    "\<exists>run'. lg_current_run lg' = Some run' \<and> rr_run_id run' = rr_run_id run \<and>
       rr_artifacts run' = rr_artifacts run \<and> rr_metrics run' = rr_metrics run \<and> rr_parameters run' = rr_parameters run \<and>
       rr_experiment_name run' = rr_experiment_name run \<and> rr_end_time run' = Some (ho_end h) \<and>
       rr_status run' = (case res of Returned _ \<Rightarrow> ''SUCCESS'' | Raised e \<Rightarrow> ''FAILED'' | Interrupted \<Rightarrow> rr_status run) \<and>
       (\<forall>e. res = Raised e \<longrightarrow> rr_error_log run' = Some e) \<and>
       lg_files lg' (lg_store lg @ [rr_run_id run, ''run_manifest.json'']) = Some (snd (ho_dump h run'))"
    "p \<noteq> lg_store lg @ [rr_run_id run, ''run_manifest.json''] \<Longrightarrow> lg_files lg' p = lg_files lg p"
    "lg_store lg' = lg_store lg"
proof -
  define run' where "run' = (case res of Returned _ \<Rightarrow> run\<lparr>rr_status := ''SUCCESS'', rr_end_time := Some (ho_end h)\<rparr>
    | Raised e \<Rightarrow> run\<lparr>rr_status := ''FAILED'', rr_error_log := Some e, rr_end_time := Some (ho_end h)\<rparr>
    | Interrupted \<Rightarrow> run\<lparr>rr_end_time := Some (ho_end h)\<rparr>)"
  obtain q fs where st: "store_serialized (ho_digest h) (lg_store lg) (ho_now h) (ho_dump h) ''.json'' ''application/json''
      run' (rr_run_id run) ''run_manifest.json'' (lg_files lg) = (q, fs)" by fastforce
  note facts = store_serialized_contract[OF st, simplified]
  obtain m where m: "q = Inr m" "fs (lg_store lg @ [rr_run_id run, ''run_manifest.json'']) = Some (snd (ho_dump h run'))"
    using facts(3)[OF dump] by blast
  have rest: "res' = res \<and> lg_current_run lg' = Some run' \<and> lg_files lg' = fs \<and> lg_store lg' = lg_store lg"
    using fin run st m(1)
    by (cases res) (auto simp: finish_run_def on_run_def flush_run_manifest_def store_json_def run'_def Let_def)
  then show "res' = res" "lg_store lg' = lg_store lg" by simp_all
  show "p \<noteq> lg_store lg @ [rr_run_id run, ''run_manifest.json''] \<Longrightarrow> lg_files lg' p = lg_files lg p"
    using facts(2)[of p] rest by simp
  show "\<exists>run'. lg_current_run lg' = Some run' \<and> rr_run_id run' = rr_run_id run \<and>
       rr_artifacts run' = rr_artifacts run \<and> rr_metrics run' = rr_metrics run \<and> rr_parameters run' = rr_parameters run \<and>
       rr_experiment_name run' = rr_experiment_name run \<and> rr_end_time run' = Some (ho_end h) \<and>
       rr_status run' = (case res of Returned _ \<Rightarrow> ''SUCCESS'' | Raised e \<Rightarrow> ''FAILED'' | Interrupted \<Rightarrow> rr_status run) \<and>
       (\<forall>e. res = Raised e \<longrightarrow> rr_error_log run' = Some e) \<and>
       lg_files lg' (lg_store lg @ [rr_run_id run, ''run_manifest.json'']) = Some (snd (ho_dump h run'))"
    using rest m(2) by (intro exI[of _ run']) (auto simp: run'_def split: outcome.splits)
qed

lemma start_run_body:
  assumes "start_run h run_name seed body lg = (res, lg')" "0 \<le> seed" "seed < 2 ^ 32"
  obtains s res1 lg1 where
    "body (lg\<lparr>lg_seeds := s, lg_current_run := Some (new_run h run_name seed lg)\<rparr>) = (res1, lg1)"
    "finish_run h res1 lg1 = (res, lg')"
  using assms by (auto simp: start_run_def set_global_seed_def Let_def split: prod.splits)

text \<open>
  A run with a seed of 32 bits, whose body stays in that run, ends with its record as manifest
  on disk: under the run's id, with the end time, with status \<open>SUCCESS\<close> if the body returned and
  with status \<open>FAILED\<close> and the error's text if it raised; and the outcome of the body is kept.
\<close>

theorem run_manifest_written:
  assumes "start_run h run_name seed body lg = (res, lg')"
    and "0 \<le> seed" "seed < 2 ^ 32"
    and "\<And>lg0. run_of (snd (body lg0)) = run_of lg0" "\<And>lg0. lg_store (snd (body lg0)) = lg_store lg0"
    and "\<And>r. fst (ho_dump h r) = None"
  shows "\<exists>run. lg_current_run lg' = Some run \<and> rr_run_id run = run_id_of run_name (ho_timestamp h) seed \<and>
    lg_files lg' (lg_store lg @ [rr_run_id run, ''run_manifest.json'']) = Some (snd (ho_dump h run)) \<and>
    rr_end_time run = Some (ho_end h) \<and> ((\<exists>x. res = Returned x) \<longrightarrow> rr_status run = ''SUCCESS'') \<and>
    (\<forall>e. res = Raised e \<longrightarrow> rr_status run = ''FAILED'' \<and> rr_error_log run = Some e)"
proof -
  obtain s res1 lg1 where
    b: "body (lg\<lparr>lg_seeds := s, lg_current_run := Some (new_run h run_name seed lg)\<rparr>) = (res1, lg1)"
    and f: "finish_run h res1 lg1 = (res, lg')"
    using start_run_body[OF assms(1-3)] .
  have "run_of lg1 = Some (run_id_of run_name (ho_timestamp h) seed)" "lg_store lg1 = lg_store lg"
    using assms(4,5)[of "lg\<lparr>lg_seeds := s, lg_current_run := Some (new_run h run_name seed lg)\<rparr>"] b
    by (simp_all add: run_of_def new_run_def)
  then obtain run1 where run1: "lg_current_run lg1 = Some run1" "rr_run_id run1 = run_id_of run_name (ho_timestamp h) seed" "lg_store lg1 = lg_store lg"
    by (auto simp: run_of_def)
  note fin = finish_run_result[OF run1(1) f assms(6)]
  show ?thesis using fin(1,2) run1 by auto
qed

lemma log_step_run: "log_step h op lg = (r, lg') \<Longrightarrow> run_of lg' = run_of lg \<and> lg_store lg' = lg_store lg"
  by (auto simp: log_step_def log_parameters_def log_metrics_def log_artifact_def eff_bind_def run_of_def
      split: log_op.splits option.splits prod.splits sum.splits)

lemma log_body_run: "run_of (snd (log_body h ops lg)) = run_of lg \<and> lg_store (snd (log_body h ops lg)) = lg_store lg"
  by (induction ops arbitrary: lg) (auto split: prod.splits sum.splits dest: log_step_run)

text \<open>A host without CUDA and git, and a logger over a disk with one file.\<close>

definition sample_host :: "nat host" where
  "sample_host = \<lparr>ho_digest = rev, ho_dump = (\<lambda>r. (None, rr_run_id r @ rr_status r)), ho_git = (\<lambda>_. None),
     ho_platform = \<lparr>pi_platform = ''Linux'', pi_python_version = ''3.11'', pi_torch_version = ''2.3'',
       pi_cuda_version = None, pi_cpu_count = Some 8, pi_device = None\<rparr>,
     ho_timestamp = ''20240101_000000'', ho_start = ''t0'', ho_end = ''t1'', ho_now = ''t2''\<rparr>"

definition sample_logger :: "nat logger" where
  "sample_logger = \<lparr>lg_experiment_name = ''bench'', lg_store = [''store''], lg_current_run = None,
     lg_files = [[''tmp'', ''a.csv''] \<mapsto> ''1,2''],
     lg_seeds = \<lparr>sd_random = None, sd_numpy = None, sd_torch = None, sd_cuda = None,
                 sd_deterministic = False, sd_benchmark = True\<rparr>\<rparr>"

definition sample_ops :: "nat log_op list" where
  "sample_ops = [Log_Metrics [(''ttft'', 3)], Log_Artifact [''tmp'', ''a.csv''] ''raw'', Log_Artifact [''tmp'', ''b.csv''] ''raw'']"

theorem run_manifest_written_witness:
  "\<exists>run. lg_current_run (snd (start_run sample_host None 42 (log_body sample_host sample_ops) sample_logger)) = Some run \<and>
     rr_run_id run = run_id_of None ''20240101_000000'' 42"
  using run_manifest_written[of sample_host None 42 "log_body sample_host sample_ops" sample_logger, OF prod.collapse[symmetric]]
    log_body_run[of sample_host sample_ops]
  by (auto simp: sample_host_def)

text \<open>
  C37: The artifacts a body logs under distinct names, none of them that of the manifest, still
  verify against their recorded digests when the run has ended, whether the body raised or not. (The
  seed has 32 bits and the record of the run can be serialized.)
\<close>

theorem run_artifacts_verify:
  assumes "start_run h run_name seed (log_body h ops) lg = (res, lg')"
    and "0 \<le> seed" "seed < 2 ^ 32"
    and "distinct (artifact_names ops)" "''run_manifest.json'' \<notin> set (artifact_names ops)"
    and "\<And>r. fst (ho_dump h r) = None"
    and "lg_current_run lg' = Some run" "m \<in> set (rr_artifacts run)"
  shows "verifies (ho_digest h) (lg_store lg) m (lg_files lg')"
proof -
  obtain s res1 lg1 where
    b: "log_body h ops (lg\<lparr>lg_seeds := s, lg_current_run := Some (new_run h run_name seed lg)\<rparr>) = (res1, lg1)"
    (is "log_body h ops ?lg0 = _") and f: "finish_run h res1 lg1 = (res, lg')"
    using start_run_body[OF assms(1-3)] .
  have "artifacts_ok h ?lg0" "logged_names ?lg0 = {}"
    by (simp_all add: artifacts_ok_def logged_names_def new_run_def)
  with log_body_ok[OF _ b assms(4)] have ok: "artifacts_ok h lg1" "logged_names lg1 \<subseteq> set (artifact_names ops)"
    "run_of lg1 = run_of ?lg0" "lg_store lg1 = lg_store lg" by auto
  then obtain run1 where run1: "lg_current_run lg1 = Some run1" by (auto simp: run_of_def)
  note fin = finish_run_result[OF run1 f assms(6)]
  have m: "m \<in> set (rr_artifacts run1)" using fin(2) assms(7,8) by auto
  then have "mf_filename m \<noteq> ''run_manifest.json''" using ok(2) run1 assms(5) by (auto simp: logged_names_def)
  moreover have "mf_relative_path m = [rr_run_id run1, mf_filename m] \<and>
    verifies (ho_digest h) (lg_store lg1) m (lg_files lg1)" using ok(1) run1 m by (simp add: artifacts_ok_def)
  ultimately show ?thesis using fin(3)[of "lg_store lg1 @ mf_relative_path m"] ok(4)
    by (auto simp: verifies_def)
qed

lemma sample_run:
  "start_run sample_host None 42 (log_body sample_host sample_ops) sample_logger = (res, lg') \<Longrightarrow>
   \<exists>run m. lg_current_run lg' = Some run \<and> rr_artifacts run = [m] \<and> mf_filename m = ''a.csv''"
  by (auto simp: start_run_def set_global_seed_def sample_host_def sample_logger_def sample_ops_def log_step_def
      log_metrics_def log_artifact_def store_file_def finish_run_def flush_run_manifest_def store_json_def
      store_serialized_def on_run_def new_run_def Let_def eff_bind_def split: if_splits)

theorem run_artifacts_verify_witness:
  "\<exists>lg' run m. start_run sample_host None 42 (log_body sample_host sample_ops) sample_logger = (Raised (error_text (FileNotFound [''tmp'', ''b.csv''])), lg') \<and>
     lg_current_run lg' = Some run \<and> m \<in> set (rr_artifacts run) \<and> verifies rev [''store''] m (lg_files lg')"
proof -
  obtain res lg' where st: "start_run sample_host None 42 (log_body sample_host sample_ops) sample_logger = (res, lg')"
    by fastforce
  obtain run m where m: "lg_current_run lg' = Some run" "m \<in> set (rr_artifacts run)" using sample_run[OF st] by auto
  have "verifies (ho_digest sample_host) (lg_store sample_logger) m (lg_files lg')"
    by (rule run_artifacts_verify[OF st _ _ _ _ _ m]) (auto simp: sample_ops_def artifact_names_def sample_host_def)
  moreover have "res = Raised (error_text (FileNotFound [''tmp'', ''b.csv'']))"
    using st by (auto simp: start_run_def set_global_seed_def sample_host_def sample_logger_def sample_ops_def log_step_def
      log_metrics_def log_artifact_def store_file_def finish_run_def flush_run_manifest_def store_json_def
      store_serialized_def on_run_def new_run_def Let_def eff_bind_def split: if_splits)
  ultimately show ?thesis using st m by (auto simp: sample_host_def sample_logger_def)
qed

text \<open>
  Two files with one name in one run overwrite each other: unless their digests agree, the
  manifest of the first does not verify any more.
\<close>

theorem artifact_name_clash:
  assumes "store_file digest base now src1 run_id ctype1 fs = (Inr m1, fs1)"
    and "store_file digest base now src2 run_id ctype2 fs1 = (Inr m2, fs2)"
    and "last src1 = last src2" "mf_sha256 m1 \<noteq> mf_sha256 m2"
  shows "\<not> verifies digest base m1 fs2"
  using assms store_file_result[OF assms(1)] store_file_result[OF assms(2)] by (auto simp: verifies_def)

theorem artifact_name_clash_witness:
  "\<exists>m1 m2 fs1 fs2. store_file rev [''s''] ''t'' [''a'', ''x''] ''r'' ''raw'' [[''a'', ''x''] \<mapsto> ''1'', [''b'', ''x''] \<mapsto> ''2''] = (Inr m1, fs1) \<and>
     store_file rev [''s''] ''t'' [''b'', ''x''] ''r'' ''raw'' fs1 = (Inr m2, fs2) \<and> \<not> verifies rev [''s''] m1 fs2"
proof -
  obtain m1 fs1 where s1: "store_file rev [''s''] ''t'' [''a'', ''x''] ''r'' ''raw'' [[''a'', ''x''] \<mapsto> ''1'', [''b'', ''x''] \<mapsto> ''2''] = (Inr m1, fs1)"
    "mf_sha256 m1 = ''1''" "fs1 [''b'', ''x''] = Some ''2''"
    by (auto simp: store_file_def Let_def sha_of_content)
  obtain m2 fs2 where s2: "store_file rev [''s''] ''t'' [''b'', ''x''] ''r'' ''raw'' fs1 = (Inr m2, fs2)" "mf_sha256 m2 = ''2''"
    using s1(3) by (auto simp: store_file_def Let_def sha_of_content)
  from artifact_name_clash[OF s1(1) s2(1)] s1(2) s2(2) show ?thesis using s1(1) s2(1) by auto
qed

end
