(* ===== verification/Orchestrator.thy ===== *)
theory Orchestrator
  imports Experiment Statistics Workloads Accuracy
begin

text \<open>
  \<open>eval_platform/orchestrator.py\<close>: the end-to-end benchmark as a tracked run over the latency profiler,
  the statistics and the error analysis, and the benchmark matrix. The times that the device reports
  are an argument: \<open>bi_elapsed i n\<close> is the n-th measured call of the i-th latency run; so is whether the
  n-th call of the step function in that run raises (\<open>bi_raises i n\<close>).
\<close>

section \<open>The end-to-end benchmark\<close>

datatype logged_value = Int_value int | Real_value real

record suite_result =
  su_experiment_name :: string
  su_run_id :: string
  su_accuracy_metrics :: "accuracy_result option"
  su_latency_summary :: distribution_summary
  su_error_report :: "analysis_report option"
  su_custom_metrics :: "(string \<times> logged_value) list"

record 'm benchmark_input =
  bi_cuda :: bool
  bi_raises :: "nat \<Rightarrow> nat \<Rightarrow> string option"
  bi_elapsed :: "nat \<Rightarrow> nat \<Rightarrow> real"
  bi_lib :: stats_lib
  bi_prompt_len :: int
  bi_gen_len :: int
  bi_num_latency_runs :: int
  bi_samples :: "'m sample list option"
  bi_baseline :: "string list option"
  bi_quantized :: "string list option"
  bi_seed :: int

fun stats_error_text :: "stats_error \<Rightarrow> string" where
  "stats_error_text EmptyDataset = ''Cannot compute statistical distribution on empty or NaN dataset.''"
| "stats_error_text CudaUnavailable = ''CUDA device required for LatencyEvaluator.''"
| "stats_error_text (StepFailed e) = e"

fun workload_error_text :: "workload_error \<Rightarrow> string" where
  "workload_error_text (ValueError msg) = msg"
| "workload_error_text (FileNotFoundError msg) = msg"
| "workload_error_text JSONDecodeError = ''''"

text \<open>The latency runs: all inter-token latencies, and the profile of the last run.\<close>

fun latency_runs ::
  "'m benchmark_input \<Rightarrow> nat \<Rightarrow> nat \<Rightarrow> real list \<Rightarrow> latency_profile option \<Rightarrow>
   stats_error + real list \<times> latency_profile option" where
  "latency_runs bi i 0 latencies lastp = Inr (latencies, lastp)"
| "latency_runs bi i (Suc n) latencies lastp =
     (case profile_generation_loop (bi_cuda bi) (bi_raises bi i) 2 (bi_elapsed bi i) (bi_prompt_len bi) (bi_gen_len bi) 1 of
        Inl e \<Rightarrow> Inl e
      | Inr (calls, profile) \<Rightarrow> latency_runs bi (Suc i) n (latencies @ lp_latencies profile) (Some profile))"

definition error_analysis :: "'m benchmark_input \<Rightarrow> workload_error + analysis_report option" where
  "error_analysis bi =
     (case (bi_samples bi, bi_baseline bi, bi_quantized bi) of
        (Some (s # ss), Some (b # bs), Some (q # qs)) \<Rightarrow>
          res_bind (analyze_quantization_drift (s # ss) (b # bs) (q # qs)) (\<lambda>report. Inr (Some report))
      | _ \<Rightarrow> Inr None)"

definition run_parameters :: "'m benchmark_input \<Rightarrow> (string \<times> logged_value) list" where
  "run_parameters bi =
     [(''prompt_len'', Int_value (bi_prompt_len bi)), (''gen_len'', Int_value (bi_gen_len bi)),
      (''num_latency_runs'', Int_value (bi_num_latency_runs bi)), (''seed'', Int_value (bi_seed bi))]"

definition latency_metrics :: "latency_profile option \<Rightarrow> distribution_summary \<Rightarrow> (string \<times> logged_value) list" where
  "latency_metrics lastp s =
     [(''ttft_ms'', Real_value (case lastp of Some p \<Rightarrow> lp_ttft_ms p | None \<Rightarrow> 0)),
      (''itl_mean_ms'', Real_value (ds_mean s)), (''itl_p50_ms'', Real_value (ds_p50 s)),
      (''itl_p95_ms'', Real_value (ds_p95 s)), (''itl_p99_ms'', Real_value (ds_p99 s)),
      (''prefill_tps'', Real_value (case lastp of Some p \<Rightarrow> lp_prefill_tps p | None \<Rightarrow> 0)),
      (''generation_tps'', Real_value (case lastp of Some p \<Rightarrow> lp_generation_tps p | None \<Rightarrow> 0))]"

definition drift_metrics :: "analysis_report \<Rightarrow> (string \<times> logged_value) list" where
  "drift_metrics r =
     [(''baseline_accuracy'', Real_value (ar_baseline_accuracy r)),
      (''quantized_accuracy'', Real_value (ar_quantized_accuracy r)),
      (''quant_degradation_rate'', Real_value (ar_degradation r))]"

text \<open>An operation of the logger inside the body: its error is raised.\<close>

definition logged ::
  "(tracking_error, 'a, 'v logger) eff \<Rightarrow> ('v logger \<Rightarrow> 'r outcome \<times> 'v logger) \<Rightarrow> 'r outcome \<times> 'v logger" where
  "logged m f = (case m of (Inl e, lg) \<Rightarrow> (Raised (error_text e), lg) | (Inr _, lg) \<Rightarrow> f lg)"

definition benchmark_body ::
  "string \<Rightarrow> 'm benchmark_input \<Rightarrow> logged_value logger \<Rightarrow> suite_result outcome \<times> logged_value logger" where
  "benchmark_body experiment_name bi lg =
     logged (log_parameters (run_parameters bi) lg) (\<lambda>lg1.
     case latency_runs bi 0 (nat (bi_num_latency_runs bi)) [] None of
       Inl e \<Rightarrow> (Raised (stats_error_text e), lg1)
     | Inr (latencies, lastp) \<Rightarrow>
     case compute_distribution (bi_lib bi) (map Some latencies) 100 (95 / 100) 42 of
       Inl e \<Rightarrow> (Raised (stats_error_text e), lg1)
     | Inr summary \<Rightarrow>
     logged (log_metrics (latency_metrics lastp summary) lg1) (\<lambda>lg2.
     case error_analysis bi of
       Inl e \<Rightarrow> (Raised (workload_error_text e), lg2)
     | Inr report \<Rightarrow>
     let suite = \<lambda>lg. (Returned \<lparr>su_experiment_name = experiment_name,
                         su_run_id = (case lg_current_run lg of Some run \<Rightarrow> rr_run_id run | None \<Rightarrow> ''''),
                         su_accuracy_metrics = None, su_latency_summary = summary, su_error_report = report,
                         su_custom_metrics = []\<rparr>, lg)
     in case report of
          None \<Rightarrow> suite lg2
        | Some r \<Rightarrow> logged (log_metrics (drift_metrics r) lg2) suite))"

definition run_end_to_end_benchmark ::
  "logged_value host \<Rightarrow> 'm benchmark_input \<Rightarrow> logged_value logger \<Rightarrow> suite_result outcome \<times> logged_value logger" where
  "run_end_to_end_benchmark h bi lg =
     start_run h (Some ''eval_suite'') (bi_seed bi) (benchmark_body (lg_experiment_name lg) bi) lg"

text \<open>The constructor, with the parts that the benchmark uses; the accuracy evaluator is not one of them.\<close>

record orchestrator =
  eo_experiment_name :: string
  eo_logger :: "logged_value logger"
  eo_task_name :: string
  eo_warmup_runs :: nat

definition orchestrator_init :: "(string \<Rightarrow> path) \<Rightarrow> string \<Rightarrow> string \<Rightarrow> file_system \<Rightarrow> seeds \<Rightarrow> orchestrator" where
  "orchestrator_init resolve experiment_name store_root files sd =
     \<lparr>eo_experiment_name = experiment_name,
      eo_logger = new_logger resolve experiment_name store_root files sd,
      eo_task_name = ''accuracy_benchmark'', eo_warmup_runs = 2\<rparr>"

lemma orchestrator_init_sel:
  "eo_experiment_name (orchestrator_init resolve name store_root files sd) = lg_experiment_name (eo_logger (orchestrator_init resolve name store_root files sd))"
  "lg_current_run (eo_logger (orchestrator_init resolve name store_root files sd)) = None"
  "eo_warmup_runs (orchestrator_init resolve name store_root files sd) = 2"
  by (simp_all add: orchestrator_init_def new_logger_def)

section \<open>The benchmark matrix\<close>

datatype precision_mode = FP16 | FP32 | INT8 | INT4
datatype kernel_backend = CUDA_FLASH_V2 | PYTORCH_SDPA | TRITON

record point_config =
  pc_batch_size :: int
  pc_prompt_len :: int
  pc_gen_len :: int
  pc_precision :: precision_mode
  pc_kernel_backend :: kernel_backend

record matrix_config =
  mc_batch_sizes :: "int list"
  mc_context_lengths :: "int list"
  mc_precisions :: "precision_mode list"
  mc_kernel_backends :: "kernel_backend list"
  mc_gen_length :: int

record matrix_result =
  mr_status :: string
  mr_throughput_tps :: real
  mr_ttft_ms :: real
  mr_peak_vram_mb :: real

definition default_result :: matrix_result where
  "default_result = \<lparr>mr_status = ''SUCCESS'', mr_throughput_tps = 120, mr_ttft_ms = 15, mr_peak_vram_mb = 256\<rparr>"

definition estimate_vram_bytes :: "point_config \<Rightarrow> int" where
  "estimate_vram_bytes config =
     (let bytes_per_elem = (if pc_precision config = FP16 \<or> pc_precision config = INT8 then 2 else 4)
      in pc_batch_size config * (pc_prompt_len config + pc_gen_len config) * 1024 * bytes_per_elem)"

definition run_matrix :: "matrix_config \<Rightarrow> matrix_result list" where
  "run_matrix cfg =
     concat (map (\<lambda>bs. concat (map (\<lambda>ctx. concat (map (\<lambda>prec.
       map (\<lambda>backend. default_result) (mc_kernel_backends cfg))
       (mc_precisions cfg))) (mc_context_lengths cfg))) (mc_batch_sizes cfg))"

section \<open>What a benchmark run leaves\<close>

definition itl_count :: "'m benchmark_input \<Rightarrow> nat" where
  "itl_count bi = max 1 (nat (bi_gen_len bi - 1))"

text \<open>No call of the step function in the runs from \<open>i\<close> to \<open>i + n\<close> raises.\<close>

definition steps_return :: "'m benchmark_input \<Rightarrow> nat \<Rightarrow> nat \<Rightarrow> bool" where
  "steps_return bi i n \<longleftrightarrow>
     list_all (\<lambda>j. list_all (\<lambda>k. bi_raises bi j k = None) [0..<length (step_calls 2 (bi_gen_len bi))]) [i..<i + n]"

lemma steps_return_Suc:
  "steps_return bi i (Suc n) \<longleftrightarrow>
     first_raise (bi_raises bi i) (length (step_calls 2 (bi_gen_len bi))) = None \<and> steps_return bi (Suc i) n"
proof -
  have "[i..<i + Suc n] = i # [Suc i..<Suc i + n]" by (simp add: upt_conv_Cons del: upt_Suc)
  then show ?thesis by (simp add: steps_return_def first_raise_None del: upt_Suc)
qed

lemma profile_result:
  "\<not> (cuda \<and> first_raise raises (length (step_calls w g)) = None) \<Longrightarrow>
     \<exists>e. profile_generation_loop cuda raises w el p g b = Inl e"
  "cuda \<Longrightarrow> first_raise raises (length (step_calls w g)) = None \<Longrightarrow>
     \<exists>calls profile. profile_generation_loop cuda raises w el p g b = Inr (calls, profile) \<and>
       length (lp_latencies profile) = max 1 (nat (g - 1))"
  by (auto simp: profile_generation_loop_def Let_def)

lemma latency_runs_result:
  "(\<forall>ls' lastp'. latency_runs bi i n ls lastp = Inr (ls', lastp') \<longrightarrow> length ls' = length ls + n * itl_count bi) \<and>
   ((\<exists>r. latency_runs bi i n ls lastp = Inr r) \<longleftrightarrow> n = 0 \<or> bi_cuda bi \<and> steps_return bi i n)"
proof (induction n arbitrary: i ls lastp)
  case (Suc n)
  let ?run = "profile_generation_loop (bi_cuda bi) (bi_raises bi i) 2 (bi_elapsed bi i) (bi_prompt_len bi) (bi_gen_len bi) 1"
  show ?case
  proof (cases "bi_cuda bi \<and> first_raise (bi_raises bi i) (length (step_calls 2 (bi_gen_len bi))) = None")
    case True
    then obtain calls profile where p: "?run = Inr (calls, profile)" "length (lp_latencies profile) = itl_count bi"
      using profile_result(2)[of "bi_cuda bi" "bi_raises bi i" 2 "bi_gen_len bi"] unfolding itl_count_def by blast
    have "latency_runs bi i (Suc n) ls lastp = latency_runs bi (Suc i) n (ls @ lp_latencies profile) (Some profile)"
      by (simp add: p(1))
    moreover have "steps_return bi (Suc i) 0" by (simp add: steps_return_def)
    ultimately show ?thesis using Suc[of "Suc i" "ls @ lp_latencies profile" "Some profile"] True p(2)
      by (cases n) (simp_all add: steps_return_Suc del: latency_runs.simps(2))
  next
    case False
    then obtain e where "?run = Inl e" using profile_result(1) by blast
    then show ?thesis using False by (auto simp: steps_return_Suc)
  qed
qed simp

lemma compute_distribution_result:
  "compute_distribution lib (map Some ls) n l s = Inr summary \<Longrightarrow> ds_count summary = length ls"
  "(\<exists>r. compute_distribution lib (map Some ls) n l s = Inr r) \<longleftrightarrow> ls \<noteq> []"
proof -
  have p: "present (map Some ls) = ls" by (induction ls) (simp_all add: present_def)
  show "compute_distribution lib (map Some ls) n l s = Inr summary \<Longrightarrow> ds_count summary = length ls"
    "(\<exists>r. compute_distribution lib (map Some ls) n l s = Inr r) \<longleftrightarrow> ls \<noteq> []"
    unfolding compute_distribution_def p by (auto simp: Let_def split: if_splits)
qed

text \<open>The output lists match the samples, or one of the three is missing or empty.\<close>

definition outputs_match :: "'m benchmark_input \<Rightarrow> bool" where
  "outputs_match bi =
     (case (bi_samples bi, bi_baseline bi, bi_quantized bi) of
        (Some (s # ss), Some (b # bs), Some (q # qs)) \<Rightarrow> length ss = length bs \<and> length ss = length qs
      | _ \<Rightarrow> True)"

lemma error_analysis_result: "(\<exists>r. error_analysis bi = Inr r) \<longleftrightarrow> outputs_match bi"
  by (auto simp: error_analysis_def outputs_match_def analyze_quantization_drift_def Let_def case_prod_beta
      split: option.splits list.splits)

lemma log_metrics_result:
  "lg_current_run lg = Some run \<Longrightarrow>
   log_metrics ms lg = (Inr (), lg\<lparr>lg_current_run := Some (run\<lparr>rr_metrics := dict_update (rr_metrics run) ms\<rparr>)\<rparr>)"
  by (simp add: log_metrics_def)

text \<open>The times that the device reported for the tokens of a run, and what the profiler makes of them.\<close>

definition run_times :: "'m benchmark_input \<Rightarrow> nat \<Rightarrow> real list" where
  "run_times bi i =
     (if bi_gen_len bi \<le> 1 then [bi_elapsed bi i 0]
      else map (\<lambda>k. bi_elapsed bi i (Suc k)) [0..<nat (bi_gen_len bi - 1)])"

definition prefill_rate :: "'m benchmark_input \<Rightarrow> nat \<Rightarrow> real" where
  "prefill_rate bi i =
     (if 0 < bi_elapsed bi i 0 then of_int (bi_prompt_len bi) / (bi_elapsed bi i 0 / 1000) else 0)"

definition generation_rate :: "'m benchmark_input \<Rightarrow> nat \<Rightarrow> real" where
  "generation_rate bi i =
     (let times = run_times bi i
      in if 0 < sum_list times then real (length times) / (sum_list times / 1000) else 0)"

lemma run_profile:
  assumes "profile_generation_loop cuda raises 2 (bi_elapsed bi i) (bi_prompt_len bi) (bi_gen_len bi) 1 = Inr (calls, profile)"
  shows "lp_latencies profile = run_times bi i" "lp_ttft_ms profile = bi_elapsed bi i 0"
    "lp_prefill_tps profile = prefill_rate bi i" "lp_generation_tps profile = generation_rate bi i"
  using assms
  by (auto simp: profile_generation_loop_def run_times_def prefill_rate_def generation_rate_def t_sum_def Let_def
      split: if_splits option.splits)

lemma latency_runs_values:
  "latency_runs bi i n ls lastp = Inr (ls', lastp') \<Longrightarrow>
   ls' = ls @ concat (map (run_times bi) [i..<i + n]) \<and>
   (if n = 0 then lastp' = lastp
    else \<exists>p. lastp' = Some p \<and> lp_ttft_ms p = bi_elapsed bi (i + n - 1) 0 \<and>
      lp_prefill_tps p = prefill_rate bi (i + n - 1) \<and> lp_generation_tps p = generation_rate bi (i + n - 1))"
proof (induction n arbitrary: i ls lastp)
  case (Suc n)
  then obtain calls profile where
    p: "profile_generation_loop (bi_cuda bi) (bi_raises bi i) 2 (bi_elapsed bi i) (bi_prompt_len bi) (bi_gen_len bi) 1 = Inr (calls, profile)"
    and rest: "latency_runs bi (Suc i) n (ls @ lp_latencies profile) (Some profile) = Inr (ls', lastp')"
    by (auto split: sum.splits prod.splits)
  have "[i..<i + Suc n] = i # [Suc i..<Suc i + n]" by (simp add: upt_conv_Cons del: upt_Suc)
  with Suc.IH[OF rest] run_profile[OF p] show ?case by (cases n) (simp_all del: upt_Suc)
qed simp

text \<open>What a successful benchmark returns and what its record holds, in terms of its inputs.\<close>

definition expected_metrics :: "'m benchmark_input \<Rightarrow> distribution_summary \<Rightarrow> analysis_report option \<Rightarrow> (string \<times> logged_value) list" where
  "expected_metrics bi s report =
     (let final = nat (bi_num_latency_runs bi) - 1 in
      [(''ttft_ms'', Real_value (bi_elapsed bi final 0)),
       (''itl_mean_ms'', Real_value (ds_mean s)), (''itl_p50_ms'', Real_value (ds_p50 s)),
       (''itl_p95_ms'', Real_value (ds_p95 s)), (''itl_p99_ms'', Real_value (ds_p99 s)),
       (''prefill_tps'', Real_value (prefill_rate bi final)), (''generation_tps'', Real_value (generation_rate bi final))] @
      (case report of None \<Rightarrow> []
       | Some r \<Rightarrow> [(''baseline_accuracy'', Real_value (ar_baseline_accuracy r)),
           (''quantized_accuracy'', Real_value (ar_quantized_accuracy r)),
           (''quant_degradation_rate'', Real_value (ar_degradation r))]))"

definition expected_report :: "'m benchmark_input \<Rightarrow> analysis_report option \<Rightarrow> bool" where
  "expected_report bi report \<longleftrightarrow>
     (case (bi_samples bi, bi_baseline bi, bi_quantized bi) of
        (Some ss, Some bs, Some qs) \<Rightarrow>
          if ss = [] \<or> bs = [] \<or> qs = [] then report = None
          else \<exists>r. report = Some r \<and> analyze_quantization_drift ss bs qs = Inr r
      | _ \<Rightarrow> report = None)"

definition suite_logged :: "'m benchmark_input \<Rightarrow> suite_result \<Rightarrow> logged_value run_record \<Rightarrow> bool" where
  "suite_logged bi suite run \<longleftrightarrow>
     su_experiment_name suite = rr_experiment_name run \<and> su_run_id suite = rr_run_id run \<and>
     su_accuracy_metrics suite = None \<and> su_custom_metrics suite = [] \<and>
     compute_distribution (bi_lib bi) (map Some (concat (map (run_times bi) [0..<nat (bi_num_latency_runs bi)]))) 100 (95 / 100) 42 =
       Inr (su_latency_summary suite) \<and>
     ds_count (su_latency_summary suite) = nat (bi_num_latency_runs bi) * itl_count bi \<and>
     expected_report bi (su_error_report suite) \<and>
     rr_parameters run =
       [(''prompt_len'', Int_value (bi_prompt_len bi)), (''gen_len'', Int_value (bi_gen_len bi)),
        (''num_latency_runs'', Int_value (bi_num_latency_runs bi)), (''seed'', Int_value (bi_seed bi))] \<and>
     rr_metrics run = expected_metrics bi (su_latency_summary suite) (su_error_report suite)"

lemma analysed_report: "error_analysis bi = Inr report \<Longrightarrow> expected_report bi report"
  by (auto simp: error_analysis_def expected_report_def res_bind_Inr_iff split: option.splits list.splits)

lemma metrics_logged:
  assumes "latency_runs bi 0 (nat (bi_num_latency_runs bi)) [] None = Inr (ls, lastp)" "0 < bi_num_latency_runs bi"
  shows "dict_update [] (latency_metrics lastp s) = expected_metrics bi s None"
    "dict_update (expected_metrics bi s None) (drift_metrics r) = expected_metrics bi s (Some r)"
proof -
  from latency_runs_values[OF assms(1)] assms(2) obtain p where "lastp = Some p"
    "lp_ttft_ms p = bi_elapsed bi (nat (bi_num_latency_runs bi) - 1) 0"
    "lp_prefill_tps p = prefill_rate bi (nat (bi_num_latency_runs bi) - 1)"
    "lp_generation_tps p = generation_rate bi (nat (bi_num_latency_runs bi) - 1)" by auto
  then show "dict_update [] (latency_metrics lastp s) = expected_metrics bi s None"
    by (simp add: dict_update_def latency_metrics_def expected_metrics_def Let_def)
  show "dict_update (expected_metrics bi s None) (drift_metrics r) = expected_metrics bi s (Some r)"
    by (simp add: dict_update_def drift_metrics_def expected_metrics_def Let_def)
qed

definition benchmark_ok :: "'m benchmark_input \<Rightarrow> bool" where
  "benchmark_ok bi \<longleftrightarrow> bi_cuda bi \<and> 0 < bi_num_latency_runs bi \<and> steps_return bi 0 (nat (bi_num_latency_runs bi)) \<and>
     outputs_match bi"

lemma benchmark_body_result:
  assumes run: "lg_current_run lg = Some run" "rr_metrics run = []" "rr_parameters run = []" "name = rr_experiment_name run"
    and body: "benchmark_body name bi lg = (res, lg')"
  shows "\<exists>run'. lg_current_run lg' = Some run' \<and> rr_run_id run' = rr_run_id run \<and> lg_store lg' = lg_store lg \<and>
    (case res of Returned suite \<Rightarrow> benchmark_ok bi \<and> suite_logged bi suite run'
     | Raised e \<Rightarrow> \<not> benchmark_ok bi | Interrupted \<Rightarrow> False)"
proof -
  define run1 where "run1 = run\<lparr>rr_parameters := run_parameters bi\<rparr>"
  define lg1 where "lg1 = lg\<lparr>lg_current_run := Some run1\<rparr>"
  have "dict_update [] (run_parameters bi) = run_parameters bi" by (simp add: dict_update_def run_parameters_def)
  then have lp: "log_parameters (run_parameters bi) lg = (Inr (), lg1)"
    by (simp add: log_parameters_def run lg1_def run1_def)
  let ?n = "nat (bi_num_latency_runs bi)"
  let ?L = "latency_runs bi 0 ?n [] None"
  show ?thesis
  proof (cases ?L)
    case (Inl e)
    then have "\<not> benchmark_ok bi" using latency_runs_result[of bi 0 ?n "[]" None] by (auto simp: benchmark_ok_def)
    then show ?thesis using body Inl by (auto simp: benchmark_body_def logged_def lp lg1_def run1_def)
  next
    case (Inr q)
    obtain ls lastp where q: "q = (ls, lastp)" by (cases q)
    note L = Inr[unfolded q]
    have len: "length ls = ?n * itl_count bi" using latency_runs_result[of bi 0 ?n "[]" None] L by simp
    have times: "ls = concat (map (run_times bi) [0..<?n])" using latency_runs_values[OF L] by simp
    let ?C = "compute_distribution (bi_lib bi) (map Some ls) 100 (95 / 100) 42"
    have cuda: "bi_cuda bi \<and> steps_return bi 0 ?n" if "ls \<noteq> []" using latency_runs_result[of bi 0 ?n "[]" None] L len that by (cases ?n) auto
    have ls: "ls \<noteq> [] \<longleftrightarrow> 0 < bi_num_latency_runs bi" using len by (cases "0 < bi_num_latency_runs bi") (auto simp: itl_count_def)
    show ?thesis
    proof (cases ?C)
      case (Inl e)
      then have "ls = []" using compute_distribution_result(2)[of "bi_lib bi" ls 100 "95 / 100" 42] by auto
      then have "\<not> benchmark_ok bi" using ls by (simp add: benchmark_ok_def)
      then show ?thesis using body L Inl by (auto simp: benchmark_body_def logged_def lp lg1_def run1_def)
    next
      case (Inr summary)
      have ne: "ls \<noteq> []" using compute_distribution_result(2)[of "bi_lib bi" ls 100 "95 / 100" 42] Inr by auto
      have cnt: "ds_count summary = ?n * itl_count bi" using compute_distribution_result(1)[OF Inr] len by simp
      note metrics = metrics_logged[OF L, of summary] ls ne
      define run2 where "run2 = run1\<lparr>rr_metrics := expected_metrics bi summary None\<rparr>"
      have empty: "rr_metrics run1 = []" by (simp add: run1_def run(2))
      have upd: "run1\<lparr>rr_metrics := dict_update (rr_metrics run1) (latency_metrics lastp summary)\<rparr> = run2"
        using metrics empty by (simp add: run2_def)
      have id: "rr_run_id run2 = rr_run_id run" "rr_run_id run1 = rr_run_id run" by (simp_all add: run2_def run1_def)
      have logged: "suite_logged bi \<lparr>su_experiment_name = name, su_run_id = rr_run_id run, su_accuracy_metrics = None,
          su_latency_summary = summary, su_error_report = report, su_custom_metrics = []\<rparr>
          (run2\<lparr>rr_metrics := expected_metrics bi summary report\<rparr>)" if "error_analysis bi = Inr report" for report
        using analysed_report[OF that] Inr cnt run(4)
        by (simp add: suite_logged_def times run2_def run1_def run_parameters_def)
      note eqs = benchmark_body_def logged_def lp log_metrics_result upd
      show ?thesis
      proof (cases "error_analysis bi")
        case (Inl e)
        then have "\<not> benchmark_ok bi" using error_analysis_result[of bi] by (auto simp: benchmark_ok_def)
        then show ?thesis using body L Inr Inl id by (auto simp: eqs lg1_def)
      next
        case (Inr report)
        then have ok: "benchmark_ok bi" using error_analysis_result[of bi] cuda ls ne by (auto simp: benchmark_ok_def)
        note logged = logged[OF Inr]
        show ?thesis
        proof (cases report)
          case None
          then have "run2\<lparr>rr_metrics := expected_metrics bi summary report\<rparr> = run2" by (simp add: run2_def)
          then show ?thesis using body L \<open>?C = Inr summary\<close> Inr id ok logged None
            by (auto simp: eqs lg1_def Let_def)
        next
          case (Some r)
          have "dict_update (rr_metrics run2) (drift_metrics r) = expected_metrics bi summary report"
            using metrics Some by (simp add: run2_def)
          then show ?thesis using body L \<open>?C = Inr summary\<close> Inr id ok logged Some
            by (auto simp: eqs lg1_def Let_def)
        qed
      qed
    qed
  qed
qed

text \<open>
  C14: A benchmark with a seed of 32 bits, whose record can be serialized, ends with the record on disk.
  It succeeds exactly with a device, at least one latency run, a step function that never raises, and
  output lists that match the samples. Then the status is \<open>SUCCESS\<close>; the latency summary of the returned
  suite is that of the device times of every token of every run, its error report that of the three
  output lists when none of them is missing or empty; and the record has the parameters of the call
  and exactly these metrics: the first-token time and the two rates of the last run, mean, median,
  p95 and p99 of the summary and, with a report, its two accuracies and the degradation rate.
  Otherwise the status is \<open>FAILED\<close> with the text of the error.
\<close>

theorem end_to_end_tracked:
  assumes "run_end_to_end_benchmark h bi lg = (res, lg')"
    and "0 \<le> bi_seed bi" "bi_seed bi < 2 ^ 32" and "\<And>r. fst (ho_dump h r) = None"
  shows "\<exists>run. lg_current_run lg' = Some run \<and>
    lg_files lg' (lg_store lg @ [rr_run_id run, ''run_manifest.json'']) = Some (snd (ho_dump h run)) \<and>
    (case res of
       Returned suite \<Rightarrow> benchmark_ok bi \<and> rr_status run = ''SUCCESS'' \<and> suite_logged bi suite run
     | Raised e \<Rightarrow> \<not> benchmark_ok bi \<and> rr_status run = ''FAILED'' \<and> rr_error_log run = Some e
     | Interrupted \<Rightarrow> False)"
proof -
  let ?run = "new_run h (Some ''eval_suite'') (bi_seed bi) lg"
  obtain s res1 lg1 where
    b: "benchmark_body (lg_experiment_name lg) bi (lg\<lparr>lg_seeds := s, lg_current_run := Some ?run\<rparr>) = (res1, lg1)"
    and f: "finish_run h res1 lg1 = (res, lg')"
    using start_run_body[OF assms(1)[unfolded run_end_to_end_benchmark_def] assms(2,3)] .
  have "rr_metrics ?run = []" "rr_parameters ?run = []" "lg_experiment_name lg = rr_experiment_name ?run" by (simp_all add: new_run_def)
  from benchmark_body_result[OF _ this b] obtain run1 where run1: "lg_current_run lg1 = Some run1" "lg_store lg1 = lg_store lg"
    "case res1 of Returned suite \<Rightarrow> benchmark_ok bi \<and> suite_logged bi suite run1
     | Raised e \<Rightarrow> \<not> benchmark_ok bi | Interrupted \<Rightarrow> False" by auto
  note fin = finish_run_result[OF run1(1) f assms(4)]
  from fin(1,2) run1(2,3) show ?thesis by (cases res) (auto simp: suite_logged_def)
qed

definition sample_bench_host :: "logged_value host" where
  "sample_bench_host = \<lparr>ho_digest = rev, ho_dump = (\<lambda>r. (None, rr_run_id r @ rr_status r)), ho_git = (\<lambda>_. None),
     ho_platform = \<lparr>pi_platform = ''Linux'', pi_python_version = ''3.11'', pi_torch_version = ''2.3'',
       pi_cuda_version = None, pi_cpu_count = Some 8, pi_device = None\<rparr>,
     ho_timestamp = ''20240101_000000'', ho_start = ''t0'', ho_end = ''t1'', ho_now = ''t2''\<rparr>"

definition sample_bench_logger :: "logged_value logger" where
  "sample_bench_logger = \<lparr>lg_experiment_name = ''bench'', lg_store = [''store''], lg_current_run = None,
     lg_files = Map.empty,
     lg_seeds = \<lparr>sd_random = None, sd_numpy = None, sd_torch = None, sd_cuda = None,
                 sd_deterministic = False, sd_benchmark = True\<rparr>\<rparr>"

definition sample_input :: "unit benchmark_input" where
  "sample_input = \<lparr>bi_cuda = True, bi_raises = (\<lambda>i n. None), bi_elapsed = (\<lambda>i n. 2), bi_lib = demo_lib, bi_prompt_len = 8, bi_gen_len = 3,
     bi_num_latency_runs = 2, bi_samples = None, bi_baseline = None, bi_quantized = None, bi_seed = 42\<rparr>"

theorem end_to_end_tracked_witness:
  "\<exists>suite run lg'. run_end_to_end_benchmark sample_bench_host sample_input sample_bench_logger = (Returned suite, lg') \<and>
     lg_current_run lg' = Some run \<and> rr_status run = ''SUCCESS'' \<and> ds_count (su_latency_summary suite) = 4"
proof -
  obtain res lg' where r: "run_end_to_end_benchmark sample_bench_host sample_input sample_bench_logger = (res, lg')"
    by fastforce
  have ok: "benchmark_ok sample_input" by (simp add: benchmark_ok_def sample_input_def outputs_match_def steps_return_def list_all_iff)
  have "itl_count sample_input = 2" "nat (bi_num_latency_runs sample_input) = 2"
    by (simp_all add: itl_count_def sample_input_def)
  with end_to_end_tracked[OF r] ok r show ?thesis
    by (cases res) (auto simp: sample_input_def sample_bench_host_def suite_logged_def)
qed

text \<open>
  The matrix has one entry per combination of batch size, context length, precision and backend,
  every one of them the same default result; and the memory estimate takes as many bytes per
  element for INT4 as for FP32.
\<close>

theorem matrix_reports_defaults:
  "run_matrix cfg = replicate (length (mc_batch_sizes cfg) * (length (mc_context_lengths cfg) *
     (length (mc_precisions cfg) * length (mc_kernel_backends cfg)))) default_result \<and>
   estimate_vram_bytes (c\<lparr>pc_precision := INT4\<rparr>) = estimate_vram_bytes (c\<lparr>pc_precision := FP32\<rparr>)"
proof -
  have cr: "concat (map (\<lambda>_. replicate n x) xs) = replicate (length xs * n) x" for n :: nat and x :: 'x and xs :: "'y list"
    by (induction xs) (simp_all add: replicate_add)
  have "map (\<lambda>_. default_result) (mc_kernel_backends cfg) = replicate (length (mc_kernel_backends cfg)) default_result"
    by (simp add: map_replicate_const)
  then show ?thesis by (simp add: run_matrix_def cr estimate_vram_bytes_def Let_def)
qed

end
