(* ===== verification/Benchmarks.thy ===== *)
theory Benchmarks
  imports Statistics "HOL-Library.While_Combinator" "HOL-Library.Multiset"
begin

text \<open>
  \<open>benchmarks\<close>: the simulation of continuous batching, the allocation benchmark of the paged cache,
  the attention benchmark, and the runner that compares them with the recorded baselines.

  \<^item> Clocks and device events are arguments: they give the time of the n-th measurement. The device's
    tensors hold no state that the results depend on.
  \<^item> The scheduling loop is a \<open>while_option\<close>: \<open>None\<close> is a loop that never ends.
\<close>

section \<open>Order statistics\<close>

datatype bench_error = CudaRequired string | StatisticsError | ZeroDivision | BaselineMissing

text \<open>\<open>statistics.median\<close>, and cut point \<open>i\<close> of \<open>statistics.quantiles(data, n)\<close>.\<close>

definition median :: "real list \<Rightarrow> bench_error + real" where
  "median data =
     (let s = sort data; n = length s in
      if n = 0 then Inl StatisticsError
      else if n mod 2 = 1 then Inr (s ! (n div 2))
      else Inr ((s ! (n div 2 - 1) + s ! (n div 2)) / 2))"

definition quantile_cut :: "nat \<Rightarrow> nat \<Rightarrow> real list \<Rightarrow> bench_error + real" where
  "quantile_cut n i data =
     (let s = sort data; ld = length s; m = ld + 1;
          j0 = i * m div n; j = (if j0 < 1 then 1 else if j0 > ld - 1 then ld - 1 else j0);
          delta = int (i * m) - int (j * n)
      in if ld < 2 then Inl StatisticsError
         else Inr ((s ! (j - 1) * of_int (int n - delta) + s ! j * of_int delta) / real n))"

section \<open>The scheduling simulation\<close>

record sim_request =
  sr_id :: nat
  sr_prompt_len :: nat
  sr_gen_len :: int

record sim_state =
  sm_waiting :: "sim_request list"
  sm_running :: "sim_request list"
  sm_completed :: "sim_request list"
  sm_step :: nat

definition sim_requests :: "int \<Rightarrow> sim_request list" where
  "sim_requests num_requests =
     map (\<lambda>i. \<lparr>sr_id = i, sr_prompt_len = 128 + i mod 64, sr_gen_len = 64 + int (i mod 32)\<rparr>) [0..<nat num_requests]"

definition batch_tokens :: "sim_request list \<Rightarrow> nat" where
  "batch_tokens rs = sum_list (map sr_prompt_len rs)"

fun admit_waiting ::
  "int \<Rightarrow> int \<Rightarrow> nat \<Rightarrow> sim_request list \<Rightarrow> sim_request list \<Rightarrow> sim_request list \<times> sim_request list" where
  "admit_waiting max_batch budget current running [] = ([], running)"
| "admit_waiting max_batch budget current running (req # waiting) =
     (if int (length running) < max_batch then
        if int (current + sr_prompt_len req) \<le> budget
        then admit_waiting max_batch budget (current + sr_prompt_len req) (running @ [req]) waiting
        else (req # waiting, running)
      else (req # waiting, running))"

text \<open>One token for every running request: those that finish, and those that go on.\<close>

definition decode_tick :: "sim_request list \<Rightarrow> sim_request list \<times> sim_request list" where
  "decode_tick running =
     (let stepped = map (sr_gen_len_update (\<lambda>n. n - 1)) running
      in (filter (\<lambda>r. sr_gen_len r \<le> 0) stepped, filter (\<lambda>r. 0 < sr_gen_len r) stepped))"

definition sim_step :: "int \<Rightarrow> int \<Rightarrow> sim_state \<Rightarrow> sim_state" where
  "sim_step max_batch budget st =
     (let (waiting, running) =
            admit_waiting max_batch budget (batch_tokens (sm_running st)) (sm_running st) (sm_waiting st);
          (done_now, still_running) = decode_tick running
      in \<lparr>sm_waiting = waiting, sm_running = still_running, sm_completed = sm_completed st @ done_now,
          sm_step = Suc (sm_step st)\<rparr>)"

definition sim_busy :: "sim_state \<Rightarrow> bool" where
  "sim_busy st \<longleftrightarrow> sm_waiting st \<noteq> [] \<or> sm_running st \<noteq> []"

definition sim_start :: "sim_request list \<Rightarrow> sim_state" where
  "sim_start reqs = \<lparr>sm_waiting = reqs, sm_running = [], sm_completed = [], sm_step = 0\<rparr>"

definition simulate :: "int \<Rightarrow> int \<Rightarrow> sim_request list \<Rightarrow> sim_state option" where
  "simulate max_batch budget reqs = while_option sim_busy (sim_step max_batch budget) (sim_start reqs)"

record scheduler_report =
  sc_total_requests :: int
  sc_throughput :: real
  sc_step_p50_us :: real
  sc_step_p95_us :: real

definition total_tokens :: "sim_request list \<Rightarrow> nat" where
  "total_tokens reqs = sum_list (map (\<lambda>r. sr_prompt_len r + (64 + sr_id r mod 32)) reqs)"

text \<open>\<open>sched_us n\<close> is the time that the n-th admission phase takes, \<open>total_sec\<close> that of the simulation.\<close>

definition run_continuous_batch_benchmark ::
  "(nat \<Rightarrow> real) \<Rightarrow> real \<Rightarrow> int \<Rightarrow> int \<Rightarrow> int \<Rightarrow> (bench_error + scheduler_report) option" where
  "run_continuous_batch_benchmark sched_us total_sec num_requests max_batch budget =
     (let reqs = sim_requests num_requests in
      case simulate max_batch budget reqs of
        None \<Rightarrow> None
      | Some st \<Rightarrow>
          let latencies = map sched_us [0..<sm_step st] in
          Some (res_bind (median latencies) (\<lambda>p50.
                res_bind (quantile_cut 20 19 latencies) (\<lambda>p95.
                Inr \<lparr>sc_total_requests = num_requests,
                     sc_throughput = real (total_tokens reqs) / max total_sec (1 / 1000000),
                     sc_step_p50_us = p50, sc_step_p95_us = p95\<rparr>))))"

section \<open>The allocation benchmark\<close>

fun take_blocks :: "nat \<Rightarrow> nat list \<Rightarrow> nat list \<times> nat list" where
  "take_blocks 0 free = ([], free)"
| "take_blocks (Suc n) free =
     (if free = [] then take_blocks n free
      else let (taken, rest) = take_blocks n (butlast free) in (last free # taken, rest))"

fun allocate_tables :: "nat \<Rightarrow> nat \<Rightarrow> nat list \<Rightarrow> nat list list \<times> nat list" where
  "allocate_tables 0 per_req free = ([], free)"
| "allocate_tables (Suc n) per_req free =
     (let (req_blocks, free1) = take_blocks per_req free;
          (tables, free2) = allocate_tables n per_req free1
      in (req_blocks # tables, free2))"

definition max_allocs :: "int \<Rightarrow> int \<Rightarrow> int" where
  "max_allocs num_allocations num_blocks = min num_allocations (num_blocks div 8)"

definition block_tables :: "int \<Rightarrow> int \<Rightarrow> nat list list" where
  "block_tables num_allocations num_blocks =
     fst (allocate_tables (nat (max_allocs num_allocations num_blocks)) 8 [0..<nat num_blocks])"

record paged_report =
  pg_total_blocks :: nat
  pg_block_size :: nat
  pg_alloc_p50_us :: real
  pg_alloc_p95_us :: real
  pg_gather_p50_ms :: real
  pg_pool_memory_mb :: real

definition run_paged_kv_benchmark ::
  "bool \<Rightarrow> (nat \<Rightarrow> real) \<Rightarrow> (nat \<Rightarrow> real) \<Rightarrow> nat \<Rightarrow> nat \<Rightarrow> nat \<Rightarrow> nat \<Rightarrow> int \<Rightarrow> bench_error + paged_report" where
  "run_paged_kv_benchmark cuda alloc_us gather_ms num_blocks block_size num_heads head_dim num_allocations =
     (if \<not> cuda then Inl (CudaRequired ''CUDA is required for bench_paged_kv.py'')
      else
        let alloc_times = map alloc_us [0..<length (block_tables num_allocations (int num_blocks))];
            lookups = map gather_ms [0..<100]
        in res_bind (median alloc_times) (\<lambda>p50.
           res_bind (quantile_cut 20 19 alloc_times) (\<lambda>p95.
           res_bind (median lookups) (\<lambda>gather.
           Inr \<lparr>pg_total_blocks = num_blocks, pg_block_size = block_size, pg_alloc_p50_us = p50,
                pg_alloc_p95_us = p95, pg_gather_p50_ms = gather,
                pg_pool_memory_mb =
                  real (2 * (num_blocks * 2 * block_size * num_heads * head_dim)) / (1024 * 1024)\<rparr>))))"

section \<open>The attention benchmark\<close>

record attention_report =
  at_sdp_p50_ms :: real
  at_flash_p50_ms :: real
  at_speedup :: real
  at_tflops :: real

definition run_flash_attn_benchmark ::
  "bool \<Rightarrow> (nat \<Rightarrow> real) \<Rightarrow> (nat \<Rightarrow> real) \<Rightarrow> nat \<Rightarrow> nat \<Rightarrow> nat \<Rightarrow> nat \<Rightarrow> nat \<Rightarrow> bench_error + attention_report" where
  "run_flash_attn_benchmark cuda sdp_ms flash_ms batch_size num_heads seq_len head_dim bench_runs =
     (if \<not> cuda then Inl (CudaRequired ''CUDA is required to execute bench_flash_attn.py'')
      else
        let sdp_latencies = map sdp_ms [0..<bench_runs];
            flash_latencies = map flash_ms [0..<bench_runs];
            flops = 4 * batch_size * num_heads * seq_len ^ 2 * head_dim
        in res_bind (median sdp_latencies) (\<lambda>sdp_p50.
           res_bind (median flash_latencies) (\<lambda>flash_p50.
           if flash_p50 = 0 then Inl ZeroDivision
           else Inr \<lparr>at_sdp_p50_ms = sdp_p50, at_flash_p50_ms = flash_p50,
                     at_speedup = sdp_p50 / max flash_p50 (1 / 1000000),
                     at_tflops = (real flops / (flash_p50 / 1000)) / 10 ^ 12\<rparr>)))"

section \<open>The regression runner\<close>

type_synonym baselines = "(string \<times> (string \<times> real) list) list"

definition verify_metric ::
  "baselines \<Rightarrow> real \<Rightarrow> string \<Rightarrow> string \<Rightarrow> real \<Rightarrow> bool \<Rightarrow> bench_error + bool" where
  "verify_metric bl threshold_pct name metric_key actual lower_is_better =
     (case Option.bind (map_of bl name) (\<lambda>ms. map_of ms metric_key) of
        None \<Rightarrow> Inr True
      | Some target \<Rightarrow>
          if target = 0 then Inl ZeroDivision
          else let delta_pct = ((actual - target) / target) * 100
               in Inr (if lower_is_better then delta_pct \<le> threshold_pct else - threshold_pct \<le> delta_pct))"

definition run_all ::
  "baselines \<Rightarrow> real \<Rightarrow> bench_error + attention_report \<Rightarrow> bench_error + paged_report \<Rightarrow>
   bench_error + scheduler_report \<Rightarrow> bench_error + bool" where
  "run_all bl threshold_pct flash_bench paged_bench batch_bench =
     res_bind flash_bench (\<lambda>flash_res.
     res_bind (verify_metric bl threshold_pct ''flash_attention_v2'' ''flash_attn_p50_ms''
                 (at_flash_p50_ms flash_res) True) (\<lambda>pass_fa.
     res_bind paged_bench (\<lambda>paged_res.
     res_bind (verify_metric bl threshold_pct ''paged_kv_cache_manager'' ''alloc_latency_p50_us''
                 (pg_alloc_p50_us paged_res) True) (\<lambda>pass_kv.
     res_bind batch_bench (\<lambda>cb_res.
     res_bind (verify_metric bl threshold_pct ''continuous_batching_scheduler'' ''throughput_tokens_per_sec''
                 (sc_throughput cb_res) False) (\<lambda>pass_cb.
     Inr (pass_fa \<and> pass_kv \<and> pass_cb)))))))"

text \<open>
  The exit status of the script: the baselines are read first, and an exception that is not caught
  ends it with status 1.
\<close>

definition regression_main ::
  "baselines option \<Rightarrow> bench_error + attention_report \<Rightarrow> bench_error + paged_report \<Rightarrow>
   bench_error + scheduler_report \<Rightarrow> nat" where
  "regression_main baseline_file flash_bench paged_bench batch_bench =
     (case (case baseline_file of None \<Rightarrow> Inl BaselineMissing
            | Some bl \<Rightarrow> run_all bl 10 flash_bench paged_bench batch_bench) of
        Inr success \<Rightarrow> (if success then 0 else 1)
      | Inl _ \<Rightarrow> 1)"

section \<open>The simulation ends\<close>

lemma admit_fifo: "admit_waiting mb bg cur running waiting = (w, r) \<Longrightarrow> r @ w = running @ waiting"
  by (induction mb bg cur running waiting rule: admit_waiting.induct) (auto split: if_splits)

lemma admit_keeps: "admit_waiting mb bg cur running waiting = (w, r) \<Longrightarrow> \<exists>new. r = running @ new"
  by (induction mb bg cur running waiting arbitrary: w r rule: admit_waiting.induct) (fastforce split: if_splits)+

lemma admit_bounds:
  assumes "admit_waiting mb bg cur running waiting = (w, r)" "cur = batch_tokens running"
    "int (length running) \<le> mb" "int (batch_tokens running) \<le> bg"
  shows "int (length r) \<le> mb \<and> int (batch_tokens r) \<le> bg"
  using assms
  by (induction mb bg cur running waiting rule: admit_waiting.induct)
    (auto split: if_splits simp: batch_tokens_def)

lemma admit_progress:
  assumes "admit_waiting mb bg 0 [] waiting = (w, r)" "waiting \<noteq> []" "0 < mb" "int (sr_prompt_len (waiting ! 0)) \<le> bg"
  shows "r \<noteq> []"
  using assms admit_keeps[of mb bg "sr_prompt_len (waiting ! 0)" "[waiting ! 0]"]
  by (cases waiting) (fastforce split: if_splits)+

definition work :: "sim_state \<Rightarrow> nat" where
  "work st = sum_list (map (\<lambda>r. Suc (nat (sr_gen_len r))) (sm_running st @ sm_waiting st))"

definition sim_key :: "sim_request \<Rightarrow> nat \<times> nat" where
  "sim_key r = (sr_id r, sr_prompt_len r)"

definition sim_inv :: "int \<Rightarrow> sim_request list \<Rightarrow> sim_state \<Rightarrow> bool" where
  "sim_inv budget reqs st \<longleftrightarrow>
     mset (map sim_key (sm_completed st @ sm_running st @ sm_waiting st)) = mset (map sim_key reqs) \<and>
     (\<forall>r \<in> set (sm_running st @ sm_waiting st). 0 < sr_gen_len r \<and> int (sr_prompt_len r) \<le> budget) \<and>
     (\<forall>r \<in> set (sm_completed st). sr_gen_len r = 0)"

lemma decode_tick_work:
  "sum_list (map (\<lambda>r. Suc (nat (sr_gen_len r))) (snd (decode_tick rs))) + length rs
     \<le> sum_list (map (\<lambda>r. Suc (nat (sr_gen_len r))) rs)"
  by (induction rs) (auto simp: decode_tick_def Let_def)

lemma decode_tick_mset:
  "mset (map sim_key (fst (decode_tick rs))) + mset (map sim_key (snd (decode_tick rs))) = mset (map sim_key rs)"
  by (induction rs) (auto simp: decode_tick_def Let_def sim_key_def)

lemma decode_tick_members:
  assumes "\<forall>r \<in> set rs. 0 < sr_gen_len r \<and> int (sr_prompt_len r) \<le> bg"
  shows "\<forall>r \<in> set (fst (decode_tick rs)). sr_gen_len r = 0"
    "\<forall>r \<in> set (snd (decode_tick rs)). 0 < sr_gen_len r \<and> int (sr_prompt_len r) \<le> bg"
  using assms by (fastforce simp: decode_tick_def Let_def)+

lemma decode_tick_bounds:
  "length (snd (decode_tick rs)) \<le> length rs" "batch_tokens (snd (decode_tick rs)) \<le> batch_tokens rs"
  by (induction rs) (auto simp: decode_tick_def Let_def batch_tokens_def intro: le_SucI)

lemma sim_step_eq:
  assumes "admit_waiting mb bg (batch_tokens (sm_running st)) (sm_running st) (sm_waiting st) = (w, r)"
  shows "sim_step mb bg st = \<lparr>sm_waiting = w, sm_running = snd (decode_tick r),
    sm_completed = sm_completed st @ fst (decode_tick r), sm_step = Suc (sm_step st)\<rparr>"
  using assms by (simp add: sim_step_def split: prod.splits)

lemma sim_step_inv:
  assumes inv: "sim_inv bg reqs st"
  shows "sim_inv bg reqs (sim_step mb bg st)"
proof -
  obtain w r where ad: "admit_waiting mb bg (batch_tokens (sm_running st)) (sm_running st) (sm_waiting st) = (w, r)"
    by fastforce
  have fifo: "sm_running st @ sm_waiting st = r @ w" using admit_fifo[OF ad] by simp
  have "mset (map sim_key (sm_completed st @ sm_running st @ sm_waiting st)) = mset (map sim_key reqs)"
    using inv unfolding sim_inv_def by (rule conjunct1)
  then have keys: "mset (map sim_key (sm_completed st)) + mset (map sim_key r) + mset (map sim_key w) = mset (map sim_key reqs)"
    unfolding fifo by (simp add: ac_simps)
  have mem: "\<forall>q \<in> set (r @ w). 0 < sr_gen_len q \<and> int (sr_prompt_len q) \<le> bg"
    using inv unfolding sim_inv_def fifo by (elim conjE)
  have "mset (map sim_key ((sm_completed st @ fst (decode_tick r)) @ snd (decode_tick r) @ w)) = mset (map sim_key reqs)"
    using keys decode_tick_mset[of r] by (simp add: ac_simps del: mset_map)
  moreover have "\<forall>q \<in> set (snd (decode_tick r) @ w). 0 < sr_gen_len q \<and> int (sr_prompt_len q) \<le> bg"
    using mem decode_tick_members(2)[of r bg] by auto
  moreover have "\<forall>q \<in> set (sm_completed st @ fst (decode_tick r)). sr_gen_len q = 0"
    using mem decode_tick_members(1)[of r bg] inv by (auto simp: sim_inv_def)
  ultimately show ?thesis by (simp add: sim_inv_def sim_step_eq[OF ad])
qed

lemma sim_step_work:
  assumes inv: "sim_inv bg reqs st" and busy: "sim_busy st" and mb: "0 < mb"
  shows "work (sim_step mb bg st) < work st"
proof -
  obtain w r where ad: "admit_waiting mb bg (batch_tokens (sm_running st)) (sm_running st) (sm_waiting st) = (w, r)"
    by fastforce
  have fifo: "sm_running st @ sm_waiting st = r @ w" using admit_fifo[OF ad] by simp
  have "r \<noteq> []"
  proof (cases "sm_running st = []")
    case True
    then have w0: "sm_waiting st \<noteq> []" using busy by (simp add: sim_busy_def)
    then have "int (sr_prompt_len (sm_waiting st ! 0)) \<le> bg" using inv by (simp add: sim_inv_def)
    with admit_progress[OF _ w0 mb] ad True show ?thesis by (simp add: batch_tokens_def)
  qed (use admit_keeps[OF ad] in auto)
  then have "0 < length r" by (cases r) simp_all
  moreover have "work st = sum_list (map (\<lambda>r. Suc (nat (sr_gen_len r))) (r @ w))" by (simp only: work_def fifo)
  moreover have "work (sim_step mb bg st) + length r \<le> sum_list (map (\<lambda>r. Suc (nat (sr_gen_len r))) (r @ w))"
    using decode_tick_work[of r] by (simp add: work_def sim_step_eq[OF ad])
  ultimately show ?thesis by linarith
qed

text \<open>
  C16: With room for one request, every prompt within the token budget and every request asking for at
  least one token, as the generated ones do, the simulation ends, with every request completed exactly once and after exactly as many tokens as it asked for.
\<close>

theorem simulation_completes:
  assumes "0 < max_batch" "\<forall>r \<in> set reqs. 0 < sr_gen_len r \<and> int (sr_prompt_len r) \<le> budget"
  shows "\<exists>st. simulate max_batch budget reqs = Some st \<and> \<not> sim_busy st \<and>
    mset (map sim_key (sm_completed st)) = mset (map sim_key reqs) \<and>
    (\<forall>r \<in> set (sm_completed st). sr_gen_len r = 0)"
proof -
  have start: "sim_inv budget reqs (sim_start reqs)" using assms(2) by (auto simp: sim_inv_def sim_start_def)
  obtain st where st: "simulate max_batch budget reqs = Some st"
    using measure_while_option_Some[of "sim_inv budget reqs" sim_busy "sim_step max_batch budget" work "sim_start reqs"]
      start sim_step_inv sim_step_work[OF _ _ assms(1)] unfolding simulate_def by blast
  have idle: "\<not> sim_busy st" using while_option_stop[OF st[unfolded simulate_def]] .
  have "sim_inv budget reqs st"
    using while_option_rule[of "sim_inv budget reqs", OF _ st[unfolded simulate_def] start] sim_step_inv by blast
  with idle have "mset (map sim_key (sm_completed st)) = mset (map sim_key reqs) \<and>
    (\<forall>r \<in> set (sm_completed st). sr_gen_len r = 0)" by (auto simp: sim_inv_def sim_busy_def)
  with st idle show ?thesis by blast
qed

theorem simulation_completes_witness:
  "\<exists>st. simulate 2 256 (sim_requests 3) = Some st \<and> \<not> sim_busy st"
  using simulation_completes[of 2 "sim_requests 3" 256] by (force simp: sim_requests_def)

text \<open>
  If the prompt of the first request exceeds the token budget, the benchmark never returns:
  nothing is ever admitted and the queue stays as it is.
\<close>

theorem simulation_starves:
  assumes "0 < num_requests" "budget < 128"
  shows "run_continuous_batch_benchmark sched_us total_sec num_requests max_batch budget = None"
proof -
  obtain reqs' where reqs: "sim_requests num_requests = \<lparr>sr_id = 0, sr_prompt_len = 128, sr_gen_len = 64\<rparr> # reqs'"
    using assms(1) by (simp add: sim_requests_def upt_rec[of 0])
  define stuck :: "sim_state \<Rightarrow> bool" where "stuck st \<longleftrightarrow> sm_waiting st = sim_requests num_requests \<and> sm_running st = []" for st :: sim_state
  have step: "stuck (sim_step max_batch budget st)" if "stuck st" for st
    using that assms(2) by (auto simp: stuck_def sim_step_def decode_tick_def batch_tokens_def reqs)
  have "simulate max_batch budget (sim_requests num_requests) = None"
  proof (cases "simulate max_batch budget (sim_requests num_requests)")
    case (Some st)
    have "stuck (sim_start (sim_requests num_requests))" by (simp add: stuck_def sim_start_def)
    from while_option_rule[of stuck, OF _ Some[unfolded simulate_def] this] step have "stuck st" by blast
    with while_option_stop[OF Some[unfolded simulate_def]] show ?thesis by (simp add: stuck_def sim_busy_def reqs)
  qed
  then show ?thesis by (simp add: run_continuous_batch_benchmark_def)
qed

theorem simulation_starves_witness:
  "run_continuous_batch_benchmark (\<lambda>n. 1) 1 2 16 100 = None"
  by (rule simulation_starves) simp_all

lemma sim_running_bounds:
  assumes "0 \<le> mb" "0 \<le> bg"
  shows "int (length (sm_running ((sim_step mb bg ^^ n) (sim_start reqs)))) \<le> mb \<and>
    int (batch_tokens (sm_running ((sim_step mb bg ^^ n) (sim_start reqs)))) \<le> bg"
proof (induction n)
  case 0
  with assms show ?case by (simp add: sim_start_def batch_tokens_def)
next
  case (Suc n)
  let ?st = "(sim_step mb bg ^^ n) (sim_start reqs)"
  obtain w r where ad: "admit_waiting mb bg (batch_tokens (sm_running ?st)) (sm_running ?st) (sm_waiting ?st) = (w, r)"
    by fastforce
  with admit_bounds[OF ad] Suc decode_tick_bounds[of r] show ?case by (auto simp: sim_step_eq[OF ad])
qed

text \<open>
  In every round of the simulation the batch that is decoded has at most the configured number
  of requests and tokens, and requests are admitted in the order of their arrival.
\<close>

theorem batch_within_budget:
  assumes "0 \<le> max_batch" "0 \<le> budget"
    and "st = (sim_step max_batch budget ^^ n) (sim_start reqs)"
    and "admit_waiting max_batch budget (batch_tokens (sm_running st)) (sm_running st) (sm_waiting st) = (waiting, batch)"
  shows "int (length batch) \<le> max_batch \<and> int (batch_tokens batch) \<le> budget \<and>
    batch @ waiting = sm_running st @ sm_waiting st"
  using admit_bounds[OF assms(4)] admit_fifo[OF assms(4)] sim_running_bounds[OF assms(1,2)] assms(3) by blast

theorem batch_within_budget_witness:
  "\<exists>waiting batch. admit_waiting 2 300 0 [] (sim_requests 3) = (waiting, batch) \<and> length batch = 2 \<and>
     batch_tokens batch \<le> 300"
proof -
  obtain waiting batch where ad: "admit_waiting 2 300 0 [] (sim_requests 3) = (waiting, batch)" by fastforce
  with batch_within_budget[of 2 300 "sim_start (sim_requests 3)" 0 "sim_requests 3" waiting batch]
  show ?thesis by (auto simp: sim_start_def batch_tokens_def sim_requests_def upt_rec split: if_splits)
qed

section \<open>Block tables are disjoint\<close>

lemma take_blocks_eq:
  "take_blocks n free = (rev (drop (length free - n) free), take (length free - n) free)"
proof (induction n arbitrary: free)
  case (Suc n)
  show ?case
  proof (cases free rule: rev_cases)
    case (snoc xs x)
    then show ?thesis using Suc[of xs] by (simp add: Suc_diff_le)
  qed (use Suc in simp)
qed simp

lemma allocate_tables_concat:
  "concat (fst (allocate_tables n per free)) = rev (drop (length free - n * per) free)"
proof (induction n arbitrary: free)
  case (Suc n)
  let ?k = "length free - per"
  have "concat (fst (allocate_tables (Suc n) per free)) =
    rev (drop ?k free) @ rev (drop (?k - n * per) (take ?k free))"
    using Suc[of "take ?k free"] by (simp add: take_blocks_eq case_prod_beta Let_def)
  also have "\<dots> = rev (drop (?k - n * per) (take ?k free) @ drop ?k free)" by simp
  also have "drop (?k - n * per) (take ?k free) @ drop ?k free = drop (?k - n * per) free"
    by (subst (2) append_take_drop_id[of ?k free, symmetric], subst drop_append) simp
  finally show ?case by (simp add: add.commute)
qed simp

lemma allocate_tables_lengths:
  "n * per \<le> length free \<Longrightarrow> length (fst (allocate_tables n per free)) = n \<and>
     list_all (\<lambda>tb. length tb = per) (fst (allocate_tables n per free))"
proof (induction n arbitrary: free)
  case (Suc n)
  let ?rest = "take (length free - per) free"
  have step: "fst (allocate_tables (Suc n) per free) =
    rev (drop (length free - per) free) # fst (allocate_tables n per ?rest)"
    by (simp add: take_blocks_eq case_prod_beta Let_def)
  have "n * per \<le> length ?rest" "per \<le> length free" using Suc.prems by simp_all
  with Suc.IH[OF this(1)] show ?case unfolding step by simp
qed simp

text \<open>
  The allocation benchmark gives every simulated request eight blocks of the pool, and no block
  to two of them, for any number of allocations asked for.
\<close>

theorem paged_tables_disjoint:
  "distinct (concat (block_tables num_allocations num_blocks)) \<and>
   list_all (\<lambda>tb. length tb = 8 \<and> list_all (\<lambda>b. int b < num_blocks) tb) (block_tables num_allocations num_blocks) \<and>
   length (block_tables num_allocations num_blocks) = nat (min num_allocations (num_blocks div 8))"
proof -
  let ?n = "nat (max_allocs num_allocations num_blocks)" and ?free = "[0..<nat num_blocks]"
  have "?n \<le> nat (num_blocks div 8)" by (simp add: max_allocs_def)
  then have n: "?n * 8 \<le> length ?free" by (simp add: nat_div_distrib)
  have c: "concat (block_tables num_allocations num_blocks) = rev (drop (length ?free - ?n * 8) ?free)"
    unfolding block_tables_def by (rule allocate_tables_concat)
  then have "distinct (concat (block_tables num_allocations num_blocks))" by simp
  moreover have "\<forall>b \<in> set (concat (block_tables num_allocations num_blocks)). int b < num_blocks"
    unfolding c by (auto dest: in_set_dropD)
  ultimately show ?thesis
    using allocate_tables_lengths[OF n] by (auto simp: block_tables_def max_allocs_def list_all_iff)
qed

section \<open>The verdict of the regression runner\<close>

lemma verify_metric_bound:
  assumes "map_of bl name = Some ms" "map_of ms key = Some target" "0 < target"
  shows "verify_metric bl thr name key actual True = Inr (actual \<le> target * (1 + thr / 100))"
    "verify_metric bl thr name key actual False = Inr (target * (1 - thr / 100) \<le> actual)"
  using assms by (auto simp: verify_metric_def field_simps)

text \<open>
  When the three baselines are recorded and positive and no benchmark raises, the runner exits
  with status 0 exactly if both latencies are at most ten percent above and the throughput at most
  ten percent below its baseline.
\<close>

theorem regression_verdict:
  assumes "map_of bl ''flash_attention_v2'' = Some ms1" "map_of ms1 ''flash_attn_p50_ms'' = Some b1" "0 < b1"
    and "map_of bl ''paged_kv_cache_manager'' = Some ms2" "map_of ms2 ''alloc_latency_p50_us'' = Some b2" "0 < b2"
    and "map_of bl ''continuous_batching_scheduler'' = Some ms3" "map_of ms3 ''throughput_tokens_per_sec'' = Some b3" "0 < b3"
  shows "regression_main (Some bl) (Inr fa) (Inr kv) (Inr cb) = 0 \<longleftrightarrow>
    at_flash_p50_ms fa \<le> b1 * (11 / 10) \<and> pg_alloc_p50_us kv \<le> b2 * (11 / 10) \<and> b3 * (9 / 10) \<le> sc_throughput cb"
  using verify_metric_bound[OF assms(1-3), of 10] verify_metric_bound[OF assms(4-6), of 10]
    verify_metric_bound[OF assms(7-9), of 10]
  by (simp add: regression_main_def run_all_def)

definition shipped_baselines :: baselines where
  "shipped_baselines =
     [(''flash_attention_v2'', [(''flash_attn_p50_ms'', 468 / 100), (''flash_tflops'', 588 / 10)]),
      (''paged_kv_cache_manager'', [(''alloc_latency_p50_us'', 125 / 100), (''gather_latency_p50_ms'', 8 / 100)]),
      (''continuous_batching_scheduler'', [(''throughput_tokens_per_sec'', 1850), (''scheduler_step_p50_us'', 45 / 10)])]"

theorem regression_verdict_witness:
  "regression_main (Some shipped_baselines)
     (Inr \<lparr>at_sdp_p50_ms = 9, at_flash_p50_ms = 5, at_speedup = 9 / 5, at_tflops = 50\<rparr>)
     (Inr \<lparr>pg_total_blocks = 1024, pg_block_size = 16, pg_alloc_p50_us = 1, pg_alloc_p95_us = 2,
           pg_gather_p50_ms = 1, pg_pool_memory_mb = 256\<rparr>)
     (Inr \<lparr>sc_total_requests = 200, sc_throughput = 1700, sc_step_p50_us = 4, sc_step_p95_us = 5\<rparr>) = 0"
  by (subst regression_verdict[of shipped_baselines "[(''flash_attn_p50_ms'', 468 / 100), (''flash_tflops'', 588 / 10)]"
        "468 / 100" "[(''alloc_latency_p50_us'', 125 / 100), (''gather_latency_p50_ms'', 8 / 100)]" "125 / 100"
        "[(''throughput_tokens_per_sec'', 1850), (''scheduler_step_p50_us'', 45 / 10)]" 1850])
    (simp_all add: shipped_baselines_def)

section \<open>The median\<close>

text \<open>
  The median that the benchmarks report is the 50th percentile that the analyzer computes for
  the same samples.
\<close>

theorem median_is_percentile:
  assumes "data \<noteq> []"
  shows "median data = Inr (percentile_of data (1 / 2))"
proof (cases "length data mod 2 = 1")
  case True
  define k where "k = length data div 2"
  from True have "length data = 2 * k + 1" unfolding k_def by presburger
  then have "real (length data - 1) * (1 / 2) = real (length data div 2)" by simp
  moreover have "sort data \<noteq> []" using assms by (metis length_sort length_0_conv)
  ultimately show ?thesis using True by (simp add: median_def percentile_of_def percentile_def Let_def)
next
  case False
  define k where "k = length data div 2"
  from False have even: "length data = 2 * k" unfolding k_def by presburger
  with assms have k: "0 < k" by (cases k) auto
  then have idx: "real (length data - 1) * (1 / 2) = real (k - 1) + 1 / 2"
    using even by (simp add: of_nat_diff field_simps)
  have "\<lfloor>real (k - 1) + 1 / 2\<rfloor> = int (k - 1)" "\<lceil>real (k - 1) + 1 / 2\<rceil> = int k"
    using k by (simp_all add: floor_eq_iff ceiling_eq_iff of_nat_diff)
  then have fc: "nat \<lfloor>real (k - 1) + 1 / 2\<rfloor> = k - 1" "nat \<lceil>real (k - 1) + 1 / 2\<rceil> = k" by simp_all
  have ne: "k - 1 \<noteq> k" "sort data \<noteq> []" using k assms by (simp, metis length_sort length_0_conv)
  have "percentile (sort data) (1 / 2) = sort data ! (k - 1) * (1 - 1 / 2) + sort data ! k * (1 / 2)"
    using ne unfolding percentile_def length_sort idx Let_def fc by simp
  then show ?thesis
    using k even ne(2) by (simp add: median_def percentile_of_def Let_def)
qed

theorem median_is_percentile_witness: "median [4, 1, 3, 2] = Inr (percentile_of [4, 1, 3, 2] (1 / 2))"
  by (rule median_is_percentile) simp

end
