(* ===== verification/Profiling.thy ===== *)
theory Profiling
  imports Statistics
begin

text \<open>
  \<open>profiling\<close>, the event timer of \<open>cudaforge/profiler.py\<close> and \<open>observability\<close>: the tracer of named
  sections, the memory tracker, the event profiler, NVTX ranges and the registered metrics.

  \<^item> A CUDA event is the time at which the device passed it, \<open>None\<close> while it is not recorded; the
    device has passed every recorded event when the elapsed times are read.
  \<^item> Times, memory statistics and the profiled function are arguments. Durations are real numbers.
\<close>

section \<open>Tracing sections\<close>

datatype profiling_error =
    NotStarted string
  | EventNotRecorded
  | MissingSnapshot string string
  | LeakDetected real
  | CudaMissing
  | EmptyTimings
  | CallFailed string

type_synonym event_pair = "real option \<times> real option"

record tracer =
  tr_events :: "(string \<times> event_pair list) list"
  tr_timings :: "(string \<times> real list) list"

definition new_tracer :: tracer where
  "new_tracer = \<lparr>tr_events = [], tr_timings = []\<rparr>"

definition trace_start :: "real \<Rightarrow> string \<Rightarrow> tracer \<Rightarrow> tracer" where
  "trace_start now tag tr =
     (let tr1 = (if \<not> dict_has tag (tr_events tr)
                 then \<lparr>tr_events = AList.update tag [] (tr_events tr), tr_timings = AList.update tag [] (tr_timings tr)\<rparr>
                 else tr)
      in tr1\<lparr>tr_events := AList.update tag (the (map_of (tr_events tr1) tag) @ [(Some now, None)]) (tr_events tr1)\<rparr>)"

text \<open>Recording an event again moves it.\<close>

definition trace_stop :: "real \<Rightarrow> string \<Rightarrow> tracer \<Rightarrow> (profiling_error, unit, tracer) eff" where
  "trace_stop now tag tr =
     (case map_of (tr_events tr) tag of
        None \<Rightarrow> (Inl (NotStarted tag), tr)
      | Some pairs \<Rightarrow>
          if pairs = [] then (Inl (NotStarted tag), tr)
          else (Inr (), tr\<lparr>tr_events := AList.update tag
                 (butlast pairs @ [(fst (last pairs), Some now)]) (tr_events tr)\<rparr>))"

fun elapsed_time :: "event_pair \<Rightarrow> profiling_error + real" where
  "elapsed_time (Some s, Some e) = Inr (e - s)"
| "elapsed_time _ = Inl EventNotRecorded"

fun elapsed_all :: "event_pair list \<Rightarrow> profiling_error + real list" where
  "elapsed_all [] = Inr []"
| "elapsed_all (p # ps) = res_bind (elapsed_time p) (\<lambda>d. res_bind (elapsed_all ps) (\<lambda>ds. Inr (d # ds)))"

record section_summary =
  se_count :: nat
  se_mean_ms :: real
  se_min_ms :: real
  se_max_ms :: real
  se_p50_ms :: real
  se_p95_ms :: real
  se_p99_ms :: real

definition nearest_rank :: "real list \<Rightarrow> real \<Rightarrow> real" where
  "nearest_rank sorted_d q = sorted_d ! min (nat \<lfloor>real (length sorted_d) * q\<rfloor>) (length sorted_d - 1)"

definition summarize_section :: "real list \<Rightarrow> section_summary" where
  "summarize_section durations =
     (let sorted_d = sort durations; n = length sorted_d
      in \<lparr>se_count = n, se_mean_ms = t_mean sorted_d, se_min_ms = sorted_d ! 0, se_max_ms = last sorted_d,
          se_p50_ms = sorted_d ! nat \<lfloor>real n * (50 / 100)\<rfloor>,
          se_p95_ms = nearest_rank sorted_d (95 / 100), se_p99_ms = nearest_rank sorted_d (99 / 100)\<rparr>)"

text \<open>The loop over the tags: the timings of the tags before one that raises are kept.\<close>

fun calculate_tags ::
  "(string \<times> event_pair list) list \<Rightarrow> (string \<times> section_summary) list \<Rightarrow> (string \<times> real list) list \<Rightarrow>
   (profiling_error, (string \<times> section_summary) list, (string \<times> real list) list) eff" where
  "calculate_tags [] summary timings = (Inr summary, timings)"
| "calculate_tags ((tag, pairs) # rest) summary timings =
     (case elapsed_all pairs of
        Inl e \<Rightarrow> (Inl e, timings)
      | Inr durations \<Rightarrow>
          calculate_tags rest
            (if durations \<noteq> [] then AList.update tag (summarize_section durations) summary else summary)
            (AList.update tag (the (map_of timings tag) @ durations) timings))"

definition synchronize_and_calculate ::
  "tracer \<Rightarrow> (profiling_error, (string \<times> section_summary) list, tracer) eff" where
  "synchronize_and_calculate tr =
     (let (r, timings) = calculate_tags (tr_events tr) [] (tr_timings tr)
      in (r, tr\<lparr>tr_timings := timings\<rparr>))"

definition trace_reset :: "tracer \<Rightarrow> tracer" where
  "trace_reset tr = \<lparr>tr_events = [], tr_timings = []\<rparr>"

text \<open>A section from time \<open>t0\<close> to \<open>t1\<close>; the body's outcome, an exception included, is a value.\<close>

definition profile_section ::
  "string \<Rightarrow> real \<Rightarrow> real \<Rightarrow> (tracer \<Rightarrow> 'r \<times> tracer) \<Rightarrow> tracer \<Rightarrow> (profiling_error, 'r, tracer) eff" where
  "profile_section tag t0 t1 body tr =
     (let (r, tr1) = body (trace_start t0 tag tr)
      in eff_bind (trace_stop t1 tag tr1) (\<lambda>_ tr2. (Inr r, tr2)))"

section \<open>Memory\<close>

record memory_snapshot =
  ms_allocated :: int
  ms_reserved :: int
  ms_active :: int
  ms_inactive_split :: int
  ms_max_allocated :: int
  ms_free :: int
  ms_total :: int
  ms_fragmentation :: real

type_synonym memory_tracker = "(string \<times> memory_snapshot) list"

definition tracker_init :: "bool \<Rightarrow> profiling_error + memory_tracker" where
  "tracker_init cuda_available =
     (if \<not> cuda_available then Inl CudaMissing else Inr [])"

definition stat :: "(string \<times> int) list \<Rightarrow> string \<Rightarrow> int" where
  "stat stats key = (case map_of stats key of Some v \<Rightarrow> v | None \<Rightarrow> 0)"

definition capture ::
  "(string \<times> int) list \<Rightarrow> int \<times> int \<Rightarrow> string \<Rightarrow> memory_tracker \<Rightarrow> memory_snapshot \<times> memory_tracker" where
  "capture stats mem_info label snapshots =
     (let allocated = stat stats ''allocated_bytes.all.current'';
          reserved = stat stats ''reserved_bytes.all.current'';
          unallocated_reserved = reserved - allocated;
          snapshot =
            \<lparr>ms_allocated = allocated, ms_reserved = reserved,
             ms_active = stat stats ''active_bytes.all.current'',
             ms_inactive_split = stat stats ''inactive_split_bytes.all.current'',
             ms_max_allocated = stat stats ''allocated_bytes.all.peak'',
             ms_free = fst mem_info, ms_total = snd mem_info,
             ms_fragmentation = (if 0 < reserved then of_int unallocated_reserved / of_int reserved else 0)\<rparr>
      in (snapshot, snapshots @ [(label, snapshot)]))"

text \<open>\<open>dict(self.snapshots)\<close> keeps the last snapshot of a label.\<close>

definition assert_no_leak :: "string \<Rightarrow> string \<Rightarrow> real \<Rightarrow> memory_tracker \<Rightarrow> profiling_error + unit" where
  "assert_no_leak baseline_label target_label threshold_mb snapshots =
     (let snaps = map_of (rev snapshots) in
      case (snaps baseline_label, snaps target_label) of
        (Some base, Some target) \<Rightarrow>
          let diff_mb = of_int (ms_allocated target - ms_allocated base) / (1024 * 1024)
          in if threshold_mb < diff_mb then Inl (LeakDetected diff_mb) else Inr ()
      | _ \<Rightarrow> Inl (MissingSnapshot baseline_label target_label))"

section \<open>The event profiler and NVTX ranges\<close>

record timer_report =
  tm_label :: string
  tm_mean_ms :: real
  tm_std_ms :: "real option"
  tm_min_ms :: real
  tm_max_ms :: real
  tm_peak_mb :: real
  tm_allocated_mb :: real

text \<open>Calling the function \<open>n\<close> times, with the device time of each call.\<close>

fun timed_calls :: "('s \<Rightarrow> (string, real, 's) eff) \<Rightarrow> nat \<Rightarrow> 's \<Rightarrow> (profiling_error, real list, 's) eff" where
  "timed_calls fn 0 s = (Inr [], s)"
| "timed_calls fn (Suc n) s =
     (case fn s of (Inl e, s') \<Rightarrow> (Inl (CallFailed e), s')
      | (Inr t, s') \<Rightarrow> eff_bind (timed_calls fn n s') (\<lambda>ts s''. (Inr (t # ts), s'')))"

text \<open>The standard deviation of a single timing is NaN, here \<open>None\<close>.\<close>

definition benchmark ::
  "bool \<Rightarrow> string \<Rightarrow> int \<Rightarrow> int \<Rightarrow> ('s \<Rightarrow> (string, real, 's) eff) \<Rightarrow> ('s \<Rightarrow> nat \<times> nat) \<Rightarrow> 's \<Rightarrow>
   (profiling_error, timer_report, 's) eff" where
  "benchmark cuda label warmup_iters profile_iters fn memory s =
     (if \<not> cuda then (Inl CudaMissing, s)
      else eff_bind (timed_calls fn (nat warmup_iters) s) (\<lambda>_ s1.
           eff_bind (timed_calls fn (nat profile_iters) s1) (\<lambda>timings s2.
           if timings = [] then (Inl EmptyTimings, s2)
           else (Inr \<lparr>tm_label = label, tm_mean_ms = t_mean timings,
                      tm_std_ms = (if 1 < length timings then Some (sqrt (sample_variance timings)) else None),
                      tm_min_ms = Min (set timings), tm_max_ms = Max (set timings),
                      tm_peak_mb = real (fst (memory s2)) / (1024 * 1024),
                      tm_allocated_mb = real (snd (memory s2)) / (1024 * 1024)\<rparr>, s2))))"

definition nvtx_range :: "string \<Rightarrow> (string list \<Rightarrow> 'r \<times> string list) \<Rightarrow> string list \<Rightarrow> 'r \<times> string list" where
  "nvtx_range name body ranges =
     (let (r, ranges') = body (name # ranges) in (r, tl ranges'))"

section \<open>Registered metrics\<close>

datatype metric =
    Histogram string "string list" "real list"
  | Counter string "string list"
  | Gauge string "string list"
  | Summary string "string list"

definition metric_registry :: "metric list" where
  "metric_registry =
    [Histogram ''cudaforge_http_request_latency_seconds'' [''endpoint'', ''status'']
       [0.005, 0.01, 0.025, 0.05, 0.1, 0.25, 0.5, 1.0, 2.5, 5.0, 10.0],
     Histogram ''cudaforge_ttft_seconds'' [''model_name'', ''precision'']
       [0.002, 0.005, 0.01, 0.025, 0.05, 0.1, 0.25, 0.5, 1.0, 2.5],
     Histogram ''cudaforge_itl_seconds'' [''model_name'', ''precision'']
       [0.001, 0.002, 0.005, 0.01, 0.02, 0.05, 0.1],
     Counter ''cudaforge_generated_tokens_total'' [''model_name'', ''precision'', ''phase''],
     Counter ''cudaforge_prompt_tokens_total'' [''model_name''],
     Counter ''cudaforge_requests_total'' [''status'', ''stop_reason''],
     Gauge ''cudaforge_kv_cache_usage_ratio'' [''device_id''],
     Gauge ''cudaforge_gpu_memory_bytes'' [''device_id'', ''category''],
     Gauge ''cudaforge_active_requests'' [],
     Gauge ''cudaforge_waiting_queue_length'' [],
     Summary ''cudaforge_kernel_dispatch_us'' [''kernel_name'', ''backend'']]"

type_synonym dispatch_times = "((string \<times> string) \<times> real list) list"

text \<open>The decorated function: a call that raises is not observed.\<close>

definition trace_kernel_execution ::
  "string \<Rightarrow> string \<Rightarrow> (nat \<times> nat) \<Rightarrow> ('e + 'a) \<Rightarrow> dispatch_times \<Rightarrow> ('e, 'a, dispatch_times) eff" where
  "trace_kernel_execution kernel_name backend clock_ns call observed =
     (case call of
        Inl e \<Rightarrow> (Inl e, observed)
      | Inr res \<Rightarrow>
          let duration_us = (real (snd clock_ns) - real (fst clock_ns)) / 1000;
              key = (kernel_name, backend);
              old = (case map_of observed key of Some xs \<Rightarrow> xs | None \<Rightarrow> [])
          in (Inr res, AList.update key (old @ [duration_us]) observed))"

section \<open>Sections in sequence\<close>

fun run_sections :: "(string \<times> real \<times> real) list \<Rightarrow> tracer \<Rightarrow> tracer" where
  "run_sections [] tr = tr"
| "run_sections ((tag, t0, t1) # ss) tr = run_sections ss (snd (profile_section tag t0 t1 (\<lambda>x. ((), x)) tr))"

definition section_times :: "(string \<times> real \<times> real) list \<Rightarrow> string \<Rightarrow> real list" where
  "section_times ss tag = map (\<lambda>(_, t0, t1). t1 - t0) (filter (\<lambda>s. fst s = tag) ss)"

definition pairs_of :: "tracer \<Rightarrow> string \<Rightarrow> event_pair list" where
  "pairs_of tr tag = (case map_of (tr_events tr) tag of None \<Rightarrow> [] | Some ps \<Rightarrow> ps)"

lemma start_events:
  "map_of (tr_events (trace_start t0 tag tr)) = (map_of (tr_events tr))(tag \<mapsto> pairs_of tr tag @ [(Some t0, None)])"
  "distinct (map fst (tr_events tr)) \<Longrightarrow> distinct (map fst (tr_events (trace_start t0 tag tr)))"
  by (auto simp: trace_start_def pairs_of_def dict_has_def Let_def update_conv' fun_eq_iff distinct_update
      split: option.splits)

lemma stop_events:
  assumes "map_of (tr_events tr) tag = Some (ps @ [(s, e)])"
  shows "\<exists>tr'. trace_stop t1 tag tr = (Inr (), tr') \<and>
    map_of (tr_events tr') = (map_of (tr_events tr))(tag \<mapsto> ps @ [(s, Some t1)]) \<and>
    (distinct (map fst (tr_events tr)) \<longrightarrow> distinct (map fst (tr_events tr')))"
  using assms by (auto simp: trace_stop_def update_conv' distinct_update)

lemma section_events:
  "\<exists>tr'. profile_section tag t0 t1 (\<lambda>x. (r, x)) tr = (Inr r, tr') \<and>
    map_of (tr_events tr') = (map_of (tr_events tr))(tag \<mapsto> pairs_of tr tag @ [(Some t0, Some t1)]) \<and>
    (distinct (map fst (tr_events tr)) \<longrightarrow> distinct (map fst (tr_events tr')))"
proof -
  have "map_of (tr_events (trace_start t0 tag tr)) tag = Some (pairs_of tr tag @ [(Some t0, None)])"
    by (simp add: start_events(1))
  from stop_events[OF this, of t1] show ?thesis using start_events(1)[of t0 tag tr] start_events(2)[of tr t0 tag] by (auto simp: profile_section_def)
qed

lemma run_sections_events:
  "(distinct (map fst (tr_events tr)) \<longrightarrow> distinct (map fst (tr_events (run_sections ss tr)))) \<and>
   pairs_of (run_sections ss tr) tag =
     pairs_of tr tag @ map (\<lambda>(_, t0, t1). (Some t0, Some t1)) (filter (\<lambda>s. fst s = tag) ss) \<and>
   ((\<forall>t ps. map_of (tr_events tr) t = Some ps \<longrightarrow> ps \<noteq> []) \<longrightarrow>
     (\<forall>t ps. map_of (tr_events (run_sections ss tr)) t = Some ps \<longrightarrow> ps \<noteq> []))"
proof (induction ss arbitrary: tr)
  case (Cons s ss)
  obtain t t0 t1 where s: "s = (t, t0, t1)" by (cases s)
  obtain tr' where tr': "profile_section t t0 t1 (\<lambda>x. ((), x)) tr = (Inr (), tr')"
    "map_of (tr_events tr') = (map_of (tr_events tr))(t \<mapsto> pairs_of tr t @ [(Some t0, Some t1)])"
    "distinct (map fst (tr_events tr)) \<longrightarrow> distinct (map fst (tr_events tr'))"
    using section_events[of t t0 t1 "()" tr] by auto
  have run: "run_sections (s # ss) tr = run_sections ss tr'"
    unfolding s run_sections.simps tr'(1) by simp
  have "pairs_of tr' tag = (if tag = t then pairs_of tr t @ [(Some t0, Some t1)] else pairs_of tr tag)"
    by (simp add: pairs_of_def[of tr'] tr'(2)) (simp add: pairs_of_def)
  moreover have "(\<forall>t ps. map_of (tr_events tr) t = Some ps \<longrightarrow> ps \<noteq> []) \<longrightarrow>
    (\<forall>t ps. map_of (tr_events tr') t = Some ps \<longrightarrow> ps \<noteq> [])" by (simp add: tr'(2))
  moreover note IH = Cons.IH[of tr']
  moreover have "pairs_of tr' tag @ map (\<lambda>(_, t0, t1). (Some t0, Some t1)) (filter (\<lambda>s. fst s = tag) ss) =
    pairs_of tr tag @ map (\<lambda>(_, t0, t1). (Some t0, Some t1)) (filter (\<lambda>s. fst s = tag) (s # ss))"
    using calculation(1) by (simp add: s)
  ultimately show ?case using tr'(3) unfolding run by metis
qed simp

lemma elapsed_complete: "elapsed_all (map (\<lambda>(_, t0, t1). (Some t0, Some t1)) ss) = Inr (map (\<lambda>(_, t0, t1). t1 - t0) ss)"
  by (induction ss) auto

lemma calculate_complete:
  assumes "distinct (map fst items)" "\<forall>(t, ps) \<in> set items. \<exists>ds. elapsed_all ps = Inr ds \<and> ds \<noteq> []"
  shows "\<exists>summary' timings'. calculate_tags items summary timings = (Inr summary', timings') \<and>
    (\<forall>t. map_of summary' t = (case map_of items t of
       Some ps \<Rightarrow> Some (summarize_section (projr (elapsed_all ps))) | None \<Rightarrow> map_of summary t))"
  using assms
proof (induction items arbitrary: summary timings)
  case (Cons item items)
  obtain tag ps where item: "item = (tag, ps)" by (cases item)
  obtain ds where ds: "elapsed_all ps = Inr ds" "ds \<noteq> []" using Cons.prems(2) item by auto
  have fresh: "map_of items tag = None" using Cons.prems(1) item by (auto simp: map_of_eq_None_iff)
  let ?s = "AList.update tag (summarize_section ds) summary" and ?t = "AList.update tag (the (map_of timings tag) @ ds) timings"
  obtain s' t' where IH: "calculate_tags items ?s ?t = (Inr s', t')"
    "\<forall>t. map_of s' t = (case map_of items t of Some ps \<Rightarrow> Some (summarize_section (projr (elapsed_all ps))) | None \<Rightarrow> map_of ?s t)"
    using Cons.IH[of ?s ?t] Cons.prems by auto
  then show ?case using ds fresh by (auto simp: item map_of_update split: option.splits)
qed simp

lemma nearest_rank_index:
  assumes "0 < n" "0 \<le> p" "p \<le> q"
  shows "min (nat \<lfloor>real n * p\<rfloor>) (n - 1) \<le> min (nat \<lfloor>real n * q\<rfloor>) (n - 1)" "min (nat \<lfloor>real n * q\<rfloor>) (n - 1) < n"
proof -
  have "real n * p \<le> real n * q" using assms by (simp add: mult_left_mono)
  then show "min (nat \<lfloor>real n * p\<rfloor>) (n - 1) \<le> min (nat \<lfloor>real n * q\<rfloor>) (n - 1)"
    by (meson floor_mono min.mono nat_mono order_refl)
qed (use assms in simp)

lemma summarize_ranges:
  assumes "ds \<noteq> []"
  shows "let s = summarize_section ds in se_count s = length ds \<and> se_min_ms s = Min (set ds) \<and>
    se_max_ms s = Max (set ds) \<and> se_min_ms s \<le> se_mean_ms s \<and> se_mean_ms s \<le> se_max_ms s \<and>
    se_min_ms s \<le> se_p50_ms s \<and> se_p50_ms s \<le> se_p95_ms s \<and> se_p95_ms s \<le> se_p99_ms s \<and> se_p99_ms s \<le> se_max_ms s"
proof -
  let ?d = "sort ds" and ?n = "length ds"
  have n: "0 < ?n" using assms by simp
  have ne: "?d \<noteq> []" using n by (metis length_0_conv length_sort less_irrefl)
  have mono: "?d ! i \<le> ?d ! j" if "i \<le> j" "j < ?n" for i j using that by (simp add: sorted_nth_mono)
  have lst: "last ?d = ?d ! (?n - 1)" using ne by (simp add: last_conv_nth)
  have in_d: "?d ! i \<in> set ds" if "i < ?n" for i using that by (metis length_sort nth_mem set_sort)
  have idx: "\<exists>i < ?n. x = ?d ! i" if "x \<in> set ds" for x using that by (metis in_set_conv_nth length_sort set_sort)
  have mn: "?d ! 0 = Min (set ds)" using n in_d idx mono by (intro Min_eqI[symmetric]) fastforce+
  have mx: "last ?d = Max (set ds)" unfolding lst using n in_d idx mono
    by (intro Max_eqI[symmetric]) (fastforce dest: idx intro: mono)+
  have half: "nat \<lfloor>real ?n * (50 / 100)\<rfloor> = min (nat \<lfloor>real ?n * (50 / 100)\<rfloor>) (?n - 1)"
    using n by (simp add: min_def) linarith
  note r = nearest_rank_index[OF n, of "50 / 100" "95 / 100"] nearest_rank_index[OF n, of "95 / 100" "99 / 100"]
  have "Min (set ds) \<le> t_mean ?d \<and> t_mean ?d \<le> Max (set ds)" using ne by (intro mean_bounds) auto
  moreover have "?d ! nat \<lfloor>real ?n * (50 / 100)\<rfloor> \<le> nearest_rank ?d (95 / 100)"
    using r by (subst half) (auto simp: nearest_rank_def intro!: mono)
  moreover have "nearest_rank ?d (95 / 100) \<le> nearest_rank ?d (99 / 100)"
    using r by (auto simp: nearest_rank_def intro!: mono)
  moreover have "nearest_rank ?d (99 / 100) \<le> last ?d"
    unfolding lst by (simp only: nearest_rank_def length_sort) (rule mono, simp, use n in linarith)
  moreover have "?d ! 0 \<le> ?d ! nat \<lfloor>real ?n * (50 / 100)\<rfloor>" using r n by (subst half) (intro mono, simp, linarith)
  ultimately show ?thesis by (simp add: summarize_section_def Let_def mn mx)
qed

text \<open>
  C40: Sections that are profiled one after another give, for each tag, a summary of exactly the
  durations of its sections: their number, least and greatest, and the mean and the percentiles in
  increasing order between them.
\<close>

theorem trace_summary:
  "\<exists>summary tr. synchronize_and_calculate (run_sections ss new_tracer) = (Inr summary, tr) \<and>
    (\<forall>tag. (section_times ss tag = []) = (map_of summary tag = None)) \<and>
    (\<forall>tag s. map_of summary tag = Some s \<longrightarrow>
       se_count s = length (section_times ss tag) \<and>
       se_min_ms s = Min (set (section_times ss tag)) \<and> se_max_ms s = Max (set (section_times ss tag)) \<and>
       se_min_ms s \<le> se_mean_ms s \<and> se_mean_ms s \<le> se_max_ms s \<and>
       se_min_ms s \<le> se_p50_ms s \<and> se_p50_ms s \<le> se_p95_ms s \<and> se_p95_ms s \<le> se_p99_ms s \<and>
       se_p99_ms s \<le> se_max_ms s)"
proof -
  let ?tr = "run_sections ss new_tracer"
  let ?ps = "\<lambda>tag. map (\<lambda>(_, t0, t1). (Some t0, Some t1)) (filter (\<lambda>s. fst s = tag) ss)"
  have ev: "distinct (map fst (tr_events ?tr))" "\<And>tag. pairs_of ?tr tag = ?ps tag"
    "\<And>t ps. map_of (tr_events ?tr) t = Some ps \<Longrightarrow> ps \<noteq> []"
    using run_sections_events[of new_tracer ss] by (simp_all add: new_tracer_def pairs_of_def)
  have el: "elapsed_all (?ps tag) = Inr (section_times ss tag)" for tag
    by (simp add: elapsed_complete section_times_def)
  have tag: "map_of (tr_events ?tr) t = (if section_times ss t = [] then None else Some (?ps t))" for t
    using ev(2)[of t] ev(3)[of t] by (auto simp: pairs_of_def section_times_def split: option.splits)
  have "\<exists>ds. elapsed_all ps = Inr ds \<and> ds \<noteq> []" if "(t, ps) \<in> set (tr_events ?tr)" for t ps
  proof -
    have "map_of (tr_events ?tr) t = Some ps" using map_of_is_SomeI[OF ev(1) that] .
    then have "ps = ?ps t" "section_times ss t \<noteq> []" unfolding tag by (simp_all split: if_splits)
    then show ?thesis using el[of t] by blast
  qed
  then have "\<forall>(t, ps) \<in> set (tr_events ?tr). \<exists>ds. elapsed_all ps = Inr ds \<and> ds \<noteq> []" by blast
  from calculate_complete[OF ev(1) this, of "[]" "tr_timings ?tr"] obtain summary timings where
    c: "calculate_tags (tr_events ?tr) [] (tr_timings ?tr) = (Inr summary, timings)"
    "\<forall>t. map_of summary t = (case map_of (tr_events ?tr) t of
       Some ps \<Rightarrow> Some (summarize_section (projr (elapsed_all ps))) | None \<Rightarrow> map_of [] t)" by blast
  have s: "map_of summary t = (if section_times ss t = [] then None else Some (summarize_section (section_times ss t)))" for t
    using c(2)[rule_format, of t] by (simp add: tag el)
  have "synchronize_and_calculate ?tr = (Inr summary, ?tr\<lparr>tr_timings := timings\<rparr>)"
    by (simp add: synchronize_and_calculate_def c(1))
  moreover have "(section_times ss tag = []) = (map_of summary tag = None)" for tag by (simp add: s)
  moreover have "se_count q = length (section_times ss tag) \<and>
       se_min_ms q = Min (set (section_times ss tag)) \<and> se_max_ms q = Max (set (section_times ss tag)) \<and>
       se_min_ms q \<le> se_mean_ms q \<and> se_mean_ms q \<le> se_max_ms q \<and>
       se_min_ms q \<le> se_p50_ms q \<and> se_p50_ms q \<le> se_p95_ms q \<and> se_p95_ms q \<le> se_p99_ms q \<and>
       se_p99_ms q \<le> se_max_ms q" if "map_of summary tag = Some q" for tag q
  proof -
    have ne: "section_times ss tag \<noteq> []" and q: "q = summarize_section (section_times ss tag)"
      using that by (simp_all add: s split: if_splits)
    show ?thesis unfolding q by (rule summarize_ranges[OF ne, unfolded Let_def])
  qed
  ultimately show ?thesis by blast
qed

theorem trace_summary_witness:
  "\<exists>summary tr s. synchronize_and_calculate (run_sections [(''a'', 0, 2), (''b'', 1, 2), (''a'', 3, 4)] new_tracer) = (Inr summary, tr) \<and>
     map_of summary ''a'' = Some s \<and> se_count s = 2 \<and> se_min_ms s = 1 \<and> se_max_ms s = 2 \<and> se_p50_ms s \<le> 2"
proof -
  let ?ss = "[(''a'', 0, 2), (''b'', 1, 2), (''a'', 3, 4)] :: (string \<times> real \<times> real) list"
  have times: "section_times ?ss ''a'' = [2, 1]" by (simp add: section_times_def)
  from trace_summary[of ?ss] obtain summary tr where
    s: "synchronize_and_calculate (run_sections ?ss new_tracer) = (Inr summary, tr)"
    "\<forall>tag. (section_times ?ss tag = []) = (map_of summary tag = None)"
    and r: "\<forall>tag s. map_of summary tag = Some s \<longrightarrow>
       se_count s = length (section_times ?ss tag) \<and>
       se_min_ms s = Min (set (section_times ?ss tag)) \<and> se_max_ms s = Max (set (section_times ?ss tag)) \<and>
       se_min_ms s \<le> se_mean_ms s \<and> se_mean_ms s \<le> se_max_ms s \<and>
       se_min_ms s \<le> se_p50_ms s \<and> se_p50_ms s \<le> se_p95_ms s \<and> se_p95_ms s \<le> se_p99_ms s \<and>
       se_p99_ms s \<le> se_max_ms s" by blast
  from s(2) times obtain q where q: "map_of summary ''a'' = Some q" by (metis list.distinct(1) not_None_eq)
  from r[rule_format, OF q] have "se_count q = 2" "se_min_ms q = 1" "se_max_ms q = 2" "se_p50_ms q \<le> se_max_ms q"
    unfolding times by simp_all
  with s(1) q show ?thesis by auto
qed

lemma calculate_incomplete:
  assumes "(tag, ps) \<in> set items" "elapsed_all ps = Inl EventNotRecorded"
  shows "fst (calculate_tags items summary timings) = Inl EventNotRecorded"
proof -
  have only: "elapsed_all qs = Inl e \<Longrightarrow> e = EventNotRecorded" for qs e
    by (induction qs arbitrary: e) (auto simp: res_bind_def split: sum.splits elim: elapsed_time.elims)
  from assms show ?thesis
    by (induction items summary timings rule: calculate_tags.induct) (auto split: sum.splits dest: only)
qed

lemma elapsed_hole: "elapsed_all (ps @ (Some s, None) # qs) = Inl EventNotRecorded"
proof (induction ps)
  case (Cons p ps)
  then show ?case by (cases p rule: elapsed_time.cases) auto
qed simp

text \<open>
  A section that is profiled inside a section of the same tag is lost: the end event of the
  outer one is never recorded, and the calculation raises.
\<close>

theorem nested_section_unmeasured:
  "\<exists>tr1 tr2. profile_section tag t0 t3 (\<lambda>tr. profile_section tag t1 t2 (\<lambda>x. (r, x)) tr) tr = (Inr (Inr r), tr1) \<and>
     synchronize_and_calculate tr1 = (Inl EventNotRecorded, tr2)"
proof -
  let ?tr1 = "trace_start t0 tag tr"
  obtain tr2 where in2: "profile_section tag t1 t2 (\<lambda>x. (r, x)) ?tr1 = (Inr r, tr2)"
    "map_of (tr_events tr2) = (map_of (tr_events ?tr1))(tag \<mapsto> pairs_of ?tr1 tag @ [(Some t1, Some t2)])"
    using section_events[of tag t1 t2 r ?tr1] by auto
  have "map_of (tr_events tr2) tag = Some ((pairs_of tr tag @ [(Some t0, None)]) @ [(Some t1, Some t2)])"
    by (simp add: in2(2)) (simp add: pairs_of_def start_events(1))
  from stop_events[OF this, of t3] obtain tr3 where out: "trace_stop t3 tag tr2 = (Inr (), tr3)"
    "map_of (tr_events tr3) tag = Some (pairs_of tr tag @ (Some t0, None) # [(Some t1, Some t3)])" by auto
  have "fst (calculate_tags (tr_events tr3) [] (tr_timings tr3)) = Inl EventNotRecorded"
    by (rule calculate_incomplete[OF map_of_SomeD[OF out(2)] elapsed_hole])
  then obtain timings where "calculate_tags (tr_events tr3) [] (tr_timings tr3) = (Inl EventNotRecorded, timings)"
    by (cases "calculate_tags (tr_events tr3) [] (tr_timings tr3)") auto
  moreover have "profile_section tag t0 t3 (\<lambda>tr. profile_section tag t1 t2 (\<lambda>x. (r, x)) tr) tr = (Inr (Inr r), tr3)"
    unfolding profile_section_def[of tag t0] in2(1) by (simp add: out(1))
  ultimately show ?thesis by (simp add: synchronize_and_calculate_def)
qed

section \<open>Memory, timings and metrics\<close>

lemma assert_latest:
  "lb1 \<noteq> lb2 \<Longrightarrow> assert_no_leak lb1 lb2 thr (snaps @ [(lb1, b), (lb2, t)]) =
     (let diff_mb = of_int (ms_allocated t - ms_allocated b) / (1024 * 1024)
      in if thr < diff_mb then Inl (LeakDetected diff_mb) else Inr ())"
  by (simp add: assert_no_leak_def)

lemma capture_eq:
  assumes "capture st mem lb snaps = (s, snaps')"
  shows "snaps' = snaps @ [(lb, s)]" "ms_allocated s = stat st ''allocated_bytes.all.current''"
    "ms_fragmentation s =
       (if 0 < stat st ''reserved_bytes.all.current''
        then of_int (stat st ''reserved_bytes.all.current'' - stat st ''allocated_bytes.all.current'') /
          of_int (stat st ''reserved_bytes.all.current'') else 0)"
  using assms by (auto simp: capture_def Let_def)

text \<open>
  Between two captured labels the leak check raises exactly when the allocation has grown by more
  than the threshold, judged by the latest snapshot of each label, and the fragmentation that a
  snapshot reports is a ratio.
\<close>

theorem leak_check_latest:
  assumes "capture st1 mem1 lb1 snaps = (base, snaps1)" "capture st2 mem2 lb2 snaps1 = (target, snaps2)"
    and "lb1 \<noteq> lb2"
    and "0 \<le> stat st2 ''allocated_bytes.all.current''"
    and "stat st2 ''allocated_bytes.all.current'' \<le> stat st2 ''reserved_bytes.all.current''"
  shows "(assert_no_leak lb1 lb2 threshold_mb snaps2 = Inr () \<longleftrightarrow>
      of_int (stat st2 ''allocated_bytes.all.current'') \<le>
      of_int (stat st1 ''allocated_bytes.all.current'') + threshold_mb * 1048576) \<and>
    0 \<le> ms_fragmentation target \<and> ms_fragmentation target \<le> 1"
proof -
  have snaps: "snaps2 = snaps @ [(lb1, base), (lb2, target)]"
    using capture_eq(1)[OF assms(1)] capture_eq(1)[OF assms(2)] by simp
  show ?thesis
    using assms(4,5) unfolding snaps assert_latest[OF assms(3)] capture_eq(2)[OF assms(1)]
      capture_eq(2)[OF assms(2)] capture_eq(3)[OF assms(2)]
    by (auto simp: Let_def field_simps)
qed

theorem leak_check_latest_witness:
  "\<exists>b t s1 s2. capture [] (1, 2) ''a'' [] = (b, s1) \<and>
     capture [(''allocated_bytes.all.current'', 1048576), (''reserved_bytes.all.current'', 2097152)] (1, 2) ''b'' s1 = (t, s2) \<and>
     assert_no_leak ''a'' ''b'' 1 s2 = Inr ()"
proof -
  obtain b s1 where 1: "capture [] (1, 2) ''a'' [] = (b, s1)" by fastforce
  obtain t s2 where 2: "capture [(''allocated_bytes.all.current'', 1048576), (''reserved_bytes.all.current'', 2097152)]
     (1, 2) ''b'' s1 = (t, s2)" by fastforce
  from leak_check_latest[OF 1 2, of 1] have "assert_no_leak ''a'' ''b'' 1 s2 = Inr ()" by (simp add: stat_def)
  with 1 2 show ?thesis by blast
qed

lemma timed_calls_pure:
  assumes "\<And>s. fn s = (Inr (d s), nxt s)"
  shows "timed_calls fn n s = (Inr (map (\<lambda>i. d ((nxt ^^ i) s)) [0..<n]), (nxt ^^ n) s)"
proof (induction n arbitrary: s)
  case (Suc n)
  have "map (\<lambda>i. d ((nxt ^^ i) s)) [0..<Suc n] = d s # map (\<lambda>i. d ((nxt ^^ i) (nxt s))) [0..<n]"
    by (subst upt_conv_Cons) (simp_all add: map_Suc_upt[symmetric] funpow_swap1 del: upt_Suc)
  then show ?case using Suc[of "nxt s"] by (simp add: assms funpow_swap1 del: upt_Suc)
qed simp

text \<open>
  The event profiler calls the function once per warmup and per measured iteration, reports the
  mean of the measured calls between their least and greatest time, and fails without a measured
  iteration.
\<close>

theorem event_profiler_report:
  assumes "\<And>s. fn s = (Inr (d s), nxt s)"
  shows "case benchmark True label warmup iters fn memory s of
      (Inl e, s') \<Rightarrow> iters \<le> 0 \<and> e = EmptyTimings
    | (Inr r, s') \<Rightarrow> s' = (nxt ^^ (nat warmup + nat iters)) s \<and>
        tm_min_ms r \<le> tm_mean_ms r \<and> tm_mean_ms r \<le> tm_max_ms r \<and> (tm_std_ms r = None \<longleftrightarrow> iters = 1) \<and>
        (\<forall>i < nat iters. tm_min_ms r \<le> d ((nxt ^^ (nat warmup + i)) s) \<and>
                         d ((nxt ^^ (nat warmup + i)) s) \<le> tm_max_ms r)"
proof (cases "iters \<le> 0")
  case True
  then show ?thesis by (simp add: benchmark_def timed_calls_pure[OF assms])
next
  case False
  let ?ts = "map (\<lambda>i. d ((nxt ^^ i) ((nxt ^^ nat warmup) s))) [0..<nat iters]"
  have ne: "?ts \<noteq> []" using False by simp
  have "Min (set ?ts) \<le> t_mean ?ts \<and> t_mean ?ts \<le> Max (set ?ts)" by (rule mean_bounds[OF ne]) auto
  moreover have "(nxt ^^ i) ((nxt ^^ nat warmup) s) = (nxt ^^ (nat warmup + i)) s" for i
    by (simp add: funpow_add add.commute)
  ultimately show ?thesis using False ne
    by (auto simp: benchmark_def timed_calls_pure[OF assms] add.commute simp del: upt_Suc intro!: Min_le Max_ge)
qed

theorem event_profiler_report_witness:
  "case benchmark True ''k'' 2 3 (\<lambda>s. (Inr (real s), Suc s)) (\<lambda>s. (s, s)) 0 of
     (Inl e, s') \<Rightarrow> False | (Inr r, s') \<Rightarrow> s' = 5 \<and> tm_min_ms r \<le> 2 \<and> 4 \<le> tm_max_ms r"
  using event_profiler_report[where fn = "\<lambda>s. (Inr (real s), Suc s)" and d = real and nxt = Suc and
    iters = 3 and label = "''k''" and warmup = 2 and memory = "\<lambda>s. (s, s)" and s = 0]
  by (auto simp: numeral_2_eq_2 numeral_3_eq_3 split: prod.splits sum.splits dest: spec[of _ 2])

fun metric_name :: "metric \<Rightarrow> string" where
  "metric_name (Histogram name _ _) = name"
| "metric_name (Counter name _) = name"
| "metric_name (Gauge name _) = name"
| "metric_name (Summary name _) = name"

fun metric_ok :: "metric \<Rightarrow> bool" where
  "metric_ok (Histogram name labels buckets) = (distinct labels \<and> buckets \<noteq> [] \<and> sorted_wrt (<) (0 # buckets))"
| "metric_ok (Counter name labels) = distinct labels"
| "metric_ok (Gauge name labels) = distinct labels"
| "metric_ok (Summary name labels) = distinct labels"

text \<open>
  The metrics can be registered in one registry: their names differ, the labels of each differ,
  and the buckets of every histogram are positive and strictly increasing.
\<close>

theorem registry_valid: "distinct (map metric_name metric_registry) \<and> list_all metric_ok metric_registry"
  by (simp add: metric_registry_def)

end
