(* ===== verification/Ncu_Profiler.thy ===== *)
theory Ncu_Profiler
  imports Text_Lib
begin

text \<open>
  The Nsight Compute launcher and parser of \<open>cudaforge/profiler.py\<close>: the command line, the CSV log
  it leaves, and the metrics of each kernel. The subprocess, the log file and the conversion of a
  numeral to a float (\<open>None\<close> where \<open>float\<close> raises) are arguments.
\<close>

section \<open>Splitting text\<close>

text \<open>\<open>str.split(sep)\<close> for a separator that is not empty, with the piece read so far.\<close>

function split_from :: "string \<Rightarrow> string \<Rightarrow> string \<Rightarrow> string list" where
  "split_from sep piece [] = [piece]"
| "split_from sep piece (c # cs) =
     (if sep \<noteq> [] \<and> starts_with sep (c # cs)
      then piece # split_from sep [] (drop (length sep - 1) cs)
      else split_from sep (piece @ [c]) cs)"
  by pat_completeness auto

termination split_from
  by (relation "measure (\<lambda>(_, _, s). length s)") auto

definition split_on :: "string \<Rightarrow> string \<Rightarrow> string list" where
  "split_on sep s = split_from sep [] s"

definition strip_char :: "char \<Rightarrow> string \<Rightarrow> string" where
  "strip_char c s = rev (dropWhile (\<lambda>x. x = c) (rev (dropWhile (\<lambda>x. x = c) s)))"

fun join_with :: "string \<Rightarrow> string list \<Rightarrow> string" where
  "join_with sep [] = []"
| "join_with sep [s] = s"
| "join_with sep (s # ss) = s @ sep @ join_with sep ss"

definition quote :: char where
  "quote = char_of (34 :: nat)"

definition is_line_end :: "char \<Rightarrow> bool" where
  "is_line_end c \<longleftrightarrow> c = newline \<or> c = char_of (13 :: nat)"

text \<open>The lines of a file; the empty lines that two adjacent line ends give are dropped later.\<close>

fun lines_from :: "string \<Rightarrow> string \<Rightarrow> string list" where
  "lines_from piece [] = [piece]"
| "lines_from piece (c # cs) = (if is_line_end c then piece # lines_from [] cs else lines_from (piece @ [c]) cs)"

definition csv_sep :: string where
  "csv_sep = [quote, CHR '','', quote]"

definition prof_marker :: string where
  "prof_marker = quote # ''==PROF=='' @ [quote]"

section \<open>Parsing the log\<close>

record ncu_metrics =
  nm_kernel_name :: string
  nm_duration_ms :: real
  nm_compute_sol_pct :: real
  nm_memory_sol_pct :: real
  nm_sm_occupancy_pct :: real
  nm_dram_throughput_gbs :: real
  nm_l1_cache_hit_rate :: real
  nm_l2_cache_hit_rate :: real
  nm_tensor_core_utilization :: real
  nm_raw_metrics :: "(string \<times> real) list"

definition split_row :: "string \<Rightarrow> string list" where
  "split_row row = map (strip_char quote) (split_on csv_sep row)"

fun index_of :: "'a \<Rightarrow> 'a list \<Rightarrow> nat option" where
  "index_of x [] = None"
| "index_of x (y # ys) = (if x = y then Some 0 else map_option Suc (index_of x ys))"

type_synonym kernel_reports = "(string \<times> (string \<times> real) list) list"

definition metric_value :: "(string \<Rightarrow> real option) \<Rightarrow> string \<Rightarrow> real" where
  "metric_value read_float raw =
     (case read_float (filter (\<lambda>c. c \<noteq> CHR '','') raw) of Some v \<Rightarrow> v | None \<Rightarrow> 0)"

definition report_of :: "kernel_reports \<Rightarrow> string \<Rightarrow> (string \<times> real) list" where
  "report_of parsed k_name = (case map_of parsed k_name of None \<Rightarrow> [] | Some d \<Rightarrow> d)"

definition add_value :: "string \<Rightarrow> string \<Rightarrow> real \<Rightarrow> kernel_reports \<Rightarrow> kernel_reports" where
  "add_value k_name m_name v parsed =
     AList.update k_name (AList.update m_name v (report_of parsed k_name)) parsed"

definition parse_row :: "(string \<Rightarrow> real option) \<Rightarrow> nat \<Rightarrow> nat \<Rightarrow> nat \<Rightarrow> string \<Rightarrow> kernel_reports \<Rightarrow> kernel_reports" where
  "parse_row read_float kernel_idx metric_idx value_idx row parsed =
     (let parts = split_row row in
      if length parts \<le> max kernel_idx (max metric_idx value_idx) then parsed
      else add_value (parts ! kernel_idx) (parts ! metric_idx) (metric_value read_float (parts ! value_idx)) parsed)"

definition get_metric :: "(string \<times> real) list \<Rightarrow> string \<Rightarrow> real" where
  "get_metric d key = (case map_of d key of Some v \<Rightarrow> v | None \<Rightarrow> 0)"

definition kernel_metrics :: "string \<times> (string \<times> real) list \<Rightarrow> ncu_metrics" where
  "kernel_metrics = (\<lambda>(k_name, d).
     \<lparr>nm_kernel_name = k_name,
      nm_duration_ms = get_metric d ''gpu__time_duration.sum'' / 10 ^ 6,
      nm_compute_sol_pct = get_metric d ''sm__throughput.avg.pct_of_peak_sustained_elapsed'',
      nm_memory_sol_pct = get_metric d ''gpu__compute_memory_throughput.avg.pct_of_peak_sustained_elapsed'',
      nm_sm_occupancy_pct = get_metric d ''sm__warps_active.avg.pct_of_peak_sustained_active'',
      nm_dram_throughput_gbs = get_metric d ''dram__bytes.sum.per_second'' / 10 ^ 9,
      nm_l1_cache_hit_rate = get_metric d ''l1tex__t_sectors_pipe_lsu_mem_global_op_ld_lookup_hit_rate.pct'',
      nm_l2_cache_hit_rate = get_metric d ''lts__t_sectors_op_read_hit_rate.pct'',
      nm_tensor_core_utilization = get_metric d ''sm__inst_executed_pipe_tensor.avg.pct_of_peak_sustained_active'',
      nm_raw_metrics = d\<rparr>)"

definition data_lines :: "string \<Rightarrow> string list" where
  "data_lines content =
     filter (\<lambda>l. \<not> starts_with prof_marker l) (filter (\<lambda>l. l \<noteq> []) (map strip (lines_from [] content)))"

definition parse_ncu_csv :: "(string \<Rightarrow> real option) \<Rightarrow> string option \<Rightarrow> ncu_metrics list" where
  "parse_ncu_csv read_float file =
     (case file of None \<Rightarrow> []
      | Some content \<Rightarrow>
          let ls = data_lines content in
          if length ls < 2 then []
          else
            let headers = split_row (ls ! 0) in
            case (index_of ''Kernel Name'' headers, index_of ''Metric Name'' headers, index_of ''Metric Value'' headers) of
              (Some kernel_idx, Some metric_idx, Some value_idx) \<Rightarrow>
                map kernel_metrics (fold (parse_row read_float kernel_idx metric_idx value_idx) (tl ls) [])
            | _ \<Rightarrow> [])"

section \<open>Running the profiler\<close>

record ncu_profiler =
  np_ncu_path :: string
  np_output_dir :: string
  np_target_metrics :: "string list"

definition default_metrics :: "string list" where
  "default_metrics =
     [''gpu__time_duration.sum'', ''sm__throughput.avg.pct_of_peak_sustained_elapsed'',
      ''gpu__compute_memory_throughput.avg.pct_of_peak_sustained_elapsed'',
      ''sm__warps_active.avg.pct_of_peak_sustained_active'', ''dram__bytes.sum.per_second'',
      ''l1tex__t_sectors_pipe_lsu_mem_global_op_ld_lookup_hit_rate.pct'', ''lts__t_sectors_op_read_hit_rate.pct'',
      ''sm__inst_executed_pipe_tensor.avg.pct_of_peak_sustained_active'']"

definition new_profiler :: "string \<Rightarrow> string \<Rightarrow> string option \<Rightarrow> string list option \<Rightarrow> ncu_profiler" where
  "new_profiler tmpdir ncu_path output_dir target_metrics =
     \<lparr>np_ncu_path = ncu_path,
      np_output_dir = (case output_dir of Some (c # cs) \<Rightarrow> c # cs | _ \<Rightarrow> tmpdir),
      np_target_metrics = (case target_metrics of Some (m # ms) \<Rightarrow> m # ms | _ \<Rightarrow> default_metrics)\<rparr>"

definition path_join :: "string \<Rightarrow> string \<Rightarrow> string" where
  "path_join dir name = (if dir = [] \<or> ends_with ''/'' dir then dir @ name else dir @ ''/'' @ name)"

definition output_csv :: "ncu_profiler \<Rightarrow> string" where
  "output_csv p = path_join (np_output_dir p) ''ncu_profile_output.csv''"

definition ncu_command :: "ncu_profiler \<Rightarrow> string list \<Rightarrow> string option \<Rightarrow> int \<Rightarrow> string list" where
  "ncu_command p python_command kernel_regex max_kernels =
     [np_ncu_path p, ''--csv'', ''--log-file='' @ output_csv p,
      ''--metrics='' @ join_with '','' (np_target_metrics p),
      ''--launch-count='' @ show_int max_kernels, ''--force-overwrite''] @
     (case kernel_regex of Some (c # cs) \<Rightarrow> [''--kernel-name='' @ c # cs] | _ \<Rightarrow> []) @ python_command"

datatype ncu_error = RuntimeError string | ProgramNotFound string
datatype process_result = Completed | NonZeroExit string string | NotFound

text \<open>The process sees the files and changes them; its log is parsed afterwards.\<close>

definition profile_python_cmd ::
  "(string \<Rightarrow> real option) \<Rightarrow> (string list \<Rightarrow> 'fs \<Rightarrow> process_result \<times> 'fs) \<Rightarrow> ('fs \<Rightarrow> string \<Rightarrow> string option) \<Rightarrow>
   ncu_profiler \<Rightarrow> string list \<Rightarrow> string option \<Rightarrow> int \<Rightarrow> 'fs \<Rightarrow> (ncu_error, ncu_metrics list, 'fs) eff" where
  "profile_python_cmd read_float run read_file p python_command kernel_regex max_kernels fs =
     (case run (ncu_command p python_command kernel_regex max_kernels) fs of
        (NonZeroExit stdout stderr, fs') \<Rightarrow>
          (Inl (RuntimeError (''Nsight Compute failed execution:'' @ [newline] @ ''STDOUT: '' @ stdout @
             [newline] @ ''STDERR: '' @ stderr)), fs')
      | (NotFound, fs') \<Rightarrow> (Inl (ProgramNotFound (np_ncu_path p)), fs')
      | (Completed, fs') \<Rightarrow> (Inr (parse_ncu_csv read_float (read_file fs' (output_csv p))), fs'))"

section \<open>Reading back a table\<close>

text \<open>The quoted form of a table, as the tool writes it.\<close>

definition csv_line :: "string list \<Rightarrow> string" where
  "csv_line cells = quote # join_with csv_sep cells @ [quote]"

definition csv_text :: "string list list \<Rightarrow> string" where
  "csv_text rows = concat (map (\<lambda>r. csv_line r @ [newline]) rows)"

definition cell_ok :: "string \<Rightarrow> bool" where
  "cell_ok s \<longleftrightarrow> (\<forall>c \<in> set s. c \<noteq> quote \<and> \<not> is_line_end c)"

definition row_ok :: "string list \<Rightarrow> bool" where
  "row_ok cells \<longleftrightarrow> cells \<noteq> [] \<and> (\<forall>s \<in> set cells. cell_ok s) \<and> hd cells \<noteq> '','' \<and> hd cells \<noteq> ''==PROF==''"

lemma quote_chars [simp]: "\<not> is_space quote" "\<not> is_line_end quote" "quote \<noteq> CHR '',''" "CHR '','' \<noteq> quote" "\<not> is_line_end CHR '',''"
  by (code_simp)+

lemma split_cell:
  assumes "\<forall>c \<in> set s. c \<noteq> quote"
  shows "split_from csv_sep piece (s @ csv_sep @ rest) = (piece @ s) # split_from csv_sep [] rest"
    "split_from csv_sep piece (s @ [quote]) = [piece @ s @ [quote]]"
  using assms by (induction s arbitrary: piece) (auto simp: csv_sep_def starts_with_def)

lemma split_cells:
  assumes "cells \<noteq> []" "\<forall>s \<in> set cells. cell_ok s"
  shows "split_from csv_sep piece (join_with csv_sep cells @ [quote]) =
    butlast ((piece @ hd cells) # tl cells) @ [last ((piece @ hd cells) # tl cells) @ [quote]]"
  using assms
proof (induction csv_sep cells arbitrary: piece rule: join_with.induct)
  case (2 s)
  then show ?case using split_cell(2)[of s piece] by (simp add: cell_ok_def)
next
  case (3 s t ss)
  have "\<forall>c \<in> set s. c \<noteq> quote" using 3(3) by (simp add: cell_ok_def)
  from split_cell(1)[OF this, of piece "join_with csv_sep (t # ss) @ [quote]"] 3(1)[of "[]"] 3(3)
  show ?case by simp
qed simp

lemma strip_cell:
  assumes "cell_ok s"
  shows "strip_char quote s = s" "strip_char quote (quote # s) = s" "strip_char quote (s @ [quote]) = s"
    "strip_char quote (quote # s @ [quote]) = s"
proof -
  have d: "dropWhile (\<lambda>x. x = quote) s = s" "dropWhile (\<lambda>x. x = quote) (rev s) = rev s"
    using assms by (cases s; force simp: cell_ok_def dropWhile_eq_self_iff)
     (cases s rule: rev_cases; force simp: assms[unfolded cell_ok_def] dropWhile_eq_self_iff)
  have e: "dropWhile (\<lambda>x. x = quote) (s @ [quote]) = (if s = [] then [] else s @ [quote])"
    using assms by (cases s) (auto simp: cell_ok_def)
  show "strip_char quote s = s" "strip_char quote (quote # s) = s" by (simp_all add: strip_char_def d)
  show "strip_char quote (s @ [quote]) = s" "strip_char quote (quote # s @ [quote]) = s"
    by (simp_all add: strip_char_def d e)
qed

lemma join_hd: "cells \<noteq> [] \<Longrightarrow> \<exists>rest. join_with csv_sep cells @ [quote] = hd cells @ quote # rest"
  by (cases "(csv_sep, cells)" rule: join_with.cases) (auto simp: csv_sep_def)

lemma split_line:
  assumes "row_ok cells"
  shows "split_row (csv_line cells) = cells"
proof -
  obtain rest where rest: "join_with csv_sep cells @ [quote] = hd cells @ quote # rest"
    using join_hd assms by (auto simp: row_ok_def)
  have "\<not> starts_with csv_sep (quote # hd cells @ quote # rest)"
  proof
    assume sw: "starts_with csv_sep (quote # hd cells @ quote # rest)"
    have q: "\<forall>c \<in> set (hd cells). c \<noteq> quote" using assms by (auto simp: row_ok_def cell_ok_def)
    show False
    proof (cases "hd cells")
      case (Cons c cs)
      then show ?thesis using sw q assms by (cases cs) (auto simp: starts_with_def csv_sep_def row_ok_def)
    qed (use sw in \<open>simp add: starts_with_def csv_sep_def\<close>)
  qed
  then have "split_on csv_sep (csv_line cells) = split_from csv_sep [quote] (join_with csv_sep cells @ [quote])"
    by (simp add: split_on_def csv_line_def rest)
  also have "\<dots> = butlast ((quote # hd cells) # tl cells) @ [last ((quote # hd cells) # tl cells) @ [quote]]"
    using split_cells[of cells "[quote]"] assms by (simp add: row_ok_def)
  finally have sp: "split_row (csv_line cells) =
    map (strip_char quote) (butlast ((quote # hd cells) # tl cells) @ [last ((quote # hd cells) # tl cells) @ [quote]])"
    by (simp add: split_row_def)
  obtain c cs where cells: "cells = c # cs" and ok: "cell_ok c" "\<forall>s \<in> set cs. cell_ok s"
    using assms by (cases cells) (auto simp: row_ok_def)
  show ?thesis
  proof (cases cs rule: rev_cases)
    case Nil
    then show ?thesis using ok unfolding sp unfolding cells by (simp add: strip_cell)
  next
    case (snoc ds d)
    then have "map (strip_char quote) ds = ds" using ok by (intro map_idI) (simp add: strip_cell)
    then show ?thesis using ok snoc unfolding sp unfolding cells by (simp add: strip_cell)
  qed
qed

lemma join_line_end: "\<forall>s \<in> set cells. cell_ok s \<Longrightarrow> \<forall>c \<in> set (join_with csv_sep cells). \<not> is_line_end c"
  by (induction csv_sep cells rule: join_with.induct) (auto simp: cell_ok_def csv_sep_def)

lemma lines_cell: "\<forall>c \<in> set s. \<not> is_line_end c \<Longrightarrow> lines_from piece (s @ newline # rest) = (piece @ s) # lines_from [] rest"
  by (induction s arbitrary: piece) (auto simp: is_line_end_def)

lemma lines_text: "\<forall>r \<in> set rows. row_ok r \<Longrightarrow> lines_from [] (csv_text rows) = map csv_line rows @ [[]]"
proof (induction rows)
  case (Cons r rows)
  have "\<forall>c \<in> set (csv_line r). \<not> is_line_end c"
    using join_line_end[of r] Cons.prems by (auto simp: csv_line_def row_ok_def)
  from lines_cell[OF this, of "[]" "csv_text rows"] Cons show ?case by (simp add: csv_text_def)
qed (simp add: csv_text_def)

lemma strip_line: "strip (csv_line r) = csv_line r"
  by (simp add: csv_line_def strip_def lstrip_def rstrip_def)

lemma marker_chars: "\<forall>c \<in> set ''==PROF==''. c \<noteq> quote"
  by code_simp

lemma line_no_marker:
  assumes "row_ok r"
  shows "\<not> starts_with prof_marker (csv_line r)"
proof
  assume sw: "starts_with prof_marker (csv_line r)"
  obtain rest where rest: "join_with csv_sep r @ [quote] = hd r @ quote # rest"
    using join_hd assms by (auto simp: row_ok_def)
  have q: "\<forall>c \<in> set (hd r). c \<noteq> quote" using assms by (auto simp: row_ok_def cell_ok_def)
  have "csv_line r = prof_marker @ drop (length prof_marker) (csv_line r)"
    using sw unfolding starts_with_def by (metis append_take_drop_id)
  then obtain more where more: "csv_line r = prof_marker @ more" by blast
  have "csv_line r = quote # (hd r @ quote # rest)" by (simp only: csv_line_def rest)
  with more have "hd r @ quote # rest = ''==PROF=='' @ quote # more"
    unfolding prof_marker_def by (simp only: append_Cons append_assoc append_Nil list.inject simp_thms)
  then have "takeWhile (\<lambda>c. c \<noteq> quote) (hd r @ quote # rest) = takeWhile (\<lambda>c. c \<noteq> quote) (''==PROF=='' @ quote # more)"
    by (rule arg_cong)
  also have "takeWhile (\<lambda>c. c \<noteq> quote) (''==PROF=='' @ quote # more) = ''==PROF=='' @ takeWhile (\<lambda>c. c \<noteq> quote) (quote # more)"
    by (rule takeWhile_append2) (rule bspec[OF marker_chars])
  also have "takeWhile (\<lambda>c. c \<noteq> quote) (quote # more) = []" by simp
  also have "takeWhile (\<lambda>c. c \<noteq> quote) (hd r @ quote # rest) = hd r"
    using q by (simp add: takeWhile_append2)
  finally have "hd r = ''==PROF==''" by (simp only: append_Nil2)
  with assms show False by (simp add: row_ok_def)
qed

lemma data_lines_text:
  assumes "\<forall>r \<in> set rows. row_ok r"
  shows "data_lines (csv_text rows) = map csv_line rows"
proof -
  have L: "map strip (map csv_line rows @ [[]]) = map csv_line rows @ [[]]"
    by (simp add: strip_line) (simp add: strip_def lstrip_def rstrip_def)
  have "data_lines (csv_text rows) =
    filter (\<lambda>l. \<not> starts_with prof_marker l) (filter (\<lambda>l. l \<noteq> []) (map csv_line rows))"
    unfolding data_lines_def lines_text[OF assms] L by simp
  also have "filter (\<lambda>l. l \<noteq> []) (map csv_line rows) = map csv_line rows"
    by (auto simp: csv_line_def filter_id_conv)
  also have "filter (\<lambda>l. \<not> starts_with prof_marker l) (map csv_line rows) = map csv_line rows"
    using assms line_no_marker by (auto simp: filter_id_conv)
  finally show ?thesis .
qed

section \<open>The metrics of a log\<close>

type_synonym log_row = "string \<times> string \<times> string"

definition header_row :: "string list" where
  "header_row = [''Kernel Name'', ''Metric Name'', ''Metric Value'']"

definition log_cells :: "log_row \<Rightarrow> string list" where
  "log_cells = (\<lambda>(k, m, v). [k, m, v])"

definition log_text :: "log_row list \<Rightarrow> string" where
  "log_text rows = csv_text (header_row # map log_cells rows)"

text \<open>The value of the last row of a kernel and a metric.\<close>

definition last_value :: "(string \<Rightarrow> real option) \<Rightarrow> log_row list \<Rightarrow> string \<Rightarrow> string \<Rightarrow> real option" where
  "last_value read_float rows k m =
     map_of (rev (map (\<lambda>(k, m, v). ((k, m), metric_value read_float v)) rows)) (k, m)"

lemma header_ok: "row_ok header_row"
  by code_simp

lemma header_index:
  "index_of ''Kernel Name'' header_row = Some 0" "index_of ''Metric Name'' header_row = Some 1"
  "index_of ''Metric Value'' header_row = Some 2"
  by code_simp+

lemma add_values:
  "map_of (report_of (fold (\<lambda>(k, m, v). add_value k m (metric_value read_float v)) rows parsed) k) m =
     (case last_value read_float rows k m of Some v \<Rightarrow> Some v | None \<Rightarrow> map_of (report_of parsed k) m) \<and>
   fst ` set (fold (\<lambda>(k, m, v). add_value k m (metric_value read_float v)) rows parsed) =
     fst ` set parsed \<union> fst ` set rows \<and>
   (distinct (map fst parsed) \<longrightarrow>
     distinct (map fst (fold (\<lambda>(k, m, v). add_value k m (metric_value read_float v)) rows parsed)))"
proof (induction rows arbitrary: parsed)
  case (Cons row rows)
  obtain k' m' v where row: "row = (k', m', v)" by (cases row)
  let ?p = "add_value k' m' (metric_value read_float v) parsed"
  have "map_of (report_of ?p k) m =
    (if k = k' \<and> m = m' then Some (metric_value read_float v) else map_of (report_of parsed k) m)"
    by (auto simp: add_value_def report_of_def map_of_update)
  moreover have "fst ` set ?p = insert k' (fst ` set parsed)" by (simp add: add_value_def keys_update)
  moreover have "distinct (map fst parsed) \<longrightarrow> distinct (map fst ?p)" by (simp add: add_value_def distinct_update)
  ultimately show ?case using Cons[of ?p]
    by (auto simp: row last_value_def map_add_def split: option.splits)
qed (simp add: last_value_def)

lemma parse_log:
  assumes "\<forall>row \<in> set rows. row_ok (log_cells row)" "rows \<noteq> []"
  shows "parse_ncu_csv read_float (Some (log_text rows)) =
    map kernel_metrics (fold (\<lambda>(k, m, v). add_value k m (metric_value read_float v)) rows [])"
proof -
  have dl: "data_lines (log_text rows) = csv_line header_row # map csv_line (map log_cells rows)"
    using data_lines_text[of "header_row # map log_cells rows"] assms(1) header_ok by (simp add: log_text_def)
  have "parse_row read_float 0 1 2 (csv_line (log_cells row)) = (case row of (k, m, v) \<Rightarrow> add_value k m (metric_value read_float v))"
    if "row \<in> set rows" for row
    using split_line[of "log_cells row"] assms(1) that
    by (cases row) (auto simp: parse_row_def log_cells_def fun_eq_iff)
  then have "fold (parse_row read_float 0 1 2) (map csv_line (map log_cells rows)) [] =
    fold (\<lambda>(k, m, v). add_value k m (metric_value read_float v)) rows []"
    unfolding fold_map by (intro fold_cong) auto
  moreover have "split_row (csv_line header_row) = header_row" by (rule split_line[OF header_ok])
  moreover have "\<not> length (data_lines (log_text rows)) < 2" using assms(2) unfolding dl by (cases rows) simp_all
  ultimately show ?thesis by (simp add: parse_ncu_csv_def dl header_index)
qed

text \<open>
  C39: Reading back the log of a table of kernels, metrics and values, in cells without quotes and line
  ends, the first cell of a row being neither a comma nor the marker \<open>==PROF==\<close>, gives one report per kernel, whose raw metrics are the values of the last row of that
  kernel and metric, thousands separators removed, and whose duration is converted from
  nanoseconds to milliseconds.
\<close>

theorem ncu_log_read_back:
  assumes "rows \<noteq> []" "\<forall>row \<in> set rows. row_ok (log_cells row)"
    and "reports = parse_ncu_csv read_float (Some (log_text rows))"
  shows "distinct (map nm_kernel_name reports) \<and> set (map nm_kernel_name reports) = set (map fst rows) \<and>
    (\<forall>r \<in> set reports. (\<forall>m. map_of (nm_raw_metrics r) m = last_value read_float rows (nm_kernel_name r) m) \<and>
       nm_duration_ms r * 10 ^ 6 =
         (case last_value read_float rows (nm_kernel_name r) ''gpu__time_duration.sum'' of Some v \<Rightarrow> v | None \<Rightarrow> 0))"
proof -
  define ps where "ps = fold (\<lambda>(k, m, v). add_value k m (metric_value read_float v)) rows []"
  have reports: "reports = map kernel_metrics ps" using parse_log[OF assms(2,1)] assms(3) by (simp add: ps_def)
  have names: "map nm_kernel_name reports = map fst ps" by (auto simp: reports kernel_metrics_def)
  have facts: "map_of (report_of ps k) m = last_value read_float rows k m" "fst ` set ps = fst ` set rows"
    "distinct (map fst ps)" for k m
    using add_values[of read_float rows "[]" k m] by (auto simp: ps_def report_of_def split: option.splits)
  have "\<forall>m. map_of (nm_raw_metrics r) m = last_value read_float rows (nm_kernel_name r) m \<and>
       nm_duration_ms r * 10 ^ 6 = (case map_of (nm_raw_metrics r) ''gpu__time_duration.sum'' of Some v \<Rightarrow> v | None \<Rightarrow> 0)"
    if "r \<in> set reports" for r
  proof -
    obtain k d where kd: "(k, d) \<in> set ps" "r = kernel_metrics (k, d)" using \<open>r \<in> set reports\<close> by (auto simp: reports)
    then have "report_of ps k = d" using facts(3) by (simp add: report_of_def)
    then show ?thesis using facts(1)[of k] kd(2) by (simp add: kernel_metrics_def get_metric_def)
  qed
  then have "\<forall>r \<in> set reports. (\<forall>m. map_of (nm_raw_metrics r) m = last_value read_float rows (nm_kernel_name r) m) \<and>
       nm_duration_ms r * 10 ^ 6 =
         (case last_value read_float rows (nm_kernel_name r) ''gpu__time_duration.sum'' of Some v \<Rightarrow> v | None \<Rightarrow> 0)"
    by simp
  moreover have "set (map nm_kernel_name reports) = set (map fst rows)" by (simp only: names set_map facts(2))
  ultimately show ?thesis using names facts(3) by simp
qed

definition read_integer :: "string \<Rightarrow> real option" where
  "read_integer s = (if s = [] then None else Some (real (read_digits s)))"

definition sample_rows :: "log_row list" where
  "sample_rows = [(''gemm'', ''gpu__time_duration.sum'', ''1,500''), (''rope'', ''gpu__time_duration.sum'', ''70'')]"

theorem ncu_log_read_back_witness:
  "set (map nm_kernel_name (parse_ncu_csv read_integer (Some (log_text sample_rows)))) = {''gemm'', ''rope''} \<and>
   last_value read_integer sample_rows ''gemm'' ''gpu__time_duration.sum'' = Some 1500"
proof -
  have "\<forall>row \<in> set sample_rows. row_ok (log_cells row)" by code_simp
  from ncu_log_read_back[OF _ this refl, of read_integer] show ?thesis
    by (auto simp: sample_rows_def last_value_def metric_value_def read_integer_def read_digits_def)
qed

end
