(* ===== verification/Device_Memory.thy ===== *)
theory Device_Memory
  imports Prelude
begin

text \<open>
  \<open>csrc/src/memory/block_allocator.cpp\<close>: the allocator that tracks device memory by category under a
  safety limit. Sizes are 64-bit words, pointers are numbers with 0 as the null pointer.

  \<^item> \<open>malloc\<close> is the driver's allocation: given the pointers in use and a size, a new pointer or failure.
    Streams order work on the device and are not part of the state.
  \<^item> \<open>allocate\<close> holds the lock while it checks the budget and again while it records the block, but
    not in between: \<open>within_budget\<close> and \<open>commit_block\<close> are the two critical sections.
\<close>

unbundle bit_operations_syntax

section \<open>State\<close>

datatype category = WEIGHTS | ACTIVATIONS | WORKSPACE | KV_CACHE

record block_handle =
  bh_size :: "64 word"
  bh_category :: category

record allocator =
  ba_active :: "(nat \<times> block_handle) list"
  ba_total_vram :: "64 word"
  ba_limit :: "64 word"
  ba_total :: "64 word"
  ba_peak :: "64 word"
  ba_category :: "category \<Rightarrow> 64 word"

datatype memory_error = DriverQueryFailed | OutOfMemory | PoolOutOfMemory

text \<open>The query gives the total memory, or fails.\<close>

definition allocator_init :: "64 word option \<Rightarrow> real \<Rightarrow> memory_error + allocator" where
  "allocator_init query headroom =
     (case query of
        None \<Rightarrow> Inl DriverQueryFailed
      | Some total_vram \<Rightarrow>
          let usable = max (1 / 2) (min (99 / 100) (1 - headroom))
          in Inr \<lparr>ba_active = [], ba_total_vram = total_vram,
                  ba_limit = word_of_int \<lfloor>real (unat total_vram) * usable\<rfloor>,
                  ba_total = 0, ba_peak = 0, ba_category = (\<lambda>_. 0)\<rparr>)"

definition align_bytes :: "64 word \<Rightarrow> 64 word \<Rightarrow> 64 word" where
  "align_bytes bytes alignment = (bytes + alignment - 1) AND NOT (alignment - 1)"

section \<open>Operations\<close>

definition within_budget :: "64 word \<Rightarrow> allocator \<Rightarrow> bool" where
  "within_budget aligned s \<longleftrightarrow> \<not> ba_limit s < ba_total s + aligned"

definition commit_block :: "nat \<Rightarrow> 64 word \<Rightarrow> category \<Rightarrow> allocator \<Rightarrow> allocator" where
  "commit_block ptr aligned cat s =
     s\<lparr>ba_active := AList.update ptr \<lparr>bh_size = aligned, bh_category = cat\<rparr> (ba_active s),
       ba_total := ba_total s + aligned,
       ba_category := (ba_category s)(cat := ba_category s cat + aligned),
       ba_peak := max (ba_peak s) (ba_total s + aligned)\<rparr>"

definition allocate ::
  "(nat list \<Rightarrow> 64 word \<Rightarrow> nat option) \<Rightarrow> 64 word \<Rightarrow> category \<Rightarrow> allocator \<Rightarrow> (memory_error, nat, allocator) eff" where
  "allocate malloc bytes cat s =
     (if bytes = 0 then (Inr 0, s)
      else
        let aligned = align_bytes bytes 256 in
        if \<not> within_budget aligned s then (Inl OutOfMemory, s)
        else case malloc (map fst (ba_active s)) aligned of
               None \<Rightarrow> (Inl OutOfMemory, s)
             | Some ptr \<Rightarrow> (Inr ptr, commit_block ptr aligned cat s))"

definition free_block :: "nat \<Rightarrow> allocator \<Rightarrow> allocator" where
  "free_block ptr s =
     (if ptr = 0 then s
      else case map_of (ba_active s) ptr of
             None \<Rightarrow> s
           | Some h \<Rightarrow>
               s\<lparr>ba_active := AList.delete ptr (ba_active s), ba_total := ba_total s - bh_size h,
                 ba_category := (ba_category s)(bh_category h := ba_category s (bh_category h) - bh_size h)\<rparr>)"

definition reset_peak_stats :: "allocator \<Rightarrow> allocator" where
  "reset_peak_stats s = s\<lparr>ba_peak := ba_total s\<rparr>"

section \<open>Invariant\<close>

definition size_in :: "category \<Rightarrow> block_handle \<Rightarrow> nat" where
  "size_in cat h = (if bh_category h = cat then unat (bh_size h) else 0)"

definition allocator_ok :: "allocator \<Rightarrow> bool" where
  "allocator_ok s \<longleftrightarrow> distinct (map fst (ba_active s)) \<and> 0 \<notin> fst ` set (ba_active s) \<and>
     unat (ba_total s) = dict_sum (\<lambda>h. unat (bh_size h)) (ba_active s) \<and>
     (\<forall>cat. unat (ba_category s cat) = dict_sum (size_in cat) (ba_active s)) \<and>
     ba_total s \<le> ba_peak s"

definition fresh_pointers :: "(nat list \<Rightarrow> 64 word \<Rightarrow> nat option) \<Rightarrow> bool" where
  "fresh_pointers malloc \<longleftrightarrow> (\<forall>used n p. malloc used n = Some p \<longrightarrow> p \<notin> set used \<and> p \<noteq> 0)"

lemma size_in_le: "dict_sum (size_in cat) d \<le> dict_sum (\<lambda>h. unat (bh_size h)) d"
  by (induction d) (auto simp: size_in_def trans_le_add2 add_mono)

lemma align_bytes_value:
  assumes "unat bytes \<le> 2 ^ 64 - 256"
  shows "unat (align_bytes bytes 256) = (unat bytes + 255) div 256 * 256"
proof -
  have sum: "unat (bytes + 255) = unat bytes + 255"
    using assms by (subst unat_add_lem[THEN iffD1]) (simp_all add: unat_of_nat)
  have "(bytes + 255) AND NOT 255 = (bytes + 255) - take_bit 8 (bytes + 255)"
  proof -
    have "(bytes + 255) - take_bit 8 (bytes + 255) = (bytes + 255) AND NOT (take_bit 8 (bytes + 255))"
      by (rule disjunctive_diff) (simp add: bit_simps)
    also have "\<dots> = (bytes + 255) AND NOT (mask 8)"
      by (rule bit_word_eqI) (auto simp: bit_simps)
    also have "mask 8 = (255 :: 64 word)" by (simp add: mask_eq_exp_minus_1)
    finally show ?thesis by simp
  qed
  moreover have "unat (take_bit 8 (bytes + 255)) = (unat bytes + 255) mod 256"
  proof -
    have "unat (take_bit 8 (bytes + 255)) = take_bit 8 (unat (bytes + 255))" by (rule unsigned_take_bit_eq)
    then show ?thesis by (simp only: sum) (simp add: take_bit_eq_mod)
  qed
  moreover have "take_bit 8 (bytes + 255) \<le> bytes + 255"
    by (simp add: word_le_nat_alt unsigned_take_bit_eq take_bit_nat_less_eq_self)
  moreover have "align_bytes bytes 256 = (bytes + 255) AND NOT 255"
    by (simp add: align_bytes_def algebra_simps)
  ultimately have "unat (align_bytes bytes 256) = unat bytes + 255 - (unat bytes + 255) mod 256"
    using sum by (simp only: unat_sub)
  then show ?thesis by (simp add: minus_mod_eq_div_mult)
qed

text \<open>Sizes below 2^62 do not wrap when they are added to a total within the limit.\<close>

definition budget_ok :: "allocator \<Rightarrow> bool" where
  "budget_ok s \<longleftrightarrow> allocator_ok s \<and> ba_total s \<le> ba_limit s \<and> unat (ba_limit s) \<le> 2 ^ 62"

lemma add_no_wrap: "unat (a :: 64 word) + unat b < 2 ^ 64 \<Longrightarrow> unat (a + b) = unat a + unat b"
  by (simp add: unat_add_lem[THEN iffD1])

lemma allocator_ok_le:
  assumes "allocator_ok s" "map_of (ba_active s) p = Some h"
  shows "bh_size h \<le> ba_total s" "bh_size h \<le> ba_category s (bh_category h)"
  using dict_sum_ge[OF assms(2), of "\<lambda>h. unat (bh_size h)"] dict_sum_ge[OF assms(2), of "size_in (bh_category h)"] assms(1)
  by (simp_all add: allocator_ok_def word_le_nat_alt size_in_def)

lemma commit_ok:
  assumes ok: "allocator_ok s" and new: "ptr \<notin> fst ` set (ba_active s)" "ptr \<noteq> 0"
    and room: "unat (ba_total s) + unat n < 2 ^ 64"
  shows "allocator_ok (commit_block ptr n cat s)"
proof -
  let ?a = "ba_active s @ [(ptr, \<lparr>bh_size = n, bh_category = cat\<rparr>)]"
  have act: "ba_active (commit_block ptr n cat s) = ?a" using new(1) by (simp add: commit_block_def update_fresh)
  have tot: "unat (ba_total s + n) = unat (ba_total s) + unat n" using room by (rule add_no_wrap)
  have "unat (ba_category s cat) \<le> unat (ba_total s)" using ok size_in_le by (simp add: allocator_ok_def)
  then have cats: "unat (ba_category s cat + n) = unat (ba_category s cat) + unat n" using room by (intro add_no_wrap) simp
  have "unat (ba_total (commit_block ptr n cat s)) = dict_sum (\<lambda>h. unat (bh_size h)) ?a"
    using ok tot by (simp add: commit_block_def allocator_ok_def)
  moreover have "unat (ba_category (commit_block ptr n cat s) c) = dict_sum (size_in c) ?a" for c
    using ok cats by (auto simp: commit_block_def allocator_ok_def size_in_def)
  moreover have "ba_total (commit_block ptr n cat s) \<le> ba_peak (commit_block ptr n cat s)" by (simp add: commit_block_def)
  moreover have "distinct (map fst ?a) \<and> 0 \<notin> fst ` set ?a" using ok new by (auto simp: allocator_ok_def)
  ultimately show ?thesis unfolding allocator_ok_def act by blast
qed

lemma free_ok:
  assumes ok: "allocator_ok s"
  shows "allocator_ok (free_block ptr s)"
proof (cases "ptr = 0 \<or> map_of (ba_active s) ptr = None")
  case False
  then obtain h where h: "map_of (ba_active s) ptr = Some h" "ptr \<noteq> 0" by auto
  let ?d = "AList.delete ptr (ba_active s)"
  have dist: "distinct (map fst (ba_active s))" using ok by (simp add: allocator_ok_def)
  note le = allocator_ok_le[OF ok h(1)]
  have tot: "unat (ba_total s - bh_size h) = dict_sum (\<lambda>h. unat (bh_size h)) ?d"
    using dict_sum_delete[OF dist h(1), of "\<lambda>h. unat (bh_size h)"] le(1) ok
    by (simp add: unat_sub allocator_ok_def)
  have cats: "unat (((ba_category s)(bh_category h := ba_category s (bh_category h) - bh_size h)) c) = dict_sum (size_in c) ?d" for c
    using dict_sum_delete[OF dist h(1), of "size_in c"] le(2) ok
    by (auto simp: unat_sub allocator_ok_def size_in_def)
  have "ba_total s - bh_size h \<le> ba_peak s"
    using ok word_sub_le[OF le(1)] by (auto simp: allocator_ok_def intro: order_trans)
  then show ?thesis
    using ok h tot cats distinct_delete_keys[OF dist] by (simp add: allocator_ok_def free_block_def keys_delete)
qed (use ok in \<open>auto simp: free_block_def\<close>)

lemma block_allocation_cases:
  assumes "allocate malloc bytes cat s = (r, t)"
  obtains (null) "bytes = 0" "r = Inr 0" "t = s"
  | (fail) "r = Inl OutOfMemory" "t = s"
  | (ok) ptr where "bytes \<noteq> 0" "r = Inr ptr" "within_budget (align_bytes bytes 256) s"
      "malloc (map fst (ba_active s)) (align_bytes bytes 256) = Some ptr"
      "t = commit_block ptr (align_bytes bytes 256) cat s"
  using assms by (auto simp: allocate_def Let_def split: if_splits option.splits)

lemma align_small: "unat bytes \<le> 2 ^ 62 \<Longrightarrow> unat (align_bytes bytes 256) \<le> 2 ^ 62 \<and> unat bytes \<le> unat (align_bytes bytes 256)"
  by (subst (1 2) align_bytes_value) auto

lemma free_budget_ok: "budget_ok u \<Longrightarrow> budget_ok (free_block ptr u)"
proof -
  assume u: "budget_ok u"
  have "ba_total (free_block ptr u) \<le> ba_total u \<and> ba_limit (free_block ptr u) = ba_limit u"
    using allocator_ok_le(1)[of u ptr] u
    by (auto simp: free_block_def budget_ok_def split: option.splits intro: word_sub_le)
  then show ?thesis using free_ok[of u ptr] u by (auto simp: budget_ok_def)
qed

lemma free_block_active: "map_of (ba_active (free_block ptr s)) q = (if q = ptr \<and> ptr \<noteq> 0 then None else map_of (ba_active s) q)"
  by (auto simp: free_block_def map_of_delete split: option.splits)

text \<open>
  A step that got memory: the pointer is new, the block has the aligned size, and the sums stay exact.
\<close>

lemma allocate_ok:
  assumes ok: "budget_ok s" and fresh: "fresh_pointers malloc" and le: "unat bytes \<le> 2 ^ 62" and nz: "bytes \<noteq> 0"
    and run: "allocate malloc bytes cat s = (Inr p, t)"
  shows "budget_ok t" "p \<noteq> 0" "map_of (ba_active s) p = None"
    "map_of (ba_active t) q = (if q = p then Some \<lparr>bh_size = align_bytes bytes 256, bh_category = cat\<rparr> else map_of (ba_active s) q)"
proof -
  from run nz have st: "within_budget (align_bytes bytes 256) s"
      "malloc (map fst (ba_active s)) (align_bytes bytes 256) = Some p"
      "t = commit_block p (align_bytes bytes 256) cat s"
    by (auto elim: block_allocation_cases)
  have "p \<notin> set (map fst (ba_active s)) \<and> p \<noteq> 0" using st(2) fresh unfolding fresh_pointers_def by blast
  then have new: "p \<notin> fst ` set (ba_active s)" "p \<noteq> 0" by simp_all
  have room: "unat (ba_total s) + unat (align_bytes bytes 256) < 2 ^ 64"
    using ok align_small[OF le] by (simp add: budget_ok_def word_le_nat_alt)
  show "budget_ok t"
    using commit_ok[OF _ new room, of cat] ok st(1,3)
    by (simp add: budget_ok_def) (simp add: commit_block_def within_budget_def not_less)
  show "p \<noteq> 0" by (rule new)
  show "map_of (ba_active s) p = None" using new(1) by (simp add: map_of_eq_None_iff)
  show "map_of (ba_active t) q = (if q = p then Some \<lparr>bh_size = align_bytes bytes 256, bh_category = cat\<rparr> else map_of (ba_active s) q)"
    using st(3) by (simp add: commit_block_def map_of_update)
qed

text \<open>
  Under a limit and requests below 2^62 bytes, every allocation and release keeps the tracked sums
  exact in total and per category, and the total within the limit; an allocated block has a new
  pointer and at least the size that was asked for.
\<close>

theorem allocator_accounts:
  assumes "budget_ok s" and "fresh_pointers malloc" and "unat bytes \<le> 2 ^ 62"
    and "allocate malloc bytes cat s = (r, t)"
  shows "budget_ok t \<and> budget_ok (free_block ptr t) \<and>
    (case r of Inl e \<Rightarrow> e = OutOfMemory \<and> t = s
     | Inr p \<Rightarrow> if bytes = 0 then p = 0 \<and> t = s
         else map_of (ba_active s) p = None \<and>
           (\<exists>h. map_of (ba_active t) p = Some h \<and> bytes \<le> bh_size h \<and> bh_category h = cat))"
  using assms(4)
proof (cases rule: block_allocation_cases)
  case (ok p)
  note got = allocate_ok[OF assms(1-3) ok(1) assms(4)[unfolded ok(2)]]
  then show ?thesis using ok(1,2) align_small[OF assms(3)] free_budget_ok by (auto simp: word_le_nat_alt)
qed (use assms(1) free_budget_ok in auto)

text \<open>Without these bounds the alignment wraps: the largest request is granted as an empty block.\<close>

lemma align_wraps: "align_bytes (- 1) 256 = 0"
  by (simp add: align_bytes_def)

text \<open>
  The budget is not kept across threads: two allocations that check the budget before either is
  recorded exceed the limit together.
\<close>

theorem budget_race:
  assumes "within_budget n s" "within_budget m s" "budget_ok s"
    and "unat n \<le> 2 ^ 62" "unat m \<le> 2 ^ 62" "unat (ba_limit s) < unat (ba_total s) + unat n + unat m"
  shows "ba_limit (commit_block q m cat (commit_block p n cat s)) < ba_total (commit_block q m cat (commit_block p n cat s))"
proof -
  have lim: "unat (ba_total s) \<le> 2 ^ 62" using assms(3) by (simp add: budget_ok_def word_le_nat_alt)
  have "unat (ba_total s + n) = unat (ba_total s) + unat n" using lim assms(4) by (intro add_no_wrap) simp
  moreover from this have "unat (ba_total s + n + m) = unat (ba_total s) + unat n + unat m"
    using lim assms(4,5) by (subst add_no_wrap) simp_all
  ultimately show ?thesis using assms(6) by (simp add: commit_block_def word_less_nat_alt)
qed

end
