(* ===== verification/Buffer_Pool.thy ===== *)
theory Buffer_Pool
  imports Device_Memory "HOL-Library.While_Combinator"
begin

text \<open>
  \<open>csrc/src/memory/buffer_pool.cpp\<close>: the pool of device buffers over the block allocator, with one list
  of free buffers per power of two and a purge when the allocator is out of memory. Counters and
  sizes are words and wrap; the loop for the bucket size is a \<open>while_option\<close>.
\<close>

section \<open>State\<close>

record pool_node =
  pn_capacity :: "64 word"
  pn_requested :: "64 word"
  pn_category :: category
  pn_in_use :: bool
  pn_frame :: "64 word"

record pool =
  bp_alloc :: allocator
  bp_max_cached :: "64 word"
  bp_nodes :: "(nat \<times> pool_node) list"
  bp_buckets :: "(64 word \<times> nat list) list"
  bp_total :: "64 word"
  bp_active :: "64 word"
  bp_free :: "64 word"
  bp_peak :: "64 word"
  bp_requested :: "64 word"
  bp_allocations :: "64 word"
  bp_hits :: "64 word"
  bp_misses :: "64 word"
  bp_recoveries :: "32 word"
  bp_frame :: "64 word"

definition pool_init :: "allocator \<Rightarrow> 64 word \<Rightarrow> pool" where
  "pool_init a max_cached =
     \<lparr>bp_alloc = a, bp_max_cached = max_cached, bp_nodes = [], bp_buckets = [], bp_total = 0, bp_active = 0,
      bp_free = 0, bp_peak = 0, bp_requested = 0, bp_allocations = 0, bp_hits = 0, bp_misses = 0,
      bp_recoveries = 0, bp_frame = 0\<rparr>"

definition calculate_bucket_size :: "64 word \<Rightarrow> 64 word option" where
  "calculate_bucket_size bytes =
     (if bytes = 0 then Some 256
      else while_option (\<lambda>power. power < bytes) (\<lambda>power. push_bit 1 power) 256)"

section \<open>Operations\<close>

definition attempt_allocation ::
  "(nat list \<Rightarrow> 64 word \<Rightarrow> nat option) \<Rightarrow> 64 word \<Rightarrow> 64 word \<Rightarrow> category \<Rightarrow> pool \<Rightarrow> nat option \<times> pool" where
  "attempt_allocation malloc bucket requested cat s =
     (case allocate malloc bucket cat (bp_alloc s) of
        (Inl e, a) \<Rightarrow> (None, s\<lparr>bp_alloc := a\<rparr>)
      | (Inr p, a) \<Rightarrow>
          (Some p, s\<lparr>bp_alloc := a,
             bp_nodes := AList.update p \<lparr>pn_capacity = bucket, pn_requested = requested, pn_category = cat,
                            pn_in_use = True, pn_frame = bp_frame s + 1\<rparr> (bp_nodes s),
             bp_total := bp_total s + bucket, bp_active := bp_active s + bucket,
             bp_requested := bp_requested s + requested,
             bp_peak := max (bp_peak s) (bp_total s + bucket), bp_frame := bp_frame s + 1\<rparr>))"

definition bucket :: "pool \<Rightarrow> 64 word \<Rightarrow> nat list" where
  "bucket s sz = (case map_of (bp_buckets s) sz of None \<Rightarrow> [] | Some ps \<Rightarrow> ps)"

definition reuse_buffer :: "64 word \<Rightarrow> 64 word \<Rightarrow> pool \<Rightarrow> nat \<times> pool" where
  "reuse_buffer sz bytes s =
     (let p = last (bucket s sz); n = the (map_of (bp_nodes s) p)
      in (p, s\<lparr>bp_buckets := AList.update sz (butlast (bucket s sz)) (bp_buckets s),
               bp_nodes := AList.update p (n\<lparr>pn_in_use := True, pn_requested := bytes, pn_frame := bp_frame s + 1\<rparr>)
                             (bp_nodes s),
               bp_frame := bp_frame s + 1, bp_free := bp_free s - sz, bp_active := bp_active s + sz,
               bp_requested := bp_requested s + bytes, bp_hits := bp_hits s + 1\<rparr>))"

definition purge_one :: "nat \<Rightarrow> 64 word \<times> pool \<Rightarrow> 64 word \<times> pool" where
  "purge_one p = (\<lambda>(purged, s).
     case map_of (bp_nodes s) p of
       None \<Rightarrow> (purged, s)
     | Some n \<Rightarrow>
         (purged + pn_capacity n,
          s\<lparr>bp_nodes := AList.delete p (bp_nodes s), bp_alloc := free_block p (bp_alloc s),
            bp_total := bp_total s - pn_capacity n, bp_free := bp_free s - pn_capacity n\<rparr>))"

definition purge_free_buffers :: "pool \<Rightarrow> 64 word \<times> pool" where
  "purge_free_buffers s =
     (let (purged, t) = fold purge_one (concat (map snd (bp_buckets s))) (0, s)
      in (purged, t\<lparr>bp_buckets := []\<rparr>))"

definition acquire ::
  "(nat list \<Rightarrow> 64 word \<Rightarrow> nat option) \<Rightarrow> 64 word \<Rightarrow> category \<Rightarrow> pool \<Rightarrow> (memory_error, nat, pool) eff option" where
  "acquire malloc bytes cat s0 =
     (if bytes = 0 then Some (Inr 0, s0)
      else case calculate_bucket_size bytes of
        None \<Rightarrow> None
      | Some sz \<Rightarrow>
          let s = s0\<lparr>bp_allocations := bp_allocations s0 + 1\<rparr> in
          if bucket s sz \<noteq> [] then let (p, t) = reuse_buffer sz bytes s in Some (Inr p, t)
          else
            case attempt_allocation malloc sz bytes cat (s\<lparr>bp_misses := bp_misses s + 1\<rparr>) of
              (Some p, t) \<Rightarrow> Some (Inr p, t)
            | (None, t) \<Rightarrow>
                let (purged, u) = purge_free_buffers t in
                case attempt_allocation malloc sz bytes cat (u\<lparr>bp_recoveries := bp_recoveries u + 1\<rparr>) of
                  (Some p, v) \<Rightarrow> Some (Inr p, v)
                | (None, v) \<Rightarrow> Some (Inl PoolOutOfMemory, v))"

definition release_buffer :: "nat \<Rightarrow> pool \<Rightarrow> pool" where
  "release_buffer p s =
     (if p = 0 then s
      else case map_of (bp_nodes s) p of
        None \<Rightarrow> s
      | Some n \<Rightarrow>
          if \<not> pn_in_use n then s
          else s\<lparr>bp_nodes := AList.update p (n\<lparr>pn_in_use := False\<rparr>) (bp_nodes s),
                 bp_active := bp_active s - pn_capacity n, bp_requested := bp_requested s - pn_requested n,
                 bp_free := bp_free s + pn_capacity n,
                 bp_buckets := AList.update (pn_capacity n) (bucket s (pn_capacity n) @ [p]) (bp_buckets s)\<rparr>)"

text \<open>The guard that releases its buffer once; moving it empties the source.\<close>

record scoped_buffer =
  sb_bound :: bool
  sb_ptr :: nat
  sb_bytes :: "64 word"

definition acquire_scoped ::
  "(nat list \<Rightarrow> 64 word \<Rightarrow> nat option) \<Rightarrow> 64 word \<Rightarrow> category \<Rightarrow> pool \<Rightarrow> (memory_error, scoped_buffer, pool) eff option" where
  "acquire_scoped malloc bytes cat s =
     (case acquire malloc bytes cat s of
        None \<Rightarrow> None
      | Some m \<Rightarrow> Some (eff_bind m (\<lambda>p t. (Inr \<lparr>sb_bound = True, sb_ptr = p, sb_bytes = bytes\<rparr>, t))))"

definition scoped_move :: "scoped_buffer \<Rightarrow> scoped_buffer \<times> scoped_buffer" where
  "scoped_move b = (b, \<lparr>sb_bound = False, sb_ptr = 0, sb_bytes = 0\<rparr>)"

definition scoped_release :: "scoped_buffer \<Rightarrow> pool \<Rightarrow> scoped_buffer \<times> pool" where
  "scoped_release b s =
     (if sb_bound b \<and> sb_ptr b \<noteq> 0 then (\<lparr>sb_bound = False, sb_ptr = 0, sb_bytes = 0\<rparr>, release_buffer (sb_ptr b) s)
      else (b, s))"

record pool_stats =
  ps_internal :: real
  ps_external :: real

definition largest_free :: "pool \<Rightarrow> 64 word" where
  "largest_free s = fold (\<lambda>(sz, ps) m. if ps \<noteq> [] then max m sz else m) (bp_buckets s) 0"

definition fragmentation :: "pool \<Rightarrow> pool_stats" where
  "fragmentation s =
     \<lparr>ps_internal = (if 0 < bp_active s then 1 - real (unat (bp_requested s)) / real (unat (bp_active s)) else 0),
      ps_external = (if 0 < bp_free s then 1 - real (unat (largest_free s)) / real (unat (bp_free s)) else 0)\<rparr>"

definition pool_reset_stats :: "pool \<Rightarrow> pool" where
  "pool_reset_stats s =
     s\<lparr>bp_peak := bp_total s, bp_allocations := 0, bp_hits := 0, bp_misses := 0, bp_recoveries := 0\<rparr>"

section \<open>The size of a bucket\<close>

lemma unat_pow: "k \<le> 63 \<Longrightarrow> unat (2 ^ k :: 64 word) = 2 ^ k"
proof -
  assume "k \<le> 63"
  then have "(2 :: nat) ^ k < 2 ^ 64" by (intro power_strict_increasing) simp_all
  then have "unat (word_of_nat (2 ^ k) :: 64 word) = 2 ^ k" by (simp only: unat_of_nat len_bit0 len_num1 mult_1_right) simp
  then show ?thesis by simp
qed

lemma push_pow: "push_bit 1 (2 ^ k :: 64 word) = 2 ^ Suc k"
  by (simp add: push_bit_eq_mult)

lemma bucket_loop:
  assumes "k \<le> 63" "unat bytes \<le> 2 ^ 63"
  shows "\<exists>j. while_option (\<lambda>power. power < bytes) (\<lambda>power. push_bit 1 power) (2 ^ k :: 64 word) = Some (2 ^ j) \<and>
    k \<le> j \<and> j \<le> 63 \<and> bytes \<le> 2 ^ j \<and> (j = k \<or> 2 ^ j < 2 * unat bytes)"
  using assms(1)
proof (induction "63 - k" arbitrary: k)
  case 0
  then have k: "k = 63" by simp
  have nb: "\<not> (2 ^ k :: 64 word) < bytes"
    unfolding word_less_nat_alt unat_pow[OF 0(2)] using assms(2) k by simp
  then have "while_option (\<lambda>power. power < bytes) (\<lambda>power. push_bit 1 power) (2 ^ k) = Some (2 ^ k)"
    by (subst while_option_unfold) simp
  with nb 0(2) show ?case by (intro exI[of _ k]) (simp only: not_less simp_thms order_refl)
next
  case (Suc d)
  show ?case
  proof (cases "(2 ^ k :: 64 word) < bytes")
    case True
    from Suc(2,3) have "d = 63 - Suc k" "Suc k \<le> 63" by simp_all
    from Suc(1)[OF this] obtain j where
      j: "while_option (\<lambda>power. power < bytes) (\<lambda>power. push_bit 1 power) (2 ^ Suc k :: 64 word) = Some (2 ^ j)"
      "Suc k \<le> j" "j \<le> 63" "bytes \<le> 2 ^ j" "j = Suc k \<or> 2 ^ j < 2 * unat bytes" by blast
    have "2 ^ k < unat bytes" using True unfolding word_less_nat_alt unat_pow[OF Suc(3)] .
    then have "2 ^ j < 2 * unat bytes" using j(5) by auto
    moreover have "while_option (\<lambda>power. power < bytes) (\<lambda>power. push_bit 1 power) (2 ^ k :: 64 word) = Some (2 ^ j)"
      by (subst while_option_unfold) (simp only: True if_True push_pow j(1))
    moreover have "k \<le> j" using j(2) by simp
    ultimately show ?thesis using j(3,4) by blast
  next
    case False
    then have "while_option (\<lambda>power. power < bytes) (\<lambda>power. push_bit 1 power) (2 ^ k) = Some (2 ^ k)"
      by (subst while_option_unfold) simp
    with False Suc(3) show ?thesis by (intro exI[of _ k]) (simp only: not_less simp_thms order_refl)
  qed
qed

lemma bucket_size_least:
  "if unat bytes \<le> 2 ^ 63
   then \<exists>j. calculate_bucket_size bytes = Some (2 ^ j) \<and> 8 \<le> j \<and> j \<le> 63 \<and> unat bytes \<le> 2 ^ j \<and>
     (if j = 8 then True else 2 ^ j < 2 * unat bytes)
   else calculate_bucket_size bytes = None"
proof (cases "unat bytes \<le> 2 ^ 63")
  case True
  show ?thesis
  proof (cases "bytes = 0")
    case True
    then show ?thesis by (auto simp: calculate_bucket_size_def intro!: exI[of _ 8])
  next
    case False
    have e: "(256 :: 64 word) = 2 ^ 8" by simp
    obtain j where j: "calculate_bucket_size bytes = Some (2 ^ j)" "8 \<le> j" "j \<le> 63" "bytes \<le> 2 ^ j"
      "j = 8 \<or> 2 ^ j < 2 * unat bytes"
      unfolding calculate_bucket_size_def e if_not_P[OF False] using bucket_loop[of 8 bytes] True by fastforce
    have "unat bytes \<le> 2 ^ j" using j(4) unat_pow[OF j(3)] by (simp add: word_le_nat_alt)
    then show ?thesis using True j by (auto intro!: exI[of _ j])
  qed
next
  case False
  define inv :: "64 word \<Rightarrow> bool" where "inv power \<longleftrightarrow> unat power \<le> 2 ^ 63 \<and> (power = 0 \<or> (\<exists>k \<le> 63. power = 2 ^ k))" for power
  let ?w = "while_option (\<lambda>power. power < bytes) (\<lambda>power. push_bit 1 power) (256 :: 64 word)"
  have less: "power < bytes" if "inv power" for power
    using that False by (simp add: inv_def word_less_nat_alt)
  have step: "inv (push_bit 1 power)" if P: "inv power" for power
  proof (cases "power = 0")
    case False
    then obtain k where k: "k \<le> 63" "power = 2 ^ k" using P by (auto simp: inv_def)
    show ?thesis
    proof (cases "k = 63")
      case True
      have "(2 ^ Suc 63 :: 64 word) = 0" by simp
      then show ?thesis using k True push_pow[of 63] by (simp add: inv_def)
    next
      case False
      then have "Suc k \<le> 63" using k(1) by simp
      moreover have "(2 ^ Suc k :: nat) \<le> 2 ^ 63" using \<open>Suc k \<le> 63\<close> by (rule power_increasing) simp
      ultimately have "unat (2 ^ Suc k :: 64 word) \<le> 2 ^ 63" by (simp only: unat_pow)
      then show ?thesis unfolding k(2) push_pow inv_def using \<open>Suc k \<le> 63\<close> by blast
    qed
  qed (simp add: inv_def)
  have start: "inv 256" by (auto simp: inv_def intro!: exI[of _ 8])
  have "?w = None"
  proof (cases ?w)
    case (Some p)
    have "inv p" by (rule while_option_rule[where P = inv, OF _ Some start]) (rule step)
    with while_option_stop[OF Some] less show ?thesis by simp
  qed
  moreover have z: "bytes \<noteq> 0" using False by auto
  ultimately have "calculate_bucket_size bytes = None" unfolding calculate_bucket_size_def if_not_P[OF z] by blast
  then show ?thesis unfolding if_not_P[OF False] .
qed

section \<open>Invariant\<close>

text \<open>Sums of words over the entries of a dictionary, modulo the width.\<close>

definition word_sum :: "('v \<Rightarrow> 64 word) \<Rightarrow> ('k \<times> 'v) list \<Rightarrow> 64 word" where
  "word_sum f d = sum_list (map (\<lambda>p. f (snd p)) d)"

lemma word_sum_simps [simp]:
  "word_sum f [] = 0" "word_sum f (p # d) = f (snd p) + word_sum f d" "word_sum f (d @ e) = word_sum f d + word_sum f e"
  by (simp_all add: word_sum_def)

lemma word_sum_delete:
  "distinct (map fst d) \<Longrightarrow> map_of d k = Some v \<Longrightarrow> word_sum f (AList.delete k d) = word_sum f d - f v"
proof (induction d)
  case (Cons p d)
  show ?case
  proof (cases "fst p = k")
    case True
    with Cons.prems have "\<not> dict_has k d" by (cases p) (auto simp: dict_has_iff)
    with True Cons.prems show ?thesis by (cases p) (simp add: delete_absent)
  next
    case False
    with Cons show ?thesis by (cases p) auto
  qed
qed simp

lemma word_sum_update:
  "distinct (map fst d) \<Longrightarrow> map_of d k = Some v \<Longrightarrow> word_sum f (AList.update k w d) = word_sum f d - f v + f w"
  by (induction d) (auto split: if_splits)

definition cap_if :: "bool \<Rightarrow> pool_node \<Rightarrow> 64 word" where
  "cap_if used n = (if pn_in_use n = used then pn_capacity n else 0)"

definition requested_if :: "pool_node \<Rightarrow> 64 word" where
  "requested_if n = (if pn_in_use n then pn_requested n else 0)"

text \<open>A free buffer of a size: a node that is not in use, with that capacity.\<close>

definition free_node :: "pool \<Rightarrow> 64 word \<Rightarrow> nat \<Rightarrow> bool" where
  "free_node s sz p \<longleftrightarrow> (\<exists>n. map_of (bp_nodes s) p = Some n \<and> \<not> pn_in_use n \<and> pn_capacity n = sz)"

definition pool_core :: "pool \<Rightarrow> bool" where
  "pool_core s \<longleftrightarrow> budget_ok (bp_alloc s) \<and> distinct (map fst (bp_nodes s)) \<and>
     (\<forall>p n. map_of (bp_nodes s) p = Some n \<longrightarrow> (\<exists>h. map_of (ba_active (bp_alloc s)) p = Some h)) \<and>
     bp_total s = word_sum pn_capacity (bp_nodes s) \<and> bp_active s = word_sum (cap_if True) (bp_nodes s) \<and>
     bp_free s = word_sum (cap_if False) (bp_nodes s) \<and> bp_requested s = word_sum requested_if (bp_nodes s)"

definition pool_ok :: "pool \<Rightarrow> bool" where
  "pool_ok s \<longleftrightarrow> pool_core s \<and> distinct (map fst (bp_buckets s)) \<and>
     (\<forall>sz. distinct (bucket s sz) \<and> (\<forall>p. p \<in> set (bucket s sz) \<longleftrightarrow> free_node s sz p))"

lemma pool_coreD:
  assumes "pool_core s"
  shows "budget_ok (bp_alloc s)" "distinct (map fst (bp_nodes s))"
    "map_of (bp_nodes s) p = Some n \<Longrightarrow> \<exists>h. map_of (ba_active (bp_alloc s)) p = Some h"
  using assms unfolding pool_core_def by blast+

lemma pool_okD:
  assumes "pool_ok s"
  shows "budget_ok (bp_alloc s)" "distinct (map fst (bp_nodes s))" "distinct (map fst (bp_buckets s))"
    "map_of (bp_nodes s) p = Some n \<Longrightarrow> \<exists>h. map_of (ba_active (bp_alloc s)) p = Some h"
    "distinct (bucket s sz)" "p \<in> set (bucket s sz) \<longleftrightarrow> free_node s sz p" "pool_core s"
  using assms unfolding pool_ok_def pool_core_def by blast+

lemma pool_init_ok: "budget_ok a \<Longrightarrow> pool_ok (pool_init a max_cached)"
  by (simp add: pool_ok_def pool_core_def pool_init_def bucket_def free_node_def)

lemma bucket_update: "bucket (s\<lparr>bp_buckets := AList.update sz ps (bp_buckets s)\<rparr>) z = (if z = sz then ps else bucket s z)"
  by (simp add: bucket_def map_of_update)

text \<open>Counters that the invariant does not mention.\<close>

lemma pool_ok_counters [simp]:
  "pool_ok (s\<lparr>bp_allocations := n\<rparr>) = pool_ok s" "pool_ok (s\<lparr>bp_misses := n\<rparr>) = pool_ok s"
  "pool_ok (s\<lparr>bp_recoveries := m\<rparr>) = pool_ok s" "pool_ok (s\<lparr>bp_peak := n\<rparr>) = pool_ok s"
  "pool_ok (s\<lparr>bp_hits := n\<rparr>) = pool_ok s"
  by (simp_all add: pool_ok_def pool_core_def bucket_def free_node_def)

lemma reuse_ok:
  assumes ok: "pool_ok s" and ne: "bucket s sz \<noteq> []" and re: "reuse_buffer sz bytes s = (p, t)"
  shows "pool_ok t" "free_node s sz p"
    "map_of (bp_nodes t) q = (if q = p then map_option (\<lambda>n. n\<lparr>pn_in_use := True, pn_requested := bytes, pn_frame := bp_frame s + 1\<rparr>)
       (map_of (bp_nodes s) p) else map_of (bp_nodes s) q)"
proof -
  have p: "p = last (bucket s sz)" using re by (simp add: reuse_buffer_def Let_def)
  then have fr: "free_node s sz p" using pool_okD(6)[OF ok, of p sz] ne by simp
  then obtain n where n: "map_of (bp_nodes s) p = Some n" "\<not> pn_in_use n" "pn_capacity n = sz" by (auto simp: free_node_def)
  let ?n = "n\<lparr>pn_in_use := True, pn_requested := bytes, pn_frame := bp_frame s + 1\<rparr>"
  note t = re[unfolded reuse_buffer_def Let_def, folded p, unfolded n(1) option.sel]
  have nodes: "bp_nodes t = AList.update p ?n (bp_nodes s)" using t by auto
  note dist = pool_okD(2)[OF ok]
  note sums = word_sum_update[OF dist n(1), of _ ?n]
  show "free_node s sz p" by (rule fr)
  show m: "map_of (bp_nodes t) q = (if q = p then map_option (\<lambda>n. n\<lparr>pn_in_use := True, pn_requested := bytes, pn_frame := bp_frame s + 1\<rparr>)
       (map_of (bp_nodes s) p) else map_of (bp_nodes s) q)" for q by (simp add: nodes map_of_update n(1))
  have bk: "bucket t z = (if z = sz then butlast (bucket s sz) else bucket s z)" for z
    using t by (auto simp: bucket_def map_of_update)
  have split: "distinct (butlast (bucket s sz))" "set (bucket s sz) = insert p (set (butlast (bucket s sz)))"
    "p \<notin> set (butlast (bucket s sz))"
    using pool_okD(5)[OF ok, of sz] ne append_butlast_last_id[OF ne] unfolding p
    by (metis distinct_butlast, metis Un_insert_right list.simps(15) set_append sup_bot.right_neutral set_empty2 empty_set,
        metis distinct_append disjoint_iff list.set_intros(1))
  have fn: "free_node t z q \<longleftrightarrow> q \<noteq> p \<and> free_node s z q" for z q
    by (auto simp: free_node_def m)
  have "p \<in> set (bucket t z) \<longleftrightarrow> free_node t z p" for z
  proof -
    have "p \<notin> set (bucket s z)" if "z \<noteq> sz" using pool_okD(6)[OF ok, of p z] n that by (simp add: free_node_def)
    then show ?thesis using split(3) by (simp add: bk fn)
  qed
  moreover have "q \<in> set (bucket t z) \<longleftrightarrow> free_node t z q" if "q \<noteq> p" for z q
    using pool_okD(6)[OF ok, of q z] split that by (auto simp: bk fn)
  ultimately have mem: "q \<in> set (bucket t z) \<longleftrightarrow> free_node t z q" for z q by metis
  have "distinct (bucket t z)" for z using split pool_okD(5)[OF ok] by (simp add: bk)
  moreover have "\<exists>h. map_of (ba_active (bp_alloc t)) q = Some h" if "map_of (bp_nodes t) q = Some x" for q x
    using that pool_okD(4)[OF ok, of q] t n by (auto simp: m split: if_splits)
  moreover have "bp_total t = word_sum pn_capacity (bp_nodes t)" "bp_active t = word_sum (cap_if True) (bp_nodes t)"
    "bp_free t = word_sum (cap_if False) (bp_nodes t)" "bp_requested t = word_sum requested_if (bp_nodes t)"
    using t ok n unfolding nodes sums by (auto simp: pool_ok_def pool_core_def cap_if_def requested_if_def)
  moreover have "distinct (map fst (bp_nodes t))" "distinct (map fst (bp_buckets t))" "budget_ok (bp_alloc t)"
    using t pool_okD(1-3)[OF ok] by (auto simp: distinct_update)
  ultimately show "pool_ok t" unfolding pool_ok_def pool_core_def using mem by blast
qed

section \<open>What a client sees\<close>

text \<open>The pool as a map: for a pointer in use, the bytes that were asked for and the bytes that are there.\<close>

definition in_use :: "pool \<Rightarrow> nat \<Rightarrow> (64 word \<times> 64 word) option" where
  "in_use s p = (case map_of (bp_nodes s) p of
     None \<Rightarrow> None
   | Some n \<Rightarrow> if pn_in_use n then Some (pn_requested n, pn_capacity n) else None)"

lemma in_use_cong: "map_of (bp_nodes s) p = map_of (bp_nodes t) p \<Longrightarrow> in_use s p = in_use t p"
  by (simp add: in_use_def)

lemma reuse_in_use:
  assumes "pool_ok s" "bucket s sz \<noteq> []" "reuse_buffer sz bytes s = (p, t)"
  shows "in_use s p = None" "in_use t = (in_use s)(p \<mapsto> (bytes, sz))"
proof -
  obtain n where n: "map_of (bp_nodes s) p = Some n" "\<not> pn_in_use n" "pn_capacity n = sz"
    using reuse_ok(2)[OF assms] by (auto simp: free_node_def)
  show "in_use s p = None" using n by (simp add: in_use_def)
  show "in_use t = (in_use s)(p \<mapsto> (bytes, sz))"
    by (rule ext) (simp add: in_use_def reuse_ok(3)[OF assms] n)
qed

lemma attempt_fails:
  assumes "attempt_allocation malloc sz requested cat s = (None, t)"
  shows "t = s"
  using assms by (auto simp: attempt_allocation_def split: prod.splits sum.splits elim: block_allocation_cases)

lemma attempt_ok:
  assumes ok: "pool_ok s" and fresh: "fresh_pointers malloc" and sz: "unat sz \<le> 2 ^ 62" "sz \<noteq> 0"
    and run: "attempt_allocation malloc sz requested cat s = (Some p, t)"
  shows "pool_ok t" "in_use s p = None" "in_use t = (in_use s)(p \<mapsto> (requested, sz))"
proof -
  let ?n = "\<lparr>pn_capacity = sz, pn_requested = requested, pn_category = cat, pn_in_use = True, pn_frame = bp_frame s + 1\<rparr>"
  obtain a where al: "allocate malloc sz cat (bp_alloc s) = (Inr p, a)"
    and t: "t = s\<lparr>bp_alloc := a, bp_nodes := AList.update p ?n (bp_nodes s),
             bp_total := bp_total s + sz, bp_active := bp_active s + sz,
             bp_requested := bp_requested s + requested,
             bp_peak := max (bp_peak s) (bp_total s + sz), bp_frame := bp_frame s + 1\<rparr>"
    using run by (auto simp: attempt_allocation_def split: prod.splits sum.splits)
  note got = allocate_ok[OF pool_okD(1)[OF ok] fresh sz al]
  have new: "map_of (bp_nodes s) p = None" using pool_okD(4)[OF ok, of p] got(3) by (cases "map_of (bp_nodes s) p") auto
  then have nodes: "bp_nodes t = bp_nodes s @ [(p, ?n)]" unfolding t by (simp add: update_fresh map_of_eq_None_iff)
  have m: "map_of (bp_nodes t) q = (if q = p then Some ?n else map_of (bp_nodes s) q)" for q
    by (simp add: t map_of_update)
  have a: "bp_alloc t = a" by (simp add: t)
  have "\<exists>h. map_of (ba_active (bp_alloc t)) q = Some h" if "map_of (bp_nodes t) q = Some x" for q x
    using that pool_okD(4)[OF ok, of q] got(4)[of q] by (auto simp: m a split: if_splits)
  moreover have "distinct (map fst (bp_nodes t))" using pool_okD(2)[OF ok] by (simp add: t distinct_update)
  moreover have "bp_total t = word_sum pn_capacity (bp_nodes t)" "bp_active t = word_sum (cap_if True) (bp_nodes t)"
    "bp_free t = word_sum (cap_if False) (bp_nodes t)" "bp_requested t = word_sum requested_if (bp_nodes t)"
    using pool_okD(7)[OF ok] unfolding nodes by (simp_all add: t pool_core_def cap_if_def requested_if_def)
  ultimately have core: "pool_core t" using got(1) unfolding pool_core_def a by blast
  have "free_node t z q = free_node s z q" for z q using new by (simp add: free_node_def m)
  moreover have "bucket t z = bucket s z" for z by (simp add: bucket_def t)
  moreover have "bp_buckets t = bp_buckets s" by (simp add: t)
  ultimately show "pool_ok t" using ok core unfolding pool_ok_def by simp
  show "in_use s p = None" using new by (simp add: in_use_def)
  show "in_use t = (in_use s)(p \<mapsto> (requested, sz))" by (rule ext) (simp add: in_use_def m)
qed

lemma release_ok:
  assumes ok: "pool_ok s"
  shows "pool_ok (release_buffer p s)" "in_use (release_buffer p s) = (in_use s)(p := None)"
proof -
  have zero: "map_of (bp_nodes s) 0 = None"
  proof (cases "map_of (bp_nodes s) 0")
    case (Some n)
    then obtain h where "map_of (ba_active (bp_alloc s)) 0 = Some h" using pool_okD(4)[OF ok] by blast
    then have "0 \<in> fst ` set (ba_active (bp_alloc s))" by (force dest: map_of_SomeD)
    then show ?thesis using pool_okD(1)[OF ok] by (simp add: budget_ok_def allocator_ok_def)
  qed
  show "pool_ok (release_buffer p s)" "in_use (release_buffer p s) = (in_use s)(p := None)"
  proof (atomize(full), cases "in_use s p")
    case None
    then have "release_buffer p s = s" by (auto simp: release_buffer_def in_use_def split: option.splits if_splits)
    then show "pool_ok (release_buffer p s) \<and> in_use (release_buffer p s) = (in_use s)(p := None)"
      using ok None by (simp add: fun_upd_idem)
  next
    case (Some c)
    then obtain n where n: "map_of (bp_nodes s) p = Some n" "pn_in_use n" by (auto simp: in_use_def split: option.splits if_splits)
    then have p: "p \<noteq> 0" using zero by (cases "p = 0") auto
    let ?n = "n\<lparr>pn_in_use := False\<rparr>" and ?sz = "pn_capacity n"
    define t where "t = release_buffer p s"
    have t: "t = s\<lparr>bp_nodes := AList.update p ?n (bp_nodes s),
                 bp_active := bp_active s - pn_capacity n, bp_requested := bp_requested s - pn_requested n,
                 bp_free := bp_free s + pn_capacity n,
                 bp_buckets := AList.update ?sz (bucket s ?sz @ [p]) (bp_buckets s)\<rparr>"
      using n p by (simp add: t_def release_buffer_def)
    have m: "map_of (bp_nodes t) q = (if q = p then Some ?n else map_of (bp_nodes s) q)" for q
      by (simp add: t map_of_update)
    have nodes: "bp_nodes t = AList.update p ?n (bp_nodes s)" by (simp add: t)
    note sums = word_sum_update[OF pool_okD(2)[OF ok] n(1), of _ ?n]
    have "\<exists>h. map_of (ba_active (bp_alloc t)) q = Some h" if "map_of (bp_nodes t) q = Some x" for q x
      using that pool_okD(4)[OF ok, of q] n by (auto simp: m split: if_splits) (simp_all add: t)
    moreover have "distinct (map fst (bp_nodes t))" using pool_okD(2)[OF ok] by (simp add: t distinct_update)
    moreover have "bp_total t = word_sum pn_capacity (bp_nodes t)" "bp_active t = word_sum (cap_if True) (bp_nodes t)"
      "bp_free t = word_sum (cap_if False) (bp_nodes t)" "bp_requested t = word_sum requested_if (bp_nodes t)"
      using pool_okD(7)[OF ok] n unfolding nodes sums by (simp_all add: t pool_core_def cap_if_def requested_if_def)
    moreover have "budget_ok (bp_alloc t)" using pool_okD(1)[OF ok] by (simp add: t)
    ultimately have core: "pool_core t" unfolding pool_core_def by blast
    have bk: "bucket t z = (if z = ?sz then bucket s z @ [p] else bucket s z)" for z
      by (simp add: bucket_def t map_of_update)
    have notin: "p \<notin> set (bucket s z)" for z using pool_okD(6)[OF ok, of p z] n by (simp add: free_node_def)
    have "free_node t z q \<longleftrightarrow> (if q = p then z = ?sz else free_node s z q)" for z q by (auto simp: free_node_def m)
    then have "q \<in> set (bucket t z) \<longleftrightarrow> free_node t z q" for z q
      using pool_okD(6)[OF ok, of q z] notin[of z] by (auto simp: bk split: if_splits)
    moreover have "distinct (bucket t z)" for z using pool_okD(5)[OF ok, of z] notin[of z] by (auto simp: bk)
    moreover have "distinct (map fst (bp_buckets t))" using pool_okD(3)[OF ok] by (simp add: t distinct_update)
    ultimately have "pool_ok t" unfolding pool_ok_def using core by blast
    moreover have "in_use t = (in_use s)(p := None)" by (rule ext) (simp add: in_use_def m)
    ultimately show "pool_ok (release_buffer p s) \<and> in_use (release_buffer p s) = (in_use s)(p := None)"
      by (simp add: t_def)
  qed
qed

section \<open>The purge\<close>

lemma purge_one_ok:
  assumes ok: "pool_core s" and nu: "\<And>n. map_of (bp_nodes s) p = Some n \<Longrightarrow> \<not> pn_in_use n"
    and run: "purge_one p (b, s) = (c, t)"
  shows "pool_core t \<and> map_of (bp_nodes t) q = (if q = p then None else map_of (bp_nodes s) q) \<and>
    bp_buckets t = bp_buckets s \<and> c + bp_free t = b + bp_free s"
proof (cases "map_of (bp_nodes s) p")
  case None
  with run ok show ?thesis by (auto simp: purge_one_def)
next
  case (Some n)
  with run have t: "t = s\<lparr>bp_nodes := AList.delete p (bp_nodes s), bp_alloc := free_block p (bp_alloc s),
            bp_total := bp_total s - pn_capacity n, bp_free := bp_free s - pn_capacity n\<rparr>" "c = b + pn_capacity n"
    by (auto simp: purge_one_def)
  note sums = word_sum_delete[OF pool_coreD(2)[OF ok] Some]
  have m: "map_of (bp_nodes t) q = (if q = p then None else map_of (bp_nodes s) q)" for q by (simp add: t map_of_delete)
  have nodes: "bp_nodes t = AList.delete p (bp_nodes s)" by (simp add: t)
  have "\<exists>h. map_of (ba_active (bp_alloc t)) q = Some h" if "map_of (bp_nodes t) q = Some x" for q x
  proof -
    have "bp_alloc t = free_block p (bp_alloc s)" by (simp add: t)
    then show ?thesis using that pool_coreD(3)[OF ok, of q] by (auto simp: m free_block_active split: if_splits)
  qed
  moreover have "distinct (map fst (bp_nodes t))" using pool_coreD(2)[OF ok] by (simp add: t distinct_delete)
  moreover have "bp_total t = word_sum pn_capacity (bp_nodes t)" "bp_active t = word_sum (cap_if True) (bp_nodes t)"
    "bp_free t = word_sum (cap_if False) (bp_nodes t)" "bp_requested t = word_sum requested_if (bp_nodes t)"
    using ok nu[OF Some] unfolding nodes sums by (simp_all add: t pool_core_def cap_if_def requested_if_def)
  moreover have "budget_ok (bp_alloc t)" using free_budget_ok[OF pool_coreD(1)[OF ok]] by (simp add: t)
  ultimately have "pool_core t" unfolding pool_core_def by blast
  with m show ?thesis by (simp add: t)
qed

lemma purge_fold:
  assumes "pool_core s" "\<And>p n. p \<in> set ps \<Longrightarrow> map_of (bp_nodes s) p = Some n \<Longrightarrow> \<not> pn_in_use n"
    and "fold purge_one ps (b, s) = (c, t)"
  shows "pool_core t \<and> (\<forall>q. map_of (bp_nodes t) q = (if q \<in> set ps then None else map_of (bp_nodes s) q)) \<and>
    bp_buckets t = bp_buckets s \<and> c + bp_free t = b + bp_free s"
  using assms
proof (induction ps arbitrary: b s)
  case (Cons p ps)
  obtain b1 s1 where one: "purge_one p (b, s) = (b1, s1)" by (cases "purge_one p (b, s)")
  have nu: "\<not> pn_in_use n" if "map_of (bp_nodes s) p = Some n" for n using Cons.prems(2)[of p n] that by simp
  have st: "pool_core s1" "map_of (bp_nodes s1) q = (if q = p then None else map_of (bp_nodes s) q)"
    "bp_buckets s1 = bp_buckets s" "b1 + bp_free s1 = b + bp_free s" for q
    using purge_one_ok[OF Cons.prems(1) nu one] by blast+
  have "fold purge_one ps (b1, s1) = (c, t)" using Cons.prems(3) one by simp
  moreover have "\<not> pn_in_use n" if "q \<in> set ps" "map_of (bp_nodes s1) q = Some n" for q n
    using Cons.prems(2)[of q n] that st(2)[of q] by (simp split: if_splits)
  ultimately have "pool_core t \<and> (\<forall>q. map_of (bp_nodes t) q = (if q \<in> set ps then None else map_of (bp_nodes s1) q)) \<and>
    bp_buckets t = bp_buckets s1 \<and> c + bp_free t = b1 + bp_free s1"
    using Cons.IH[OF st(1)] by blast
  then show ?case by (simp add: st(2-4))
qed simp

lemma concat_buckets: "pool_ok s \<Longrightarrow> p \<in> set (concat (map snd (bp_buckets s))) \<longleftrightarrow> (\<exists>sz. free_node s sz p)"
proof -
  assume ok: "pool_ok s"
  have "p \<in> set (concat (map snd (bp_buckets s))) \<longleftrightarrow> (\<exists>sz. p \<in> set (bucket s sz))"
    using pool_okD(3)[OF ok] by (force simp: bucket_def split: option.splits dest: map_of_SomeD)
  then show ?thesis by (simp add: pool_okD(6)[OF ok])
qed

lemma word_sum_zero: "(\<And>p n. (p, n) \<in> set d \<Longrightarrow> f n = 0) \<Longrightarrow> word_sum f d = 0"
  by (induction d) force+

text \<open>
  The purge gives every cached buffer back and reports their size; buffers in use stay as they are.
\<close>

lemma purge_ok:
  assumes ok: "pool_ok s" and run: "purge_free_buffers s = (purged, t)"
  shows "pool_ok t" "in_use t = in_use s" "bp_free t = 0" "purged = bp_free s" "map_of (bp_nodes t) p = Some n \<Longrightarrow> pn_in_use n"
proof -
  let ?L = "concat (map snd (bp_buckets s))"
  obtain u where u: "fold purge_one ?L (0, s) = (purged, u)" "t = u\<lparr>bp_buckets := []\<rparr>"
    using run by (auto simp: purge_free_buffers_def split: prod.splits)
  have nu: "\<not> pn_in_use n" if "p \<in> set ?L" "map_of (bp_nodes s) p = Some n" for p n
    using concat_buckets[OF ok, of p] that by (auto simp: free_node_def)
  note f = purge_fold[OF pool_okD(7)[OF ok] nu u(1)]
  have m: "map_of (bp_nodes t) q = (if q \<in> set ?L then None else map_of (bp_nodes s) q)" for q using f by (simp add: u(2))
  have used: "pn_in_use n" if "map_of (bp_nodes t) p = Some n" for p n
    using that concat_buckets[OF ok, of p] by (auto simp: m free_node_def split: if_splits)
  show "map_of (bp_nodes t) p = Some n \<Longrightarrow> pn_in_use n" by (rule used)
  have core: "pool_core t" using f by (simp add: u(2) pool_core_def)
  have "bucket t z = []" for z by (simp add: bucket_def u(2))
  moreover have "\<not> free_node t z q" for z q using used[of q] by (auto simp: free_node_def)
  ultimately show "pool_ok t" using core by (simp add: pool_ok_def u(2))
  have "cap_if False n = 0" if "(p, n) \<in> set (bp_nodes t)" for p n
    using used[of p n] that pool_coreD(2)[OF core] by (simp add: cap_if_def)
  then have "word_sum (cap_if False) (bp_nodes t) = 0" by (rule word_sum_zero)
  then show free: "bp_free t = 0" using core by (simp add: pool_core_def)
  have "bp_free u = 0" using free by (simp add: u(2))
  then show "purged = bp_free s" using f by simp
  show "in_use t = in_use s"
  proof (rule ext)
    fix q
    show "in_use t q = in_use s q"
    proof (cases "q \<in> set ?L")
      case True
      then obtain sz where "free_node s sz q" using concat_buckets[OF ok, of q] by blast
      then have "in_use s q = None" by (auto simp: in_use_def free_node_def)
      then show ?thesis using True by (simp add: in_use_def m)
    qed (simp add: in_use_def m)
  qed
qed

section \<open>Acquisition\<close>

lemma bucket_size_bound:
  assumes "unat bytes \<le> 2 ^ 62"
  obtains sz where "calculate_bucket_size bytes = Some sz" "unat sz \<le> 2 ^ 62" "sz \<noteq> 0" "bytes \<le> sz"
proof -
  have le63: "unat bytes \<le> 2 ^ 63" using assms by simp
  obtain j where j: "calculate_bucket_size bytes = Some (2 ^ j)" "8 \<le> j" "j \<le> 63" "unat bytes \<le> 2 ^ j"
    "if j = 8 then True else 2 ^ j < 2 * unat bytes"
    using bucket_size_least[of bytes] unfolding if_P[OF le63] by blast
  have "j \<le> 62"
  proof (rule ccontr)
    assume "\<not> j \<le> 62"
    then have "j = 63" using j(3) by simp
    then show False using j(5) assms by simp
  qed
  then have "(2 :: nat) ^ j \<le> 2 ^ 62" by (rule power_increasing) simp
  moreover have "unat (2 ^ j :: 64 word) = 2 ^ j" using j(3) by (rule unat_pow)
  moreover from this have "(2 ^ j :: 64 word) \<noteq> 0" by (metis unat_0 power_not_zero zero_neq_numeral)
  ultimately show ?thesis using j(4) by (intro that[OF j(1)]) (simp_all only: word_le_nat_alt simp_thms)
qed

definition acquired :: "64 word \<Rightarrow> pool \<Rightarrow> memory_error + nat \<Rightarrow> pool \<Rightarrow> bool" where
  "acquired bytes s r t \<longleftrightarrow> pool_ok t \<and>
     (case r of
        Inl e \<Rightarrow> e = PoolOutOfMemory \<and> in_use t = in_use s \<and> bp_free t = 0
      | Inr p \<Rightarrow> if bytes = 0 then p = 0 \<and> t = s
          else in_use s p = None \<and> p \<noteq> 0 \<and> (\<exists>sz. bytes \<le> sz \<and> in_use t = (in_use s)(p \<mapsto> (bytes, sz))))"

lemma in_use_counters [simp]:
  "in_use (s\<lparr>bp_allocations := n\<rparr>) = in_use s" "in_use (s\<lparr>bp_misses := n\<rparr>) = in_use s"
  "in_use (s\<lparr>bp_recoveries := m\<rparr>) = in_use s"
  by (simp_all add: in_use_def fun_eq_iff)

lemma bucket_counters [simp]:
  "bucket (s\<lparr>bp_allocations := n\<rparr>) sz = bucket s sz" "bucket (s\<lparr>bp_misses := n\<rparr>) sz = bucket s sz"
  by (simp_all add: bucket_def)

lemma in_use_zero: "pool_ok s \<Longrightarrow> in_use s 0 = None"
  using release_ok(2)[of s 0] by (metis fun_upd_same release_buffer_def)

lemma acquiredI:
  assumes "pool_ok t" "in_use s p = None" "in_use t = (in_use s)(p \<mapsto> (bytes, sz))" "bytes \<le> sz" "bytes \<noteq> 0"
  shows "acquired bytes s (Inr p) t"
proof -
  have "p \<noteq> 0" using in_use_zero[OF assms(1)] assms(3) by (auto simp: fun_upd_def split: if_splits)
  then show ?thesis using assms unfolding acquired_def by auto
qed

lemma acquire_ok:
  assumes ok: "pool_ok s" and fresh: "fresh_pointers malloc" and le: "unat bytes \<le> 2 ^ 62"
  shows "\<exists>r t. acquire malloc bytes cat s = Some (r, t) \<and> acquired bytes s r t"
proof (cases "bytes = 0")
  case True
  then show ?thesis using ok by (simp add: acquire_def acquired_def)
next
  case nz: False
  obtain sz where sz: "calculate_bucket_size bytes = Some sz" "unat sz \<le> 2 ^ 62" "sz \<noteq> 0" "bytes \<le> sz"
    using bucket_size_bound[OF le] .
  let ?s = "s\<lparr>bp_allocations := bp_allocations s + 1\<rparr>"
  let ?m = "?s\<lparr>bp_misses := bp_misses ?s + 1\<rparr>"
  show ?thesis
  proof (cases "bucket s sz = []")
    case False
    obtain p t where re: "reuse_buffer sz bytes ?s = (p, t)" by (cases "reuse_buffer sz bytes ?s")
    have pre: "pool_ok ?s" "bucket ?s sz \<noteq> []" using ok False by simp_all
    have "acquired bytes s (Inr p) t"
      using acquiredI[OF reuse_ok(1)[OF pre re], of s p bytes sz] reuse_in_use[OF pre re] sz(4) nz by simp
    moreover have "acquire malloc bytes cat s = Some (Inr p, t)"
      using nz False re by (simp add: acquire_def sz(1))
    ultimately show ?thesis by blast
  next
    case miss: True
    have okm: "pool_ok ?m" using ok by simp
    note run = acquire_def[of malloc bytes cat s, unfolded if_not_P[OF nz] sz(1) option.case Let_def]
    obtain r1 t1 where one: "attempt_allocation malloc sz bytes cat ?m = (r1, t1)"
      by (cases "attempt_allocation malloc sz bytes cat ?m")
    show ?thesis
    proof (cases r1)
      case (Some p)
      note got = attempt_ok[OF okm fresh sz(2,3) one[unfolded Some]]
      have "acquired bytes s (Inr p) t1" using acquiredI[OF got(1), of s p bytes sz] got(2,3) sz(4) nz by simp
      moreover have "acquire malloc bytes cat s = Some (Inr p, t1)" using one Some miss by (simp add: run)
      ultimately show ?thesis by blast
    next
      case None
      then have t1: "t1 = ?m" using attempt_fails one by metis
      obtain purged u where pu: "purge_free_buffers t1 = (purged, u)" by (cases "purge_free_buffers t1")
      note purge = purge_ok[OF okm pu[unfolded t1]]
      let ?u = "u\<lparr>bp_recoveries := bp_recoveries u + 1\<rparr>"
      obtain r2 t2 where two: "attempt_allocation malloc sz bytes cat ?u = (r2, t2)"
        by (cases "attempt_allocation malloc sz bytes cat ?u")
      have oku: "pool_ok ?u" using purge(1) by simp
      have same: "in_use ?u = in_use s" using purge(2) by simp
      show ?thesis
      proof (cases r2)
        case (Some p)
        note got = attempt_ok[OF oku fresh sz(2,3) two[unfolded Some]]
        have "acquired bytes s (Inr p) t2" using acquiredI[OF got(1), of s p bytes sz] got(2,3) same sz(4) nz by simp
        moreover have "acquire malloc bytes cat s = Some (Inr p, t2)" using one None pu two Some miss by (simp add: run)
        ultimately show ?thesis by blast
      next
        case fail: None
        then have t2: "t2 = ?u" using attempt_fails two by metis
        have "acquired bytes s (Inl PoolOutOfMemory) t2" using oku same purge(3) by (simp add: acquired_def t2)
        moreover have "acquire malloc bytes cat s = Some (Inl PoolOutOfMemory, t2)"
          using one None pu two fail miss by (simp add: run)
        ultimately show ?thesis by blast
      qed
    qed
  qed
qed

section \<open>The interface to the guards\<close>

text \<open>What a holder of buffers relies on, and the guard that is neutral over it.\<close>

locale buffer_source =
  fixes acq :: "64 word \<Rightarrow> 's \<Rightarrow> ('e, nat, 's) eff option"
    and rel :: "nat \<Rightarrow> 's \<Rightarrow> 's"
    and view :: "'s \<Rightarrow> nat \<Rightarrow> (64 word \<times> 64 word) option"
    and ok :: "'s \<Rightarrow> bool"
  assumes acq_returns: "ok s \<Longrightarrow> unat bytes \<le> 2 ^ 62 \<Longrightarrow> \<exists>r t. acq bytes s = Some (r, t)"
    and acq_keeps: "ok s \<Longrightarrow> unat bytes \<le> 2 ^ 62 \<Longrightarrow> acq bytes s = Some (r, t) \<Longrightarrow> ok t"
    and acq_fails: "ok s \<Longrightarrow> unat bytes \<le> 2 ^ 62 \<Longrightarrow> acq bytes s = Some (Inl e, t) \<Longrightarrow> view t = view s"
    and acq_null: "ok s \<Longrightarrow> unat bytes \<le> 2 ^ 62 \<Longrightarrow> acq bytes s = Some (Inr 0, t) \<Longrightarrow> view t = view s"
    and acq_new: "ok s \<Longrightarrow> unat bytes \<le> 2 ^ 62 \<Longrightarrow> acq bytes s = Some (Inr p, t) \<Longrightarrow> p \<noteq> 0 \<Longrightarrow>
      view s p = None \<and> (\<exists>c. bytes \<le> c \<and> view t = (view s)(p \<mapsto> (bytes, c)))"
    and rel_keeps: "ok s \<Longrightarrow> ok (rel p s)"
    and rel_view: "ok s \<Longrightarrow> view (rel p s) = (view s)(p := None)"
begin

lemma scope_neutral:
  assumes "ok s" "unat bytes \<le> 2 ^ 62" "acq bytes s = Some (Inr p, t)"
  shows "ok (if p \<noteq> 0 then rel p t else t)" "view (if p \<noteq> 0 then rel p t else t) = view s"
proof -
  have t: "ok t" by (rule acq_keeps[OF assms])
  show "ok (if p \<noteq> 0 then rel p t else t)" using t rel_keeps by simp
  show "view (if p \<noteq> 0 then rel p t else t) = view s"
  proof (cases "p = 0")
    case True
    then show ?thesis using acq_null[OF assms(1,2)] assms(3) by simp
  next
    case False
    then show ?thesis using acq_new[OF assms False] rel_view[OF t, of p] by (auto simp: fun_upd_idem)
  qed
qed

lemma release_twice: "ok s \<Longrightarrow> view (rel p (rel p s)) = view (rel p s)"
  by (simp add: rel_view rel_keeps)

end

lemma acquire_acquired:
  assumes "fresh_pointers malloc" "pool_ok s" "unat bytes \<le> 2 ^ 62" "acquire malloc bytes cat s = Some (r, t)"
  shows "acquired bytes s r t"
  using acquire_ok[of s malloc bytes cat] assms by auto

interpretation pool: buffer_source "\<lambda>bytes. acquire malloc bytes cat" release_buffer in_use
  "\<lambda>s. fresh_pointers malloc \<and> pool_ok s" for malloc cat
proof unfold_locales
  show "\<exists>r t. acquire malloc bytes cat s = Some (r, t)"
    if "fresh_pointers malloc \<and> pool_ok s" "unat bytes \<le> 2 ^ 62" for s bytes
    using acquire_ok[of s malloc bytes cat] that by blast
qed (auto dest!: acquire_acquired[simplified] simp: acquired_def release_ok split: if_splits)

section \<open>Properties\<close>

text \<open>
  For a request of at most 2^63 bytes the bucket is the least power of two that holds it, from 256
  on; for a larger request the loop shifts its candidate to zero and never ends.
\<close>

theorem bucket_size:
  "if unat bytes \<le> 2 ^ 63
   then \<exists>j. calculate_bucket_size bytes = Some (2 ^ j) \<and> 8 \<le> j \<and> j \<le> 63 \<and> unat bytes \<le> 2 ^ j \<and>
     (if j = 8 then True else 2 ^ j < 2 * unat bytes)
   else calculate_bucket_size bytes = None"
  by (rule bucket_size_least)

text \<open>
  C17: A request for at most 2^62 bytes returns: either with a buffer that nobody holds, of a size that
  fits, and the buffers of all other holders unchanged, or, after the purge has emptied the cache,
  with the pool's out-of-memory error and no buffer lost. A release gives up exactly its buffer, and
  the pool's sums stay exact.
\<close>

theorem pool_contract:
  assumes "pool_ok s" and "fresh_pointers malloc" and "unat bytes \<le> 2 ^ 62"
  shows "pool_ok (release_buffer q s) \<and> in_use (release_buffer q s) = (in_use s)(q := None) \<and>
    (\<exists>r t. acquire malloc bytes cat s = Some (r, t) \<and> pool_ok t \<and>
      (case r of
         Inl e \<Rightarrow> e = PoolOutOfMemory \<and> in_use t = in_use s \<and> bp_free t = 0
       | Inr p \<Rightarrow> if bytes = 0 then p = 0 \<and> t = s
           else in_use s p = None \<and> p \<noteq> 0 \<and> (\<exists>sz. bytes \<le> sz \<and> in_use t = (in_use s)(p \<mapsto> (bytes, sz)))))"
  using acquire_ok[OF assms, of cat] release_ok[OF assms(1), of q] unfolding acquired_def by blast

text \<open>A driver that hands out a pointer above all pointers in use, and an empty pool over 4096 bytes.\<close>

definition bump_malloc :: "nat list \<Rightarrow> 64 word \<Rightarrow> nat option" where
  "bump_malloc used n = Some (Suc (sum_list used))"

definition small_allocator :: allocator where
  "small_allocator = \<lparr>ba_active = [], ba_total_vram = 8192, ba_limit = 4096, ba_total = 0, ba_peak = 0, ba_category = (\<lambda>_. 0)\<rparr>"

lemma bump_fresh: "fresh_pointers bump_malloc"
proof -
  have "Suc (sum_list used) \<notin> set used" for used :: "nat list"
    using member_le_sum_list[of "Suc (sum_list used)" used] by auto
  then show ?thesis by (auto simp: fresh_pointers_def bump_malloc_def)
qed

lemma small_allocator_ok: "budget_ok small_allocator"
  by (simp add: budget_ok_def allocator_ok_def small_allocator_def)

theorem pool_contract_witness:
  "\<exists>r t. acquire bump_malloc 300 WORKSPACE (pool_init small_allocator 0) = Some (r, t) \<and> pool_ok t"
  using pool_contract[OF pool_init_ok[OF small_allocator_ok] bump_fresh, of 300 0 0 WORKSPACE] by auto

text \<open>
  A guard is neutral: when it has been moved and both the source and the target are destroyed, the
  buffer is released once, and every other holder keeps its buffer.
\<close>

theorem scoped_buffer_neutral:
  assumes "pool_ok s" and "fresh_pointers malloc" and "unat bytes \<le> 2 ^ 62"
    and "acquire_scoped malloc bytes cat s = Some (Inr b, t)"
    and "scoped_move b = (target, source)"
  shows "pool_ok (snd (scoped_release target (snd (scoped_release source t)))) \<and>
    in_use (snd (scoped_release target (snd (scoped_release source t)))) = in_use s"
proof -
  obtain p where b: "acquire malloc bytes cat s = Some (Inr p, t)" "b = \<lparr>sb_bound = True, sb_ptr = p, sb_bytes = bytes\<rparr>"
    using assms(4) by (auto simp: acquire_scoped_def eff_bind_def split: option.splits prod.splits sum.splits)
  have "snd (scoped_release target (snd (scoped_release source t))) = (if p \<noteq> 0 then release_buffer p t else t)"
    using assms(5) by (auto simp: scoped_move_def scoped_release_def b(2))
  with pool.scope_neutral[OF _ assms(3) b(1)] assms(1,2) show ?thesis by simp
qed

text \<open>
  A cached buffer keeps the category it was first allocated with: the allocator goes on counting its
  bytes there, whatever the category of the request that reuses it.
\<close>

lemma reuse_keeps_category:
  "ba_category (bp_alloc (snd (reuse_buffer sz bytes s))) = ba_category (bp_alloc s)"
  by (simp add: reuse_buffer_def Let_def)

text \<open>The limit for cached bytes is never enforced.\<close>

lemma cache_limit_ignored: "release_buffer p (s\<lparr>bp_max_cached := n\<rparr>) = (release_buffer p s)\<lparr>bp_max_cached := n\<rparr>"
  by (simp add: release_buffer_def bucket_def split: option.splits)

end
