(* ===== verification/Memory_Stats.thy ===== *)
theory Memory_Stats
  imports Buffer_Pool
begin

text \<open>
  The reports of \<open>csrc/src/memory/block_allocator.cpp\<close> and \<open>csrc/src/memory/buffer_pool.cpp\<close>, and the
  destructor of the pool. The driver's report of free and total memory is an argument.
\<close>

section \<open>Reports\<close>

record memory_stats =
  ms_total_vram :: "64 word"
  ms_free_vram :: "64 word"
  ms_current :: "64 word"
  ms_peak :: "64 word"
  ms_limit :: "64 word"
  ms_category :: "category \<Rightarrow> 64 word"

definition allocator_get_stats :: "64 word \<times> 64 word \<Rightarrow> allocator \<Rightarrow> memory_stats" where
  "allocator_get_stats = (\<lambda>(free_vram, total_vram) s.
     \<lparr>ms_total_vram = total_vram, ms_free_vram = free_vram, ms_current = ba_total s, ms_peak = ba_peak s,
      ms_limit = ba_limit s, ms_category = ba_category s\<rparr>)"

definition get_category_bytes :: "category \<Rightarrow> allocator \<Rightarrow> 64 word" where
  "get_category_bytes cat s = ba_category s cat"

definition get_total_allocated_bytes :: "allocator \<Rightarrow> 64 word" where
  "get_total_allocated_bytes s = ba_total s"

definition get_peak_allocated_bytes :: "allocator \<Rightarrow> 64 word" where
  "get_peak_allocated_bytes s = ba_peak s"

definition category_to_string :: "category \<Rightarrow> string" where
  "category_to_string cat =
     (case cat of WEIGHTS \<Rightarrow> ''WEIGHTS'' | ACTIVATIONS \<Rightarrow> ''ACTIVATIONS'' | WORKSPACE \<Rightarrow> ''WORKSPACE'' | KV_CACHE \<Rightarrow> ''KV_CACHE'')"

record pool_report =
  pr_total :: "64 word"
  pr_active :: "64 word"
  pr_free :: "64 word"
  pr_peak :: "64 word"
  pr_requested :: "64 word"
  pr_ratios :: pool_stats
  pr_allocations :: "64 word"
  pr_hits :: "64 word"
  pr_misses :: "64 word"
  pr_recoveries :: "32 word"

definition pool_get_stats :: "pool \<Rightarrow> pool_report" where
  "pool_get_stats s =
     \<lparr>pr_total = bp_total s, pr_active = bp_active s, pr_free = bp_free s, pr_peak = bp_peak s,
      pr_requested = bp_requested s, pr_ratios = fragmentation s, pr_allocations = bp_allocations s,
      pr_hits = bp_hits s, pr_misses = bp_misses s, pr_recoveries = bp_recoveries s\<rparr>"

definition pool_destroy :: "pool \<Rightarrow> pool" where
  "pool_destroy s = snd (purge_free_buffers s)"

section \<open>What they add up to\<close>

lemma size_by_category:
  "dict_sum (\<lambda>h. unat (bh_size h)) d = dict_sum (size_in WEIGHTS) d + dict_sum (size_in ACTIVATIONS) d +
     dict_sum (size_in WORKSPACE) d + dict_sum (size_in KV_CACHE) d"
proof (induction d)
  case (Cons p d)
  then show ?case by (cases "bh_category (snd p)") (simp_all add: size_in_def)
qed simp

text \<open>The categories of the allocator's report add up to its total, which is within peak and limit.\<close>

theorem allocator_report_adds_up:
  assumes "budget_ok s"
  shows "let r = allocator_get_stats query s in
    unat (ms_current r) = unat (ms_category r WEIGHTS) + unat (ms_category r ACTIVATIONS) +
      unat (ms_category r WORKSPACE) + unat (ms_category r KV_CACHE) \<and>
    ms_current r \<le> ms_peak r \<and> ms_current r \<le> ms_limit r"
  using assms size_by_category[of "ba_active s"]
  by (cases query) (simp add: allocator_get_stats_def budget_ok_def allocator_ok_def Let_def)

lemma word_sum_split: "word_sum pn_capacity d = word_sum (cap_if True) d + word_sum (cap_if False) d"
  by (induction d) (auto simp: word_sum_def cap_if_def)

text \<open>The pool's bytes are those in use and those kept free.\<close>

theorem pool_report_adds_up:
  assumes "pool_ok s"
  shows "let r = pool_get_stats s in pr_total r = pr_active r + pr_free r"
  using pool_okD(7)[OF assms] word_sum_split[of "bp_nodes s"]
  by (simp add: pool_get_stats_def pool_core_def Let_def)

text \<open>
  A pool whose buffers were all released gives every one of them back to the allocator when it is
  destroyed; buffers still in use stay allocated, and nothing else changes hands.
\<close>

theorem pool_destroy_returns:
  assumes "pool_ok s"
  shows "let t = pool_destroy s in pool_ok t \<and> in_use t = in_use s \<and> bp_free t = 0 \<and>
    (in_use s = Map.empty \<longrightarrow> bp_nodes t = [] \<and> bp_total t = 0)"
proof -
  obtain purged t where run: "purge_free_buffers s = (purged, t)" by fastforce
  note purge = purge_ok[OF assms run]
  have "bp_nodes t = [] \<and> bp_total t = 0" if "in_use s = Map.empty"
  proof -
    have none: "map_of (bp_nodes t) p = None" for p
    proof (cases "map_of (bp_nodes t) p")
      case (Some n)
      then have "in_use t p \<noteq> None" using purge(5) by (simp add: in_use_def)
      then show ?thesis using that purge(2) by simp
    qed
    then have "bp_nodes t = []" by (metis list.exhaust map_of_eq_None_iff list.set_intros(1) image_eqI)
    then show ?thesis using pool_okD(7)[OF purge(1)] by (simp add: pool_core_def word_sum_def)
  qed
  with purge(1-3) run show ?thesis by (simp add: pool_destroy_def Let_def)
qed

end
