(* ===== verification/Candidate_Verification.thy ===== *)
theory Candidate_Verification
  imports Prelude "HOL-Library.Sublist"
begin

text \<open>
  \<open>csrc/src/scheduler/speculative.cpp\<close>: verification of drafted tokens, by rejection sampling and in
  the greedy form. Probabilities are reals; a token is an \<open>int\<close>, and an index outside a row or a
  list, undefined in the source, is the value \<open>None\<close>. The generator is a function on its state.
\<close>

section \<open>Results\<close>

record verification =
  vr_accepted :: "int list"
  vr_final :: int
  vr_num_accepted :: nat
  vr_end :: bool

datatype verification_error = IncompatibleDimensions

text \<open>The result that ends at a rejected or bonus token, and the one that ends at an accepted end token.\<close>

definition final_result :: "int \<Rightarrow> int \<Rightarrow> verification" where
  "final_result eos token = \<lparr>vr_accepted = [], vr_final = token, vr_num_accepted = 0, vr_end = (token = eos)\<rparr>"

definition eos_result :: "int \<Rightarrow> verification" where
  "eos_result eos = \<lparr>vr_accepted = [], vr_final = eos, vr_num_accepted = 0, vr_end = True\<rparr>"

definition accept_token :: "int \<Rightarrow> verification \<Rightarrow> verification" where
  "accept_token token v = v\<lparr>vr_accepted := token # vr_accepted v, vr_num_accepted := Suc (vr_num_accepted v)\<rparr>"

section \<open>Greedy verification\<close>

fun max_element :: "nat \<Rightarrow> real \<Rightarrow> nat \<Rightarrow> real list \<Rightarrow> nat" where
  "max_element best value i [] = best"
| "max_element best value i (x # xs) =
     (if value < x then max_element i x (Suc i) xs else max_element best value (Suc i) xs)"

definition argmax_token :: "real list \<Rightarrow> int" where
  "argmax_token row = (case row of [] \<Rightarrow> 0 | x # xs \<Rightarrow> int (max_element 0 x 1 xs))"

fun verify_candidates_greedy :: "int \<Rightarrow> int list \<Rightarrow> real list list \<Rightarrow> verification option" where
  "verify_candidates_greedy eos ts [] = None"
| "verify_candidates_greedy eos [] (p # ps) = Some (final_result eos (argmax_token p))"
| "verify_candidates_greedy eos (t # ts) (p # ps) =
     (if t = argmax_token p
      then if t = eos then Some (accept_token t (eos_result eos))
        else map_option (accept_token t) (verify_candidates_greedy eos ts ps)
      else Some (final_result eos (argmax_token p)))"

section \<open>Rejection sampling\<close>

fun sample_scan :: "real \<Rightarrow> real \<Rightarrow> nat \<Rightarrow> real list \<Rightarrow> int" where
  "sample_scan r cumulative i [] = int i - 1"
| "sample_scan r cumulative i (p # ps) =
     (if r \<le> cumulative + p then int i else sample_scan r (cumulative + p) (Suc i) ps)"

definition sample_from_distribution :: "('g \<Rightarrow> real \<times> 'g) \<Rightarrow> real list \<Rightarrow> 'g \<Rightarrow> int \<times> 'g" where
  "sample_from_distribution draw probs g = (let (r, g) = draw g in (sample_scan r 0 0 probs, g))"

definition adjusted_weights :: "real list \<Rightarrow> real list \<Rightarrow> real list" where
  "adjusted_weights target_p draft_q = map (\<lambda>(p, q). max 0 (p - q)) (zip target_p draft_q)"

definition sample_adjusted_distribution ::
  "('g \<Rightarrow> real \<times> 'g) \<Rightarrow> real list \<Rightarrow> real list \<Rightarrow> 'g \<Rightarrow> (int \<times> 'g) option" where
  "sample_adjusted_distribution draw target_p draft_q g =
     (if length draft_q < length target_p then None
      else let adjusted = adjusted_weights target_p draft_q; s = sum_list adjusted in
        if s \<le> 1 / 10 ^ 6 then Some (sample_from_distribution draw target_p g)
        else Some (sample_from_distribution draw (map (\<lambda>a. a / s) adjusted) g))"

definition prob_at :: "real list \<Rightarrow> int \<Rightarrow> real option" where
  "prob_at row token = (if 0 \<le> token \<and> nat token < length row then Some (row ! nat token) else None)"

definition acceptance_ratio :: "real \<Rightarrow> real \<Rightarrow> real" where
  "acceptance_ratio p q = (if 0 < q then min 1 (p / q) else 0)"

fun verify_from ::
  "('g \<Rightarrow> real \<times> 'g) \<Rightarrow> int \<Rightarrow> int list \<Rightarrow> real list list \<Rightarrow> real list list \<Rightarrow> 'g \<Rightarrow> (verification \<times> 'g) option" where
  "verify_from draw eos [] qs ps g =
     (let (token, g) = sample_from_distribution draw (hd ps) g in Some (final_result eos token, g))"
| "verify_from draw eos (t # ts) qs ps g =
     (case (prob_at (hd qs) t, prob_at (hd ps) t) of
        (Some q, Some p) \<Rightarrow>
          (let (r, g) = draw g in
           if r \<le> acceptance_ratio p q
           then if t = eos then Some (accept_token t (eos_result eos), g)
             else map_option (map_prod (accept_token t) id) (verify_from draw eos ts (tl qs) (tl ps) g)
           else map_option (map_prod (final_result eos) id) (sample_adjusted_distribution draw (hd ps) (hd qs) g))
      | _ \<Rightarrow> None)"

definition verify_candidates ::
  "('g \<Rightarrow> real \<times> 'g) \<Rightarrow> int \<Rightarrow> int list \<Rightarrow> real list list \<Rightarrow> real list list \<Rightarrow> 'g \<Rightarrow>
   verification_error + (verification \<times> 'g) option" where
  "verify_candidates draw eos ts qs ps g =
     (if length qs \<noteq> length ts \<or> length ps < length ts + 1 then Inl IncompatibleDimensions
      else Inr (verify_from draw eos ts qs ps g))"

section \<open>Greedy verification is greedy decoding\<close>

lemma max_element_bounds:
  "best < i \<Longrightarrow> max_element best value i xs < i + length xs"
  by (induction best "value" i xs rule: max_element.induct) force+

lemma argmax_token_range: "row \<noteq> [] \<Longrightarrow> 0 \<le> argmax_token row \<and> argmax_token row < int (length row)"
  using max_element_bounds[of 0 1 "hd row" "tl row"] by (cases row) (auto simp: argmax_token_def)

lemma max_element_max:
  "row \<noteq> [] \<Longrightarrow> length pre = i \<Longrightarrow> best < i \<Longrightarrow> value = pre ! best \<Longrightarrow> (\<forall>x \<in> set pre. x \<le> value) \<Longrightarrow> row = pre @ xs \<Longrightarrow>
   (\<forall>x \<in> set row. x \<le> row ! max_element best value i xs)"
proof (induction best "value" i xs arbitrary: pre rule: max_element.induct)
  case (2 best v i x xs)
  show ?case
  proof (cases "v < x")
    case True
    have "\<forall>y \<in> set row. y \<le> row ! max_element i x (Suc i) xs"
      using 2(4-8) True by (intro 2(1)[of "pre @ [x]"]) (auto simp: nth_append)
    with True show ?thesis by simp
  next
    case False
    have "\<forall>y \<in> set row. y \<le> row ! max_element best v (Suc i) xs"
      using 2(4-8) False by (intro 2(2)[of "pre @ [x]"]) (auto simp: nth_append)
    with False show ?thesis by simp
  qed
qed (auto simp: nth_append)

lemma argmax_token_max: "row \<noteq> [] \<Longrightarrow> x \<in> set row \<Longrightarrow> x \<le> row ! nat (argmax_token row)"
  using max_element_max[of row "[hd row]" 1 0 "hd row" "tl row"] by (cases row) (auto simp: argmax_token_def)

text \<open>The tokens of a result: the accepted ones, and the final one unless the end was accepted.\<close>

definition emitted :: "int \<Rightarrow> verification \<Rightarrow> int list" where
  "emitted eos v = (if vr_accepted v \<noteq> [] \<and> last (vr_accepted v) = eos then vr_accepted v else vr_accepted v @ [vr_final v])"

text \<open>Greedy decoding by the target alone: its best token at each position, up to the end token.\<close>

fun greedy_tokens :: "int \<Rightarrow> real list list \<Rightarrow> int list" where
  "greedy_tokens eos [] = []"
| "greedy_tokens eos (p # ps) = argmax_token p # (if argmax_token p = eos then [] else greedy_tokens eos ps)"

lemma emitted_accept: "t \<noteq> eos \<Longrightarrow> emitted eos (accept_token t v) = t # emitted eos v"
  by (simp add: emitted_def accept_token_def)

definition greedy_ok :: "int \<Rightarrow> int list \<Rightarrow> real list list \<Rightarrow> verification \<Rightarrow> bool" where
  "greedy_ok eos ts ps v \<longleftrightarrow> vr_num_accepted v \<le> length ts \<and> vr_accepted v = take (vr_num_accepted v) ts \<and>
     emitted eos v \<noteq> [] \<and> prefix (emitted eos v) (greedy_tokens eos ps) \<and> vr_end v = (vr_final v = eos) \<and>
     (if vr_end v \<or> vr_num_accepted v = length ts then True
      else ts ! vr_num_accepted v \<noteq> argmax_token (ps ! vr_num_accepted v))"

lemma greedy_ok_accept:
  "greedy_ok eos ts ps v \<Longrightarrow> argmax_token p \<noteq> eos \<Longrightarrow>
   greedy_ok eos (argmax_token p # ts) (p # ps) (accept_token (argmax_token p) v)"
  unfolding greedy_ok_def by (simp add: emitted_accept) (simp add: accept_token_def)

lemma greedy_result:
  "length ts < length ps \<Longrightarrow> \<exists>v. verify_candidates_greedy eos ts ps = Some v \<and> greedy_ok eos ts ps v"
proof (induction eos ts ps rule: verify_candidates_greedy.induct)
  case (2 eos p ps)
  then show ?case by (simp add: greedy_ok_def final_result_def emitted_def)
next
  case (3 eos t ts p ps)
  show ?case
  proof (cases "t = argmax_token p \<and> t \<noteq> eos")
    case True
    with 3 obtain v where v: "verify_candidates_greedy eos ts ps = Some v" "greedy_ok eos ts ps v" by auto
    with True greedy_ok_accept[OF v(2), of p] show ?thesis by auto
  next
    case False
    then show ?thesis
      by (cases "t = argmax_token p")
        (simp_all add: greedy_ok_def final_result_def eos_result_def accept_token_def emitted_def)
  qed
qed simp

text \<open>
  With a row for every drafted token and one more, the greedy verification returns, and the tokens
  it emits are a non-empty beginning of what greedy decoding by the target alone emits; it accepts a
  beginning of the draft and stops only at the end token, at a disagreement or after the bonus token.
\<close>

theorem greedy_verification_exact:
  assumes "length ts < length ps"
  shows "\<exists>v. verify_candidates_greedy eos ts ps = Some v \<and> vr_accepted v = take (vr_num_accepted v) ts \<and>
    emitted eos v \<noteq> [] \<and> prefix (emitted eos v) (greedy_tokens eos ps) \<and> vr_end v = (vr_final v = eos) \<and>
    (if vr_end v \<or> vr_num_accepted v = length ts then True
     else ts ! vr_num_accepted v \<noteq> argmax_token (ps ! vr_num_accepted v))"
  using greedy_result[OF assms, of eos] unfolding greedy_ok_def by blast

theorem greedy_verification_exact_witness:
  "\<exists>v. verify_candidates_greedy 9 [1, 0] [[0, 1], [1, 0], [0, 1]] = Some v \<and> emitted 9 v = [1, 0, 1]"
  using greedy_verification_exact[of "[1, 0]" "[[0, 1], [1, 0], [0, 1]]" 9]
  by (simp add: argmax_token_def final_result_def accept_token_def emitted_def)

text \<open>The greedy form does not check the dimensions: with too few rows it reads past the end.\<close>

lemma greedy_unchecked: "verify_candidates_greedy eos ts [] = None"
  by simp

section \<open>Rejection sampling\<close>

text \<open>A draw above zero picks a token of positive weight, or the last one when the weights do not reach it.\<close>

lemma sample_scan_positive:
  assumes "\<And>x. x \<in> set ps \<Longrightarrow> 0 \<le> x" "c < r" "r \<le> c + sum_list ps"
  shows "\<exists>j. j < length ps \<and> sample_scan r c i ps = int (i + j) \<and> 0 < ps ! j"
  using assms
proof (induction r c i ps rule: sample_scan.induct)
  case (2 r c i p ps)
  show ?case
  proof (cases "r \<le> c + p")
    case True
    then have "0 < p" using 2(3) by simp
    with True show ?thesis by (intro exI[of _ 0]) simp
  next
    case False
    from 2(1)[OF False] obtain j where "j < length ps" "sample_scan r (c + p) (Suc i) ps = int (Suc i + j)" "0 < ps ! j"
      using 2(2,4) False by (auto simp: algebra_simps)
    with False show ?thesis by (intro exI[of _ "Suc j"]) simp
  qed
qed simp

lemma adjusted_nth: "i < length p \<Longrightarrow> i < length q \<Longrightarrow> adjusted_weights p q ! i = max 0 (p ! i - q ! i)"
  by (simp add: adjusted_weights_def)

text \<open>
  A token that the draft could propose and that was rejected is not drawn as its own replacement:
  the replacement has a target probability above its draft probability.
\<close>

theorem rejected_not_redrawn:
  assumes "length p = length q" and "1 / 10 ^ 6 < sum_list (adjusted_weights p q)"
    and "prob_at q t = Some qt" and "prob_at p t = Some pt" and "0 < qt" and "acceptance_ratio pt qt < r"
    and "r \<le> 1" and "draw g = (u, g')" and "0 < u" and "u \<le> 1"
  shows "\<exists>t'. sample_adjusted_distribution draw p q g = Some (t', g') \<and> t' \<noteq> t \<and> 0 \<le> t' \<and> nat t' < length p \<and>
    q ! nat t' < p ! nat t'"
proof -
  let ?w = "adjusted_weights p q" and ?s = "sum_list (adjusted_weights p q)"
  have s: "0 < ?s" using assms(2) by (rule less_trans[rotated]) simp
  have len: "length (map (\<lambda>a. a / ?s) ?w) = length p" using assms(1) by (simp add: adjusted_weights_def)
  have nonneg: "0 \<le> x" if "x \<in> set (map (\<lambda>a. a / ?s) ?w)" for x
    using that s by (auto simp: adjusted_weights_def)
  have "sum_list (map (\<lambda>a. a / ?s) ?w) = 1"
    using s sum_list_mult_const[of "\<lambda>a. a" "1 / ?s" ?w] by simp
  then obtain j where j: "j < length p" "sample_scan u 0 0 (map (\<lambda>a. a / ?s) ?w) = int j" "0 < map (\<lambda>a. a / ?s) ?w ! j"
    using sample_scan_positive[of "map (\<lambda>a. a / ?s) ?w" 0 u 0] nonneg assms(9,10) len by auto
  have "0 < ?w ! j" using j(1,3) s len by (simp add: zero_less_divide_iff)
  then have pj: "q ! j < p ! j" using adjusted_nth[of j p q] j(1) assms(1) by simp
  have "pt < qt"
    using assms(5,6,7) by (auto simp: acceptance_ratio_def min_def divide_simps split: if_splits)
  then have "int j \<noteq> t" using pj assms(3,4) by (auto simp: prob_at_def split: if_splits)
  moreover have "sample_adjusted_distribution draw p q g = Some (int j, g')"
    using assms(1,2,8) j(2) by (simp add: sample_adjusted_distribution_def sample_from_distribution_def Let_def)
  ultimately show ?thesis using j(1) pj by auto
qed

theorem rejected_not_redrawn_witness:
  "\<exists>t'. sample_adjusted_distribution (\<lambda>g. (1 / 2, g)) [1 / 4, 3 / 4] [3 / 4, 1 / 4] () = Some (t', ()) \<and> t' \<noteq> 0"
  using rejected_not_redrawn[of "[1 / 4, 3 / 4]" "[3 / 4, 1 / 4]" 0 "3 / 4" "1 / 4" 1 "\<lambda>g. (1 / 2, g)" "()" "1 / 2" "()"]
  by (simp add: adjusted_weights_def prob_at_def acceptance_ratio_def) blast

text \<open>A draw of zero accepts a token that the target gives no probability.\<close>

lemma zero_draw_accepts: "0 \<le> p \<Longrightarrow> 0 \<le> q \<Longrightarrow> (0 :: real) \<le> acceptance_ratio p q"
  by (simp add: acceptance_ratio_def)

section \<open>The verification as a whole\<close>

definition prefix_result :: "int \<Rightarrow> int list \<Rightarrow> verification \<Rightarrow> bool" where
  "prefix_result eos ts v \<longleftrightarrow> vr_num_accepted v \<le> length ts \<and> vr_accepted v = take (vr_num_accepted v) ts \<and>
     vr_end v = (vr_final v = eos)"

lemma prefix_result_intros:
  "prefix_result eos ts (final_result eos x)" "prefix_result eos (t # ts) (accept_token t (eos_result eos))"
  "prefix_result eos ts v \<Longrightarrow> prefix_result eos (t # ts) (accept_token t v)"
  by (simp_all add: prefix_result_def final_result_def accept_token_def eos_result_def)

lemma verify_from_cases:
  assumes "verify_from draw eos (t # ts) qs ps g = Some (v, g')"
  obtains (ended) "v = accept_token t (eos_result eos)"
  | (rejected) x where "v = final_result eos x"
  | (accepted) w g1 where "verify_from draw eos ts (tl qs) (tl ps) g1 = Some (w, g')" "v = accept_token t w"
  using assms by (simp add: map_prod_def split: option.splits prod.splits if_splits) blast+

lemma verify_from_prefix: "verify_from draw eos ts qs ps g = Some (v, g') \<Longrightarrow> prefix_result eos ts v"
proof (induction ts arbitrary: qs ps g v)
  case Nil
  then show ?case by (auto simp: prefix_result_intros split: prod.splits)
next
  case (Cons t ts)
  from Cons.prems show ?case
    by (cases rule: verify_from_cases) (auto simp: prefix_result_intros dest: Cons.IH)
qed

lemma verify_from_returns:
  "length qs = length ts \<Longrightarrow> length ts < length ps \<Longrightarrow>
   (\<forall>i < length ts. length (qs ! i) = n \<and> length (ps ! i) = n \<and> 0 \<le> ts ! i \<and> ts ! i < int n) \<Longrightarrow>
   verify_from draw eos ts qs ps g \<noteq> None"
proof (induction draw eos ts qs ps g rule: verify_from.induct)
  case (2 draw eos t ts qs ps g)
  obtain q qs' p ps' where l: "qs = q # qs'" "ps = p # ps'" using 2(2,3) by (cases qs; cases ps) auto
  have h: "length q = n" "length p = n" "0 \<le> t" "t < int n" using 2(4)[rule_format, of 0] by (simp_all add: l)
  have tl: "\<forall>i < length ts. length (qs' ! i) = n \<and> length (ps' ! i) = n \<and> 0 \<le> ts ! i \<and> ts ! i < int n"
  proof (intro allI impI)
    fix i assume "i < length ts"
    then show "length (qs' ! i) = n \<and> length (ps' ! i) = n \<and> 0 \<le> ts ! i \<and> ts ! i < int n"
      using 2(4)[rule_format, of "Suc i"] by (simp add: l)
  qed
  have pq: "prob_at q t = Some (q ! nat t)" "prob_at p t = Some (p ! nat t)" using h by (auto simp: prob_at_def)
  obtain r g1 where r: "draw g = (r, g1)" by fastforce
  have rec: "verify_from draw eos ts qs' ps' g1 \<noteq> None" if "r \<le> acceptance_ratio (p ! nat t) (q ! nat t)" "t \<noteq> eos"
    using 2(1)[of "Some (q ! nat t)" "Some (p ! nat t)" "q ! nat t" "p ! nat t" "(r, g1)" r g1] that pq r 2(2,3) tl by (simp add: l)
  have adj: "sample_adjusted_distribution draw p q g1 \<noteq> None" using h by (simp add: sample_adjusted_distribution_def Let_def)
  show ?case using rec adj by (auto simp: l pq r)
qed (simp split: prod.splits)

text \<open>
  The verification fails with an exception exactly when the dimensions do not match; otherwise,
  with tokens inside rows of one length, it returns: a beginning of the draft is accepted, and the
  end flag says whether the final token is the end token.
\<close>

theorem verification_returns:
  assumes "if length qs = length ts \<and> length ts < length ps
    then \<forall>i < length ts. length (qs ! i) = n \<and> length (ps ! i) = n \<and> 0 \<le> ts ! i \<and> ts ! i < int n else True"
  shows "if length qs = length ts \<and> length ts < length ps
    then \<exists>v g'. verify_candidates draw eos ts qs ps g = Inr (Some (v, g')) \<and> vr_num_accepted v \<le> length ts \<and>
      vr_accepted v = take (vr_num_accepted v) ts \<and> vr_end v = (vr_final v = eos)
    else verify_candidates draw eos ts qs ps g = Inl IncompatibleDimensions"
proof (cases "length qs = length ts \<and> length ts < length ps")
  case True
  then obtain v g' where v: "verify_from draw eos ts qs ps g = Some (v, g')"
    using verify_from_returns[of qs ts ps n draw eos g] assms by auto
  with True verify_from_prefix[OF v] show ?thesis by (auto simp: verify_candidates_def prefix_result_def)
qed (auto simp: verify_candidates_def)

theorem verification_returns_witness:
  "\<exists>v g'. verify_candidates (\<lambda>g. (1, g)) 9 [0] [[1]] [[1], [1]] () = Inr (Some (v, g')) \<and> vr_num_accepted v \<le> 1"
  using verification_returns[of "[[1]]" "[0]" "[[1], [1]]" 1 "\<lambda>g. (1, g)" 9 "()"] by auto

end
