(* ===== verification/Kernel_Dispatch.thy ===== *)
theory Kernel_Dispatch
  imports Prelude
begin

text \<open>
  \<open>csrc/include/cudaforge/autotuner/kernel_dispatcher.h\<close>: the dispatcher that times the candidate
  kernels of a problem shape once and then runs the elected one.

  \<^item> \<open>elapsed\<close> stands for the device's clock: the milliseconds of the ten timed runs of a candidate.
  \<^item> The candidates are listed in the order of iteration of the map, with distinct names.
  \<^item> The runs are the kernels that were launched, in order.
\<close>

section \<open>State\<close>

record kernel_key =
  kk_op :: string
  kk_m :: int
  kk_n :: int
  kk_k :: int
  kk_dtype :: int

record dispatcher =
  kd_cache :: "(kernel_key \<times> string) list"
  kd_runs :: "string list"

datatype dispatch_error = NoCandidates | NameOutOfRange

definition dispatcher_init :: dispatcher where
  "dispatcher_init = \<lparr>kd_cache = [], kd_runs = []\<rparr>"

definition clear_cache :: "dispatcher \<Rightarrow> dispatcher" where
  "clear_cache s = s\<lparr>kd_cache := []\<rparr>"

section \<open>Operations\<close>

fun elect :: "(string \<Rightarrow> real) \<Rightarrow> string list \<Rightarrow> string \<Rightarrow> real \<Rightarrow> string" where
  "elect elapsed [] best latency = best"
| "elect elapsed (name # names) best latency =
     (let avg = elapsed name / 10
      in if avg < latency then elect elapsed names name avg else elect elapsed names best latency)"

definition autotune_candidates ::
  "(string \<Rightarrow> real) \<Rightarrow> string list \<Rightarrow> dispatcher \<Rightarrow> (dispatch_error, string, dispatcher) eff" where
  "autotune_candidates elapsed candidates s =
     (if candidates = [] then (Inl NoCandidates, s)
      else (Inr (elect elapsed candidates [] (10 ^ 9)),
            s\<lparr>kd_runs := kd_runs s @ concat (map (\<lambda>name. replicate 3 name @ replicate 10 name) candidates)\<rparr>))"

definition run_kernel :: "string list \<Rightarrow> string \<Rightarrow> dispatcher \<Rightarrow> (dispatch_error, unit, dispatcher) eff" where
  "run_kernel candidates name s =
     (if name \<in> set candidates then (Inr (), s\<lparr>kd_runs := kd_runs s @ [name]\<rparr>) else (Inl NameOutOfRange, s))"

definition dispatch_or_autotune ::
  "(string \<Rightarrow> real) \<Rightarrow> kernel_key \<Rightarrow> string list \<Rightarrow> dispatcher \<Rightarrow> (dispatch_error, unit, dispatcher) eff" where
  "dispatch_or_autotune elapsed key candidates s =
     (let cached = (case map_of (kd_cache s) key of None \<Rightarrow> [] | Some name \<Rightarrow> name) in
      if cached = [] then
        eff_bind (autotune_candidates elapsed candidates s)
          (\<lambda>winner s. run_kernel candidates winner (s\<lparr>kd_cache := AList.update key winner (kd_cache s)\<rparr>))
      else run_kernel candidates cached s)"

definition dtype_code_to_string :: "(int \<Rightarrow> string) \<Rightarrow> int \<Rightarrow> string" where
  "dtype_code_to_string to_string dtype_code =
     (if dtype_code = 0 then ''FP16'' else if dtype_code = 1 then ''BF16''
      else if dtype_code = 2 then ''INT4'' else if dtype_code = 3 then ''INT8''
      else ''UNKNOWN('' @ to_string dtype_code @ '')'')"

section \<open>The election\<close>

lemma elect_best:
  "(elect elapsed names best latency = best \<and> (\<forall>x \<in> set names. latency \<le> elapsed x / 10)) \<or>
   (elect elapsed names best latency \<in> set names \<and> elapsed (elect elapsed names best latency) / 10 < latency \<and>
     (\<forall>x \<in> set names. elapsed (elect elapsed names best latency) \<le> elapsed x))"
proof (induction names arbitrary: best latency)
  case (Cons n ns)
  show ?case
  proof (cases "elapsed n / 10 < latency")
    case True
    with Cons.IH[of n "elapsed n / 10"] show ?thesis by fastforce
  next
    case False
    with Cons.IH[of best latency] show ?thesis by fastforce
  qed
qed simp

lemma elect_fastest:
  assumes "x \<in> set names" "elapsed x < 10 ^ 10"
  shows "elect elapsed names [] (10 ^ 9) \<in> set names" "\<forall>y \<in> set names. elapsed (elect elapsed names [] (10 ^ 9)) \<le> elapsed y"
  using elect_best[of elapsed names "[]" "10 ^ 9"] assms by fastforce+

text \<open>
  C38: The first dispatch of a shape launches every candidate thirteen times, elects one that is no
  slower than any other, remembers it and launches it once more; the next dispatch of the shape
  launches only the elected kernel, whatever the clock says then. (No candidate has the empty name, and
  the ten measured launches of at least one of them take less than 1e10 milliseconds.)
\<close>

theorem dispatch_elects_fastest:
  assumes "map_of (kd_cache s) key = None" and "[] \<notin> set candidates"
    and "x \<in> set candidates" and "elapsed x < 10 ^ 10"
  shows "\<exists>w t. dispatch_or_autotune elapsed key candidates s = (Inr (), t) \<and>
    w \<in> set candidates \<and> (\<forall>y \<in> set candidates. elapsed w \<le> elapsed y) \<and>
    map_of (kd_cache t) key = Some w \<and>
    kd_runs t = kd_runs s @ concat (map (replicate 13) candidates) @ [w] \<and>
    dispatch_or_autotune elapsed' key candidates t = (Inr (), t\<lparr>kd_runs := kd_runs t @ [w]\<rparr>)"
proof -
  let ?w = "elect elapsed candidates [] (10 ^ 9)"
  let ?t = "s\<lparr>kd_runs := kd_runs s @ concat (map (replicate 13) candidates) @ [?w],
    kd_cache := AList.update key ?w (kd_cache s)\<rparr>"
  note w = elect_fastest[of x candidates elapsed, OF assms(3,4)]
  have reps: "(\<lambda>name. replicate 3 name @ replicate 10 name) = replicate 13"
    by (rule ext) (simp flip: replicate_add)
  have ne: "?w \<noteq> []" using w(1) assms(2) by metis
  have "dispatch_or_autotune elapsed key candidates s = (Inr (), ?t)"
    using w(1) assms(1,3)
    by (auto simp: dispatch_or_autotune_def autotune_candidates_def run_kernel_def reps)
  moreover have "dispatch_or_autotune elapsed' key candidates ?t = (Inr (), ?t\<lparr>kd_runs := kd_runs ?t @ [?w]\<rparr>)"
    using w(1) ne by (simp add: dispatch_or_autotune_def run_kernel_def map_of_update Let_def)
  moreover have "map_of (kd_cache ?t) key = Some ?w" by (simp add: map_of_update)
  moreover have "kd_runs ?t = kd_runs s @ concat (map (replicate 13) candidates) @ [?w]" by simp
  ultimately show ?thesis using w by blast
qed

theorem dispatch_elects_fastest_witness:
  "\<exists>w t. dispatch_or_autotune (\<lambda>n. if n = ''b'' then 1 else 2) \<lparr>kk_op = ''gemm'', kk_m = 1, kk_n = 2, kk_k = 3, kk_dtype = 0\<rparr>
     [''a'', ''b''] dispatcher_init = (Inr (), t) \<and> w \<in> {''a'', ''b''}"
  using dispatch_elects_fastest[of dispatcher_init "\<lparr>kk_op = ''gemm'', kk_m = 1, kk_n = 2, kk_k = 3, kk_dtype = 0\<rparr>"
      "[''a'', ''b'']" "''a''" "\<lambda>n. if n = ''b'' then 1 else 2" "\<lambda>_. 0"]
  by (auto simp: dispatcher_init_def)

text \<open>
  The remembered name is not checked against the candidates of a later call: a caller that offers
  other kernels for the same shape gets an out-of-range error instead of a new election.
\<close>

theorem stale_winner:
  assumes "map_of (kd_cache s) key = Some w" and "w \<noteq> []" and "w \<notin> set candidates"
  shows "dispatch_or_autotune elapsed key candidates s = (Inl NameOutOfRange, s)"
  using assms by (simp add: dispatch_or_autotune_def run_kernel_def)

text \<open>If no candidate is below the initial bound, the empty name is remembered and the dispatch fails.\<close>

lemma elect_none: "(\<And>x. x \<in> set names \<Longrightarrow> latency \<le> elapsed x / 10) \<Longrightarrow> elect elapsed names best latency = best"
proof (induction names)
  case (Cons n ns)
  then have "latency \<le> elapsed n / 10" "\<And>x. x \<in> set ns \<Longrightarrow> latency \<le> elapsed x / 10" by simp_all
  with Cons.IH show ?case by (simp add: not_less)
qed simp

end
