(* ===== verification/Kv_Types.thy ===== *)
theory Kv_Types
  imports Kv_Properties
begin

text \<open>
  The types of the paged KV cache: every block number that it stores names a block, whatever was
  evicted, shared or refused on the way. The stronger laws of \<open>Kv_Contract\<close> hold between evictions
  only; these hold always, so every pointer into the two pools stays inside them.
\<close>

section \<open>Well-typed states\<close>

definition tables_typed :: "nat \<Rightarrow> (nat \<times> nat list) list \<Rightarrow> bool" where
  "tables_typed n d \<longleftrightarrow> distinct (map fst d) \<and> list_all (\<lambda>t. t \<noteq> [] \<and> list_all (\<lambda>b. b < n) t) (map snd d)"

text \<open>The first argument is the cache as it was constructed: its configuration and pools do not change.\<close>

definition kv_typed :: "kv_cache \<Rightarrow> kv_cache \<Rightarrow> bool" where
  "kv_typed c s \<longleftrightarrow> kv_cfg s = kv_cfg c \<and> kv_key_pool s = kv_key_pool c \<and> kv_val_pool s = kv_val_pool c \<and>
     length (kv_blocks s) = kv_total c \<and> list_all (\<lambda>p. pb_filled p \<le> kv_bs c) (kv_blocks s) \<and>
     list_all (\<lambda>b. b < kv_total c) (kv_free s) \<and> list_all (\<lambda>b. b < kv_total c) (kv_lru s) \<and>
     ran (kv_tree s) \<subseteq> {..<kv_total c} \<and> tables_typed (kv_total c) (kv_pages s)"

lemma typed_filled: "kv_typed c s \<Longrightarrow> b < length (kv_blocks s) \<Longrightarrow> pb_filled (block_at s b) \<le> kv_bs c"
  by (simp add: kv_typed_def list_all_length)

lemma upd_block_all_at:
  "list_all P (kv_blocks s) \<Longrightarrow> (b < length (kv_blocks s) \<Longrightarrow> P (f (block_at s b))) \<Longrightarrow> list_all P (kv_blocks (upd_block b f s))"
  by (cases "b < length (kv_blocks s)") (auto simp: upd_block_def list_all_length nth_list_update list_update_beyond)

lemma upd_block_all [simp]:
  "list_all P (kv_blocks s) \<Longrightarrow> (\<And>p. P p \<Longrightarrow> P (f p)) \<Longrightarrow> list_all P (kv_blocks (upd_block b f s))"
  by (rule upd_block_all_at) (simp_all add: list_all_length)

lemma typed_upd_at:
  "kv_typed c s \<Longrightarrow> (b < length (kv_blocks s) \<Longrightarrow> pb_filled (f (block_at s b)) \<le> kv_bs c) \<Longrightarrow> kv_typed c (upd_block b f s)"
  using upd_block_all_at[of "\<lambda>p. pb_filled p \<le> kv_bs c" s b f] by (simp add: kv_typed_def)

lemma typed_upd_block [simp]:
  "kv_typed c s \<Longrightarrow> (\<And>p. pb_filled p \<le> kv_bs c \<Longrightarrow> pb_filled (f p) \<le> kv_bs c) \<Longrightarrow> kv_typed c (upd_block b f s)"
  by (rule typed_upd_at) (simp_all add: typed_filled)

lemma typed_page:
  "tables_typed n d \<Longrightarrow> map_of d i = Some t \<Longrightarrow> t \<noteq> [] \<and> list_all (\<lambda>b. b < n) t"
  unfolding tables_typed_def by (auto simp: list_all_iff dest: map_of_SomeD)

lemma typed_update:
  "tables_typed n d \<Longrightarrow> t \<noteq> [] \<Longrightarrow> list_all (\<lambda>b. b < n) t \<Longrightarrow> tables_typed n (AList.update i t d)"
  using set_update_subset[of i t d] unfolding tables_typed_def list_all_iff by (fastforce simp: distinct_update)

lemma typed_delete: "tables_typed n d \<Longrightarrow> tables_typed n (AList.delete i d)"
  unfolding tables_typed_def list_all_iff by (auto simp: set_delete distinct_delete)

lemma typed_remove1: "list_all P xs \<Longrightarrow> list_all P (remove1 b xs)"
  using set_remove1_subset[of b xs] by (auto simp: list_all_iff)

section \<open>Blocks\<close>

lemma evict_typed: "kv_typed c s \<Longrightarrow> kv_typed c (snd (evict_lru_block s))"
proof (cases "find (\<lambda>b. pb_ref (block_at s b) = 0) (rev (kv_lru s))")
  case (Some b)
  then have "b \<in> set (kv_lru s)" by (metis find_Some_iff nth_mem set_rev)
  then show "kv_typed c s \<Longrightarrow> kv_typed c (snd (evict_lru_block s))"
    using Some typed_remove1[of _ "rev (kv_lru s)" b] by (simp add: evict_lru_block_def kv_typed_def) (simp add: list_all_iff)
qed (simp add: evict_lru_block_def)

text \<open>An operation that can raise keeps the types either way, and returns a typed value.\<close>

definition eff_typed :: "kv_cache \<Rightarrow> ('a \<Rightarrow> bool) \<Rightarrow> (kv_error, 'a, kv_cache) eff \<Rightarrow> bool" where
  "eff_typed c P m \<longleftrightarrow> kv_typed c (snd m) \<and> (case fst m of Inl _ \<Rightarrow> True | Inr a \<Rightarrow> P a)"

lemma eff_typed_return [simp]: "eff_typed c P (Inr a, s) = (kv_typed c s \<and> P a)" "eff_typed c P (Inl e, s) = kv_typed c s"
  by (simp_all add: eff_typed_def)

lemma eff_typed_bind:
  "eff_typed c P m \<Longrightarrow> (\<And>a s. kv_typed c s \<Longrightarrow> P a \<Longrightarrow> eff_typed c Q (f a s)) \<Longrightarrow> eff_typed c Q (eff_bind m f)"
  by (cases m; cases "fst m") (auto simp: eff_typed_def eff_bind_def)

abbreviation blocks_typed :: "kv_cache \<Rightarrow> nat list \<Rightarrow> bool" where
  "blocks_typed c t \<equiv> list_all (\<lambda>b. b < kv_total c) t"

lemma allocate_typed:
  assumes "kv_typed c s"
  shows "eff_typed c (\<lambda>b. b < kv_total c) (allocate_physical_block s)"
proof -
  obtain ok u where e: "(if kv_free s = [] then evict_lru_block s else (True, s)) = (ok, u)" by fastforce
  then have u: "kv_typed c u" using assms(1) evict_typed[of c s] by (auto split: if_splits)
  show ?thesis
  proof (cases "\<not> ok \<or> kv_free u = []")
    case True
    then have "allocate_physical_block s = (Inl OutOfPages, u)" using e by (auto simp: allocate_physical_block_def)
    then show ?thesis using u by simp
  next
    case False
    then obtain b fs where fs: "kv_free u = b # fs" by (cases "kv_free u") auto
    then have "allocate_physical_block s =
        (Inr b, upd_block b (\<lambda>p. p\<lparr>pb_ref := 1, pb_filled := 0, pb_cached := False\<rparr>) (u\<lparr>kv_free := fs\<rparr>))"
      using False unfolding allocate_physical_block_def e Let_def case_prod_conv by (simp add: fs)
    then show ?thesis using u fs by (simp add: kv_typed_def)
  qed
qed

lemma free_typed: "kv_typed c s \<Longrightarrow> kv_typed c (free_physical_block b s)"
  by (simp add: free_physical_block_def Let_def kv_typed_def)

lemma reuse_typed: "kv_typed c s \<Longrightarrow> kv_typed c (reuse_block b s)"
  by (simp add: reuse_block_def Let_def kv_typed_def typed_remove1)

lemma install_typed: "kv_typed c s \<Longrightarrow> b < kv_total c \<Longrightarrow> kv_typed c (install_block h path b s)"
  by (auto simp: install_block_def kv_typed_def ran_def)

section \<open>Sequences\<close>

lemma match_typed:
  "match_prefix tokens bs parent node table s = (p, n, table', t) \<Longrightarrow> kv_typed c s \<Longrightarrow>
   blocks_typed c table \<Longrightarrow> kv_typed c t \<and> blocks_typed c table'"
proof (induction tokens bs parent node table s rule: match_prefix.induct)
  case (2 tokens b bs parent node table s)
  let ?h = "compute_block_hash (kv_std_hash s) (block_tokens (kv_bs s) tokens b) parent"
  show ?case
  proof (cases "kv_tree s (node @ [?h])")
    case None
    then show ?thesis using 2 by (simp add: Let_def)
  next
    case (Some b')
    then have "b' < kv_total c" using 2(3) by (auto simp: kv_typed_def ran_def)
    then show ?thesis using 2(1)[OF refl Some] 2(2,3,4) Some reuse_typed[of c s b'] by (simp add: Let_def)
  qed
qed simp

lemma fill_typed:
  "kv_typed c s \<Longrightarrow> blocks_typed c table \<Longrightarrow> eff_typed c (blocks_typed c) (fill_blocks tokens bs parent node table s)"
proof (induction tokens bs parent node table s rule: fill_blocks.induct)
  case (2 tokens b bs parent node table s)
  show ?case unfolding fill_blocks.simps Let_def
    using 2(2,3) install_typed by (intro eff_typed_bind[OF allocate_typed] 2(1)) simp_all
qed simp

lemma register_typed:
  assumes "kv_typed c s" "0 < kv_bs c"
  shows "eff_typed c (\<lambda>_. True) (register_sequence_with_prefix sid tokens s)"
proof (cases "dict_has sid (kv_pages s)")
  case False
  obtain p n table s1 where m: "(if kc_prefix_caching (kv_cfg s)
      then match_prefix tokens [0..<length tokens div kv_bs s] 0 [] [] s else (0, [], [], s)) = (p, n, table, s1)"
    using prod_cases4 by blast
  then have s1: "kv_typed c s1" "blocks_typed c table"
    using match_typed[of tokens _ 0 "[]" "[]" s p n table s1 c] assms by (auto split: if_splits)
  have push: "eff_typed c (\<lambda>t. t \<noteq> [] \<and> blocks_typed c t)
      (if q \<or> t = [] then eff_bind (allocate_physical_block u) (\<lambda>b v. (Inr (t @ [b]), upd_block b (\<lambda>p. p\<lparr>pb_filled := m mod kv_bs c\<rparr>) v)) else (Inr t, u))"
    if "kv_typed c u" "blocks_typed c t" for q t u m
    using that assms(2) by (auto intro!: eff_typed_bind[OF allocate_typed] intro: less_imp_le mod_less_divisor)
  have store: "eff_typed c (\<lambda>_. True) (Inr m, v\<lparr>kv_pages := AList.update sid t (kv_pages v)\<rparr>)"
    if "kv_typed c v" "t \<noteq> [] \<and> blocks_typed c t" for m t v
    using that typed_update[of _ "kv_pages v" t sid] by (simp add: kv_typed_def)
  have bs: "kv_bs s = kv_bs c" using assms(1) by (simp add: kv_typed_def)
  show ?thesis unfolding register_sequence_with_prefix_def if_not_P[OF False] Let_def m case_prod_conv unfolding bs
    by (intro eff_typed_bind[OF fill_typed[OF s1]] eff_typed_bind[OF push] store)
qed (use assms in \<open>simp add: register_sequence_with_prefix_def\<close>)

lemma append_blocks_typed:
  "kv_typed c s \<Longrightarrow> dict_has sid (kv_pages s) \<Longrightarrow> eff_typed c (\<lambda>_. True) (append_blocks sid n remaining s)"
proof (induction sid n remaining s rule: append_blocks.induct)
  case (2 sid n remaining s)
  obtain r1 s1 where al: "allocate_physical_block s = (r1, s1)" by fastforce
  have a: "eff_typed c (\<lambda>b. b < kv_total c) (r1, s1)" using allocate_typed[OF 2(2)] al by simp
  show ?case
  proof (cases r1)
    case (Inr b)
    have pages: "kv_pages s1 = kv_pages s" using allocate_frame[OF al] by simp
    obtain table where t: "map_of (kv_pages s) sid = Some table" using 2(3) by (auto simp: dict_has_def)
    have "blocks_typed c table" using typed_page[OF _ t] 2(2) by (simp add: kv_typed_def)
    then have "kv_typed c (upd_block b (\<lambda>p. p\<lparr>pb_filled := min remaining (kv_bs s1)\<rparr>) s1
        \<lparr>kv_pages := AList.update sid (table @ [b]) (kv_pages s)\<rparr>)"
      using a Inr pages typed_update[of "kv_total c" "kv_pages s" "table @ [b]" sid] by (simp add: kv_typed_def)
    then show ?thesis using 2(1)[OF refl refl refl, of b s1] Inr pages t by (simp add: al Let_def dict_has_iff keys_update)
  qed (use a in \<open>simp add: al\<close>)
qed simp

lemma append_typed:
  assumes "kv_typed c s"
  shows "eff_typed c (\<lambda>_. True) (append_tokens sid n s)"
proof (cases "map_of (kv_pages s) sid")
  case (Some table)
  let ?t = "upd_block (last table) (\<lambda>p. p\<lparr>pb_filled := kv_bs s\<rparr>) s"
  have "dict_has sid (kv_pages ?t)" using Some by (simp add: dict_has_def)
  moreover have "kv_bs s = kv_bs c" using assms by (simp add: kv_typed_def)
  moreover have "kv_typed c (upd_block (last table) (\<lambda>p. p\<lparr>pb_filled := pb_filled p + n\<rparr>) s)"
    if "n \<le> kv_bs s - pb_filled (block_at s (last table))"
    using assms that typed_filled[OF assms, of "last table"] by (intro typed_upd_at) (auto simp: kv_typed_def)
  ultimately show ?thesis using Some assms append_blocks_typed[of c ?t sid] by (simp add: append_tokens_def Let_def)
qed (use assms in \<open>simp add: append_tokens_def\<close>)

lemma unregister_typed:
  assumes "kv_typed c s"
  shows "kv_typed c (unregister_sequence sid s)"
proof (cases "map_of (kv_pages s) sid")
  case (Some table)
  have "kv_typed c (fold free_physical_block table s)"
    using assms by (induction table arbitrary: s) (simp_all add: free_typed)
  then show ?thesis using Some by (simp add: unregister_sequence_def kv_typed_def typed_delete Let_def)
qed (use assms in \<open>simp add: unregister_sequence_def\<close>)

lemma fork_typed:
  assumes "kv_typed c s"
  shows "eff_typed c (\<lambda>_. True) (fork_sequence parent child s)"
proof (cases "map_of (kv_pages s) parent")
  case (Some table)
  have st: "kv_typed c (fold (\<lambda>b. upd_block b f) bs s) \<and> kv_pages (fold (\<lambda>b. upd_block b f) bs s) = kv_pages s" if "\<And>p. pb_filled (f p) = pb_filled p" for bs f
    using assms that by (induction bs arbitrary: s) simp_all
  have "tables_typed (kv_total c) (kv_pages s)" using assms by (simp add: kv_typed_def)
  from typed_page[OF this Some] show ?thesis using Some assms st[of "\<lambda>p. p\<lparr>pb_ref := Suc (pb_ref p)\<rparr>" table]
    by (simp add: fork_sequence_def kv_typed_def Let_def typed_update)
qed (use assms in \<open>simp add: fork_sequence_def\<close>)

section \<open>Runs\<close>

datatype kv_call = Op kv_op | Fork nat nat

fun kv_call_step :: "kv_call \<Rightarrow> kv_cache \<Rightarrow> kv_cache" where
  "kv_call_step (Op op) s = kv_step op s"
| "kv_call_step (Fork parent child) s = snd (fork_sequence parent child s)"

definition kv_calls :: "kv_call list \<Rightarrow> kv_cache \<Rightarrow> kv_cache" where
  "kv_calls calls s = fold kv_call_step calls s"

lemma eff_typed_state: "eff_typed c P m \<Longrightarrow> kv_typed c (snd m)"
  by (simp add: eff_typed_def)

lemma step_typed: "kv_typed c s \<Longrightarrow> 0 < kv_bs c \<Longrightarrow> kv_typed c (kv_step op s)"
  by (cases op) (auto intro: eff_typed_state register_typed append_typed unregister_typed)

lemma calls_typed: "kv_typed c s \<Longrightarrow> 0 < kv_bs c \<Longrightarrow> kv_typed c (kv_calls calls s)"
proof (induction calls arbitrary: s)
  case (Cons call calls)
  then show ?case
    by (cases call) (simp_all add: kv_calls_def step_typed eff_typed_state[OF fork_typed])
qed (simp add: kv_calls_def)

lemma init_typed: "kv_typed (kv_init c h kp vp) (kv_init c h kp vp)"
  by (simp add: kv_typed_def kv_init_def tables_typed_def list_all_iff fresh_block_def)

lemma init_fields:
  "kv_cfg (kv_init c h kp vp) = c" "kv_key_pool (kv_init c h kp vp) = kp" "kv_val_pool (kv_init c h kp vp) = vp"
  by (simp_all add: kv_init_def)

text \<open>What the types say of a reachable cache, one fact for each proof that needs it.\<close>

lemma reachable_typed:
  fixes c h kp vp calls
  defines "s \<equiv> kv_calls calls (kv_init c h kp vp)"
  assumes "0 < kc_block_size c"
  shows "kv_cfg s = c" "kv_key_pool s = kp" "kv_val_pool s = vp" "length (kv_blocks s) = kc_total_blocks c"
    "list_all (\<lambda>p. pb_filled p \<le> kc_block_size c) (kv_blocks s)"
    "set (kv_free s) \<union> set (kv_lru s) \<union> ran (kv_tree s) \<subseteq> {..<kc_total_blocks c}"
    "tables_typed (kc_total_blocks c) (kv_pages s)"
proof -
  have "kv_typed (kv_init c h kp vp) s"
    using calls_typed[OF init_typed, of c h kp vp calls] assms(2) by (simp add: kv_init_def s_def)
  note typed = this[unfolded kv_typed_def init_fields]
  show "kv_cfg s = c" "kv_key_pool s = kp" "kv_val_pool s = vp" "length (kv_blocks s) = kc_total_blocks c"
    "list_all (\<lambda>p. pb_filled p \<le> kc_block_size c) (kv_blocks s)" "tables_typed (kc_total_blocks c) (kv_pages s)"
    using typed by blast+
  show "set (kv_free s) \<union> set (kv_lru s) \<union> ran (kv_tree s) \<subseteq> {..<kc_total_blocks c}"
    using typed unfolding list_all_iff by blast
qed

lemma typed_entry:
  "tables_typed n d \<Longrightarrow> (sid, table) \<in> set d \<Longrightarrow> table \<noteq> [] \<and> list_all (\<lambda>b. b < n) table"
  unfolding tables_typed_def list_all_iff by force

text \<open>The tokens of a table fit its blocks.\<close>

lemma tokens_fit:
  assumes "table \<noteq> []" "list_all (\<lambda>b. b < length (kv_blocks s)) table" "list_all (\<lambda>p. pb_filled p \<le> kv_bs s) (kv_blocks s)"
  shows "context_tokens s table \<le> length table * kv_bs s"
proof -
  have "last table < length (kv_blocks s)" using assms(1,2) by (simp add: list_all_iff)
  then have "pb_filled (block_at s (last table)) \<le> kv_bs s" using assms(3) by (simp add: list_all_length)
  with assms(1) show ?thesis unfolding context_tokens_def by (cases "length table") simp_all
qed

text \<open>
  C12: Whatever is registered, appended, released and forked, with prefix sharing, evictions and
  refused calls on the way, in a cache whose pool size does not wrap in 64 bits: the configuration
  and the pools stay as constructed, no block is filled beyond the block size, every number on the
  free stack, on the LRU list, in the prefix tree and in a page table is a block of the cache, no
  table is empty, no sequence has two tables, a context fits its blocks, and the key and value bytes
  of every layer of a table's blocks lie inside the bytes that the constructor asks for as the two
  pools.
\<close>

theorem kv_well_typed:
  assumes "0 < kc_block_size c" and "pool_extent c < 2 ^ 64"
  shows "let s = kv_calls calls (kv_init c h kp vp) in
    kv_cfg s = c \<and> kv_key_pool s = kp \<and> kv_val_pool s = vp \<and>
    length (kv_blocks s) = kc_total_blocks c \<and> list_all (\<lambda>p. pb_filled p \<le> kc_block_size c) (kv_blocks s) \<and>
    set (kv_free s) \<union> set (kv_lru s) \<union> ran (kv_tree s) \<subseteq> {..<kc_total_blocks c} \<and>
    distinct (map fst (kv_pages s)) \<and>
    list_all (\<lambda>(sid, table). table \<noteq> [] \<and> context_tokens s table \<le> length table * kc_block_size c \<and>
      list_all (\<lambda>b. b < kc_total_blocks c \<and> list_all (\<lambda>layer.
        kp \<le> get_key_block_ptr b layer s \<and>
        get_key_block_ptr b layer s + unat (layer_block_bytes c) \<le> kp + unat (pool_bytes c) \<and>
        vp \<le> get_value_block_ptr b layer s \<and>
        get_value_block_ptr b layer s + unat (layer_block_bytes c) \<le> vp + unat (pool_bytes c))
      [0..<kc_num_layers c]) table) (kv_pages s)"
proof -
  define s where "s = kv_calls calls (kv_init c h kp vp)"
  note r = reachable_typed[OF assms(1), of calls h kp vp, folded s_def]
  have keys: "distinct (map fst (kv_pages s))" using r(7) by (simp add: tables_typed_def)
  have ptrs: "kp \<le> get_key_block_ptr b l s \<and> get_key_block_ptr b l s + unat (layer_block_bytes c) \<le> kp + unat (pool_bytes c) \<and>
      vp \<le> get_value_block_ptr b l s \<and> get_value_block_ptr b l s + unat (layer_block_bytes c) \<le> vp + unat (pool_bytes c)"
    if "b < kc_total_blocks c" "l < kc_num_layers c" for b l
    using block_in_pool[OF that, folded pool_extent_def] exact_offset[OF assms(2) that]
    by (simp add: get_key_block_ptr_def get_value_block_ptr_def r(1-3))
  have "list_all (\<lambda>(sid, table). table \<noteq> [] \<and> context_tokens s table \<le> length table * kc_block_size c \<and>
      list_all (\<lambda>b. b < kc_total_blocks c \<and> list_all (\<lambda>layer.
        kp \<le> get_key_block_ptr b layer s \<and>
        get_key_block_ptr b layer s + unat (layer_block_bytes c) \<le> kp + unat (pool_bytes c) \<and>
        vp \<le> get_value_block_ptr b layer s \<and>
        get_value_block_ptr b layer s + unat (layer_block_bytes c) \<le> vp + unat (pool_bytes c))
      [0..<kc_num_layers c]) table) (kv_pages s)"
    unfolding list_all_iff
  proof (intro ballI, unfold split_paired_all case_prod_conv, intro conjI ballI)
    fix sid table assume "(sid, table) \<in> set (kv_pages s)"
    note t = typed_entry[OF r(7) this]
    then show "table \<noteq> []" by blast
    show "context_tokens s table \<le> length table * kc_block_size c"
      using tokens_fit[of table s] t r(4,5) by (simp add: r(1))
    fix b assume "b \<in> set table"
    with t show b: "b < kc_total_blocks c" by (simp add: list_all_iff)
    fix layer assume "layer \<in> set [0..<kc_num_layers c]"
    then have l: "layer < kc_num_layers c" by simp
    note p = ptrs[OF b l]
    show "kp \<le> get_key_block_ptr b layer s" "vp \<le> get_value_block_ptr b layer s"
      "get_key_block_ptr b layer s + unat (layer_block_bytes c) \<le> kp + unat (pool_bytes c)"
      "get_value_block_ptr b layer s + unat (layer_block_bytes c) \<le> vp + unat (pool_bytes c)" using p by blast+
  qed
  then show ?thesis unfolding Let_def s_def[symmetric] by (intro conjI r keys)
qed

text \<open>A cache of one block, evicted and used again for another prompt.\<close>

theorem kv_well_typed_witness:
  "let c = \<lparr>kc_num_layers = 2, kc_num_kv_heads = 1, kc_head_dim = 4, kc_block_size = 2, kc_element_size = 2, kc_total_blocks = 1,
      kc_prefix_caching = True, kc_max_batch = 4, kc_max_blocks_seq = 8\<rparr>;
    s = kv_calls [Op (Register 2 [7, 8]), Op (Unregister 2), Op (Register 3 [7]), Fork 3 4] (kv_init c word_of_int 0 64)
   in map fst (kv_pages s) = [3, 4] \<and> kv_evictions s = 1 \<and>
     list_all (\<lambda>(sid, table). list_all (\<lambda>b. get_value_block_ptr b 1 s + 16 \<le> 64 + 32) table) (kv_pages s)"
proof -
  define c :: kv_config where "c = \<lparr>kc_num_layers = 2, kc_num_kv_heads = 1, kc_head_dim = 4, kc_block_size = 2, kc_element_size = 2,
    kc_total_blocks = 1, kc_prefix_caching = True, kc_max_batch = 4, kc_max_blocks_seq = 8\<rparr>"
  define calls where "calls = [Op (Register 2 [7, 8]), Op (Unregister 2), Op (Register 3 [7]), Fork 3 4]"
  define s where "s = kv_calls calls (kv_init c word_of_int 0 64)"
  have run: "map fst (kv_pages s) = [3, 4]" "kv_evictions s = 1"
    unfolding s_def calls_def c_def by code_simp+
  have "0 < kc_block_size c" "pool_extent c < 2 ^ 64"
    by (simp_all add: c_def pool_extent_def block_extent_def layer_extent_def)
  note typed = kv_well_typed[OF this, of calls word_of_int 0 64, folded s_def, unfolded Let_def]
  have bytes: "unat (layer_block_bytes c) = 16" "unat (pool_bytes c) = 32" "1 \<in> set [0..<kc_num_layers c]"
    by (simp_all add: c_def layer_block_bytes_def pool_bytes_def bytes_per_block_def)
  have "get_value_block_ptr b 1 s + 16 \<le> 64 + 32" if "(sid, table) \<in> set (kv_pages s)" "b \<in> set table" for sid table b
    using that typed bytes unfolding list_all_iff by fastforce
  then have "list_all (\<lambda>(sid, table). list_all (\<lambda>b. get_value_block_ptr b 1 s + 16 \<le> 64 + 32) table) (kv_pages s)"
    by (auto simp: list_all_iff)
  with run(1,2) show ?thesis unfolding Let_def s_def calls_def c_def by blast
qed

end
