(* ===== verification/Kv_Memory.thy ===== *)
theory Kv_Memory
  imports Kv_Types Device_Memory
begin

text \<open>
  The memory of the paged KV cache (\<open>csrc/src/memory/paged_kv_cache.cpp\<close>): its constructor and
  destructor over the block allocator, the staging buffers, and the batch descriptor that the kernels
  receive. \<open>Kv_Cache\<close> models what the cache does with the two pools once it has them.

  \<^item> The pools come from \<open>BlockAllocator::allocate\<close>. The staging buffers are pinned host memory and
    device memory that the driver hands out directly; the state keeps the pointers in use.
  \<^item> The driver's functions are arguments: given the pointers in use and a size, a new pointer or
    failure; and whether a copy of a number of bytes succeeds.
  \<^item> Sizes are computed in \<open>size_t\<close>, so they wrap at 2^64.
\<close>

section \<open>State\<close>

record kv_memory =
  km_alloc :: allocator
  km_host :: "nat list"
  km_device :: "nat list"

record kv_drivers =
  dv_pool :: "nat list \<Rightarrow> 64 word \<Rightarrow> nat option"
  dv_host :: "nat list \<Rightarrow> 64 word \<Rightarrow> nat option"
  dv_device :: "nat list \<Rightarrow> 64 word \<Rightarrow> nat option"
  dv_copy :: "64 word \<Rightarrow> bool"

record kv_object =
  ko_cache :: kv_cache
  ko_host_tables :: nat
  ko_host_lens :: nat
  ko_device_tables :: nat
  ko_device_lens :: nat

datatype kv_memory_error = AllocatorRaised memory_error | CudaFailed | CacheRaised kv_error

section \<open>Construction and destruction\<close>

definition tables_bytes :: "kv_config \<Rightarrow> 64 word" where
  "tables_bytes c = word_of_nat (kc_max_batch c) * word_of_nat (kc_max_blocks_seq c) * 4"

definition lens_bytes :: "kv_config \<Rightarrow> 64 word" where
  "lens_bytes c = word_of_nat (kc_max_batch c) * 4"

definition allocate_pool :: "kv_drivers \<Rightarrow> kv_config \<Rightarrow> kv_memory \<Rightarrow> (kv_memory_error, nat, kv_memory) eff" where
  "allocate_pool dv c m =
     (case allocate (dv_pool dv) (pool_bytes c) KV_CACHE (km_alloc m) of
        (Inl e, a) \<Rightarrow> (Inl (AllocatorRaised e), m\<lparr>km_alloc := a\<rparr>)
      | (Inr p, a) \<Rightarrow> (Inr p, m\<lparr>km_alloc := a\<rparr>))"

definition host_alloc :: "kv_drivers \<Rightarrow> 64 word \<Rightarrow> kv_memory \<Rightarrow> (kv_memory_error, nat, kv_memory) eff" where
  "host_alloc dv n m =
     (case dv_host dv (km_host m) n of
        None \<Rightarrow> (Inl CudaFailed, m)
      | Some p \<Rightarrow> (Inr p, m\<lparr>km_host := p # km_host m\<rparr>))"

definition device_alloc :: "kv_drivers \<Rightarrow> 64 word \<Rightarrow> kv_memory \<Rightarrow> (kv_memory_error, nat, kv_memory) eff" where
  "device_alloc dv n m =
     (case dv_device dv (km_device m @ map fst (ba_active (km_alloc m))) n of
        None \<Rightarrow> (Inl CudaFailed, m)
      | Some p \<Rightarrow> (Inr p, m\<lparr>km_device := p # km_device m\<rparr>))"

definition kv_construct ::
  "kv_drivers \<Rightarrow> (int \<Rightarrow> 64 word) \<Rightarrow> kv_config \<Rightarrow> kv_memory \<Rightarrow> (kv_memory_error, kv_object, kv_memory) eff" where
  "kv_construct dv h c m =
     eff_bind (allocate_pool dv c m) (\<lambda>kp m.
     eff_bind (allocate_pool dv c m) (\<lambda>vp m.
     eff_bind (host_alloc dv (tables_bytes c) m) (\<lambda>ht m.
     eff_bind (host_alloc dv (lens_bytes c) m) (\<lambda>hl m.
     eff_bind (device_alloc dv (tables_bytes c) m) (\<lambda>dt m.
     eff_bind (device_alloc dv (lens_bytes c) m) (\<lambda>dl m.
       (Inr \<lparr>ko_cache = kv_init c h kp vp, ko_host_tables = ht, ko_host_lens = hl,
             ko_device_tables = dt, ko_device_lens = dl\<rparr>, m)))))))"

definition release_ptr :: "nat \<Rightarrow> nat list \<Rightarrow> nat list" where
  "release_ptr p ps = (if p \<noteq> 0 then remove1 p ps else ps)"

definition kv_destroy :: "kv_object \<Rightarrow> kv_memory \<Rightarrow> kv_memory" where
  "kv_destroy d m =
     m\<lparr>km_host := release_ptr (ko_host_lens d) (release_ptr (ko_host_tables d) (km_host m)),
       km_device := release_ptr (ko_device_lens d) (release_ptr (ko_device_tables d) (km_device m)),
       km_alloc := free_block (kv_val_pool (ko_cache d)) (free_block (kv_key_pool (ko_cache d)) (km_alloc m))\<rparr>"

section \<open>The batch descriptor\<close>

definition to_int32 :: "nat \<Rightarrow> int" where
  "to_int32 n = sint (word_of_nat n :: 32 word)"

record batch_descriptor =
  bd_tables :: nat
  bd_lens :: nat
  bd_batch_size :: int
  bd_max_blocks :: int
  bd_block_size :: int
  bd_num_kv_heads :: int
  bd_head_dim :: int
  bd_bytes_per_block :: "64 word"
  bd_layer_block_bytes :: "64 word"
  bd_key_pool :: nat
  bd_val_pool :: nat

text \<open>The two pinned arrays as they are filled, row after row, and the descriptor of their copies.\<close>

definition stage_batch ::
  "kv_drivers \<Rightarrow> nat list \<Rightarrow> kv_object \<Rightarrow> kv_memory_error + (int list \<times> int list \<times> batch_descriptor)" where
  "stage_batch dv sids d =
     (let s = ko_cache d; c = kv_cfg s in
      case prepare_batch_metadata sids s of
        Inl e \<Rightarrow> Inl (CacheRaised e)
      | Inr (rows, lens) \<Rightarrow>
          let batch = length sids;
              width = (case rows of [] \<Rightarrow> 0 | row # _ \<Rightarrow> length row)
          in if \<not> dv_copy dv (word_of_nat batch * word_of_nat width * 4) then Inl CudaFailed
             else if \<not> dv_copy dv (word_of_nat batch * 4) then Inl CudaFailed
             else Inr (concat rows, lens,
               \<lparr>bd_tables = ko_device_tables d, bd_lens = ko_device_lens d, bd_batch_size = to_int32 batch,
                bd_max_blocks = to_int32 width, bd_block_size = to_int32 (kc_block_size c),
                bd_num_kv_heads = to_int32 (kc_num_kv_heads c), bd_head_dim = to_int32 (kc_head_dim c),
                bd_bytes_per_block = bytes_per_block c, bd_layer_block_bytes = layer_block_bytes c,
                bd_key_pool = kv_key_pool s, bd_val_pool = kv_val_pool s\<rparr>))"

section \<open>What construction takes and destruction gives back\<close>

abbreviation pool_block :: "kv_config \<Rightarrow> block_handle" where
  "pool_block c \<equiv> \<lparr>bh_size = align_bytes (pool_bytes c) 256, bh_category = KV_CACHE\<rparr>"

text \<open>A pool of no bytes is the null pointer; a refused pool leaves the memory as it was.\<close>

lemma allocate_pool_cases:
  assumes "allocate_pool dv c m = (r, t)" "fresh_pointers (dv_pool dv)"
  obtains (null) "pool_bytes c = 0" "r = Inr 0" "t = m"
  | (fail) "pool_bytes c \<noteq> 0" "r = Inl (AllocatorRaised OutOfMemory)" "t = m"
  | (ok) p where "pool_bytes c \<noteq> 0" "r = Inr p" "p \<noteq> 0" "p \<notin> fst ` set (ba_active (km_alloc m))"
      "t = m\<lparr>km_alloc := commit_block p (align_bytes (pool_bytes c) 256) KV_CACHE (km_alloc m)\<rparr>"
proof -
  obtain r' a where al: "allocate (dv_pool dv) (pool_bytes c) KV_CACHE (km_alloc m) = (r', a)" by fastforce
  then show thesis
  proof (cases rule: block_allocation_cases)
    case null
    with al assms(1) that(1) show ?thesis by (simp add: allocate_pool_def)
  next
    case fail
    moreover from this al have "pool_bytes c \<noteq> 0" by (auto simp: allocate_def)
    ultimately show ?thesis using al assms(1) that(2) by (simp add: allocate_pool_def)
  next
    case (ok p)
    then have "p \<notin> set (map fst (ba_active (km_alloc m))) \<and> p \<noteq> 0"
      using assms(2) unfolding fresh_pointers_def by blast
    then show ?thesis by (intro that(3)[of p]) (use ok al assms(1) in \<open>auto simp: allocate_pool_def\<close>)
  qed
qed

lemma commit_active:
  "p \<notin> fst ` set (ba_active a) \<Longrightarrow>
   ba_active (commit_block p n cat a) = ba_active a @ [(p, \<lparr>bh_size = n, bh_category = cat\<rparr>)]"
  by (simp add: commit_block_def update_fresh)

text \<open>Releasing two blocks, in the order they were recorded, leaves only a higher peak.\<close>

lemma free_two:
  assumes new: "p \<notin> fst ` set (ba_active a)" "q \<notin> fst ` set (ba_active a)" "p \<noteq> q" "p \<noteq> 0" "q \<noteq> 0"
  shows "free_block q (free_block p (commit_block q n cat (commit_block p n cat a))) =
    a\<lparr>ba_peak := ba_peak (commit_block q n cat (commit_block p n cat a))\<rparr>"
proof -
  let ?h = "\<lparr>bh_size = n, bh_category = cat\<rparr>"
  let ?b = "commit_block q n cat (commit_block p n cat a)"
  have act: "ba_active ?b = ba_active a @ [(p, ?h), (q, ?h)]"
    using new by (simp add: commit_active)
  have del: "AList.delete x d = d" if "x \<notin> fst ` set d" for x :: nat and d :: "(nat \<times> block_handle) list"
    using that by (intro delete_absent) (simp add: dict_has_iff)
  have none: "map_of (ba_active a) p = None" "map_of (ba_active a) q = None"
    using new by (simp_all add: map_of_eq_None_iff)
  have p: "free_block p ?b = ?b\<lparr>ba_active := ba_active a @ [(q, ?h)], ba_total := ba_total ?b - n,
      ba_category := (ba_category ?b)(cat := ba_category ?b cat - n)\<rparr>"
    using new del[of p "ba_active a"] unfolding free_block_def act
    by (simp add: none map_add_def AList.delete_eq)
  show ?thesis unfolding p using new del[of q "ba_active a"]
    by (simp add: free_block_def none map_add_def AList.delete_eq) (simp add: commit_block_def fun_eq_iff)
qed

lemma host_alloc_ok:
  "host_alloc dv n m = (Inr p, t) \<Longrightarrow> fresh_pointers (dv_host dv) \<Longrightarrow> t = m\<lparr>km_host := p # km_host m\<rparr> \<and> p \<noteq> 0"
  by (auto simp: host_alloc_def fresh_pointers_def split: option.splits)

lemma device_alloc_ok:
  "device_alloc dv n m = (Inr p, t) \<Longrightarrow> fresh_pointers (dv_device dv) \<Longrightarrow> t = m\<lparr>km_device := p # km_device m\<rparr> \<and> p \<noteq> 0"
  by (auto simp: device_alloc_def fresh_pointers_def split: option.splits)

definition fresh_drivers :: "kv_drivers \<Rightarrow> bool" where
  "fresh_drivers dv \<longleftrightarrow> fresh_pointers (dv_pool dv) \<and> fresh_pointers (dv_host dv) \<and> fresh_pointers (dv_device dv)"

text \<open>The pools of a cache: none for a cache of no bytes, else two new blocks.\<close>

definition pools_taken :: "kv_config \<Rightarrow> nat \<Rightarrow> nat \<Rightarrow> allocator \<Rightarrow> allocator \<Rightarrow> bool" where
  "pools_taken c kp vp a b \<longleftrightarrow>
     (if pool_bytes c = 0 then kp = 0 \<and> vp = 0 \<and> b = a
      else {kp, vp} \<inter> insert 0 (fst ` set (ba_active a)) = {} \<and> kp \<noteq> vp \<and>
        b = commit_block vp (align_bytes (pool_bytes c) 256) KV_CACHE
              (commit_block kp (align_bytes (pool_bytes c) 256) KV_CACHE a))"

lemma pools_allocated:
  assumes "allocate_pool dv c m = (Inr kp, m1)" "allocate_pool dv c m1 = (Inr vp, m2)" "fresh_pointers (dv_pool dv)"
  shows "pools_taken c kp vp (km_alloc m) (km_alloc m2) \<and> km_host m2 = km_host m \<and> km_device m2 = km_device m"
  using assms(1,3)
proof (cases rule: allocate_pool_cases)
  case null
  with allocate_pool_cases[OF assms(2,3)] show ?thesis by cases (simp_all add: pools_taken_def)
next
  case (ok p)
  note first = ok
  show ?thesis using assms(2,3)
  proof (cases rule: allocate_pool_cases)
    case (ok q)
    with first commit_active[OF first(4)] show ?thesis by (auto simp: pools_taken_def)
  qed (use first in simp_all)
qed simp

text \<open>The constructor after its pools: the staging allocations do not touch the allocator.\<close>

definition kv_stage ::
  "kv_drivers \<Rightarrow> (int \<Rightarrow> 64 word) \<Rightarrow> kv_config \<Rightarrow> nat \<Rightarrow> nat \<Rightarrow> kv_memory \<Rightarrow> (kv_memory_error, kv_object, kv_memory) eff" where
  "kv_stage dv h c kp vp m =
     eff_bind (host_alloc dv (tables_bytes c) m) (\<lambda>ht m.
     eff_bind (host_alloc dv (lens_bytes c) m) (\<lambda>hl m.
     eff_bind (device_alloc dv (tables_bytes c) m) (\<lambda>dt m.
     eff_bind (device_alloc dv (lens_bytes c) m) (\<lambda>dl m.
       (Inr \<lparr>ko_cache = kv_init c h kp vp, ko_host_tables = ht, ko_host_lens = hl,
             ko_device_tables = dt, ko_device_lens = dl\<rparr>, m)))))"

lemma construct_stages:
  "kv_construct dv h c m = eff_bind (allocate_pool dv c m) (\<lambda>kp m. eff_bind (allocate_pool dv c m) (\<lambda>vp m. kv_stage dv h c kp vp m))"
  by (simp add: kv_construct_def kv_stage_def)

lemma stage_failed: "kv_stage dv h c kp vp m = (Inl e, t) \<Longrightarrow> e = CudaFailed \<and> km_alloc t = km_alloc m"
  by (auto simp: kv_stage_def host_alloc_def device_alloc_def split: option.splits)

lemma stage_done:
  assumes "kv_stage dv h c kp vp m = (Inr d, t)" "fresh_drivers dv"
  shows "km_alloc t = km_alloc m" "ko_cache d = kv_init c h kp vp"
    "0 \<notin> {ko_host_tables d, ko_host_lens d, ko_device_tables d, ko_device_lens d}"
    "km_host t = ko_host_lens d # ko_host_tables d # km_host m"
    "km_device t = ko_device_lens d # ko_device_tables d # km_device m"
proof -
  obtain ht m3 hl m4 dt m5 dl where
    s: "host_alloc dv (tables_bytes c) m = (Inr ht, m3)" "host_alloc dv (lens_bytes c) m3 = (Inr hl, m4)"
      "device_alloc dv (tables_bytes c) m4 = (Inr dt, m5)" "device_alloc dv (lens_bytes c) m5 = (Inr dl, t)"
    and d: "d = \<lparr>ko_cache = kv_init c h kp vp, ko_host_tables = ht, ko_host_lens = hl,
       ko_device_tables = dt, ko_device_lens = dl\<rparr>"
    using assms(1) unfolding kv_stage_def eff_bind_Inr_iff by fast
  have fresh: "fresh_pointers (dv_host dv)" "fresh_pointers (dv_device dv)"
    using assms(2) by (simp_all add: fresh_drivers_def)
  note steps = host_alloc_ok[OF s(1) fresh(1)] host_alloc_ok[OF s(2) fresh(1)]
    device_alloc_ok[OF s(3) fresh(2)] device_alloc_ok[OF s(4) fresh(2)]
  then show "km_alloc t = km_alloc m" "ko_cache d = kv_init c h kp vp"
    "0 \<notin> {ko_host_tables d, ko_host_lens d, ko_device_tables d, ko_device_lens d}"
    "km_host t = ko_host_lens d # ko_host_tables d # km_host m"
    "km_device t = ko_device_lens d # ko_device_tables d # km_device m"
    by (simp_all add: d)
qed

lemma construct_cases:
  assumes "kv_construct dv h c m = (r, t)" "fresh_drivers dv"
  obtains (first) "allocate_pool dv c m = (Inl (AllocatorRaised OutOfMemory), m)" "r = Inl (AllocatorRaised OutOfMemory)" "t = m"
  | (second) kp where "allocate_pool dv c m = (Inr kp, t)" "r = Inl (AllocatorRaised OutOfMemory)"
  | (staging) kp vp where "fst (allocate_pool dv c m) = Inr kp" "pools_taken c kp vp (km_alloc m) (km_alloc t)" "r = Inl CudaFailed"
  | (ok) kp vp d where "pools_taken c kp vp (km_alloc m) (km_alloc t)" "r = Inr d"
      "ko_cache d = kv_init c h kp vp" "0 \<notin> {ko_host_tables d, ko_host_lens d, ko_device_tables d, ko_device_lens d}"
      "km_host t = ko_host_lens d # ko_host_tables d # km_host m"
      "km_device t = ko_device_lens d # ko_device_tables d # km_device m"
proof -
  have fresh: "fresh_pointers (dv_pool dv)" using assms(2) by (simp add: fresh_drivers_def)
  have refused: "e = AllocatorRaised OutOfMemory \<and> v = u" if "allocate_pool dv c u = (Inl e, v)" for e u v
    using that fresh by (cases rule: allocate_pool_cases) simp_all
  obtain r1 m1 where p1: "allocate_pool dv c m = (r1, m1)" by fastforce
  show thesis
  proof (cases r1)
    case (Inl e)
    with refused[of m e m1] p1 have "e = AllocatorRaised OutOfMemory" "m1 = m" by simp_all
    with p1 Inl assms(1) show ?thesis by (intro that(1)) (simp_all add: construct_stages)
  next
    case (Inr kp)
    note p1 = p1[unfolded Inr]
    obtain r2 m2 where p2: "allocate_pool dv c m1 = (r2, m2)" by fastforce
    show ?thesis
    proof (cases r2)
      case (Inl e)
      with refused[of m1 e m2] p2 have "r2 = Inl (AllocatorRaised OutOfMemory) \<and> m2 = m1" by simp
      with p1 p2 assms(1) show ?thesis by (intro that(2)[of kp]) (simp_all add: construct_stages)
    next
      case (Inr vp)
      note p2 = p2[unfolded Inr]
      note pools = pools_allocated[OF p1 p2 fresh]
      have st: "kv_stage dv h c kp vp m2 = (r, t)" using assms(1) p1 p2 by (simp add: construct_stages)
      show ?thesis
      proof (cases r)
        case (Inl e)
        from stage_failed[OF st[unfolded this]] Inl pools show ?thesis
          by (intro that(3)[of kp vp]) (simp_all add: p1)
      next
        case (Inr d)
        from stage_done[OF st[unfolded this] assms(2)] Inr pools show ?thesis
          by (intro that(4)[of kp vp d]) simp_all
      qed
    qed
  qed
qed

text \<open>A small memory with drivers that hand out one new address after another.\<close>

definition sample_drivers :: kv_drivers where
  "sample_drivers =
     (let new = (\<lambda>used n. Some (4096 + 4096 * sum_list used)) in
      \<lparr>dv_pool = new, dv_host = new, dv_device = new, dv_copy = (\<lambda>_. True)\<rparr>)"

definition sample_config :: kv_config where
  "sample_config = \<lparr>kc_num_layers = 2, kc_num_kv_heads = 1, kc_head_dim = 4, kc_block_size = 2, kc_element_size = 2,
     kc_total_blocks = 3, kc_prefix_caching = True, kc_max_batch = 4, kc_max_blocks_seq = 8\<rparr>"

definition sample_memory :: kv_memory where
  "sample_memory = \<lparr>km_alloc = \<lparr>ba_active = [], ba_total_vram = 2 ^ 20, ba_limit = 2 ^ 19, ba_total = 0, ba_peak = 0,
     ba_category = (\<lambda>_. 0)\<rparr>, km_host = [], km_device = []\<rparr>"

lemma sample_fresh: "fresh_pointers (\<lambda>used n. Some (4096 + 4096 * sum_list used))"
proof -
  have "p < 4096 + 4096 * sum_list used" if "p \<in> set used" for p :: nat and used
    using member_le_sum_list[OF that] by simp
  then show ?thesis unfolding fresh_pointers_def by fastforce
qed

lemma sample_sizes:
  "pool_bytes sample_config = 96" "align_bytes 96 256 = 256" "tables_bytes sample_config = 128" "lens_bytes sample_config = 16"
  by (simp_all add: pool_bytes_def bytes_per_block_def layer_block_bytes_def sample_config_def align_bytes_def tables_bytes_def lens_bytes_def)

lemmas construct_simps = kv_construct_def allocate_pool_def allocate_def within_budget_def sample_sizes sample_drivers_def
  sample_memory_def host_alloc_def device_alloc_def commit_block_def Let_def

lemma sample_constructed:
  obtains d t where "kv_construct sample_drivers word_of_int sample_config sample_memory = (Inr d, t)"
    "ko_cache d = kv_init sample_config word_of_int 4096 16781312"
    "map (\<lambda>(p, h). (p, bh_size h)) (ba_active (km_alloc t)) = [(4096, 256), (16781312, 256)]"
    "ba_total (km_alloc t) = 512" "km_host t = [16781312, 4096]"
  by (simp add: construct_simps)

lemma sample_drivers_fresh: "fresh_drivers sample_drivers"
  by (simp add: fresh_drivers_def sample_drivers_def sample_fresh Let_def)

text \<open>
  C19: A constructed cache that is destroyed again gives back all it took: the allocator records the
  same blocks, total and bytes per category as before, and no staging buffer is left; only the peak
  remembers it.
\<close>

theorem kv_memory_returned:
  assumes "fresh_drivers dv" and "kv_construct dv h c m = (Inr d, t)"
  shows "kv_destroy d t = m\<lparr>km_alloc := (km_alloc m)\<lparr>ba_peak := ba_peak (km_alloc t)\<rparr>\<rparr>"
  using assms(2,1)
proof (cases rule: construct_cases)
  case (ok kp vp d')
  then have d: "d' = d" by simp
  have "free_block vp (free_block kp (km_alloc t)) = (km_alloc m)\<lparr>ba_peak := ba_peak (km_alloc t)\<rparr>"
  proof (cases "pool_bytes c = 0")
    case True
    with ok(1) show ?thesis by (simp add: pools_taken_def free_block_def)
  next
    case False
    with ok(1) show ?thesis by (auto simp: pools_taken_def intro: free_two)
  qed
  then show ?thesis using ok d by (simp add: kv_destroy_def release_ptr_def kv_init_def)
qed simp_all

theorem kv_memory_returned_witness:
  "case kv_construct sample_drivers word_of_int sample_config sample_memory of
     (Inl _, _) \<Rightarrow> False
   | (Inr d, t) \<Rightarrow> ba_total (km_alloc t) = 512 \<and> length (km_host t) = 2 \<and>
       ba_total (km_alloc (kv_destroy d t)) = 0 \<and> km_host (kv_destroy d t) = []"
proof -
  obtain d t where run: "kv_construct sample_drivers word_of_int sample_config sample_memory = (Inr d, t)"
      "ba_total (km_alloc t) = 512" "km_host t = [16781312, 4096]" by (rule sample_constructed)
  show ?thesis using kv_memory_returned[OF sample_drivers_fresh run(1)] run by (simp add: sample_memory_def)
qed

text \<open>New pools at the given addresses are recorded, and nothing else changed in the accounts.\<close>

definition pools_left :: "kv_config \<Rightarrow> allocator \<Rightarrow> nat list \<Rightarrow> allocator \<Rightarrow> bool" where
  "pools_left c a ps b \<longleftrightarrow>
     distinct ps \<and> set ps \<inter> insert 0 (fst ` set (ba_active a)) = {} \<and>
     ba_active b = ba_active a @ map (\<lambda>p. (p, pool_block c)) ps \<and>
     ba_total b = ba_total a + of_nat (length ps) * bh_size (pool_block c) \<and>
     ba_category b = (ba_category a)(KV_CACHE := ba_category a KV_CACHE + of_nat (length ps) * bh_size (pool_block c))"

text \<open>
  C20: A constructor that raises leaks, since the destructor of an object that was never completed does
  not run. For pools of at least one byte: when the key pool was refused nothing is taken. When the
  value pool was refused, the key pool stays recorded under KV_CACHE. When a staging allocation
  failed, both pools stay recorded under KV_CACHE. In both cases the allocator's records, total and
  bytes under KV_CACHE grow by exactly these pools, and the constructor returns no object that holds
  them.
\<close>

theorem kv_construct_leaks:
  assumes "fresh_drivers dv" and "kv_construct dv h c m = (Inl e, t)" and "pool_bytes c \<noteq> 0"
  shows "case fst (allocate_pool dv c m) of
      Inl e' \<Rightarrow> e = e' \<and> t = m
    | Inr kp \<Rightarrow> \<exists>left. pools_left c (km_alloc m) left (km_alloc t) \<and>
        (if e = CudaFailed then \<exists>vp. left = [kp, vp] else e = AllocatorRaised OutOfMemory \<and> left = [kp])"
  using assms(2,1)
proof (cases rule: construct_cases)
  case first
  then show ?thesis by simp
next
  case (second kp)
  have fresh: "fresh_pointers (dv_pool dv)" using assms(1) by (simp add: fresh_drivers_def)
  from second(1) fresh show ?thesis
  proof (cases rule: allocate_pool_cases)
    case (ok p)
    then have "pools_left c (km_alloc m) [p] (km_alloc t)"
      unfolding pools_left_def ok(5) by (simp add: commit_active[OF ok(4)]) (simp add: commit_block_def)
    then show ?thesis using second ok(2) by simp
  qed (use second assms(3) in simp_all)
next
  case (staging kp vp)
  have new: "kp \<notin> fst ` set (ba_active (km_alloc m))" "vp \<notin> fst ` set (ba_active (km_alloc m))" "kp \<noteq> vp" "kp \<noteq> 0" "vp \<noteq> 0"
    and alloc: "km_alloc t = commit_block vp (align_bytes (pool_bytes c) 256) KV_CACHE
      (commit_block kp (align_bytes (pool_bytes c) 256) KV_CACHE (km_alloc m))"
    using staging(2) assms(3) by (auto simp: pools_taken_def)
  then have "pools_left c (km_alloc m) [kp, vp] (km_alloc t)"
    unfolding pools_left_def by (simp add: commit_active) (simp add: commit_block_def add.commute)
  then show ?thesis using staging(1,3) by auto
qed simp

text \<open>The second staging allocation on the device fails: both pools stay.\<close>

theorem kv_construct_leaks_witness:
  "let dv = sample_drivers\<lparr>dv_device := (\<lambda>used n. if n < 100 then None else Some (Suc (sum_list used)))\<rparr>;
       t = snd (kv_construct dv word_of_int sample_config sample_memory)
   in ba_total (km_alloc t) = 512 \<and> ba_category (km_alloc t) KV_CACHE = 512 \<and>
      map_of (ba_active (km_alloc t)) 4096 = Some (pool_block sample_config) \<and> length (ba_active (km_alloc t)) = 2"
proof -
  define dv where "dv = sample_drivers\<lparr>dv_device := (\<lambda>used n. if n < 100 then None else Some (Suc (sum_list used)))\<rparr>"
  have "fresh_pointers (\<lambda>used n. if n < 100 then None else Some (Suc (sum_list used)))"
    unfolding fresh_pointers_def using member_le_sum_list by (fastforce split: if_splits)
  then have fresh: "fresh_drivers dv" by (simp add: fresh_drivers_def dv_def sample_drivers_def sample_fresh Let_def)
  have "fst (kv_construct dv word_of_int sample_config sample_memory) = Inl CudaFailed"
    unfolding dv_def by (simp add: construct_simps)
  then obtain t where run: "kv_construct dv word_of_int sample_config sample_memory = (Inl CudaFailed, t)" by (metis prod.collapse)
  have pool: "fst (allocate_pool dv sample_config sample_memory) = Inr 4096" unfolding dv_def by (simp add: construct_simps)
  have size: "pool_bytes sample_config \<noteq> 0" by (simp add: sample_sizes)
  obtain vp where "pools_left sample_config (km_alloc sample_memory) [4096, vp] (km_alloc t)"
    using kv_construct_leaks[OF fresh run size] pool by auto
  then show ?thesis using run unfolding dv_def[symmetric] Let_def
    by (simp add: pools_left_def sample_sizes sample_memory_def)
qed

section \<open>The cache inside its memory\<close>

text \<open>The live blocks of the allocator do not overlap.\<close>

definition separate :: "(nat \<times> block_handle) list \<Rightarrow> bool" where
  "separate d \<longleftrightarrow> list_all (\<lambda>(p, h). list_all (\<lambda>(q, k). p = q \<or> p + unat (bh_size h) \<le> q \<or> q + unat (bh_size k) \<le> p) d) d"

text \<open>A slot is a layer of a block in the key or the value pool.\<close>

definition kv_slots :: "kv_config \<Rightarrow> (bool \<times> nat \<times> nat) list" where
  "kv_slots c = List.product [True, False] (List.product [0..<kc_total_blocks c] [0..<kc_num_layers c])"

lemma slot_mem: "(k, b, l) \<in> set (kv_slots c) \<longleftrightarrow> b < kc_total_blocks c \<and> l < kc_num_layers c"
  by (auto simp: kv_slots_def)

fun slot_ptr :: "kv_cache \<Rightarrow> bool \<times> nat \<times> nat \<Rightarrow> nat" where
  "slot_ptr s (is_key, b, layer) = (if is_key then get_key_block_ptr b layer s else get_value_block_ptr b layer s)"

lemma slot_before:
  assumes "b < b' \<or> b = b' \<and> l < l'" "l < kc_num_layers c"
  shows "b * block_extent c + l * layer_extent c + layer_extent c
    \<le> b' * block_extent c + l' * layer_extent c"
  using assms(1)
proof
  assume "b < b'"
  from block_in_pool[OF this assms(2)] show ?thesis by simp
next
  assume same: "b = b' \<and> l < l'"
  then have "Suc l * layer_extent c \<le> l' * layer_extent c" by (intro mult_le_mono1) simp
  then show ?thesis using same by simp
qed

lemma slots_apart:
  assumes "(b, l) \<noteq> (b', l')" "l < kc_num_layers c" "l' < kc_num_layers c"
  shows "k + (b * block_extent c + l * layer_extent c) + layer_extent c
      \<le> k + (b' * block_extent c + l' * layer_extent c) \<or>
    k + (b' * block_extent c + l' * layer_extent c) + layer_extent c
      \<le> k + (b * block_extent c + l * layer_extent c)"
proof -
  have "(b < b' \<or> b = b' \<and> l < l') \<or> (b' < b \<or> b' = b \<and> l' < l)" using assms(1) by auto
  then show ?thesis using slot_before[of b b' l l' c] slot_before[of b' b l' l c] assms(2,3) by auto
qed

text \<open>The two pools of a constructed cache are live blocks, large enough for all of its slots.\<close>

lemma pools_live:
  assumes "fresh_drivers dv" "kv_construct dv h c m = (Inr d, t)"
    "0 < pool_extent c" "pool_extent c \<le> 2 ^ 62"
  obtains kp vp where "ko_cache d = kv_init c h kp vp" "kp \<noteq> vp"
    "map_of (ba_active (km_alloc t)) kp = Some (pool_block c)" "map_of (ba_active (km_alloc t)) vp = Some (pool_block c)"
    "pool_extent c \<le> unat (bh_size (pool_block c))"
proof -
  have sz: "unat (pool_bytes c) = pool_extent c"
    unfolding bytes_words using assms(4) by (intro unat_small) simp
  then have nz: "pool_bytes c \<noteq> 0" using assms(3) by (metis unat_0 less_irrefl)
  have room: "pool_extent c \<le> unat (bh_size (pool_block c))"
    using align_small[of "pool_bytes c"] assms(4) sz by simp
  from assms(2,1) show thesis
  proof (cases rule: construct_cases)
    case (ok kp vp d')
    then have new: "kp \<notin> fst ` set (ba_active (km_alloc m))" "vp \<notin> fst ` set (ba_active (km_alloc m))" "kp \<noteq> vp"
      and alloc: "km_alloc t = commit_block vp (align_bytes (pool_bytes c) 256) KV_CACHE
        (commit_block kp (align_bytes (pool_bytes c) 256) KV_CACHE (km_alloc m))"
      using nz by (auto simp: pools_taken_def)
    have "ba_active (km_alloc t) = ba_active (km_alloc m) @ [(kp, pool_block c), (vp, pool_block c)]"
      using new unfolding alloc by (simp add: commit_active)
    moreover have "map_of (ba_active (km_alloc m)) kp = None" "map_of (ba_active (km_alloc m)) vp = None"
      using new by (simp_all add: map_of_eq_None_iff)
    ultimately show ?thesis using that[of kp vp] ok(2,3) new(3) room by (simp add: map_add_def)
  qed simp_all
qed

text \<open>
  C8: Whatever is registered, appended, forked and released, the key and value bytes of every block and
  layer lie inside a live block that the allocator accounts to KV_CACHE, and no two of them overlap,
  as long as the blocks that the driver handed out do not. (The pools have at least one byte and at
  most 2^62.)
\<close>

theorem kv_slots_disjoint:
  assumes "fresh_drivers dv" and "kv_construct dv h c m = (Inr d, t)"
    and "0 < kc_block_size c" and "0 < pool_extent c" and "pool_extent c \<le> 2 ^ 62"
    and "separate (ba_active (km_alloc t))"
    and "x \<in> set (kv_slots c)" and "y \<in> set (kv_slots c)"
  shows "let s = kv_calls calls (ko_cache d); n = unat (layer_block_bytes c) in
    (\<exists>(p, h) \<in> set (ba_active (km_alloc t)). bh_category h = KV_CACHE \<and>
       p \<le> slot_ptr s x \<and> slot_ptr s x + n \<le> p + unat (bh_size h)) \<and>
    (x = y \<or> slot_ptr s x + n \<le> slot_ptr s y \<or> slot_ptr s y + n \<le> slot_ptr s x)"
proof -
  obtain kp vp where init: "ko_cache d = kv_init c h kp vp" "kp \<noteq> vp"
    and live: "map_of (ba_active (km_alloc t)) kp = Some (pool_block c)" "map_of (ba_active (km_alloc t)) vp = Some (pool_block c)"
    and room: "pool_extent c \<le> unat (bh_size (pool_block c))"
    using pools_live[OF assms(1,2,4,5)] .
  define s where "s = kv_calls calls (ko_cache d)"
  note r = reachable_typed(1-3)[OF assms(3), of calls h kp vp, folded init(1), folded s_def]
  define base where "base k = (if k then kp else vp)" for k
  have fits: "pool_extent c < 2 ^ 64" using assms(5) by simp
  have ptr: "slot_ptr s (k, b, l) = base k + (b * block_extent c + l * layer_extent c)"
    if "b < kc_total_blocks c" "l < kc_num_layers c" for k b l
    using exact_offset(1)[OF fits that] by (simp add: get_key_block_ptr_def get_value_block_ptr_def r base_def)
  obtain k b l where x: "x = (k, b, l)" "b < kc_total_blocks c" "l < kc_num_layers c"
    using assms(7) slot_mem by (metis prod_cases3)
  obtain k' b' l' where y: "y = (k', b', l')" "b' < kc_total_blocks c" "l' < kc_num_layers c"
    using assms(8) slot_mem by (metis prod_cases3)
  note ptrs = x(1) y(1) ptr[OF x(2,3)] ptr[OF y(2,3)]
  have width: "unat (layer_block_bytes c) = layer_extent c" using exact_offset(2)[OF fits x(2,3)] .
  have ends: "b * block_extent c + l * layer_extent c + layer_extent c \<le> unat (bh_size (pool_block c))"
    if "b < kc_total_blocks c" "l < kc_num_layers c" for b l
    using block_in_pool[OF that, folded pool_extent_def] room by simp
  have mem: "(base k, pool_block c) \<in> set (ba_active (km_alloc t))" for k
    using live by (auto simp: base_def dest: map_of_SomeD)
  have inside: "\<exists>(p, h) \<in> set (ba_active (km_alloc t)). bh_category h = KV_CACHE \<and>
       p \<le> slot_ptr s x \<and> slot_ptr s x + layer_extent c \<le> p + unat (bh_size h)"
    using mem[of k] ends[OF x(2,3)] by (intro bexI[of _ "(base k, pool_block c)"]) (simp_all add: ptrs del: slot_ptr.simps)
  have apart: "base True + unat (bh_size (pool_block c)) \<le> base False \<or> base False + unat (bh_size (pool_block c)) \<le> base True"
    using assms(6) mem[of True] mem[of False] init(2) unfolding separate_def list_all_iff by (fastforce simp: base_def)
  have "x = y \<or> slot_ptr s x + layer_extent c \<le> slot_ptr s y \<or> slot_ptr s y + layer_extent c \<le> slot_ptr s x"
  proof (cases "k = k'")
    case True
    then show ?thesis using slots_apart[of b l b' l' c "base k"] x y unfolding ptrs by auto
  next
    case False
    then have "base k + unat (bh_size (pool_block c)) \<le> base k' \<or> base k' + unat (bh_size (pool_block c)) \<le> base k"
      using apart by (cases k; cases k') auto
    then show ?thesis using ends[OF x(2,3)] ends[OF y(2,3)] unfolding ptrs by linarith
  qed
  with inside show ?thesis unfolding Let_def s_def width by blast
qed

text \<open>Two prompts that share a block: the value of layer 1 of block 0 and the key of layer 0 of block 1.\<close>

theorem kv_slots_disjoint_witness:
  "case kv_construct sample_drivers word_of_int sample_config sample_memory of
     (Inl _, _) \<Rightarrow> False
   | (Inr d, t) \<Rightarrow>
       let s = kv_calls [Op (Register 2 [7, 8]), Op (Register 3 [7, 8, 9])] (ko_cache d) in
       slot_ptr s (False, 0, 1) + 16 \<le> slot_ptr s (True, 1, 0) \<or> slot_ptr s (True, 1, 0) + 16 \<le> slot_ptr s (False, 0, 1)"
proof -
  obtain d t where run: "kv_construct sample_drivers word_of_int sample_config sample_memory = (Inr d, t)"
      and "map (\<lambda>(p, h). (p, bh_size h)) (ba_active (km_alloc t)) = [(4096, 256), (16781312, 256)]"
    by (rule sample_constructed)
  then have apart: "separate (ba_active (km_alloc t))" by (auto simp: separate_def Cons_eq_map_conv)
  have c: "0 < kc_block_size sample_config" "0 < pool_extent sample_config"
    "pool_extent sample_config \<le> 2 ^ 62"
    "(False, 0, 1) \<in> set (kv_slots sample_config)" "(True, 1, 0) \<in> set (kv_slots sample_config)"
    "unat (layer_block_bytes sample_config) = 16"
    by (simp_all add: sample_config_def pool_extent_def block_extent_def layer_extent_def layer_block_bytes_def slot_mem)
  show ?thesis
    using kv_slots_disjoint[OF sample_drivers_fresh run c(1-3) apart c(4,5), of "[Op (Register 2 [7, 8]), Op (Register 3 [7, 8, 9])]"]
    unfolding run by (simp only: c(6) Let_def prod.case sum.case) simp
qed

section \<open>What the kernels read\<close>

lemma concat_rows_nth:
  "\<forall>row \<in> set rows. length row = w \<Longrightarrow> i < length rows \<Longrightarrow> j < w \<Longrightarrow> concat rows ! (i * w + j) = rows ! i ! j"
proof (induction rows arbitrary: i)
  case (Cons row rows)
  then show ?case by (cases i) (simp_all add: nth_append)
qed simp

lemma concat_rows_length: "\<forall>row \<in> set rows. length row = w \<Longrightarrow> length (concat rows) = length rows * w"
  by (induction rows) simp_all

lemma to_int32_exact: "n < 2 ^ 31 \<Longrightarrow> to_int32 n = int n"
  unfolding to_int32_def by (subst signed_of_nat) (simp add: signed_take_bit_int_eq_self)

lemma batch_tables_nth:
  "batch_tables sids s = Inr tables \<Longrightarrow>
   length tables = length sids \<and> (\<forall>i < length sids. map_of (kv_pages s) (sids ! i) = Some (tables ! i))"
proof (induction sids arbitrary: tables)
  case (Cons sid sids)
  then obtain table rest where "map_of (kv_pages s) sid = Some table" "batch_tables sids s = Inr rest" "tables = table # rest"
    by (auto simp: res_bind_Inr_iff split: option.splits)
  then show ?case using Cons.IH[of rest] by (auto simp: nth_Cons split: nat.splits)
qed simp

lemma width_start: "a \<le> fold max xs (a :: nat)"
  by (induction xs arbitrary: a) (auto intro: order_trans[OF max.cobounded2])

lemma width_ge: "x \<in> set xs \<Longrightarrow> x \<le> fold max xs (a :: nat)"
  by (induction xs arbitrary: a) (auto intro: order_trans[OF max.cobounded1 width_start])

text \<open>
  C13: In a cache that any calls have reached, whose limits on batch size and on tokens per sequence
  (blocks times block size) are below 2^31, a kernel that reads the staged tables through the
  descriptor sees the page tables: entry \<open>i * max_blocks_per_seq + j\<close> is block \<open>j\<close> of the sequence in
  row \<open>i\<close>, or -1 beyond its end, and the staged 32 bit length is, with no wrap and no sign change, the
  context length of its table: all blocks but the last counted full, and the fill of the last one.
  What is written fits the staging buffers.
\<close>

theorem kv_staging_faithful:
  assumes "ko_cache d = kv_calls calls (kv_init c h kp vp)" and "0 < kc_block_size c"
    and "kc_max_batch c < 2 ^ 31" and "kc_max_blocks_seq c * kc_block_size c < 2 ^ 31"
    and "stage_batch dv sids d = Inr (flat, lens, desc)"
  shows "length flat \<le> kc_max_batch c * kc_max_blocks_seq c \<and> length lens = length sids \<and> length sids \<le> kc_max_batch c \<and>
    bd_batch_size desc = int (length sids) \<and>
    (\<forall>i < length sids. \<exists>table. map_of (kv_pages (ko_cache d)) (sids ! i) = Some table \<and>
       lens ! i = int (context_tokens (ko_cache d) table) \<and> int (length table) \<le> bd_max_blocks desc \<and>
       (\<forall>j < nat (bd_max_blocks desc). flat ! (i * nat (bd_max_blocks desc) + j) =
          (if j < length table then int (table ! j) else -1)))"
proof -
  let ?s = "ko_cache d"
  note r = reachable_typed[OF assms(2), of calls h kp vp, folded assms(1)]
  obtain rows where p: "prepare_batch_metadata sids ?s = Inr (rows, lens)" "flat = concat rows"
    and desc: "bd_batch_size desc = to_int32 (length sids)"
      "bd_max_blocks desc = to_int32 (case rows of [] \<Rightarrow> 0 | row # _ \<Rightarrow> length row)"
    using assms(5) by (auto simp: stage_batch_def Let_def split: sum.splits prod.splits if_splits)
  obtain tables where t: "batch_tables sids ?s = Inr tables" and batch: "length sids \<le> kc_max_batch c"
    using p(1) r(1) by (auto simp: prepare_batch_metadata_def res_bind_Inr_iff split: if_splits)
  define width where "width = fold max (map length tables) 0"
  have rows: "rows = map (\<lambda>t. map int t @ replicate (width - length t) (-1)) tables"
      "lens = map (\<lambda>t. sint (context_len ?s t)) tables" and width: "width \<le> kc_max_blocks_seq c"
    using p(1) t r(1) by (auto simp: prepare_batch_metadata_def Let_def width_def split: if_splits)
  have "kc_max_blocks_seq c * 1 \<le> kc_max_blocks_seq c * kc_block_size c" using assms(2) by (intro mult_le_mono2) simp
  then have narrow: "width < 2 ^ 31" using width assms(4) by linarith
  note nth = batch_tables_nth[OF t]
  have le: "length t \<le> width" if "t \<in> set tables" for t
    using that width_ge[of "length t" "map length tables" 0] by (simp add: width_def)
  have len: "\<forall>row \<in> set rows. length row = width" using le by (auto simp: rows)
  have size: "length flat \<le> kc_max_batch c * kc_max_blocks_seq c"
    unfolding p(2) concat_rows_length[OF len] using nth batch width by (simp add: rows mult_le_mono)
  have n: "bd_batch_size desc = int (length sids)" unfolding desc(1) using batch assms(3) by (intro to_int32_exact) simp
  have held: "sint (context_len ?s table) = int (context_tokens ?s table)"
    if "table \<in> set tables" "map_of (kv_pages ?s) sid = Some table" for sid table
  proof -
    have "context_tokens ?s table \<le> length table * kc_block_size c"
      using tokens_fit[of table ?s] typed_page[OF r(7) that(2)] r(4,5) by (simp add: r(1))
    also have "\<dots> \<le> kc_max_blocks_seq c * kc_block_size c" using le[OF that(1)] width by (intro mult_le_mono1) simp
    finally show ?thesis using assms(4) by (intro staged_exact) simp
  qed
  have entries: "\<exists>table. map_of (kv_pages ?s) (sids ! i) = Some table \<and>
       lens ! i = int (context_tokens ?s table) \<and> int (length table) \<le> bd_max_blocks desc \<and>
       (\<forall>j < nat (bd_max_blocks desc). flat ! (i * nat (bd_max_blocks desc) + j) =
          (if j < length table then int (table ! j) else -1))" if i: "i < length sids" for i
  proof -
    have it: "i < length tables" "tables ! i \<in> set tables" using nth i by simp_all
    then have "rows \<noteq> []" by (auto simp: rows)
    then have "(case rows of [] \<Rightarrow> 0 | row # _ \<Rightarrow> length row) = width" using len by (cases rows) simp_all
    then have w: "bd_max_blocks desc = int width" unfolding desc(2) using narrow by (simp add: to_int32_exact)
    have "flat ! (i * width + j) = (if j < length (tables ! i) then int (tables ! i ! j) else -1)" if "j < width" for j
      unfolding p(2) using concat_rows_nth[OF len, of i j] it that by (simp add: rows nth_append)
    moreover have page: "map_of (kv_pages ?s) (sids ! i) = Some (tables ! i)" using nth i by simp
    ultimately show ?thesis using it le[OF it(2)] held[OF it(2) page] unfolding w rows(2) by simp
  qed
  show ?thesis using size n entries nth batch by (simp add: rows)
qed

text \<open>A batch of two sequences, the second one block longer than the first.\<close>

theorem kv_staging_faithful_witness:
  "let s = kv_calls [Op (Register 4 [7]), Op (Register 5 [8, 9, 10])] (kv_init sample_config word_of_int 0 96);
       d = \<lparr>ko_cache = s, ko_host_tables = 1, ko_host_lens = 2, ko_device_tables = 3, ko_device_lens = 4\<rparr>
   in case stage_batch sample_drivers [4, 5] d of
        Inl _ \<Rightarrow> False
      | Inr (flat, lens, desc) \<Rightarrow> flat = [0, -1, 1, 2] \<and> lens = [1, 3] \<and> bd_max_blocks desc = 2 \<and>
          flat ! (1 * nat (bd_max_blocks desc) + 1) = 2"
proof -
  define s where "s = kv_calls [Op (Register 4 [7]), Op (Register 5 [8, 9, 10])] (kv_init sample_config word_of_int 0 96)"
  define d where "d = \<lparr>ko_cache = s, ko_host_tables = 1, ko_host_lens = 2, ko_device_tables = 3, ko_device_lens = 4\<rparr>"
  have s: "prepare_batch_metadata [4, 5] s = Inr ([[0, -1], [1, 2]], [1, 3])" "kv_pages s = [(4, [0]), (5, [1, 2])]"
    unfolding s_def by code_simp+
  obtain desc where st: "stage_batch sample_drivers [4, 5] d = Inr ([0, -1, 1, 2], [1, 3], desc)"
    "bd_max_blocks desc = to_int32 2"
    by (simp add: stage_batch_def s(1) sample_drivers_def d_def Let_def numeral_2_eq_2)
  have cache: "ko_cache d = kv_calls [Op (Register 4 [7]), Op (Register 5 [8, 9, 10])] (kv_init sample_config word_of_int 0 96)"
    by (simp add: d_def s_def)
  have limits: "0 < kc_block_size sample_config" "kc_max_batch sample_config < 2 ^ 31"
    "kc_max_blocks_seq sample_config * kc_block_size sample_config < 2 ^ 31" by (simp_all add: sample_config_def)
  have "[0, -1, 1, 2] ! (1 * nat (bd_max_blocks desc) + 1) = (2 :: int)"
    using kv_staging_faithful[OF cache limits st(1)] s(2) st(2) by (auto simp: to_int32_exact d_def)
  then show ?thesis using st unfolding Let_def d_def s_def by (simp add: to_int32_exact)
qed

end
