(* ===== verification/Memory_Threads.thy ===== *)
theory Memory_Threads
  imports Device_Memory "HOL-Library.Multiset"
begin

text \<open>
  Threads that share one allocator (\<open>csrc/src/memory/block_allocator.cpp\<close>). The mutex is held for the
  budget check and for the accounting, and released around the calls of the driver, so an allocation
  is three atomic steps and a release two. A state of the system is the allocator, the pointers that
  the driver has given out, and where each thread stands.

  \<^item> A refused request changes nothing and is no step. Requests are at most 2^62 bytes.
\<close>

section \<open>Steps\<close>

datatype alloc_phase =
    Idle
  | Checked "64 word" category
  | Obtained nat "64 word" category
  | Freeing nat

record memory_system =
  ms_alloc :: allocator
  ms_live :: "nat list"
  ms_phase :: "alloc_phase list"

definition system_init :: "nat \<Rightarrow> allocator \<Rightarrow> memory_system" where
  "system_init n a = \<lparr>ms_alloc = a, ms_live = [], ms_phase = replicate n Idle\<rparr>"

inductive mstep :: "(nat list \<Rightarrow> 64 word \<Rightarrow> nat option) \<Rightarrow> memory_system \<Rightarrow> memory_system \<Rightarrow> bool" for malloc where
  check: "\<lbrakk>i < length (ms_phase s); ms_phase s ! i = Idle; bytes \<noteq> 0; unat bytes \<le> 2 ^ 62;
           within_budget (align_bytes bytes 256) (ms_alloc s)\<rbrakk>
    \<Longrightarrow> mstep malloc s (s\<lparr>ms_phase := (ms_phase s)[i := Checked (align_bytes bytes 256) cat]\<rparr>)"
| driver_fails: "\<lbrakk>i < length (ms_phase s); ms_phase s ! i = Checked n cat; malloc (ms_live s) n = None\<rbrakk>
    \<Longrightarrow> mstep malloc s (s\<lparr>ms_phase := (ms_phase s)[i := Idle]\<rparr>)"
| driver_gives: "\<lbrakk>i < length (ms_phase s); ms_phase s ! i = Checked n cat; malloc (ms_live s) n = Some p\<rbrakk>
    \<Longrightarrow> mstep malloc s (s\<lparr>ms_live := p # ms_live s, ms_phase := (ms_phase s)[i := Obtained p n cat]\<rparr>)"
| commit: "\<lbrakk>i < length (ms_phase s); ms_phase s ! i = Obtained p n cat\<rbrakk>
    \<Longrightarrow> mstep malloc s (s\<lparr>ms_alloc := commit_block p n cat (ms_alloc s), ms_phase := (ms_phase s)[i := Idle]\<rparr>)"
| erase: "\<lbrakk>i < length (ms_phase s); ms_phase s ! i = Idle; map_of (ba_active (ms_alloc s)) p = Some h\<rbrakk>
    \<Longrightarrow> mstep malloc s (s\<lparr>ms_alloc := free_block p (ms_alloc s), ms_phase := (ms_phase s)[i := Freeing p]\<rparr>)"
| driver_takes: "\<lbrakk>i < length (ms_phase s); ms_phase s ! i = Freeing p\<rbrakk>
    \<Longrightarrow> mstep malloc s (s\<lparr>ms_live := remove1 p (ms_live s), ms_phase := (ms_phase s)[i := Idle]\<rparr>)"

inductive mreach :: "(nat list \<Rightarrow> 64 word \<Rightarrow> nat option) \<Rightarrow> memory_system \<Rightarrow> memory_system \<Rightarrow> bool" for malloc s0 where
  start: "mreach malloc s0 s0"
| step: "mreach malloc s0 s \<Longrightarrow> mstep malloc s t \<Longrightarrow> mreach malloc s0 t"

section \<open>The steps of one thread are the sequential operations\<close>

lemma alone_allocates:
  assumes "i < length ph" "ph ! i = Idle" "unat bytes \<le> 2 ^ 62" "bytes \<noteq> 0"
    and "allocate malloc bytes cat a = (Inr p, b)" "live = map fst (ba_active a)"
  shows "mreach malloc \<lparr>ms_alloc = a, ms_live = live, ms_phase = ph\<rparr> \<lparr>ms_alloc = b, ms_live = p # live, ms_phase = ph\<rparr>"
proof -
  let ?n = "align_bytes bytes 256"
  from assms(4,5) have st: "within_budget ?n a" "malloc live ?n = Some p" "b = commit_block p ?n cat a"
    by (auto simp: assms(6) elim: block_allocation_cases)
  have idle: "ph[i := Idle] = ph" using assms(2) by (metis list_update_id)
  have "mstep malloc \<lparr>ms_alloc = a, ms_live = live, ms_phase = ph\<rparr>
      \<lparr>ms_alloc = a, ms_live = live, ms_phase = ph[i := Checked ?n cat]\<rparr>"
    using mstep.check[of i "\<lparr>ms_alloc = a, ms_live = live, ms_phase = ph\<rparr>" bytes malloc cat] assms st by simp
  moreover have "mstep malloc \<lparr>ms_alloc = a, ms_live = live, ms_phase = ph[i := Checked ?n cat]\<rparr>
      \<lparr>ms_alloc = a, ms_live = p # live, ms_phase = ph[i := Obtained p ?n cat]\<rparr>"
    using mstep.driver_gives[of i "\<lparr>ms_alloc = a, ms_live = live, ms_phase = ph[i := Checked ?n cat]\<rparr>" ?n cat malloc p] assms st by simp
  moreover have "mstep malloc \<lparr>ms_alloc = a, ms_live = p # live, ms_phase = ph[i := Obtained p ?n cat]\<rparr>
      \<lparr>ms_alloc = b, ms_live = p # live, ms_phase = ph\<rparr>"
    using mstep.commit[of i "\<lparr>ms_alloc = a, ms_live = p # live, ms_phase = ph[i := Obtained p ?n cat]\<rparr>" p ?n cat malloc] assms st
    by (simp add: idle)
  ultimately show ?thesis by (blast intro: mreach.intros)
qed

section \<open>Invariant\<close>

text \<open>What a thread holds between its steps: bytes that it has checked, and a pointer of the driver.\<close>

fun pending :: "alloc_phase \<Rightarrow> nat" where
  "pending (Checked n cat) = unat n"
| "pending (Obtained p n cat) = unat n"
| "pending _ = 0"

fun in_flight :: "alloc_phase \<Rightarrow> nat list" where
  "in_flight (Obtained p n cat) = [p]"
| "in_flight (Freeing p) = [p]"
| "in_flight _ = []"

definition system_ok :: "nat \<Rightarrow> 64 word \<Rightarrow> memory_system \<Rightarrow> bool" where
  "system_ok n limit s \<longleftrightarrow> length (ms_phase s) = n \<and> ba_limit (ms_alloc s) = limit \<and> allocator_ok (ms_alloc s) \<and>
     distinct (ms_live s) \<and> 0 \<notin> set (ms_live s) \<and>
     mset (ms_live s) = mset (map fst (ba_active (ms_alloc s))) + mset (concat (map in_flight (ms_phase s))) \<and>
     (\<forall>ph \<in> set (ms_phase s). pending ph \<le> unat limit) \<and>
     unat (ba_total (ms_alloc s)) + sum_list (map pending (ms_phase s)) \<le> n * unat limit"

lemma sum_list_update_nat: "i < length xs \<Longrightarrow> sum_list (map f (xs[i := x])) + f (xs ! i) = sum_list (map f xs) + (f x :: nat)"
  by (induction xs arbitrary: i) (auto split: nat.splits)

lemma concat_update: "i < length xs \<Longrightarrow>
  mset (concat (map f (xs[i := x]))) + mset (f (xs ! i)) = mset (concat (map f xs)) + mset (f x)"
  by (induction xs arbitrary: i) (auto split: nat.splits)

lemma keys_delete_mset:
  "distinct (map fst d) \<Longrightarrow> k \<in> fst ` set d \<Longrightarrow> mset (map fst d) = add_mset k (mset (map fst (AList.delete k d)))"
proof (induction d)
  case (Cons x d)
  show ?case
  proof (cases "fst x = k")
    case True
    with Cons.prems have "\<not> dict_has k d" by (auto simp: dict_has_iff)
    with True show ?thesis by (cases x) (simp add: delete_absent)
  next
    case False
    with Cons show ?thesis by (cases x) auto
  qed
qed simp

lemma others_pending:
  assumes "i < length xs" "\<forall>ph \<in> set xs. f ph \<le> (l :: nat)" "f (xs ! i) = 0"
  shows "sum_list (map f xs) \<le> (length xs - 1) * l"
  using assms
proof (induction xs arbitrary: i)
  case (Cons x xs)
  show ?case
  proof (cases i)
    case 0
    have "sum_list (map f xs) \<le> length xs * l" using Cons.prems(2) by (induction xs) (auto simp: add_mono)
    with 0 Cons.prems show ?thesis by simp
  next
    case (Suc j)
    then have "xs \<noteq> []" using Cons.prems(1) by auto
    then obtain k where k: "length xs = Suc k" by (cases xs) auto
    have "sum_list (map f xs) \<le> (length xs - 1) * l" using Suc Cons by simp
    with k Cons.prems(2) show ?thesis by (simp add: add_mono)
  qed
qed simp

lemma system_okD:
  assumes "system_ok n limit s"
  shows "length (ms_phase s) = n" "ba_limit (ms_alloc s) = limit" "allocator_ok (ms_alloc s)"
    "distinct (ms_live s)" "0 \<notin> set (ms_live s)"
    "mset (ms_live s) = mset (map fst (ba_active (ms_alloc s))) + mset (concat (map in_flight (ms_phase s)))"
    "\<forall>ph \<in> set (ms_phase s). pending ph \<le> unat limit"
    "unat (ba_total (ms_alloc s)) + sum_list (map pending (ms_phase s)) \<le> n * unat limit"
  using assms unfolding system_ok_def by blast+

lemma system_okI:
  assumes "length (ms_phase s) = n" "ba_limit (ms_alloc s) = limit" "allocator_ok (ms_alloc s)"
    "distinct (ms_live s)" "0 \<notin> set (ms_live s)"
    "mset (ms_live s) = mset (map fst (ba_active (ms_alloc s))) + mset (concat (map in_flight (ms_phase s)))"
    "\<forall>ph \<in> set (ms_phase s). pending ph \<le> unat limit"
    "unat (ba_total (ms_alloc s)) + sum_list (map pending (ms_phase s)) \<le> n * unat limit"
  shows "system_ok n limit s"
  using assms unfolding system_ok_def by blast

lemma system_init_ok:
  "allocator_ok a \<Longrightarrow> ba_active a = [] \<Longrightarrow> system_ok n (ba_limit a) (system_init n a)"
  by (simp add: system_ok_def system_init_def allocator_ok_def sum_list_replicate)

text \<open>A thread that changes its phase without touching allocator, driver or pointers.\<close>

lemma phase_ok:
  assumes ok: "system_ok n limit s" and i: "i < length (ms_phase s)"
    and fl: "in_flight x = in_flight (ms_phase s ! i)" and x: "pending x \<le> unat limit"
    and sum: "unat (ba_total (ms_alloc s)) + pending x + (sum_list (map pending (ms_phase s)) - pending (ms_phase s ! i)) \<le> n * unat limit"
  shows "system_ok n limit (s\<lparr>ms_phase := (ms_phase s)[i := x]\<rparr>)"
proof -
  note d = system_okD[OF ok]
  have "sum_list (map pending ((ms_phase s)[i := x])) + pending (ms_phase s ! i) = sum_list (map pending (ms_phase s)) + pending x"
    using sum_list_update_nat[OF i] .
  moreover have "mset (concat (map in_flight ((ms_phase s)[i := x]))) = mset (concat (map in_flight (ms_phase s)))"
    using concat_update[OF i, of in_flight x] fl by simp
  moreover have "\<forall>ph \<in> set ((ms_phase s)[i := x]). pending ph \<le> unat limit"
    using d(7) x set_update_subset_insert[of "ms_phase s" i x] by auto
  ultimately show ?thesis using d(1-6) sum by (intro system_okI) simp_all
qed

lemma checked_fits:
  assumes ok: "system_ok n limit s" and small: "n * unat limit \<le> 2 ^ 62" and i: "i < length (ms_phase s)" "ms_phase s ! i = Idle"
    and req: "unat bytes \<le> 2 ^ 62" and within: "within_budget (align_bytes bytes 256) (ms_alloc s)"
  shows "unat (align_bytes bytes 256) \<le> unat limit"
    "unat (ba_total (ms_alloc s)) + unat (align_bytes bytes 256) + sum_list (map pending (ms_phase s)) \<le> n * unat limit"
proof -
  note d = system_okD[OF ok]
  let ?a = "align_bytes bytes 256"
  have "unat (ba_total (ms_alloc s)) \<le> 2 ^ 62" using d(8) small by simp
  then have "unat (ba_total (ms_alloc s) + ?a) = unat (ba_total (ms_alloc s)) + unat ?a"
    using align_small[OF req] by (intro add_no_wrap) simp
  then have le: "unat (ba_total (ms_alloc s)) + unat ?a \<le> unat limit"
    using within d(2) by (simp add: within_budget_def not_less word_le_nat_alt)
  then show "unat ?a \<le> unat limit" by simp
  have "sum_list (map pending (ms_phase s)) \<le> (n - 1) * unat limit"
    using others_pending[OF i(1) d(7)] i(2) d(1) by simp
  moreover obtain m where "n = Suc m" using i(1) d(1) by (cases n) auto
  ultimately show "unat (ba_total (ms_alloc s)) + unat ?a + sum_list (map pending (ms_phase s)) \<le> n * unat limit"
    using le by simp
qed

lemma mstep_ok:
  assumes "mstep malloc s t" and ok: "system_ok n limit s" and fresh: "fresh_pointers malloc"
    and small: "n * unat limit \<le> 2 ^ 62"
  shows "system_ok n limit t"
  using assms(1)
proof cases
  case (check i bytes cat)
  note fits = checked_fits[OF ok small check(2,3,5,6)]
  show ?thesis unfolding check(1) using fits check(3) by (intro phase_ok[OF ok check(2)]) simp_all
next
  case (driver_fails i m cat)
  then show ?thesis unfolding driver_fails(1) using system_okD(8)[OF ok] by (intro phase_ok[OF ok driver_fails(2)]) simp_all
next
  case (driver_gives i m cat p)
  note d = system_okD[OF ok]
  have new: "p \<notin> set (ms_live s)" "p \<noteq> 0" using fresh driver_gives(4) by (auto simp: fresh_pointers_def)
  have "mset (concat (map in_flight ((ms_phase s)[i := Obtained p m cat]))) = add_mset p (mset (concat (map in_flight (ms_phase s))))"
    using concat_update[OF driver_gives(2), of in_flight "Obtained p m cat"] driver_gives(3) by simp
  moreover have "sum_list (map pending ((ms_phase s)[i := Obtained p m cat])) = sum_list (map pending (ms_phase s))"
    using sum_list_update_nat[OF driver_gives(2), of pending "Obtained p m cat"] driver_gives(3) by simp
  moreover have "pending (ms_phase s ! i) \<le> unat limit" using d(7) driver_gives(2) by simp
  then have "\<forall>ph \<in> set ((ms_phase s)[i := Obtained p m cat]). pending ph \<le> unat limit"
    using d(7) driver_gives(3) set_update_subset_insert[of "ms_phase s" i "Obtained p m cat"] by auto
  ultimately show ?thesis unfolding driver_gives(1) using d new by (intro system_okI) simp_all
next
  case (commit i p m cat)
  note d = system_okD[OF ok]
  let ?ph = "(ms_phase s)[i := Idle]"
  have fl: "mset (concat (map in_flight (ms_phase s))) = add_mset p (mset (concat (map in_flight ?ph)))"
    using concat_update[OF commit(2), of in_flight Idle] commit(3) by simp
  have su: "sum_list (map pending ?ph) + unat m = sum_list (map pending (ms_phase s))"
    using sum_list_update_nat[OF commit(2), of pending Idle] commit(3) by simp
  have live: "mset (ms_live s) = add_mset p (mset (map fst (ba_active (ms_alloc s))) + mset (concat (map in_flight ?ph)))"
    using d(6) fl by simp
  have "p \<in> set (ms_live s)" using live by (metis set_mset_mset union_single_eq_member)
  then have p0: "p \<noteq> 0" using d(5) by metis
  have "count (mset (ms_live s)) p \<le> 1" using d(4) by (simp add: distinct_count_atmost_1)
  then have "count (mset (map fst (ba_active (ms_alloc s)))) p = 0" unfolding live by (simp del: mset_map)
  then have "p \<notin> set (map fst (ba_active (ms_alloc s)))" by (simp only: count_mset_0_iff not_False_eq_True)
  then have new: "p \<notin> fst ` set (ba_active (ms_alloc s))" by simp
  have room: "unat (ba_total (ms_alloc s)) + unat m \<le> 2 ^ 62" using d(8) su small by simp
  then have r64: "unat (ba_total (ms_alloc s)) + unat m < 2 ^ 64" by simp
  have "unat (ba_total (commit_block p m cat (ms_alloc s))) = unat (ba_total (ms_alloc s)) + unat m"
    using add_no_wrap[OF r64] by (simp add: commit_block_def)
  moreover have "allocator_ok (commit_block p m cat (ms_alloc s))" by (rule commit_ok[OF d(3) new p0 r64])
  moreover have "map fst (ba_active (commit_block p m cat (ms_alloc s))) = map fst (ba_active (ms_alloc s)) @ [p]"
    using new by (simp add: commit_block_def update_fresh)
  moreover have "\<forall>ph \<in> set ?ph. pending ph \<le> unat limit"
    using d(7) set_update_subset_insert[of "ms_phase s" i Idle] by auto
  moreover have "ba_limit (commit_block p m cat (ms_alloc s)) = limit" using d(2) by (simp add: commit_block_def)
  ultimately show ?thesis unfolding commit(1) using d(1,4,5,8) su live by (intro system_okI) simp_all
next
  case (erase i p h)
  note d = system_okD[OF ok]
  let ?ph = "(ms_phase s)[i := Freeing p]" and ?a = "free_block p (ms_alloc s)"
  have fl: "mset (concat (map in_flight ?ph)) = add_mset p (mset (concat (map in_flight (ms_phase s))))"
    using concat_update[OF erase(2), of in_flight "Freeing p"] erase(3) by simp
  have su: "sum_list (map pending ?ph) = sum_list (map pending (ms_phase s))"
    using sum_list_update_nat[OF erase(2), of pending "Freeing p"] erase(3) by simp
  have key: "p \<in> fst ` set (ba_active (ms_alloc s))" using erase(4) by (force dest: map_of_SomeD)
  then have p0: "p \<noteq> 0" using d(3) unfolding allocator_ok_def by metis
  have dist: "distinct (map fst (ba_active (ms_alloc s)))" using d(3) by (simp add: allocator_ok_def)
  have a: "?a = (ms_alloc s)\<lparr>ba_active := AList.delete p (ba_active (ms_alloc s)), ba_total := ba_total (ms_alloc s) - bh_size h,
      ba_category := (ba_category (ms_alloc s))(bh_category h := ba_category (ms_alloc s) (bh_category h) - bh_size h)\<rparr>"
    using erase(4) p0 by (simp add: free_block_def)
  have "mset (map fst (ba_active (ms_alloc s))) = add_mset p (mset (map fst (AList.delete p (ba_active (ms_alloc s)))))"
    using keys_delete_mset[OF dist key] .
  then have "mset (ms_live s) = mset (map fst (ba_active ?a)) + mset (concat (map in_flight ?ph))"
    using d(6) fl by (simp add: a)
  moreover have "unat (ba_total ?a) \<le> unat (ba_total (ms_alloc s))"
    using allocator_ok_le(1)[OF d(3) erase(4)] by (simp add: a unat_sub)
  moreover have "allocator_ok ?a" by (rule free_ok[OF d(3)])
  moreover have "\<forall>ph \<in> set ?ph. pending ph \<le> unat limit"
    using d(7) set_update_subset_insert[of "ms_phase s" i "Freeing p"] by auto
  moreover have "ba_limit ?a = limit" using d(2) by (simp add: a)
  ultimately show ?thesis unfolding erase(1) using d(1,4,5,8) su by (intro system_okI) simp_all
next
  case (driver_takes i p)
  note d = system_okD[OF ok]
  let ?ph = "(ms_phase s)[i := Idle]"
  have fl: "mset (concat (map in_flight (ms_phase s))) = add_mset p (mset (concat (map in_flight ?ph)))"
    using concat_update[OF driver_takes(2), of in_flight Idle] driver_takes(3) by simp
  have su: "sum_list (map pending ?ph) = sum_list (map pending (ms_phase s))"
    using sum_list_update_nat[OF driver_takes(2), of pending Idle] driver_takes(3) by simp
  have "mset (remove1 p (ms_live s)) = mset (map fst (ba_active (ms_alloc s))) + mset (concat (map in_flight ?ph))"
    using d(6) fl by (simp)
  moreover have "\<forall>ph \<in> set ?ph. pending ph \<le> unat limit"
    using d(7) set_update_subset_insert[of "ms_phase s" i Idle] by auto
  moreover have "0 \<notin> set (remove1 p (ms_live s))" using d(5) set_remove1_subset by fastforce
  ultimately show ?thesis unfolding driver_takes(1) using d su by (intro system_okI) simp_all
qed

lemma mreach_ok:
  "mreach malloc s t \<Longrightarrow> system_ok n limit s \<Longrightarrow> fresh_pointers malloc \<Longrightarrow> n * unat limit \<le> 2 ^ 62 \<Longrightarrow> system_ok n limit t"
  by (induction rule: mreach.induct) (auto dest: mstep_ok)

section \<open>Properties\<close>

text \<open>
  C15: However the steps of n threads interleave, the allocator's sums stay exact, no pointer is both
  tracked and on its way between a thread and the driver, and the total is at most n times the
  safety limit: with one thread the limit is kept. (The allocator starts empty, and n times the limit is
  at most 2^62 bytes.)
\<close>

theorem memory_threads:
  assumes "allocator_ok a" "ba_active a = []" "fresh_pointers malloc" "n * unat (ba_limit a) \<le> 2 ^ 62"
    and "mreach malloc (system_init n a) s"
  shows "allocator_ok (ms_alloc s) \<and> distinct (map fst (ba_active (ms_alloc s)) @ concat (map in_flight (ms_phase s))) \<and>
    mset (ms_live s) = mset (map fst (ba_active (ms_alloc s)) @ concat (map in_flight (ms_phase s))) \<and>
    unat (ba_total (ms_alloc s)) \<le> n * unat (ba_limit a)"
proof -
  note d = system_okD[OF mreach_ok[OF assms(5) system_init_ok[OF assms(1,2)] assms(3,4)]]
  have live: "mset (ms_live s) = mset (map fst (ba_active (ms_alloc s)) @ concat (map in_flight (ms_phase s)))" using d(6) by simp
  then have "distinct (map fst (ba_active (ms_alloc s)) @ concat (map in_flight (ms_phase s)))"
    using d(4) mset_eq_imp_distinct_iff by blast
  with live d(3,8) show ?thesis by simp
qed

text \<open>The bound is reached: two threads check 256 bytes each before either is recorded.\<close>

definition tight_allocator :: allocator where
  "tight_allocator = \<lparr>ba_active = [], ba_total_vram = 512, ba_limit = 256, ba_total = 0, ba_peak = 0, ba_category = (\<lambda>_. 0)\<rparr>"

definition next_pointer :: "nat list \<Rightarrow> 64 word \<Rightarrow> nat option" where
  "next_pointer used n = Some (Suc (sum_list used))"

lemma next_pointer_fresh: "fresh_pointers next_pointer"
proof -
  have "Suc (sum_list used) \<notin> set used" for used :: "nat list"
    using member_le_sum_list[of "Suc (sum_list used)" used] by auto
  then show ?thesis by (auto simp: fresh_pointers_def next_pointer_def)
qed

lemma align_256: "align_bytes 256 256 = 256"
  by (simp add: align_bytes_def)

lemma race_reached:
  "\<exists>s. mreach next_pointer (system_init 2 tight_allocator) s \<and> ba_total (ms_alloc s) = 512"
proof -
  let ?a = tight_allocator and ?M = "mreach next_pointer (system_init 2 tight_allocator)"
  let ?b = "commit_block 1 256 WEIGHTS ?a"
  have w: "within_budget 256 ?a" by (simp add: within_budget_def tight_allocator_def)
  have "?M \<lparr>ms_alloc = ?a, ms_live = [], ms_phase = [Idle, Idle]\<rparr>"
    using mreach.start[of next_pointer "system_init 2 ?a"] by (simp add: system_init_def numeral_2_eq_2)
  then have "?M \<lparr>ms_alloc = ?a, ms_live = [], ms_phase = [Checked 256 WEIGHTS, Idle]\<rparr>"
    by (rule mreach.step)
      (use mstep.check[of 0 "\<lparr>ms_alloc = ?a, ms_live = [], ms_phase = [Idle, Idle]\<rparr>" 256 next_pointer WEIGHTS] w in \<open>simp add: align_256\<close>)
  then have "?M \<lparr>ms_alloc = ?a, ms_live = [], ms_phase = [Checked 256 WEIGHTS, Checked 256 WEIGHTS]\<rparr>"
    by (rule mreach.step)
      (use mstep.check[of 1 "\<lparr>ms_alloc = ?a, ms_live = [], ms_phase = [Checked 256 WEIGHTS, Idle]\<rparr>" 256 next_pointer WEIGHTS] w in \<open>simp add: align_256\<close>)
  then have "?M \<lparr>ms_alloc = ?a, ms_live = [1], ms_phase = [Obtained 1 256 WEIGHTS, Checked 256 WEIGHTS]\<rparr>"
    by (rule mreach.step)
      (use mstep.driver_gives[of 0 "\<lparr>ms_alloc = ?a, ms_live = [], ms_phase = [Checked 256 WEIGHTS, Checked 256 WEIGHTS]\<rparr>"] in
        \<open>simp add: next_pointer_def\<close>)
  then have "?M \<lparr>ms_alloc = ?a, ms_live = [2, 1], ms_phase = [Obtained 1 256 WEIGHTS, Obtained 2 256 WEIGHTS]\<rparr>"
    by (rule mreach.step)
      (use mstep.driver_gives[of 1 "\<lparr>ms_alloc = ?a, ms_live = [1], ms_phase = [Obtained 1 256 WEIGHTS, Checked 256 WEIGHTS]\<rparr>"] in
        \<open>simp add: next_pointer_def\<close>)
  then have "?M \<lparr>ms_alloc = ?b, ms_live = [2, 1], ms_phase = [Idle, Obtained 2 256 WEIGHTS]\<rparr>"
    by (rule mreach.step)
      (use mstep.commit[of 0 "\<lparr>ms_alloc = ?a, ms_live = [2, 1], ms_phase = [Obtained 1 256 WEIGHTS, Obtained 2 256 WEIGHTS]\<rparr>"] in simp)
  then have "?M \<lparr>ms_alloc = commit_block 2 256 WEIGHTS ?b, ms_live = [2, 1], ms_phase = [Idle, Idle]\<rparr>"
    by (rule mreach.step)
      (use mstep.commit[of 1 "\<lparr>ms_alloc = ?b, ms_live = [2, 1], ms_phase = [Idle, Obtained 2 256 WEIGHTS]\<rparr>"] in simp)
  moreover have "ba_total (commit_block 2 256 WEIGHTS ?b) = 512" by (simp add: commit_block_def tight_allocator_def)
  ultimately show ?thesis by auto
qed

theorem memory_threads_witness:
  "\<exists>s. mreach next_pointer (system_init 2 tight_allocator) s \<and> ba_total (ms_alloc s) = 512 \<and>
    allocator_ok (ms_alloc s) \<and> unat (ba_total (ms_alloc s)) \<le> 2 * unat (ba_limit tight_allocator)"
proof -
  obtain s where s: "mreach next_pointer (system_init 2 tight_allocator) s" "ba_total (ms_alloc s) = 512" using race_reached by blast
  have a: "allocator_ok tight_allocator" "ba_active tight_allocator = []" "2 * unat (ba_limit tight_allocator) \<le> 2 ^ 62"
    by (simp_all add: allocator_ok_def tight_allocator_def)
  from memory_threads[OF a(1,2) next_pointer_fresh a(3) s(1)] s show ?thesis by blast
qed

end
