(* ===== verification/Pool_Threads.thy ===== *)
theory Pool_Threads
  imports Buffer_Pool
begin

text \<open>
  Threads that share one pool (\<open>csrc/src/memory/buffer_pool.cpp\<close>). \<open>acquire\<close> holds the mutex but for
  the recovery: it is released for the purge and taken again for the second attempt, so other threads
  may run in between. The critical sections are the first attempt, the purge and the second attempt;
  each thread also keeps the buffers that it was given.
\<close>

section \<open>Critical sections\<close>

text \<open>The first section: a cached buffer, or an attempt to allocate one.\<close>

definition acquire_first ::
  "(nat list \<Rightarrow> 64 word \<Rightarrow> nat option) \<Rightarrow> 64 word \<Rightarrow> 64 word \<Rightarrow> category \<Rightarrow> pool \<Rightarrow> nat option \<times> pool" where
  "acquire_first malloc sz bytes cat s0 =
     (let s = s0\<lparr>bp_allocations := bp_allocations s0 + 1\<rparr> in
      if bucket s sz \<noteq> [] then let (p, t) = reuse_buffer sz bytes s in (Some p, t)
      else attempt_allocation malloc sz bytes cat (s\<lparr>bp_misses := bp_misses s + 1\<rparr>))"

text \<open>The second attempt, after the purge.\<close>

definition acquire_retry ::
  "(nat list \<Rightarrow> 64 word \<Rightarrow> nat option) \<Rightarrow> 64 word \<Rightarrow> 64 word \<Rightarrow> category \<Rightarrow> pool \<Rightarrow> nat option \<times> pool" where
  "acquire_retry malloc sz bytes cat s =
     attempt_allocation malloc sz bytes cat (s\<lparr>bp_recoveries := bp_recoveries s + 1\<rparr>)"

lemma acquire_sections:
  "acquire malloc bytes cat s =
     (if bytes = 0 then Some (Inr 0, s)
      else case calculate_bucket_size bytes of
        None \<Rightarrow> None
      | Some sz \<Rightarrow>
          Some (case acquire_first malloc sz bytes cat s of
              (Some p, t) \<Rightarrow> (Inr p, t)
            | (None, t) \<Rightarrow>
                (case acquire_retry malloc sz bytes cat (snd (purge_free_buffers t)) of
                   (Some p, v) \<Rightarrow> (Inr p, v)
                 | (None, v) \<Rightarrow> (Inl PoolOutOfMemory, v))))"
  by (simp add: acquire_def acquire_first_def acquire_retry_def Let_def case_prod_beta split: option.splits)

section \<open>Steps\<close>

datatype pool_phase = Ready | Purging "64 word" "64 word" category | Retrying "64 word" "64 word" category

record pool_system =
  py_pool :: pool
  py_phase :: "nat \<Rightarrow> pool_phase"
  py_held :: "nat \<Rightarrow> nat list"

definition pool_system_init :: "pool \<Rightarrow> pool_system" where
  "pool_system_init s = \<lparr>py_pool = s, py_phase = (\<lambda>_. Ready), py_held = (\<lambda>_. [])\<rparr>"

inductive pstep :: "(nat list \<Rightarrow> 64 word \<Rightarrow> nat option) \<Rightarrow> pool_system \<Rightarrow> pool_system \<Rightarrow> bool" for malloc where
  given: "\<lbrakk>py_phase s i = Ready; bytes \<noteq> 0; unat bytes \<le> 2 ^ 62; calculate_bucket_size bytes = Some sz;
           acquire_first malloc sz bytes cat (py_pool s) = (Some p, t)\<rbrakk>
    \<Longrightarrow> pstep malloc s (s\<lparr>py_pool := t, py_held := (py_held s)(i := p # py_held s i)\<rparr>)"
| missed: "\<lbrakk>py_phase s i = Ready; bytes \<noteq> 0; unat bytes \<le> 2 ^ 62; calculate_bucket_size bytes = Some sz;
           acquire_first malloc sz bytes cat (py_pool s) = (None, t)\<rbrakk>
    \<Longrightarrow> pstep malloc s (s\<lparr>py_pool := t, py_phase := (py_phase s)(i := Purging sz bytes cat)\<rparr>)"
| purges: "py_phase s i = Purging sz bytes cat
    \<Longrightarrow> pstep malloc s (s\<lparr>py_pool := snd (purge_free_buffers (py_pool s)),
                         py_phase := (py_phase s)(i := Retrying sz bytes cat)\<rparr>)"
| recovers: "\<lbrakk>py_phase s i = Retrying sz bytes cat; acquire_retry malloc sz bytes cat (py_pool s) = (Some p, t)\<rbrakk>
    \<Longrightarrow> pstep malloc s (s\<lparr>py_pool := t, py_phase := (py_phase s)(i := Ready),
                         py_held := (py_held s)(i := p # py_held s i)\<rparr>)"
| fails: "\<lbrakk>py_phase s i = Retrying sz bytes cat; acquire_retry malloc sz bytes cat (py_pool s) = (None, t)\<rbrakk>
    \<Longrightarrow> pstep malloc s (s\<lparr>py_pool := t, py_phase := (py_phase s)(i := Ready)\<rparr>)"
| releases: "\<lbrakk>py_phase s i = Ready; p \<in> set (py_held s i)\<rbrakk>
    \<Longrightarrow> pstep malloc s (s\<lparr>py_pool := release_buffer p (py_pool s),
                         py_held := (py_held s)(i := remove1 p (py_held s i))\<rparr>)"
| flushes: "py_phase s i = Ready
    \<Longrightarrow> pstep malloc s (s\<lparr>py_pool := snd (purge_free_buffers (py_pool s))\<rparr>)"

inductive preach :: "(nat list \<Rightarrow> 64 word \<Rightarrow> nat option) \<Rightarrow> pool_system \<Rightarrow> pool_system \<Rightarrow> bool" for malloc s0 where
  start: "preach malloc s0 s0"
| step: "preach malloc s0 s \<Longrightarrow> pstep malloc s t \<Longrightarrow> preach malloc s0 t"

section \<open>Invariant\<close>

fun fits :: "pool_phase \<Rightarrow> bool" where
  "fits Ready = True"
| "fits (Purging sz bytes cat) = (unat sz \<le> 2 ^ 62 \<and> sz \<noteq> 0 \<and> bytes \<le> sz)"
| "fits (Retrying sz bytes cat) = (unat sz \<le> 2 ^ 62 \<and> sz \<noteq> 0 \<and> bytes \<le> sz)"

text \<open>A buffer is in use exactly when a thread holds it, and then one thread holds it once.\<close>

definition holders_ok :: "(nat \<Rightarrow> (64 word \<times> 64 word) option) \<Rightarrow> (nat \<Rightarrow> nat list) \<Rightarrow> bool" where
  "holders_ok view held \<longleftrightarrow>
     (\<forall>i. distinct (held i)) \<and> (\<forall>i j p. p \<in> set (held i) \<longrightarrow> p \<in> set (held j) \<longrightarrow> i = j) \<and>
     (\<forall>p. view p \<noteq> None \<longleftrightarrow> (\<exists>i. p \<in> set (held i))) \<and>
     (\<forall>p b c. view p = Some (b, c) \<longrightarrow> b \<le> c)"

lemma holders_okD:
  assumes "holders_ok view held"
  shows "distinct (held i)" "p \<in> set (held i) \<Longrightarrow> p \<in> set (held j) \<Longrightarrow> i = j"
    "view p \<noteq> None \<longleftrightarrow> (\<exists>i. p \<in> set (held i))" "view p = Some (b, c) \<Longrightarrow> b \<le> c"
  using assms unfolding holders_ok_def by blast+

lemma holders_give:
  assumes ok: "holders_ok view held" and free: "view p = None" and le: "b \<le> c"
  shows "holders_ok (view(p \<mapsto> (b, c))) (held(i := p # held i))"
proof -
  have no: "p \<notin> set (held j)" for j using holders_okD(3)[OF ok, of p] free by blast
  have "distinct ((held(i := p # held i)) j)" for j using holders_okD(1)[OF ok] no by simp
  moreover have "j = k" if "q \<in> set ((held(i := p # held i)) j)" "q \<in> set ((held(i := p # held i)) k)" for q j k
    using that holders_okD(2)[OF ok, of q j k] no by (auto split: if_splits)
  moreover have "(view(p \<mapsto> (b, c))) q \<noteq> None \<longleftrightarrow> (\<exists>j. q \<in> set ((held(i := p # held i)) j))" for q
  proof (cases "q = p")
    case True
    then show ?thesis by (auto intro!: exI[of _ i])
  next
    case False
    then have "q \<in> set ((held(i := p # held i)) j) \<longleftrightarrow> q \<in> set (held j)" for j by simp
    then show ?thesis using False holders_okD(3)[OF ok, of q] by simp
  qed
  moreover have "b' \<le> c'" if "(view(p \<mapsto> (b, c))) q = Some (b', c')" for q b' c'
    using that le holders_okD(4)[OF ok, of q] by (auto split: if_splits)
  ultimately show ?thesis unfolding holders_ok_def by blast
qed

lemma holders_take:
  assumes ok: "holders_ok view held" and has: "p \<in> set (held i)"
  shows "holders_ok (view(p := None)) (held(i := remove1 p (held i)))"
proof -
  have mem: "q \<in> set ((held(i := remove1 p (held i))) j) \<longleftrightarrow> q \<noteq> p \<and> q \<in> set (held j)" for q j
    using holders_okD(1)[OF ok, of i] holders_okD(2)[OF ok has, of j] by (auto simp: set_remove1_eq)
  have "distinct ((held(i := remove1 p (held i))) j)" for j using holders_okD(1)[OF ok] by (simp add: distinct_remove1)
  then show ?thesis unfolding holders_ok_def mem using holders_okD(2-4)[OF ok] by auto
qed

definition threads_ok :: "pool_system \<Rightarrow> bool" where
  "threads_ok s \<longleftrightarrow> pool_ok (py_pool s) \<and> holders_ok (in_use (py_pool s)) (py_held s) \<and> (\<forall>i. fits (py_phase s i))"

lemma first_ok:
  assumes ok: "pool_ok s" and fresh: "fresh_pointers malloc" and sz: "unat sz \<le> 2 ^ 62" "sz \<noteq> 0"
    and run: "acquire_first malloc sz bytes cat s = (r, t)"
  shows "pool_ok t" "r = None \<Longrightarrow> in_use t = in_use s"
    "r = Some p \<Longrightarrow> in_use s p = None" "r = Some p \<Longrightarrow> in_use t = (in_use s)(p \<mapsto> (bytes, sz))"
proof -
  let ?s = "s\<lparr>bp_allocations := bp_allocations s + 1\<rparr>"
  let ?m = "?s\<lparr>bp_misses := bp_misses ?s + 1\<rparr>"
  have "pool_ok t \<and> (r = None \<longrightarrow> in_use t = in_use s) \<and>
    (\<forall>p. r = Some p \<longrightarrow> in_use s p = None \<and> in_use t = (in_use s)(p \<mapsto> (bytes, sz)))"
  proof (cases "bucket s sz = []")
    case False
    obtain q u where re: "reuse_buffer sz bytes ?s = (q, u)" by (cases "reuse_buffer sz bytes ?s")
    then have eq: "r = Some q" "t = u" using run False by (auto simp: acquire_first_def Let_def)
    have pre: "pool_ok ?s" "bucket ?s sz \<noteq> []" using ok False by simp_all
    show ?thesis using reuse_ok(1)[OF pre re] reuse_in_use[OF pre re] eq by simp
  next
    case True
    then have at: "attempt_allocation malloc sz bytes cat ?m = (r, t)" using run by (simp add: acquire_first_def Let_def)
    have okm: "pool_ok ?m" using ok by simp
    show ?thesis
    proof (cases r)
      case None
      with attempt_fails at have "t = ?m" by metis
      with okm None show ?thesis by simp
    next
      case (Some q)
      with attempt_ok[OF okm fresh sz] at show ?thesis by fastforce
    qed
  qed
  then show "pool_ok t" "r = None \<Longrightarrow> in_use t = in_use s"
    "r = Some p \<Longrightarrow> in_use s p = None" "r = Some p \<Longrightarrow> in_use t = (in_use s)(p \<mapsto> (bytes, sz))" by simp_all
qed

lemma retry_ok:
  assumes ok: "pool_ok s" and fresh: "fresh_pointers malloc" and sz: "unat sz \<le> 2 ^ 62" "sz \<noteq> 0"
    and run: "acquire_retry malloc sz bytes cat s = (r, t)"
  shows "pool_ok t" "r = None \<Longrightarrow> in_use t = in_use s"
    "r = Some p \<Longrightarrow> in_use s p = None" "r = Some p \<Longrightarrow> in_use t = (in_use s)(p \<mapsto> (bytes, sz))"
proof -
  let ?m = "s\<lparr>bp_recoveries := bp_recoveries s + 1\<rparr>"
  have at: "attempt_allocation malloc sz bytes cat ?m = (r, t)" using run by (simp add: acquire_retry_def)
  have okm: "pool_ok ?m" using ok by simp
  have "pool_ok t \<and> (r = None \<longrightarrow> in_use t = in_use s) \<and>
    (\<forall>p. r = Some p \<longrightarrow> in_use s p = None \<and> in_use t = (in_use s)(p \<mapsto> (bytes, sz)))"
  proof (cases r)
    case None
    with attempt_fails at have "t = ?m" by metis
    with okm None show ?thesis by simp
  next
    case (Some q)
    with attempt_ok[OF okm fresh sz] at show ?thesis by fastforce
  qed
  then show "pool_ok t" "r = None \<Longrightarrow> in_use t = in_use s"
    "r = Some p \<Longrightarrow> in_use s p = None" "r = Some p \<Longrightarrow> in_use t = (in_use s)(p \<mapsto> (bytes, sz))" by simp_all
qed

lemma purged_ok: "pool_ok s \<Longrightarrow> pool_ok (snd (purge_free_buffers s)) \<and> in_use (snd (purge_free_buffers s)) = in_use s"
  using purge_ok(1,2)[of s] by (metis prod.collapse)

lemma pstep_ok:
  assumes "pstep malloc s t" and ok: "threads_ok s" and fresh: "fresh_pointers malloc"
  shows "threads_ok t"
proof -
  have pool: "pool_ok (py_pool s)" and held: "holders_ok (in_use (py_pool s)) (py_held s)" and fit: "fits (py_phase s i)" for i
    using ok by (simp_all add: threads_ok_def)
  from assms(1) show ?thesis
  proof cases
    case (given i bytes sz cat p u)
    obtain sz' where "calculate_bucket_size bytes = Some sz'" "unat sz' \<le> 2 ^ 62" "sz' \<noteq> 0" "bytes \<le> sz'"
      using bucket_size_bound[OF given(4)] .
    then have sz: "unat sz \<le> 2 ^ 62" "sz \<noteq> 0" "bytes \<le> sz" using given(5) by simp_all
    note st = first_ok[OF pool fresh sz(1,2) given(6)]
    show ?thesis using st(1,3,4) holders_give[OF held, of p bytes sz i] sz(3) fit by (simp add: given(1) threads_ok_def)
  next
    case (missed i bytes sz cat u)
    obtain sz' where "calculate_bucket_size bytes = Some sz'" "unat sz' \<le> 2 ^ 62" "sz' \<noteq> 0" "bytes \<le> sz'"
      using bucket_size_bound[OF missed(4)] .
    then have sz: "unat sz \<le> 2 ^ 62" "sz \<noteq> 0" "bytes \<le> sz" using missed(5) by simp_all
    note st = first_ok[OF pool fresh sz(1,2) missed(6)]
    show ?thesis using st(1,2) held sz fit by (simp add: missed(1) threads_ok_def)
  next
    case (purges i sz bytes cat)
    have "fits (Purging sz bytes cat)" using fit[of i] unfolding purges(2) .
    then show ?thesis using purged_ok[OF pool] held fit by (simp add: purges(1) threads_ok_def)
  next
    case (recovers i sz bytes cat p u)
    have sz: "unat sz \<le> 2 ^ 62" "sz \<noteq> 0" "bytes \<le> sz" using fit[of i] recovers(2) by simp_all
    note st = retry_ok[OF pool fresh sz(1,2) recovers(3)]
    show ?thesis using st(1,3,4) holders_give[OF held, of p bytes sz i] sz(3) fit by (simp add: recovers(1) threads_ok_def)
  next
    case (fails i sz bytes cat u)
    have sz: "unat sz \<le> 2 ^ 62" "sz \<noteq> 0" using fit[of i] fails(2) by simp_all
    note st = retry_ok[OF pool fresh sz fails(3)]
    show ?thesis using st(1,2) held fit by (simp add: fails(1) threads_ok_def)
  next
    case (releases i p)
    show ?thesis using release_ok[OF pool, of p] holders_take[OF held releases(3)] fit by (simp add: releases(1) threads_ok_def)
  next
    case (flushes i)
    show ?thesis using purged_ok[OF pool] held fit by (simp add: flushes(1) threads_ok_def)
  qed
qed

lemma preach_ok: "preach malloc s t \<Longrightarrow> threads_ok s \<Longrightarrow> fresh_pointers malloc \<Longrightarrow> threads_ok t"
  by (induction rule: preach.induct) (auto dest: pstep_ok)

lemma pool_system_init_ok: "budget_ok a \<Longrightarrow> threads_ok (pool_system_init (pool_init a n))"
  using pool_init_ok[of a n]
  by (simp add: threads_ok_def pool_system_init_def holders_ok_def in_use_def pool_init_def)

section \<open>Properties\<close>

text \<open>
  C18: However the critical sections of threads interleave, also around the purge of a thread that is
  out of memory, a buffer is in use exactly when a thread holds it, no two threads hold the same
  buffer, a held buffer is as large as was asked for, and the pool's and the allocator's sums stay
  exact.
\<close>

theorem pool_threads_exclusive:
  assumes "budget_ok a" and "fresh_pointers malloc"
    and "preach malloc (pool_system_init (pool_init a n)) s"
  shows "pool_ok (py_pool s) \<and> distinct (py_held s i) \<and>
    (if i = j then True else set (py_held s i) \<inter> set (py_held s j) = {}) \<and>
    (in_use (py_pool s) p \<noteq> None) = (\<exists>k. p \<in> set (py_held s k)) \<and>
    (case in_use (py_pool s) p of None \<Rightarrow> True | Some (b, c) \<Rightarrow> b \<le> c)"
  using preach_ok[OF assms(3) pool_system_init_ok[OF assms(1)] assms(2)]
  unfolding threads_ok_def holders_ok_def by (auto split: option.splits)

text \<open>A run in which thread 0 is given a buffer.\<close>

lemma demo_given:
  "\<exists>s. preach bump_malloc (pool_system_init (pool_init small_allocator 0)) s \<and> py_held s 0 = [1]"
proof -
  let ?s = "pool_system_init (pool_init small_allocator 0)"
  have size: "calculate_bucket_size 256 = Some 256"
    unfolding calculate_bucket_size_def by (subst while_option_unfold) simp
  have "fst (acquire_first bump_malloc 256 256 WORKSPACE (py_pool ?s)) = Some 1"
    by (simp add: acquire_first_def pool_system_init_def pool_init_def bucket_def attempt_allocation_def allocate_def
        within_budget_def align_bytes_def small_allocator_def bump_malloc_def)
  then obtain t where "acquire_first bump_malloc 256 256 WORKSPACE (py_pool ?s) = (Some 1, t)" by (metis prod.collapse)
  then have "pstep bump_malloc ?s (?s\<lparr>py_pool := t, py_held := (py_held ?s)(0 := 1 # py_held ?s 0)\<rparr>)"
    by (intro pstep.given[where bytes = 256 and sz = 256]) (simp_all add: size pool_system_init_def)
  from preach.step[OF preach.start this] show ?thesis
    by (rule exI[where x = "?s\<lparr>py_pool := t, py_held := (py_held ?s)(0 := 1 # py_held ?s 0)\<rparr>", OF conjI])
      (simp add: pool_system_init_def)
qed

theorem pool_threads_exclusive_witness:
  "\<exists>s. preach bump_malloc (pool_system_init (pool_init small_allocator 0)) s \<and> pool_ok (py_pool s) \<and>
    in_use (py_pool s) 1 \<noteq> None \<and> set (py_held s 0) \<inter> set (py_held s 1) = {}"
proof -
  obtain s where s: "preach bump_malloc (pool_system_init (pool_init small_allocator 0)) s" "py_held s 0 = [1]"
    using demo_given by blast
  have one: "1 \<in> set (py_held s 0)" by (simp add: s(2))
  show ?thesis
    using pool_threads_exclusive[OF small_allocator_ok bump_fresh s(1), of 0 1 1] s(1) one
    by (intro exI[of _ s]) auto
qed

end
