(* ===== verification/Warp.thy ===== *)
theory Warp
  imports Complex_Main "HOL-Library.Multiset"
begin

text \<open>
  What the CUDA kernels (\<open>csrc/kernels/cuda\<close>, \<open>engine/sampling.h\<close>) share: the loop of a thread over
  every \<open>blockDim\<close>-th element, and the reductions over a warp of 32 lanes by exclusive-or shuffles and
  over a block by one shared value per warp. Floats are reals.
\<close>

unbundle bit_operations_syntax

section \<open>Loops of a thread\<close>

text \<open>\<open>for (int i = tid; i < n; i += blockDim.x)\<close>; a block has at least one thread.\<close>

function strided :: "nat \<Rightarrow> nat \<Rightarrow> nat \<Rightarrow> nat list" where
  "strided step n i = (if i < n \<and> 0 < step then i # strided step n (i + step) else [])"
  by pat_completeness auto

termination by (relation "measure (\<lambda>(step, n, i). n - i)") auto

declare strided.simps [simp del]

lemma strided_mem: "0 < step \<Longrightarrow> j \<in> set (strided step n i) \<longleftrightarrow> i \<le> j \<and> j < n \<and> j mod step = i mod step"
proof (induction step n i rule: strided.induct)
  case (1 step n i)
  show ?case
  proof (cases "i < n")
    case True
    with 1 have IH: "j \<in> set (strided step n (i + step)) \<longleftrightarrow> i + step \<le> j \<and> j < n \<and> j mod step = i mod step" by simp
    have "i + step \<le> j" if ij: "i < j" "j mod step = i mod step"
    proof -
      obtain q where "j = i + step * q" using mod_eq_nat1E[OF ij(2)] ij(1) by (metis less_imp_le)
      then show ?thesis using ij(1) by (cases q) auto
    qed
    then show ?thesis using IH True 1(2) by (subst strided.simps) auto
  next
    case False
    then show ?thesis by (subst strided.simps) auto
  qed
qed

lemma strided_distinct: "distinct (strided step n i)"
proof (induction step n i rule: strided.induct)
  case (1 step n i)
  show ?case
  proof (cases "i < n \<and> 0 < step")
    case True
    then have "i \<notin> set (strided step n (i + step))" using strided_mem[of step i n "i + step"] by simp
    then show ?thesis using 1 True by (subst strided.simps) simp
  next
    case False
    then have "strided step n i = []" by (subst strided.simps) simp
    then show ?thesis by simp
  qed
qed

text \<open>The threads of a block visit every element once.\<close>

definition visits :: "nat \<Rightarrow> nat \<Rightarrow> nat list" where
  "visits step n = concat (map (strided step n) [0..<step])"

lemma visits_all: "0 < step \<Longrightarrow> set (visits step n) = {..<n} \<and> distinct (visits step n)"
proof -
  assume pos: "0 < step"
  have "set (visits step n) = {..<n}"
  proof (intro set_eqI iffI)
    fix j assume "j \<in> {..<n}"
    then have "j \<in> set (strided step n (j mod step))" using pos by (simp add: strided_mem mod_less_eq_dividend)
    then show "j \<in> set (visits step n)" using pos by (auto simp: visits_def intro!: bexI[of _ "j mod step"])
  qed (use pos in \<open>auto simp: visits_def strided_mem\<close>)
  moreover have "distinct (concat (map (strided step n) [0..<k]))" if "k \<le> step" for k
    using that
  proof (induction k)
    case (Suc k)
    have "j mod step < k" if "j \<in> set (concat (map (strided step n) [0..<k]))" for j
      using that Suc.prems pos by (auto simp: strided_mem)
    moreover have "j mod step = k" if "j \<in> set (strided step n k)" for j
      using that Suc.prems pos by (simp add: strided_mem)
    ultimately have "set (concat (map (strided step n) [0..<k])) \<inter> set (strided step n k) = {}" by fastforce
    with Suc show ?case by (simp add: strided_distinct)
  qed simp
  from this[OF order_refl] have "distinct (visits step n)" by (simp add: visits_def)
  ultimately show ?thesis ..
qed


lemma fold_nested: "fold (\<lambda>i. fold f (g i)) xs = fold f (concat (map g xs))"
  by (induction xs) (simp_all add: fun_eq_iff)

lemma visits_sum:
  fixes f :: "nat \<Rightarrow> 'a :: comm_monoid_add"
  assumes "0 < step"
  shows "(\<Sum>i\<leftarrow>[0..<step]. \<Sum>j\<leftarrow>strided step n i. f j) = (\<Sum>j<n. f j)"
proof -
  have "(\<Sum>i\<leftarrow>[0..<step]. \<Sum>j\<leftarrow>strided step n i. f j) = (\<Sum>j\<leftarrow>visits step n. f j)"
    unfolding visits_def by (induction rule: list.induct[of _ "[0..<step]"]) simp_all
  also have "\<dots> = (\<Sum>j\<in>set (visits step n). f j)"
    using visits_all[OF assms] by (simp add: sum_list_distinct_conv_sum_set)
  finally show ?thesis using visits_all[OF assms] by simp
qed

section \<open>Warp reductions\<close>

text \<open>\<open>__shfl_xor_sync\<close>: every lane reads the value of the lane whose number differs in the mask.\<close>

definition shfl_xor :: "nat \<Rightarrow> 'a list \<Rightarrow> 'a list" where
  "shfl_xor m vals = map (\<lambda>lane. vals ! (lane XOR m)) [0..<32]"

definition warp_reduce :: "('a \<Rightarrow> 'a \<Rightarrow> 'a) \<Rightarrow> 'a list \<Rightarrow> 'a list" where
  "warp_reduce f vals = fold (\<lambda>m vals. map2 f vals (shfl_xor m vals)) [16, 8, 4, 2, 1] vals"

text \<open>The lanes that agree with a lane in the lowest bits.\<close>

definition class_of :: "nat \<Rightarrow> nat \<Rightarrow> nat set" where
  "class_of k lane = {j. j < 32 \<and> take_bit k j = take_bit k lane}"

lemma take_bit_Suc_iff:
  "take_bit (Suc k) (i :: nat) = take_bit (Suc k) j \<longleftrightarrow> take_bit k i = take_bit k j \<and> (bit i k \<longleftrightarrow> bit j k)"
  unfolding bit_eq_iff[of "take_bit (Suc k) i"] bit_eq_iff[of "take_bit k i"]
  by (auto simp: bit_take_bit_iff less_Suc_eq)

lemma xor_lane:
  assumes "k < 5" "lane < (32 :: nat)"
  shows "lane XOR 2 ^ k < 32" "take_bit k (lane XOR 2 ^ k) = take_bit k lane" "bit (lane XOR 2 ^ k) k \<longleftrightarrow> \<not> bit lane k"
proof -
  have self: "take_bit 5 (lane XOR 2 ^ k) = lane XOR 2 ^ k"
    using assms by (simp add: take_bit_xor take_bit_nat_eq_self)
  show "lane XOR 2 ^ k < 32" using take_bit_nat_less_exp[of 5 "lane XOR 2 ^ k"] unfolding self by simp
  show "take_bit k (lane XOR 2 ^ k) = take_bit k lane" by (simp add: take_bit_xor)
  show "bit (lane XOR 2 ^ k) k \<longleftrightarrow> \<not> bit lane k" by (simp add: bit_xor_iff bit_exp_iff)
qed

lemma class_split:
  assumes "k < 5" "lane < 32"
  shows "class_of k lane = class_of (Suc k) lane \<union> class_of (Suc k) (lane XOR 2 ^ k)"
    "class_of (Suc k) lane \<inter> class_of (Suc k) (lane XOR 2 ^ k) = {}"
    "finite (class_of k lane)" "lane \<in> class_of k lane"
  using assms unfolding class_of_def take_bit_Suc_iff xor_lane(2,3)[OF assms] by auto

lemma class_ends: "lane < 32 \<Longrightarrow> class_of 5 lane = {lane}" "class_of 0 lane = {..<32}"
  by (auto simp: class_of_def take_bit_nat_eq_self)

text \<open>An operator that aggregates disjoint sets of lanes.\<close>

locale lane_operator =
  fixes f :: "'a \<Rightarrow> 'a \<Rightarrow> 'a" and agg :: "(nat \<Rightarrow> 'a) \<Rightarrow> nat set \<Rightarrow> 'a"
  assumes agg_single: "agg v {i} = v i"
    and agg_join: "finite A \<Longrightarrow> finite B \<Longrightarrow> A \<noteq> {} \<Longrightarrow> B \<noteq> {} \<Longrightarrow> A \<inter> B = {} \<Longrightarrow> agg v (A \<union> B) = f (agg v A) (agg v B)"
begin

lemma shuffle_stage:
  assumes k: "k < 5" and len: "length vals = 32" and inv: "\<And>i. i < 32 \<Longrightarrow> vals ! i = agg v (class_of (Suc k) i)"
  shows "length (map2 f vals (shfl_xor (2 ^ k) vals)) = 32"
    "i < 32 \<Longrightarrow> map2 f vals (shfl_xor (2 ^ k) vals) ! i = agg v (class_of k i)"
proof -
  show "length (map2 f vals (shfl_xor (2 ^ k) vals)) = 32" by (simp add: len shfl_xor_def)
  assume i: "i < 32"
  let ?j = "i XOR 2 ^ k"
  have j: "?j < 32" by (rule xor_lane(1)[OF k i])
  have fin: "finite (class_of (Suc k) i)" "finite (class_of (Suc k) ?j)" by (simp_all add: class_of_def)
  have ne: "class_of (Suc k) i \<noteq> {}" "class_of (Suc k) ?j \<noteq> {}" using i j by (auto simp: class_of_def)
  have "map2 f vals (shfl_xor (2 ^ k) vals) ! i = f (vals ! i) (vals ! ?j)" using i len by (simp add: shfl_xor_def)
  also have "\<dots> = agg v (class_of (Suc k) i \<union> class_of (Suc k) ?j)"
    using inv[OF i] inv[OF j] agg_join[OF fin ne class_split(2)[OF k i], of v] by simp
  also have "\<dots> = agg v (class_of k i)" using class_split(1)[OF k i] by simp
  finally show "map2 f vals (shfl_xor (2 ^ k) vals) ! i = agg v (class_of k i)" .
qed

lemma shuffle_stages:
  "n \<le> 5 \<Longrightarrow> length vals = 32 \<Longrightarrow> (\<And>i. i < 32 \<Longrightarrow> vals ! i = agg v (class_of n i)) \<Longrightarrow>
   length (fold (\<lambda>m vals. map2 f vals (shfl_xor m vals)) (map (\<lambda>k. 2 ^ k) (rev [0..<n])) vals) = 32 \<and>
   (\<forall>i < 32. fold (\<lambda>m vals. map2 f vals (shfl_xor m vals)) (map (\<lambda>k. 2 ^ k) (rev [0..<n])) vals ! i = agg v (class_of 0 i))"
proof (induction n arbitrary: vals)
  case (Suc n)
  then have k: "n < 5" by simp
  note st = shuffle_stage[OF k Suc.prems(2,3)]
  show ?case using Suc.IH[OF _ st] k by simp
qed simp

lemma warp_reduce_agg:
  assumes "length vals = 32"
  shows "length (warp_reduce f vals) = 32" "i < 32 \<Longrightarrow> warp_reduce f vals ! i = agg (\<lambda>j. vals ! j) {..<32}"
proof -
  have "map (\<lambda>k. 2 ^ k) (rev [0..<5]) = [16, 8, 4, 2, 1 :: nat]" by (simp add: upt_rec)
  then have "warp_reduce f vals = fold (\<lambda>m vals. map2 f vals (shfl_xor m vals)) (map (\<lambda>k. 2 ^ k) (rev [0..<5])) vals"
    by (simp only: warp_reduce_def)
  with shuffle_stages[of 5 vals "\<lambda>j. vals ! j"] assms
  show "length (warp_reduce f vals) = 32" "i < 32 \<Longrightarrow> warp_reduce f vals ! i = agg (\<lambda>j. vals ! j) {..<32}"
    by (simp_all add: class_ends agg_single)
qed

end

interpretation lane_sum: lane_operator "(+)" "\<lambda>v A. sum v A :: real"
  by unfold_locales (simp_all add: sum.union_disjoint)

interpretation lane_max: lane_operator max "\<lambda>v A. Max (v ` A) :: real"
  by unfold_locales (simp_all add: image_Un Max_Un)

section \<open>Block reductions\<close>

text \<open>Lane 0 of each warp stores its result; the first warp reduces what was stored, filled up with \<open>e\<close>.\<close>

definition warp_lanes :: "nat \<Rightarrow> 'a list \<Rightarrow> 'a list" where
  "warp_lanes w vals = take 32 (drop (32 * w) vals)"

definition block_reduce :: "('a \<Rightarrow> 'a \<Rightarrow> 'a) \<Rightarrow> 'a \<Rightarrow> 'a list \<Rightarrow> 'a" where
  "block_reduce f e vals =
     (let num_warps = length vals div 32;
          shared = map (\<lambda>w. warp_reduce f (warp_lanes w vals) ! 0) [0..<num_warps]
      in warp_reduce f (map (\<lambda>tid. if tid < num_warps then shared ! tid else e) [0..<32]) ! 0)"

lemma lanes_length: "w < length vals div 32 \<Longrightarrow> length (warp_lanes w vals) = 32"
  by (simp add: warp_lanes_def)

lemma sum_list_warps: "sum_list (map (\<lambda>w. sum_list (warp_lanes w vals)) [0..<n]) = sum_list (take (32 * n) vals)"
proof (induction n)
  case (Suc n)
  have "take (32 * Suc n) vals = take (32 * n) vals @ warp_lanes n vals"
    by (simp add: warp_lanes_def flip: take_add) (simp add: add.commute)
  with Suc show ?case by simp
qed simp

lemma warp_sum: "length vals = 32 \<Longrightarrow> i < 32 \<Longrightarrow> warp_reduce (+) vals ! i = sum_list (vals :: real list)"
  using lane_sum.warp_reduce_agg(2)[of vals i] by (simp add: sum_list_sum_nth atLeast0LessThan)

lemma block_sum:
  assumes "length vals = 32 * n" "n \<le> 32"
  shows "block_reduce (+) 0 vals = sum_list (vals :: real list)"
proof -
  let ?s = "map (\<lambda>w. warp_reduce (+) (warp_lanes w vals) ! 0) [0..<n]"
  have n: "length vals div 32 = n" using assms by simp
  have s: "?s = map (\<lambda>w. sum_list (warp_lanes w vals)) [0..<n]"
    using lanes_length[of _ vals] n by (simp add: warp_sum)
  have "map (\<lambda>tid. if tid < n then ?s ! tid else 0) [0..<32] = ?s @ replicate (32 - n) 0"
    using assms(2) by (intro nth_equalityI) (auto simp: nth_append)
  then have "block_reduce (+) 0 vals = sum_list (?s @ replicate (32 - n) 0)"
    using assms(2) unfolding block_reduce_def n Let_def by (simp only:) (subst warp_sum, simp_all)
  also have "\<dots> = sum_list vals" using sum_list_warps[of vals n] assms(1) by (simp add: s sum_list_replicate)
  finally show ?thesis .
qed

lemma warp_max: "length vals = 32 \<Longrightarrow> i < 32 \<Longrightarrow> warp_reduce max vals ! i = Max (set (vals :: real list))"
  using lane_max.warp_reduce_agg(2)[of vals i] by (simp add: set_conv_nth image_def lessThan_def) metis

lemma Max_warps:
  "0 < n \<Longrightarrow> n \<le> length vals div 32 \<Longrightarrow> (\<Union>w \<in> {..<n}. set (warp_lanes w vals)) = set (take (32 * n) vals)"
proof (induction n)
  case (Suc n)
  have eq: "take (32 * Suc n) vals = take (32 * n) vals @ warp_lanes n vals"
    by (simp add: warp_lanes_def flip: take_add) (simp add: add.commute)
  show ?case
  proof (cases n)
    case 0
    then show ?thesis by (simp add: warp_lanes_def lessThan_Suc)
  next
    case (Suc m)
    with Suc.IH Suc.prems have "(\<Union>w \<in> {..<n}. set (warp_lanes w vals)) = set (take (32 * n) vals)" by simp
    then show ?thesis unfolding eq by (auto simp: lessThan_Suc)
  qed
qed simp

lemma block_max:
  assumes "length vals = 32 * n" "0 < n" "n \<le> 32" "\<And>x. x \<in> set vals \<Longrightarrow> e \<le> x"
  shows "block_reduce max e vals = Max (set (vals :: real list))"
proof -
  let ?s = "map (\<lambda>w. warp_reduce max (warp_lanes w vals) ! 0) [0..<n]"
  have n: "length vals div 32 = n" using assms by simp
  have lane: "length (warp_lanes w vals) = 32" if "w < n" for w using lanes_length[of w vals] n that by simp
  have sub: "set (warp_lanes w vals) \<subseteq> set vals" for w
    unfolding warp_lanes_def by (meson order_trans set_drop_subset set_take_subset)
  have s: "set ?s = (\<lambda>w. Max (set (warp_lanes w vals))) ` {..<n}" using lane by (auto simp: warp_max)
  have ne: "set (warp_lanes w vals) \<noteq> {}" if "w < n" for w using lane[OF that] by auto
  have all: "set vals = (\<Union>w \<in> {..<n}. set (warp_lanes w vals))" using Max_warps[of n vals] assms n by simp
  have shared: "map (\<lambda>tid. if tid < n then ?s ! tid else e) [0..<32] = ?s @ replicate (32 - n) e"
    using assms(3) by (intro nth_equalityI) (auto simp: nth_append)
  have "block_reduce max e vals = Max (set (?s @ replicate (32 - n) e))"
    using assms(3) unfolding block_reduce_def n Let_def shared by (subst warp_max) simp_all
  also have "\<dots> = Max (set vals)"
  proof (rule antisym)
    show "Max (set (?s @ replicate (32 - n) e)) \<le> Max (set vals)"
    proof (subst Max_le_iff)
      have "x \<le> Max (set vals)" if "x \<in> set ?s" for x
      proof -
        obtain w where w: "w < n" "x = Max (set (warp_lanes w vals))" using \<open>x \<in> set ?s\<close> unfolding s by auto
        then show ?thesis using ne[OF w(1)] sub[of w] by (auto intro: Max_mono)
      qed
      moreover have "e \<le> Max (set vals)"
      proof -
        have "vals \<noteq> []" using assms(1,2) by auto
        then have "Max (set vals) \<in> set vals" by (intro Max_in) auto
        then show ?thesis by (rule assms(4))
      qed
      ultimately show "\<forall>a \<in> set (?s @ replicate (32 - n) e). a \<le> Max (set vals)" by auto
    qed (use assms in auto)
    have "x \<le> Max (set (?s @ replicate (32 - n) e))" if x: "x \<in> set vals" for x
    proof -
      obtain w where w: "w < n" "x \<in> set (warp_lanes w vals)" using x unfolding all by auto
      then have "x \<le> Max (set (warp_lanes w vals))" by (intro Max_ge) auto
      also have "\<dots> \<in> set ?s" unfolding s using w(1) by blast
      then have "Max (set (warp_lanes w vals)) \<le> Max (set (?s @ replicate (32 - n) e))" by (intro Max_ge) auto
      finally show ?thesis .
    qed
    then show "Max (set vals) \<le> Max (set (?s @ replicate (32 - n) e))"
      using assms(1,2) by (subst Max_le_iff) auto
  qed
  finally show ?thesis .
qed

section \<open>Element-wise writes\<close>

text \<open>Every element of a list of positions is replaced by a function of its value.\<close>

definition write_all :: "(nat \<Rightarrow> 'a \<Rightarrow> 'a) \<Rightarrow> nat list \<Rightarrow> 'a list \<Rightarrow> 'a list" where
  "write_all g js xs = fold (\<lambda>j xs. xs[j := g j (xs ! j)]) js xs"

lemma write_all_append: "write_all g (js @ ks) xs = write_all g ks (write_all g js xs)"
  by (simp add: write_all_def)

lemma write_all_nth:
  "distinct js \<Longrightarrow> length (write_all g js xs) = length xs \<and>
   (\<forall>j < length xs. write_all g js xs ! j = (if j \<in> set js then g j (xs ! j) else xs ! j))"
proof (induction js arbitrary: xs)
  case (Cons k ks)
  have IH: "length (write_all g ks (xs[k := g k (xs ! k)])) = length xs \<and>
    (\<forall>j < length xs. write_all g ks (xs[k := g k (xs ! k)]) ! j =
      (if j \<in> set ks then g j (xs[k := g k (xs ! k)] ! j) else xs[k := g k (xs ! k)] ! j))"
    using Cons.IH[of "xs[k := g k (xs ! k)]"] Cons.prems by simp
  have "write_all g (k # ks) xs = write_all g ks (xs[k := g k (xs ! k)])" by (simp add: write_all_def)
  then show ?case using IH Cons.prems
    by (cases "k < length xs") (auto simp: nth_list_update not_less split: if_splits)
qed (simp add: write_all_def)

lemma write_everything:
  assumes "distinct js" "set js = {..<length xs}"
  shows "write_all g js xs = map (\<lambda>j. g j (xs ! j)) [0..<length xs]"
  using write_all_nth[OF assms(1), of g xs] assms(2) by (intro nth_equalityI) auto

end
