(* ===== verification/Cuda_Norm.thy ===== *)
theory Cuda_Norm
  imports Warp
begin

text \<open>
  \<open>csrc/kernels/cuda/fused_rmsnorm.cu\<close>: residual addition and normalisation of a row by its root mean
  square, with vectors of eight halves per transfer. \<open>half\<close> rounds to half precision. The threads of a
  block write different vectors; the model runs them one after the other.
\<close>

section \<open>The kernel\<close>

datatype launch_error = InvalidArgument

definition vector_elements :: "nat \<Rightarrow> nat list" where
  "vector_elements i = [8 * i..<8 * i + 8]"

text \<open>One element of phase 1: the sum replaces the residual, its square is added unrounded.\<close>

definition add_element :: "(real \<Rightarrow> real) \<Rightarrow> real list \<Rightarrow> nat \<Rightarrow> real list \<times> real \<Rightarrow> real list \<times> real" where
  "add_element half inp j = (\<lambda>(res, sq). let s = inp ! j + res ! j in (res[j := half s], sq + s * s))"

definition add_thread :: "(real \<Rightarrow> real) \<Rightarrow> real list \<Rightarrow> nat \<Rightarrow> nat \<Rightarrow> nat \<Rightarrow> real list \<Rightarrow> real list \<times> real" where
  "add_thread half inp step cols tid res =
     fold (\<lambda>i. fold (add_element half inp) (vector_elements i)) (strided step cols tid) (res, 0)"

definition add_phase :: "(real \<Rightarrow> real) \<Rightarrow> real list \<Rightarrow> nat \<Rightarrow> nat \<Rightarrow> real list \<Rightarrow> real list \<times> real list" where
  "add_phase half inp step cols res =
     fold (\<lambda>tid (res, parts). let (res, sq) = add_thread half inp step cols tid res in (res, parts @ [sq])) [0..<step] (res, [])"

definition scale_phase ::
  "(real \<Rightarrow> real) \<Rightarrow> real list \<Rightarrow> real list \<Rightarrow> real \<Rightarrow> nat \<Rightarrow> nat \<Rightarrow> real list \<Rightarrow> real list" where
  "scale_phase half res weight inv_rms step cols out =
     fold (\<lambda>tid. fold (\<lambda>i. fold (\<lambda>j out. out[j := half (res ! j * inv_rms * weight ! j)]) (vector_elements i))
                   (strided step cols tid)) [0..<step] out"

definition rmsnorm_row ::
  "(real \<Rightarrow> real) \<Rightarrow> nat \<Rightarrow> nat \<Rightarrow> real \<Rightarrow> real list \<Rightarrow> real list \<Rightarrow> real list \<Rightarrow> real list \<Rightarrow> real list \<times> real list" where
  "rmsnorm_row half step hidden epsilon inp res weight out =
     (let cols = hidden div 8;
          (res, parts) = add_phase half inp step cols res;
          inv_rms = 1 / sqrt (block_reduce (+) 0 parts / real hidden + epsilon)
      in (res, scale_phase half res weight inv_rms step cols out))"

definition norm_block_size :: "nat \<Rightarrow> nat" where
  "norm_block_size hidden = (if hidden div 8 < 256 then max 32 ((hidden div 8 + 32 - 1) div 32 * 32) else 256)"

text \<open>The launch: one block per token; rows of the input, the residual and the output.\<close>

definition launch_fused_rmsnorm ::
  "(real \<Rightarrow> real) \<Rightarrow> nat \<Rightarrow> real \<Rightarrow> real list \<Rightarrow> (real list \<times> real list \<times> real list) list \<Rightarrow>
   launch_error + (real list \<times> real list) list" where
  "launch_fused_rmsnorm half hidden epsilon weight rows =
     (if hidden mod 8 \<noteq> 0 then Inl InvalidArgument
      else Inr (map (\<lambda>(inp, res, out). rmsnorm_row half (norm_block_size hidden) hidden epsilon inp res weight out) rows))"

section \<open>Phases as element-wise writes\<close>

lemma vector_elements_all:
  assumes "distinct js" "set js = {..<cols}"
  shows "distinct (concat (map vector_elements js))" "set (concat (map vector_elements js)) = {..<8 * cols}"
proof -
  have dist: "distinct (concat (map vector_elements js))" if "distinct js" for js
    using that
  proof (induction js)
    case (Cons i js)
    have "set (vector_elements i) \<inter> set (vector_elements j) = {}" if "j \<in> set js" for j
    proof -
      have "i \<noteq> j" using that Cons.prems by auto
      then have "i < j \<or> j < i" by (rule linorder_neqE_nat) simp_all
      then show ?thesis by (auto simp: vector_elements_def)
    qed
    moreover have "distinct (vector_elements i)" by (simp add: vector_elements_def)
    ultimately show ?case using Cons by auto
  qed simp
  show "distinct (concat (map vector_elements js))" by (rule dist[OF assms(1)])
  show "set (concat (map vector_elements js)) = {..<8 * cols}"
  proof (intro set_eqI iffI)
    fix x assume x: "x \<in> {..<8 * cols}"
    then have "x div 8 \<in> set js" using assms(2) by (simp add: less_mult_imp_div_less mult.commute)
    moreover have "x \<in> set (vector_elements (x div 8))" by (simp add: vector_elements_def)
    ultimately show "x \<in> set (concat (map vector_elements js))" by auto
  next
    fix x assume "x \<in> set (concat (map vector_elements js))"
    then obtain i where i: "i \<in> set js" "x \<in> set (vector_elements i)" by auto
    then have "i < cols" "x < 8 * i + 8" using assms(2) by (simp_all add: vector_elements_def)
    then show "x \<in> {..<8 * cols}" by simp
  qed
qed

definition touched :: "nat \<Rightarrow> nat \<Rightarrow> nat list \<Rightarrow> nat list" where
  "touched step cols tids = concat (map vector_elements (concat (map (strided step cols) tids)))"

lemma touched_threads:
  "touched step cols tids = concat (map (\<lambda>tid. concat (map vector_elements (strided step cols tid))) tids)"
  by (induction tids) (simp_all add: touched_def)

lemma touched_all:
  assumes "0 < step"
  shows "distinct (touched step cols [0..<step])" "set (touched step cols [0..<step]) = {..<8 * cols}"
  using vector_elements_all[of "visits step cols" cols] visits_all[OF assms, of cols]
  by (simp_all add: touched_def visits_def)

lemma add_elements:
  "distinct js \<Longrightarrow> (\<And>j. j \<in> set js \<Longrightarrow> j < length res) \<Longrightarrow>
   fold (add_element half inp) js (res, sq) =
     (write_all (\<lambda>j r. half (inp ! j + r)) js res, sq + (\<Sum>j\<leftarrow>js. (inp ! j + res ! j)\<^sup>2))"
proof (induction js arbitrary: res sq)
  case (Cons k js)
  let ?res = "res[k := half (inp ! k + res ! k)]"
  have "(\<Sum>j\<leftarrow>js. (inp ! j + ?res ! j)\<^sup>2) = (\<Sum>j\<leftarrow>js. (inp ! j + res ! j)\<^sup>2)"
  proof (intro arg_cong[where f = sum_list] map_cong refl)
    fix j assume "j \<in> set js"
    then have "j \<noteq> k" using Cons.prems(1) by auto
    then show "(inp ! j + ?res ! j)\<^sup>2 = (inp ! j + res ! j)\<^sup>2" by simp
  qed
  then show ?case using Cons.IH[of ?res] Cons.prems
    by (simp add: add_element_def write_all_def power2_eq_square Let_def)
qed (simp add: write_all_def)

lemma touched_append: "touched step cols (xs @ ys) = touched step cols xs @ touched step cols ys"
  by (simp add: touched_def)

lemma add_threads:
  assumes "distinct (touched step cols tids)" "\<And>j. j \<in> set (touched step cols tids) \<Longrightarrow> j < length res"
  shows "fold (\<lambda>tid (res, parts). let (res, sq) = add_thread half inp step cols tid res in (res, parts @ [sq])) tids (res, []) =
    (write_all (\<lambda>j r. half (inp ! j + r)) (touched step cols tids) res,
     map (\<lambda>tid. \<Sum>j\<leftarrow>touched step cols [tid]. (inp ! j + res ! j)\<^sup>2) tids)"
  using assms
proof (induction tids rule: rev_induct)
  case (snoc tid tids)
  let ?w = "write_all (\<lambda>j r. half (inp ! j + r))"
  have d: "distinct (touched step cols tids)" "distinct (touched step cols [tid])"
    "set (touched step cols tids) \<inter> set (touched step cols [tid]) = {}"
    using snoc.prems(1) by (auto simp: touched_append)
  have lt: "\<And>j. j \<in> set (touched step cols tids) \<Longrightarrow> j < length res" "\<And>j. j \<in> set (touched step cols [tid]) \<Longrightarrow> j < length res"
    using snoc.prems(2) by (auto simp: touched_append)
  note w = write_all_nth[OF d(1), of "\<lambda>j r. half (inp ! j + r)" res]
  have "add_thread half inp step cols tid (?w (touched step cols tids) res) =
    (?w (touched step cols [tid]) (?w (touched step cols tids) res),
     \<Sum>j\<leftarrow>touched step cols [tid]. (inp ! j + ?w (touched step cols tids) res ! j)\<^sup>2)"
    using add_elements[OF d(2), of "?w (touched step cols tids) res" half inp 0] lt(2) w
    by (simp add: add_thread_def fold_nested touched_def)
  moreover have "(\<Sum>j\<leftarrow>touched step cols [tid]. (inp ! j + ?w (touched step cols tids) res ! j)\<^sup>2) =
    (\<Sum>j\<leftarrow>touched step cols [tid]. (inp ! j + res ! j)\<^sup>2)"
    using d(3) lt(2) w by (intro arg_cong[where f = sum_list] map_cong refl) (auto dest: disjoint_iff[THEN iffD1])
  ultimately show ?case using snoc.IH[OF d(1) lt(1)] by (simp add: touched_append write_all_append)
qed (simp add: touched_def write_all_def)

lemma norm_block: "\<exists>n. norm_block_size hidden = 32 * n \<and> 0 < n \<and> n \<le> 32"
proof (cases "hidden div 8 < 256")
  case True
  let ?n = "max 1 ((hidden div 8 + 31) div 32)"
  have "norm_block_size hidden = 32 * ?n" using True by (simp add: norm_block_size_def max_def add.commute)
  moreover have "?n \<le> 32" using True by simp
  ultimately show ?thesis by (intro exI[of _ ?n]) simp
qed (auto simp: norm_block_size_def intro: exI[of _ 8])

section \<open>The kernel computes the norm\<close>

lemma rmsnorm_row_exact:
  assumes h: "hidden = 8 * cols" and len: "length inp = hidden" "length res = hidden" "length out = hidden"
    and step: "step = 32 * n" "0 < n" "n \<le> 32"
  shows "rmsnorm_row half step hidden epsilon inp res weight out =
    (let total = map (\<lambda>j. half (inp ! j + res ! j)) [0..<hidden];
         inv = 1 / sqrt ((\<Sum>j<hidden. (inp ! j + res ! j)\<^sup>2) / real hidden + epsilon)
     in (total, map (\<lambda>j. half (total ! j * inv * weight ! j)) [0..<hidden]))"
proof -
  have pos: "0 < step" and c: "hidden div 8 = cols" using step h by simp_all
  let ?js = "touched step cols [0..<step]"
  note all = touched_all[OF pos, of cols]
  let ?f = "\<lambda>j. (inp ! j + res ! j)\<^sup>2"
  let ?parts = "map (\<lambda>tid. \<Sum>j\<leftarrow>touched step cols [tid]. ?f j) [0..<step]"
  let ?res = "map (\<lambda>j. half (inp ! j + res ! j)) [0..<hidden]"
  have add: "add_phase half inp step cols res = (?res, ?parts)"
    using add_threads[OF all(1), of res half inp] all write_everything[OF all(1), of res] len h
    by (simp add: add_phase_def)
  have "sum_list ?parts = (\<Sum>j\<leftarrow>?js. ?f j)"
    unfolding touched_def by (induction rule: list.induct[of _ "[0..<step]"]) simp_all
  also have "\<dots> = (\<Sum>j<hidden. ?f j)"
    using all h by (simp add: sum_list_distinct_conv_sum_set)
  finally have total: "block_reduce (+) 0 ?parts = (\<Sum>j<hidden. ?f j)"
    using block_sum[of ?parts n] step by simp
  have "scale_phase half r weight iv step cols out = write_all (\<lambda>j _. half (r ! j * iv * weight ! j)) ?js out" for r iv
    by (simp add: scale_phase_def fold_nested touched_threads write_all_def)
  then have scale: "scale_phase half r weight iv step cols out = map (\<lambda>j. half (r ! j * iv * weight ! j)) [0..<hidden]" for r iv
    using write_everything[OF all(1), of out] all(2) len h by simp
  show ?thesis unfolding rmsnorm_row_def c Let_def add case_prod_conv scale total ..
qed

text \<open>
  C21: For a width that is a multiple of eight, the launched blocks add each input row to its residual
  and write the residual sum, scaled by its inverse root mean square and the weights, to the output:
  the vectors, the threads' strides and the shuffles over warps and block lose and repeat nothing.
  The mean is that of the sums before they are rounded. Any other width is refused.
\<close>

theorem fused_rmsnorm_exact:
  assumes "\<forall>(inp, res, out) \<in> set rows. length inp = hidden \<and> length res = hidden \<and> length out = hidden"
  shows "launch_fused_rmsnorm half hidden epsilon weight rows =
    (if hidden mod 8 = 0
     then Inr (map (\<lambda>(inp, res, out).
       let total = map (\<lambda>j. half (inp ! j + res ! j)) [0..<hidden];
           inv = 1 / sqrt ((\<Sum>j<hidden. (inp ! j + res ! j)\<^sup>2) / real hidden + epsilon)
       in (total, map (\<lambda>j. half (total ! j * inv * weight ! j)) [0..<hidden])) rows)
     else Inl InvalidArgument)"
proof (cases "hidden mod 8 = 0")
  case True
  then obtain cols where h: "hidden = 8 * cols" by auto
  obtain n where n: "norm_block_size hidden = 32 * n" "0 < n" "n \<le> 32" using norm_block by blast
  show ?thesis using True assms rmsnorm_row_exact[OF h _ _ _ n]
    by (auto simp: launch_fused_rmsnorm_def)
qed (simp add: launch_fused_rmsnorm_def)

theorem fused_rmsnorm_exact_witness:
  "launch_fused_rmsnorm (\<lambda>x. x) 8 0 (replicate 8 1) [(replicate 8 1, replicate 8 2, replicate 8 0)] =
    Inr [(replicate 8 3, replicate 8 1)]"
  using fused_rmsnorm_exact[of "[(replicate 8 1, replicate 8 2, replicate 8 0)]" 8 "\<lambda>x. x" 0 "replicate 8 1"]
  by (simp add: map_replicate_const eval_nat_numeral upt_rec Let_def)

end
