(* ===== verification/Cuda_Sampling.thy ===== *)
theory Cuda_Sampling
  imports Warp
begin

text \<open>
  \<open>csrc/include/cudaforge/engine/sampling.h\<close>: the sampling kernel, one block of 256 threads per row.
  The maximum and the sum of the softmax are reduced over the block, thread 0 draws from the
  cumulative distribution. The generator of the device is an argument: a value in (0, 1] for a seed
  and a row.

  \<^item> On the greedy path each thread also stores its best logit to shared memory, which is never read; the
    store is not modelled.
\<close>

section \<open>The kernel\<close>

datatype sampling_error = InvalidShape

definition flt_max :: real where
  "flt_max = (2 - 1 / 2 ^ 23) * 2 ^ 127"

definition inverse_temperature :: "real \<Rightarrow> real" where
  "inverse_temperature temperature = (if 1 / 10 ^ 5 < temperature then 1 / temperature else 1)"

definition thread_max :: "real \<Rightarrow> real list \<Rightarrow> nat \<Rightarrow> nat \<Rightarrow> real" where
  "thread_max inv_temp row step tid =
     fold (\<lambda>i m. max m (row ! i * inv_temp)) (strided step (length row) tid) (- flt_max)"

definition max_logit :: "real \<Rightarrow> real list \<Rightarrow> real" where
  "max_logit inv_temp row = block_reduce max (- flt_max) (map (thread_max inv_temp row 256) [0..<256])"

definition exp_sum :: "real \<Rightarrow> real \<Rightarrow> real list \<Rightarrow> real" where
  "exp_sum inv_temp m row =
     block_reduce (+) 0
       (map (\<lambda>tid. fold (\<lambda>i s. s + exp (row ! i * inv_temp - m)) (strided 256 (length row) tid) 0) [0..<256])"

text \<open>The greedy path: thread 0 looks for the first greatest logit.\<close>

definition greedy_scan :: "real list \<Rightarrow> nat" where
  "greedy_scan row =
     snd (fold (\<lambda>i (best, token). if best < row ! i then (row ! i, i) else (best, token)) [0..<length row] (- flt_max, 0))"

fun cdf_scan :: "real \<Rightarrow> real \<Rightarrow> nat \<Rightarrow> real list \<Rightarrow> nat" where
  "cdf_scan u cdf i [] = i - 1"
| "cdf_scan u cdf i (p # ps) = (if u \<le> cdf + p then i else cdf_scan u (cdf + p) (Suc i) ps)"

definition sample_row_cuda :: "real \<Rightarrow> real \<Rightarrow> real list \<Rightarrow> nat" where
  "sample_row_cuda temperature u row =
     (let inv_temp = inverse_temperature temperature; m = max_logit inv_temp row in
      if temperature \<le> 1 / 10 ^ 5 then greedy_scan row
      else let inv_sum = 1 / exp_sum inv_temp m row
           in cdf_scan u 0 0 (map (\<lambda>x. exp (x * inv_temp - m) * inv_sum) row))"

definition launch_fused_sampling ::
  "(nat \<Rightarrow> nat \<Rightarrow> real) \<Rightarrow> nat \<Rightarrow> real \<Rightarrow> int \<Rightarrow> real \<Rightarrow> int \<Rightarrow> int \<Rightarrow> real list list \<Rightarrow> sampling_error + nat list" where
  "launch_fused_sampling uniform rng_seed temperature top_k top_p batch_size vocab_size logits =
     (if batch_size \<le> 0 \<or> vocab_size \<le> 0 then Inl InvalidShape
      else Inr (map (\<lambda>b. sample_row_cuda temperature (uniform rng_seed b) (logits ! b)) [0..<nat batch_size]))"

section \<open>Reductions of the row\<close>






section \<open>Sampling from the distribution\<close>









text \<open>Neither truncation parameter has an effect.\<close>

lemma truncation_ignored:
  "launch_fused_sampling uniform seed temperature top_k top_p batch vocab logits =
   launch_fused_sampling uniform seed temperature top_k' top_p' batch vocab logits"
  by (simp add: launch_fused_sampling_def)



end
