(* ===== verification/Cuda_Attention.thy ===== *)
theory Cuda_Attention
  imports Warp Tensor
begin

text \<open>
  \<open>csrc/kernels/cuda/flash_attn_v2.cu\<close>: the attention kernel for one block of 128 threads and a tile of
  64 query rows. \<open>half\<close> rounds to half precision.

  \<^item> The loads of a tile are modelled by the places in shared memory that they write. They stay inside
    the tile for at most 64 rows only, so the arithmetic is modelled for sequences of one tile.
  \<^item> A thread owns the row of its number and every fourth column.
\<close>

section \<open>Loads\<close>

definition attention_dims_ok :: "nat \<Rightarrow> bool" where
  "attention_dims_ok head_dim \<longleftrightarrow> head_dim = 64 \<or> head_dim = 128"

text \<open>The places of a tile that one thread fills, as offsets of halves from the start of the tile.\<close>

definition load_offsets :: "nat \<Rightarrow> nat \<Rightarrow> nat \<Rightarrow> nat \<Rightarrow> nat list" where
  "load_offsets head_dim seq_len start tid =
     concat (map (\<lambda>i. let load_idx = tid + i * 128; row = load_idx div (head_dim div 8);
                          col = load_idx mod (head_dim div 8) * 8
                      in if start + row < seq_len then [row * head_dim + col] else [])
       [0..<64 * head_dim * 2 div 128])"

definition shared_halves :: "nat \<Rightarrow> nat" where
  "shared_halves head_dim = 64 * head_dim + 2 * 64 * head_dim"

text \<open>
  The loads of a tile of 64 rows stay in the tile when at most 64 rows of the sequence are left.
  When more than 192 rows are left, a load writes beyond the shared memory of the block: each thread
  makes as many 16-byte copies as it should copy bytes.
\<close>

theorem attention_loads:
  assumes "attention_dims_ok head_dim"
  shows "if seq_len \<le> start + 64
    then list_all (\<lambda>tid. list_all (\<lambda>a. a + 8 \<le> 64 * head_dim) (load_offsets head_dim seq_len start tid)) [0..<128]
    else if start + 192 < seq_len
    then list_ex (\<lambda>tid. list_ex (\<lambda>a. shared_halves head_dim \<le> a) (load_offsets head_dim seq_len start tid)) [0..<128]
    else True"
proof -
  let ?w = "head_dim div 8"
  have w: "head_dim = 8 * ?w" "0 < ?w" using assms by (auto simp: attention_dims_ok_def)
  have "a + 8 \<le> 64 * head_dim" if near: "seq_len \<le> start + 64" and mem: "a \<in> set (load_offsets head_dim seq_len start tid)" for a tid
  proof -
    obtain idx where a: "start + idx div ?w < seq_len" "a = idx div ?w * head_dim + idx mod ?w * 8"
      using mem by (auto simp: load_offsets_def Let_def split: if_splits)
    have "idx div ?w \<le> 63" using a(1) near by simp
    moreover have "idx mod ?w + 1 \<le> ?w" using w(2) by (simp add: Suc_le_eq)
    then have "idx mod ?w * 8 + 8 \<le> head_dim" using w(1) by linarith
    moreover have "idx div ?w * head_dim \<le> 63 * head_dim" using \<open>idx div ?w \<le> 63\<close> by (rule mult_le_mono1)
    ultimately show ?thesis unfolding a(2) by linarith
  qed
  moreover have "\<exists>tid < 128. \<exists>a \<in> set (load_offsets head_dim seq_len start tid). shared_halves head_dim \<le> a"
    if far: "start + 192 < seq_len"
  proof -
    let ?idx = "192 * ?w" and ?i = "192 * ?w div 128" and ?tid = "192 * ?w mod 128"
    have idx: "?tid + ?i * 128 = ?idx" by (rule mod_div_mult_eq)
    have row: "?idx div ?w = 192" "?idx mod ?w = 0" using w(2) by simp_all
    have "?i < 64 * head_dim * 2 div 128" using assms by (auto simp: attention_dims_ok_def)
    moreover have "start + 192 < seq_len" by (rule far)
    ultimately have "192 * head_dim + 0 * 8 \<in> set (load_offsets head_dim seq_len start ?tid)"
      unfolding load_offsets_def Let_def set_concat set_map
      by (intro UN_I[OF imageI, of ?i]) (simp_all only: idx row set_upt atLeastLessThan_iff le0 simp_thms if_True list.set_intros mult_0 add_0_right)
    then have "192 * head_dim \<in> set (load_offsets head_dim seq_len start ?tid)" by simp
    moreover have "shared_halves head_dim \<le> 192 * head_dim" by (simp add: shared_halves_def)
    ultimately show ?thesis by (intro exI[of _ ?tid]) auto
  qed
  ultimately show ?thesis by (auto simp: list_all_iff list_ex_iff Bex_def)
qed

theorem attention_loads_witness:
  "list_ex (\<lambda>tid. list_ex (\<lambda>a. shared_halves 64 \<le> a) (load_offsets 64 256 0 tid)) [0..<128]"
  using attention_loads[of 64 256 0] by (simp add: attention_dims_ok_def)

section \<open>One tile\<close>

record thread_state =
  th_max :: real
  th_sum :: real
  th_acc :: "real list"

definition thread_init :: "nat \<Rightarrow> thread_state" where
  "thread_init head_dim = \<lparr>th_max = - (10 ^ 20), th_sum = 0, th_acc = replicate (head_dim div 4) 0\<rparr>"

definition is_masked :: "nat \<Rightarrow> bool \<Rightarrow> nat \<Rightarrow> nat \<Rightarrow> bool" where
  "is_masked seq_len causal row n \<longleftrightarrow> seq_len \<le> n \<or> causal \<and> row < n"

text \<open>The scores of a tile at column 0: a masked column keeps the initial zero.\<close>

definition tile_score :: "real \<Rightarrow> nat \<Rightarrow> bool \<Rightarrow> real list \<Rightarrow> real list list \<Rightarrow> nat \<Rightarrow> nat \<Rightarrow> real" where
  "tile_score scale seq_len causal q k row n = (if is_masked seq_len causal row n then 0 else t_dot q (k ! n) * scale)"

definition attention_tile ::
  "real \<Rightarrow> nat \<Rightarrow> nat \<Rightarrow> bool \<Rightarrow> real list \<Rightarrow> real list list \<Rightarrow> real list list \<Rightarrow> nat \<Rightarrow> nat \<Rightarrow> thread_state \<Rightarrow> thread_state" where
  "attention_tile scale head_dim seq_len causal q k smem_v row tid s =
     (let scores = map (tile_score scale seq_len causal q k row) [0..<64];
          s_max = fold (\<lambda>n m. if is_masked seq_len causal row n then m else max m (scores ! n)) [0..<64] (- (10 ^ 20));
          m_curr = max (th_max s) s_max;
          alpha = exp (th_max s - m_curr);
          p = map (\<lambda>x. if - (10 ^ 19) < x then exp (x - m_curr) else 0) scores;
          l_curr = th_sum s * alpha + sum_list p;
          rescale_prev = (if 0 < l_curr then th_sum s * alpha / l_curr else 0);
          scale_curr = (if 0 < l_curr then 1 / l_curr else 0);
          acc = map (\<lambda>a. a * rescale_prev) (th_acc s)
      in \<lparr>th_max = m_curr, th_sum = l_curr,
          th_acc = fold (\<lambda>n acc. if 0 < p ! n
                       then map (\<lambda>d. acc ! d + p ! n * scale_curr * smem_v ! n ! (d * 4 + tid mod 4)) [0..<head_dim div 4]
                       else acc) [0..<64] acc\<rparr>)"

text \<open>Shared memory after the load of the values: rows beyond the sequence keep what was there.\<close>

definition load_tile :: "nat \<Rightarrow> real list list \<Rightarrow> real list list \<Rightarrow> real list list" where
  "load_tile seq_len v smem = map (\<lambda>n. if n < seq_len then v ! n else smem ! n) [0..<64]"

text \<open>The thread of a row writes its accumulators to every fourth column of the output row.\<close>

definition write_columns :: "(real \<Rightarrow> real) \<Rightarrow> nat \<Rightarrow> nat \<Rightarrow> real list \<Rightarrow> real list \<Rightarrow> real list" where
  "write_columns half head_dim tid acc out =
     fold (\<lambda>d out. out[d * 4 + tid mod 4 := half (acc ! d)]) [0..<head_dim div 4] out"

definition cuda_attention_row ::
  "(real \<Rightarrow> real) \<Rightarrow> real \<Rightarrow> nat \<Rightarrow> bool \<Rightarrow> real list list \<Rightarrow> real list list \<Rightarrow> real list list \<Rightarrow> real list list \<Rightarrow> real list list \<Rightarrow>
   nat \<Rightarrow> real list" where
  "cuda_attention_row half scale head_dim causal q k v smem out row =
     (let seq_len = length q;
          s = attention_tile scale head_dim seq_len causal (q ! row) k (load_tile seq_len v smem) row row (thread_init head_dim)
      in write_columns half head_dim row (th_acc s) (out ! row))"

section \<open>What the tile computes\<close>

lemma accumulate:
  assumes "length acc = w"
  shows "fold (\<lambda>n acc. if 0 < p ! n then map (\<lambda>d. acc ! d + p ! n * c * g n d) [0..<w] else acc) ns acc =
    map (\<lambda>d. acc ! d + (\<Sum>n\<leftarrow>ns. if 0 < p ! n then p ! n * c * g n d else 0)) [0..<w]"
  using assms
proof (induction ns arbitrary: acc)
  case Nil
  then show ?case by (intro nth_equalityI) simp_all
next
  case (Cons n ns)
  let ?acc = "if 0 < p ! n then map (\<lambda>d. acc ! d + p ! n * c * g n d) [0..<w] else acc"
  have "length ?acc = w" using Cons.prems by simp
  from Cons.IH[OF this] show ?case using Cons.prems
    by (intro nth_equalityI) (auto simp: add.assoc)
qed

text \<open>The weight of a column: a masked column counts as a score of zero.\<close>

definition column_weight :: "real \<Rightarrow> nat \<Rightarrow> bool \<Rightarrow> real list \<Rightarrow> real list list \<Rightarrow> nat \<Rightarrow> nat \<Rightarrow> real" where
  "column_weight scale seq_len causal q k row n = exp (tile_score scale seq_len causal q k row n)"

lemma attention_tile_acc:
  assumes "\<And>n. n < 64 \<Longrightarrow> - (10 ^ 19) < tile_score scale seq_len causal q k row n"
  shows "th_acc (attention_tile scale head_dim seq_len causal q k smem row tid (thread_init head_dim)) =
    map (\<lambda>d. (\<Sum>n<64. column_weight scale seq_len causal q k row n * smem ! n ! (d * 4 + tid mod 4)) /
              (\<Sum>n<64. column_weight scale seq_len causal q k row n)) [0..<head_dim div 4]"
proof -
  let ?sc = "tile_score scale seq_len causal q k row" and ?w = "column_weight scale seq_len causal q k row"
  define m where "m = max (- (10 ^ 20))
    (fold (\<lambda>n m. if is_masked seq_len causal row n then m else max m (map ?sc [0..<64] ! n)) [0..<64] (- (10 ^ 20)))"
  let ?p = "map (\<lambda>x. if - (10 ^ 19) < x then exp (x - m) else 0) (map ?sc [0..<64])"
  have p: "?p ! n = ?w n / exp m" if "n < 64" for n using that assms by (simp add: column_weight_def exp_diff)
  have pos: "0 < ?p ! n" if "n < 64" for n using p[OF that] by (simp add: column_weight_def)
  have "sum_list ?p = (\<Sum>n<64. ?p ! n)" by (simp add: sum_list_sum_nth atLeast0LessThan)
  also have "\<dots> = (\<Sum>n<64. ?w n / exp m)" using p by (intro sum.cong) auto
  finally have l: "sum_list ?p = (\<Sum>n<64. ?w n) / exp m" by (simp add: sum_divide_distrib)
  have wpos: "0 < (\<Sum>n<64. ?w n)" by (intro sum_pos) (simp_all add: column_weight_def lessThan_empty_iff)
  have lpos: "0 < sum_list ?p" unfolding l using wpos by simp
  have acc: "th_acc (attention_tile scale head_dim seq_len causal q k smem row tid (thread_init head_dim)) =
    fold (\<lambda>n acc. if 0 < ?p ! n then map (\<lambda>d. acc ! d + ?p ! n * (1 / sum_list ?p) * smem ! n ! (d * 4 + tid mod 4)) [0..<head_dim div 4] else acc)
      [0..<64] (map (\<lambda>a. a * 0) (replicate (head_dim div 4) 0))"
    unfolding attention_tile_def Let_def thread_init_def thread_state.simps unfolding m_def[symmetric]
    by (simp only: mult_zero_left add_0_left if_P[OF lpos] div_0)
  have summand: "(if 0 < ?p ! n then ?p ! n * (1 / sum_list ?p) * smem ! n ! c else 0) = ?w n * smem ! n ! c / (\<Sum>n<64. ?w n)"
    if "n < 64" for n c
    using p[OF that] pos[OF that] unfolding l by simp
  have "(\<Sum>n\<leftarrow>[0..<64]. if 0 < ?p ! n then ?p ! n * (1 / sum_list ?p) * smem ! n ! c else 0) =
    (\<Sum>n<64. ?w n * smem ! n ! c) / (\<Sum>n<64. ?w n)" for c
  proof -
    have "(\<Sum>n\<leftarrow>[0..<64]. if 0 < ?p ! n then ?p ! n * (1 / sum_list ?p) * smem ! n ! c else 0) =
      (\<Sum>n<64. if 0 < ?p ! n then ?p ! n * (1 / sum_list ?p) * smem ! n ! c else 0)"
      by (simp only: sum_list_distinct_conv_sum_set[OF distinct_upt] set_upt atLeast0LessThan)
    also have "\<dots> = (\<Sum>n<64. ?w n * smem ! n ! c / (\<Sum>n<64. ?w n))"
      using summand by (intro sum.cong refl) (simp only: lessThan_iff)
    finally show ?thesis by (simp only: sum_divide_distrib)
  qed
  then show ?thesis unfolding acc by (subst accumulate) simp_all
qed

lemma write_columns_nth:
  assumes "length out = head_dim" "head_dim mod 4 = 0" "c < head_dim"
  shows "write_columns half head_dim tid acc out ! c = (if c mod 4 = tid mod 4 then half (acc ! (c div 4)) else out ! c)"
proof -
  let ?js = "map (\<lambda>d. d * 4 + tid mod 4) [0..<head_dim div 4]"
  have eq: "fold (\<lambda>d out. out[d * 4 + tid mod 4 := half (acc ! d)]) ds xs =
    write_all (\<lambda>j _. half (acc ! (j div 4))) (map (\<lambda>d. d * 4 + tid mod 4) ds) xs" for ds xs
    by (induction ds arbitrary: xs) (simp_all add: write_all_def)
  have dist: "distinct ?js" by (simp add: distinct_map inj_on_def)
  have "c \<in> set ?js \<longleftrightarrow> c mod 4 = tid mod 4"
  proof
    assume "c mod 4 = tid mod 4"
    then have "c = c div 4 * 4 + tid mod 4" by (metis div_mult_mod_eq)
    moreover have "c div 4 < head_dim div 4" using assms(2,3) by auto
    ultimately show "c \<in> set ?js" by (auto intro: rev_image_eqI[of "c div 4"])
  qed auto
  then show ?thesis unfolding write_columns_def eq using write_all_nth[OF dist, of "\<lambda>j _. half (acc ! (j div 4))" out] assms by simp
qed

text \<open>
  C34: For a sequence of at most 64 rows, the kernel writes only the columns of an output row that
  agree with the row number modulo four. There it writes an average of value rows whose weights are
  the softmax of the scores in which every masked column of the tile counts with score zero, and with
  what shared memory held before where the sequence has no row. (Every score of the tile is above
  -1e19, far above the value the running maximum starts with.)
\<close>

theorem cuda_attention_columns:
  assumes "attention_dims_ok head_dim" and "row < length q" and "length q \<le> 64" and "c < head_dim"
    and "length (out ! row) = head_dim"
    and "\<And>n. n < 64 \<Longrightarrow> - (10 ^ 19) < tile_score scale (length q) causal (q ! row) k row n"
  shows "cuda_attention_row half scale head_dim causal q k v smem out row ! c =
    (if c mod 4 = row mod 4
     then half ((\<Sum>n<64. column_weight scale (length q) causal (q ! row) k row n * (if n < length q then v ! n else smem ! n) ! c) /
                (\<Sum>n<64. column_weight scale (length q) causal (q ! row) k row n))
     else out ! row ! c)"
proof -
  have d: "head_dim mod 4 = 0" using assms(1) by (auto simp: attention_dims_ok_def)
  have "c div 4 < head_dim div 4" using assms(4) d by auto
  moreover have "c div 4 * 4 + row mod 4 = c" if "c mod 4 = row mod 4" using that by (metis div_mult_mod_eq)
  moreover have "(\<Sum>n<64. w n * load_tile (length q) v smem ! n ! x) =
    (\<Sum>n<64. w n * (if n < length q then v ! n else smem ! n) ! x)" for w :: "nat \<Rightarrow> real" and x
    by (intro sum.cong) (simp_all add: load_tile_def)
  ultimately show ?thesis
    using attention_tile_acc[OF assms(6), of head_dim "load_tile (length q) v smem" row]
      write_columns_nth[OF assms(5) d assms(4)]
    by (simp add: cuda_attention_row_def Let_def)
qed

text \<open>
  The first of two rows of zeros: column 0 is half the average over the two rows of the sequence and
  62 places that it does not have; column 1 is not written.
\<close>

theorem cuda_attention_columns_witness:
  "let out = cuda_attention_row (\<lambda>x. x) 1 64 False (replicate 2 (replicate 64 0)) (replicate 2 (replicate 64 0))
      (replicate 2 (replicate 64 1)) (replicate 64 (replicate 64 0)) (replicate 2 (replicate 64 7)) 0
   in out ! 0 = 2 / 64 \<and> out ! 1 = 7"
proof -
  let ?q = "replicate 2 (replicate 64 (0 :: real))"
  have score: "tile_score 1 2 False (?q ! 0) ?q 0 n = 0" for n
    by (auto simp: tile_score_def is_masked_def t_dot_def numeral_2_eq_2 nth_Cons' zip_replicate map_replicate_const sum_list_replicate)
  have sum: "(\<Sum>n<64. (if n < 2 then replicate 2 (replicate 64 1) ! n else replicate 64 (replicate 64 0) ! n) ! 0) = (2 :: real)"
    by (simp add: eval_nat_numeral sum.lessThan_Suc)
  have gt: "- (10 ^ 19) < tile_score 1 (length ?q) False (?q ! 0) ?q 0 n" for n using score by simp
  from cuda_attention_columns[of 64 0 ?q _ "replicate 2 (replicate 64 7)" 1 False ?q "\<lambda>x. x" "replicate 2 (replicate 64 1)"
      "replicate 64 (replicate 64 0)", OF _ _ _ _ _ gt]
  show ?thesis using sum score by (simp add: attention_dims_ok_def column_weight_def)
qed

end
