(* ===== verification/Cuda_Transforms.thy ===== *)
theory Cuda_Transforms
  imports Warp Fused_Kernels
begin

text \<open>
  The rotation of \<open>csrc/include/cudaforge/kernels/rope.cuh\<close> and the unpacking of 4-bit weights in
  \<open>csrc/kernels/cuda/int4_gemm_dequant.cu\<close> with its launcher. \<open>half\<close> rounds to half precision. The tensor core product of
  the latter is an operation of a whole warp on registers and is not modelled.
\<close>

section \<open>Rotation\<close>

text \<open>\<open>apply_rope_vector\<close> of one thread, and of the threads of a block.\<close>

definition rope_thread :: "(real \<Rightarrow> real) \<Rightarrow> nat \<Rightarrow> real list \<Rightarrow> real list \<Rightarrow> nat \<Rightarrow> nat \<Rightarrow> real list \<Rightarrow> real list" where
  "rope_thread half head_dim cs sn step tid vec =
     fold (\<lambda>i vec. let x1 = vec ! i; x2 = vec ! (i + head_dim div 2)
                   in vec[i := half (x1 * cs ! i - x2 * sn ! i), i + head_dim div 2 := half (x1 * sn ! i + x2 * cs ! i)])
       (strided step (head_dim div 2) tid) vec"

definition rope_block :: "(real \<Rightarrow> real) \<Rightarrow> nat \<Rightarrow> real list \<Rightarrow> real list \<Rightarrow> nat \<Rightarrow> real list \<Rightarrow> real list" where
  "rope_block half head_dim cs sn step vec = fold (rope_thread half head_dim cs sn step) [0..<step] vec"

lemma rope_pairs:
  assumes "distinct is" "\<And>i. i \<in> set is \<Longrightarrow> i < h" "2 * h \<le> length vec"
  shows "length (fold (\<lambda>i vec. let x1 = vec ! i; x2 = vec ! (i + h)
      in vec[i := half (x1 * cs ! i - x2 * sn ! i), i + h := half (x1 * sn ! i + x2 * cs ! i)]) is vec) = length vec \<and>
    (\<forall>d < length vec. fold (\<lambda>i vec. let x1 = vec ! i; x2 = vec ! (i + h)
      in vec[i := half (x1 * cs ! i - x2 * sn ! i), i + h := half (x1 * sn ! i + x2 * cs ! i)]) is vec ! d =
      (if d \<in> set is then half (vec ! d * cs ! d - vec ! (d + h) * sn ! d)
       else if h \<le> d \<and> d - h \<in> set is then half (vec ! (d - h) * sn ! (d - h) + vec ! d * cs ! (d - h))
       else vec ! d))"
  using assms
proof (induction "is" rule: rev_induct)
  case (snoc i js)
  let ?F = "fold (\<lambda>i vec. let x1 = vec ! i; x2 = vec ! (i + h)
      in vec[i := half (x1 * cs ! i - x2 * sn ! i), i + h := half (x1 * sn ! i + x2 * cs ! i)]) js vec"
  have i: "i < h" "i \<notin> set js" and js: "distinct js" "\<And>j. j \<in> set js \<Longrightarrow> j < h" using snoc.prems by auto
  from snoc.IH[OF js assms(3)] have len: "length ?F = length vec" and
    nth: "d < length vec \<Longrightarrow> ?F ! d =
      (if d \<in> set js then half (vec ! d * cs ! d - vec ! (d + h) * sn ! d)
       else if h \<le> d \<and> d - h \<in> set js then half (vec ! (d - h) * sn ! (d - h) + vec ! d * cs ! (d - h))
       else vec ! d)" for d by blast+
  have "?F ! i = vec ! i" using nth[of i] i assms(3) by simp
  moreover have "i + h \<notin> set js" using js(2) i by fastforce
  then have "?F ! (i + h) = vec ! (i + h)" using nth[of "i + h"] i assms(3) by simp
  ultimately show ?case using len nth i js(2) assms(3) by (auto simp: Let_def nth_list_update)
qed simp

text \<open>
  Whatever the number of threads, the rotation of a block equals that of the Triton kernel: every
  pair of the two halves of the vector is rotated once.
\<close>

theorem rope_block_exact:
  assumes "0 < step" and "length vec = head_dim"
  shows "rope_block half head_dim cs sn step vec = rope_vec half head_dim cs sn vec"
proof -
  let ?h = "head_dim div 2"
  have eq: "rope_block half head_dim cs sn step vec = fold (\<lambda>i vec. let x1 = vec ! i; x2 = vec ! (i + ?h)
      in vec[i := half (x1 * cs ! i - x2 * sn ! i), i + ?h := half (x1 * sn ! i + x2 * cs ! i)]) (visits step ?h) vec"
    unfolding rope_block_def visits_def rope_thread_def fold_nested ..
  have all: "distinct (visits step ?h)" "set (visits step ?h) = {..<?h}" using visits_all[OF assms(1)] by blast+
  have le: "2 * ?h \<le> length vec" using assms(2) by simp
  note pairs = rope_pairs[OF all(1), of ?h vec half cs sn]
  show ?thesis
  proof (rule nth_equalityI)
    show "length (rope_block half head_dim cs sn step vec) = length (rope_vec half head_dim cs sn vec)"
      unfolding eq using pairs all(2) le by (simp add: rope_vec_def Let_def)
    fix d assume "d < length (rope_block half head_dim cs sn step vec)"
    then have d: "d < length vec" unfolding eq using pairs all(2) le by simp
    show "rope_block half head_dim cs sn step vec ! d = rope_vec half head_dim cs sn vec ! d"
      unfolding eq using pairs all(2) le d by (auto simp: rope_vec_def Let_def)
  qed
qed

theorem rope_block_exact_witness:
  "rope_block (\<lambda>x. x) 4 [0, 1] [1, 0] 32 [1, 2, 3, 4] = [- 3, 2, 1, 4]"
  using rope_block_exact[of 32 "[1, 2, 3, 4]" 4 "\<lambda>x. x" "[0, 1]" "[1, 0]"] by (simp add: rope_vec_def Let_def upt_rec)

section \<open>Unpacking\<close>

text \<open>Nibble \<open>i\<close> of a word, less the zero point and scaled, rounded after each operation.\<close>

definition dequant_nibble :: "(real \<Rightarrow> real) \<Rightarrow> 32 word \<Rightarrow> nat \<Rightarrow> real \<Rightarrow> real \<Rightarrow> real" where
  "dequant_nibble half val i scale zero = half (half (half (real (unat (drop_bit (i * 4) val AND 0x0F))) - zero) * scale)"

definition unpack_int4_to_fp16_v8 :: "(real \<Rightarrow> real) \<Rightarrow> 32 word \<Rightarrow> real \<Rightarrow> real \<Rightarrow> real list" where
  "unpack_int4_to_fp16_v8 half val scale zero = map (\<lambda>i. dequant_nibble half val i scale zero) [0..<8]"

text \<open>
  The loop of a thread over the 16 rows of its tile of weights: the thread's lane starts the columns,
  32 is their stride. The buffer is the thread's own; \<open>None\<close> is a register that was never written.
\<close>

definition unpack_tile ::
  "(real \<Rightarrow> real) \<Rightarrow> 32 word list \<Rightarrow> real list \<Rightarrow> real list option \<Rightarrow> nat \<Rightarrow> nat \<Rightarrow> nat \<Rightarrow> nat \<Rightarrow> nat \<Rightarrow> real option list" where
  "unpack_tile half b_quant scales zeros n group_size k_idx n_offset lane =
     fold (\<lambda>row. fold (\<lambda>col buf.
         let current_k = k_idx + row; col_idx = n_offset + col; group_idx = k_idx div group_size;
             zero = (case zeros of None \<Rightarrow> half 0 | Some z \<Rightarrow> z ! (group_idx * n + col_idx))
         in buf[row * 16 + col := Some (dequant_nibble half (b_quant ! (current_k div 8 * n + col_idx)) (current_k mod 8)
                                          (scales ! (group_idx * n + col_idx)) zero)])
       (strided 32 16 lane)) [0..<16] (replicate 256 None)"

text \<open>The launch uses blocks of 4 by 4 threads; each thread takes the place of a warp.\<close>

definition launch_lanes :: "nat list" where
  "launch_lanes = map (\<lambda>thread_x. thread_x mod 32) [0..<4]"

lemma lane_column: "lane < 16 \<Longrightarrow> strided 32 16 lane = [lane]"
  by (subst strided.simps, subst strided.simps) simp

lemma column_place: "lane < 16 \<Longrightarrow> col < 16 \<Longrightarrow> row * 16 + col = r * 16 + lane \<longleftrightarrow> row = r \<and> col = (lane :: nat)"
proof -
  assume less: "lane < 16" "col < 16"
  have "row = r" if "row * 16 + col = r * 16 + lane"
    using less arg_cong[OF that, of "\<lambda>x. x div 16"] by simp
  then show "row * 16 + col = r * 16 + lane \<longleftrightarrow> row = r \<and> col = lane" by auto
qed

lemma fold_column:
  assumes "lane < 16" "row < 16" "col < 16"
  shows "fold (\<lambda>row buf. buf[row * 16 + lane := f row]) [0..<16] (replicate 256 None) ! (row * 16 + col) =
    (if col = lane then f row else None)"
proof -
  let ?js = "map (\<lambda>r. r * 16 + lane) [0..<16]"
  have eq: "fold (\<lambda>row buf. buf[row * 16 + lane := f row]) rs buf =
    write_all (\<lambda>j _. f (j div 16)) (map (\<lambda>r. r * 16 + lane) rs) buf" for rs buf
    using assms(1) by (induction rs arbitrary: buf) (simp_all add: write_all_def)
  have dist: "distinct ?js" by (simp add: distinct_map inj_on_def)
  have lt: "row * 16 + col < 256" using assms by simp
  have mem: "row * 16 + col \<in> set ?js \<longleftrightarrow> col = lane"
    unfolding set_map set_upt image_iff Bex_def column_place[OF assms(1,3)] using assms(2) by simp
  have "(row * 16 + col) div 16 = row" using assms(3) by simp
  then show ?thesis unfolding eq
    using write_all_nth[OF dist, of "\<lambda>j _. f (j div 16)" "replicate 256 None"] lt mem by simp
qed

text \<open>
  A thread fills one column of its 16 by 16 tile of weights, with the value that unpacking the
  whole word gives; the launch has no thread for the columns from the fifth on, so fifteen columns
  of every tile that enters the product are never written.
\<close>

theorem unpack_tile_one_column:
  assumes "lane \<in> set launch_lanes" and "row < 16" and "col < 16"
  shows "unpack_tile half b_quant scales zeros n group_size k_idx n_offset lane ! (row * 16 + col) =
    (if col = lane
     then Some (unpack_int4_to_fp16_v8 half (b_quant ! ((k_idx + row) div 8 * n + (n_offset + col)))
            (scales ! (k_idx div group_size * n + (n_offset + col)))
            (case zeros of None \<Rightarrow> half 0 | Some z \<Rightarrow> z ! (k_idx div group_size * n + (n_offset + col))) ! ((k_idx + row) mod 8))
     else None)"
proof -
  have lane: "lane < 16" using assms(1) by (auto simp: launch_lanes_def)
  show ?thesis
    unfolding unpack_tile_def lane_column[OF lane] Let_def fold.simps comp_id id_comp
    by (subst fold_column[OF lane assms(2,3)]) (cases zeros; simp add: unpack_int4_to_fp16_v8_def)
qed

theorem unpack_tile_one_column_witness:
  "unpack_tile (\<lambda>x. x) (replicate 32 0x21) (replicate 16 2) None 16 128 0 0 0 ! 0 = Some 2 \<and>
   unpack_tile (\<lambda>x. x) (replicate 32 0x21) (replicate 16 2) None 16 128 0 0 0 ! 1 = None"
  using unpack_tile_one_column[of 0 0 0 "\<lambda>x. x" "replicate 32 0x21" "replicate 16 2" None 16 128 0 0]
    unpack_tile_one_column[of 0 0 1 "\<lambda>x. x" "replicate 32 0x21" "replicate 16 2" None 16 128 0 0]
  by (simp add: launch_lanes_def unpack_int4_to_fp16_v8_def dequant_nibble_def upt_rec)

section \<open>Launch\<close>

text \<open>
  The launcher checks the dimensions and sizes the grid; \<open>warp_tiles\<close> are the tiles of the output at
  which the threads of the grid start, those that return at the guard left out.
\<close>

definition launch_int4_gemm_dequant :: "nat \<Rightarrow> nat \<Rightarrow> nat \<Rightarrow> (nat \<times> nat) option" where
  "launch_int4_gemm_dequant m n k =
     (if k mod 16 \<noteq> 0 \<or> n mod 16 \<noteq> 0 \<or> m mod 16 \<noteq> 0 then None
      else Some ((n + 16 * 4 - 1) div (16 * 4), (m + 16 * 4 - 1) div (16 * 4)))"

definition warp_tiles :: "nat \<times> nat \<Rightarrow> nat \<Rightarrow> nat \<Rightarrow> (nat \<times> nat) list" where
  "warp_tiles grid m n =
     filter (\<lambda>(m_offset, n_offset). \<not> (m \<le> m_offset \<or> n \<le> n_offset))
       (map (\<lambda>((block_y, thread_y), (block_x, thread_x)). ((block_y * 4 + thread_y) * 16, (block_x * 4 + thread_x) * 16))
         (List.product (List.product [0..<snd grid] [0..<4]) (List.product [0..<fst grid] [0..<4])))"

lemma digits_inj: "inj_on (\<lambda>(b, t). b * 4 + t) (B \<times> {..<4 :: nat})"
proof (rule inj_onI)
  fix x y assume xy: "x \<in> B \<times> {..<4}" "y \<in> B \<times> {..<4}" and eq: "(\<lambda>(b, t). b * 4 + t) x = (\<lambda>(b, t). b * 4 + t) y"
  obtain b t b' t' where p: "x = (b, t)" "y = (b', t')" "t < 4" "t' < 4" using xy by auto
  have sum: "b * 4 + t = b' * 4 + t'" using eq p(1,2) by simp
  have "b = b'" using arg_cong[OF sum, of "\<lambda>x. x div 4"] p(3,4) by simp
  with sum p(1,2) show "x = y" by simp
qed

lemma digits_image: "(\<lambda>(b, t). b * 4 + t) ` ({..<g} \<times> {..<4}) = {..<g * 4 :: nat}"
proof (intro equalityI subsetI)
  fix x assume "x \<in> {..<g * 4}"
  then show "x \<in> (\<lambda>(b, t). b * 4 + t) ` ({..<g} \<times> {..<4})"
    by (intro image_eqI[of _ _ "(x div 4, x mod 4)"]) (auto simp: less_mult_imp_div_less)
qed auto

text \<open>
  A launch that passes the check starts one thread at every 16 by 16 tile of the output and none
  outside it.
\<close>

theorem warp_tiles_cover:
  assumes "launch_int4_gemm_dequant m n k = Some grid"
  shows "distinct (warp_tiles grid m n) \<and>
    set (warp_tiles grid m n) = (\<lambda>(i, j). (i * 16, j * 16)) ` ({..<m div 16} \<times> {..<n div 16})"
proof -
  let ?ys = "List.product [0..<snd grid] [0..<4]" and ?xs = "List.product [0..<fst grid] [0..<4 :: nat]"
  let ?tile = "\<lambda>((block_y, thread_y), (block_x, thread_x)). ((block_y * 4 + thread_y) * 16, (block_x * 4 + thread_x) * 16 :: nat)"
  have dims: "m = m div 16 * 16" "n = n div 16 * 16" and grid: "grid = ((n + 63) div 64, (m + 63) div 64)"
    using assms by (auto simp: launch_int4_gemm_dequant_def split: if_splits)
  have sets: "set ?ys = {..<snd grid} \<times> {..<4}" "set ?xs = {..<fst grid} \<times> {..<4}" by auto
  have "inj_on ?tile (set (List.product ?ys ?xs))"
  proof (rule inj_onI)
    fix p q assume pq: "p \<in> set (List.product ?ys ?xs)" "q \<in> set (List.product ?ys ?xs)" and eq: "?tile p = ?tile q"
    have "fst p = fst q" using pq eq inj_onD[OF digits_inj[of "{..<snd grid}"], of "fst p" "fst q"] sets by (auto split: prod.splits)
    moreover have "snd p = snd q" using pq eq inj_onD[OF digits_inj[of "{..<fst grid}"], of "snd p" "snd q"] sets by (auto split: prod.splits)
    ultimately show "p = q" by (rule prod_eqI)
  qed
  then have "distinct (warp_tiles grid m n)"
    by (simp add: warp_tiles_def distinct_map distinct_product inj_on_subset)
  moreover have "?tile ` set (List.product ?ys ?xs) = (\<lambda>(i, j). (i * 16, j * 16)) ` ({..<snd grid * 4} \<times> {..<fst grid * 4})"
  proof -
    have "?tile ` (A \<times> B) = (\<lambda>(i, j). (i * 16, j * 16)) ` ((\<lambda>(b, t). b * 4 + t) ` A \<times> (\<lambda>(b, t). b * 4 + t) ` B)"
      for A B :: "(nat \<times> nat) set" by force
    moreover have "set (List.product ?ys ?xs) = ({..<snd grid} \<times> {..<4}) \<times> ({..<fst grid} \<times> {..<4})" using sets by simp
    ultimately show ?thesis by (simp only: digits_image)
  qed
  moreover have "i < m div 16 \<Longrightarrow> i < snd grid * 4" "j < n div 16 \<Longrightarrow> j < fst grid * 4" for i j
    using dims unfolding grid by simp_all
  ultimately show ?thesis using dims unfolding warp_tiles_def by (simp add: image_iff) fastforce
qed
end
