(* ===== verification/Cuda_Rope.thy ===== *)
theory Cuda_Rope
  imports Cuda_Transforms
begin

text \<open>
  \<open>rope_kernel\<close> of \<open>csrc/include/cudaforge/kernels/rope.cuh\<close> over its grid: one block of threads per
  token, head and tensor, each rotating one vector of the flat query or key array in place. The
  repository has no launcher for it, so the grid is an argument.
\<close>

section \<open>Segments of a flat array\<close>

definition segment :: "nat \<Rightarrow> nat \<Rightarrow> 'a list \<Rightarrow> 'a list" where
  "segment off n xs = take n (drop off xs)"

definition put_segment :: "nat \<Rightarrow> 'a list \<Rightarrow> 'a list \<Rightarrow> 'a list" where
  "put_segment off v xs = take off xs @ v @ drop (off + length v) xs"

lemma segment_length: "off + n \<le> length xs \<Longrightarrow> length (segment off n xs) = n"
  by (simp add: segment_def)

lemma put_length: "off + length v \<le> length xs \<Longrightarrow> length (put_segment off v xs) = length xs"
  by (simp add: put_segment_def)

lemma segment_nth: "off + n \<le> length xs \<Longrightarrow> d < n \<Longrightarrow> segment off n xs ! d = xs ! (off + d)"
  by (simp add: segment_def)

lemma put_nth:
  "off + length v \<le> length xs \<Longrightarrow> d < length xs \<Longrightarrow>
   put_segment off v xs ! d = (if off \<le> d \<and> d < off + length v then v ! (d - off) else xs ! d)"
  by (auto simp: put_segment_def nth_append min_def)

lemma segment_put:
  assumes "Suc i * n \<le> length xs" "Suc j * n \<le> length xs" "length v = n"
  shows "segment (j * n) n (put_segment (i * n) v xs) = (if j = i then v else segment (j * n) n xs)"
proof (rule nth_equalityI)
  have len: "length (put_segment (i * n) v xs) = length xs" using assms by (intro put_length) simp
  show "length (segment (j * n) n (put_segment (i * n) v xs)) = length (if j = i then v else segment (j * n) n xs)"
    using assms len by (simp add: segment_length)
  fix d assume "d < length (segment (j * n) n (put_segment (i * n) v xs))"
  then have d: "d < n" using assms len by (simp add: segment_length)
  have apart: "\<not> (i * n \<le> j * n + d \<and> j * n + d < i * n + n)" if "j \<noteq> i"
  proof -
    have "Suc j * n \<le> i * n \<or> Suc i * n \<le> j * n" using that by (cases "j < i") (auto intro!: mult_le_mono1 simp del: mult_Suc)
    then show ?thesis using d by auto
  qed
  have le: "i * n + length v \<le> length xs" "j * n + d < length xs" "j * n + n \<le> length xs" using assms d by simp_all
  show "segment (j * n) n (put_segment (i * n) v xs) ! d = (if j = i then v else segment (j * n) n xs) ! d"
  proof (cases "j = i")
    case True
    then show ?thesis using d le by (simp add: segment_nth len put_nth assms(3))
  next
    case False
    then show ?thesis using apart d le unfolding segment_nth[OF le(3)[folded len] d] put_nth[OF le(1,2)] assms(3)
      by (auto simp: segment_nth)
  qed
qed

text \<open>Updates of different segments do not meet, in whatever order they run.\<close>

lemma segments_fold:
  assumes "distinct is" "\<And>i. i \<in> set is \<Longrightarrow> Suc i * n \<le> length xs" "\<And>i v. length v = n \<Longrightarrow> length (f i v) = n"
  shows "length (fold (\<lambda>i xs. put_segment (i * n) (f i (segment (i * n) n xs)) xs) is xs) = length xs \<and>
    (\<forall>j. Suc j * n \<le> length xs \<longrightarrow> segment (j * n) n (fold (\<lambda>i xs. put_segment (i * n) (f i (segment (i * n) n xs)) xs) is xs) =
      (if j \<in> set is then f j (segment (j * n) n xs) else segment (j * n) n xs))"
  using assms(1,2)
proof (induction "is" rule: rev_induct)
  case (snoc i js)
  let ?xs = "fold (\<lambda>i xs. put_segment (i * n) (f i (segment (i * n) n xs)) xs) js xs"
  from snoc have len: "length ?xs = length xs" and i: "Suc i * n \<le> length xs" "i \<notin> set js"
    and seg: "\<And>j. Suc j * n \<le> length xs \<Longrightarrow> segment (j * n) n ?xs =
      (if j \<in> set js then f j (segment (j * n) n xs) else segment (j * n) n xs)" by auto
  have v: "length (f i (segment (i * n) n ?xs)) = n" using i(1) len by (intro assms(3) segment_length) simp
  have "segment (j * n) n (put_segment (i * n) (f i (segment (i * n) n ?xs)) ?xs) =
      (if j \<in> set (js @ [i]) then f j (segment (j * n) n xs) else segment (j * n) n xs)" if "Suc j * n \<le> length xs" for j
    using segment_put[of i n ?xs j "f i (segment (i * n) n ?xs)"] seg[OF that] seg[OF i(1)] that i len v by auto
  then show ?case using len i(1) v by (simp add: put_length)
qed simp

section \<open>The kernel\<close>

definition rope_kernel ::
  "(real \<Rightarrow> real) \<Rightarrow> nat \<Rightarrow> nat \<Rightarrow> nat \<Rightarrow> nat \<Rightarrow> real list \<Rightarrow> real list \<Rightarrow> nat \<Rightarrow> nat \<times> nat \<times> nat \<Rightarrow>
   real list \<times> real list \<Rightarrow> real list \<times> real list" where
  "rope_kernel half head_dim num_q_heads num_kv_heads seq_len cs sn step = (\<lambda>(token_idx, head_idx, is_key) (q, k).
     let pos = token_idx mod seq_len;
         cos_row = segment (pos * (head_dim div 2)) (head_dim div 2) cs;
         sin_row = segment (pos * (head_dim div 2)) (head_dim div 2) sn
     in if is_key = 0 then
          if num_q_heads \<le> head_idx then (q, k)
          else let off = (token_idx * num_q_heads + head_idx) * head_dim
               in (put_segment off (rope_block half head_dim cos_row sin_row step (segment off head_dim q)) q, k)
        else
          if num_kv_heads \<le> head_idx then (q, k)
          else let off = (token_idx * num_kv_heads + head_idx) * head_dim
               in (q, put_segment off (rope_block half head_dim cos_row sin_row step (segment off head_dim k)) k))"

text \<open>The blocks of the grid, in the order in which they happen to run.\<close>

definition rope_run ::
  "(real \<Rightarrow> real) \<Rightarrow> nat \<Rightarrow> nat \<Rightarrow> nat \<Rightarrow> nat \<Rightarrow> real list \<Rightarrow> real list \<Rightarrow> nat \<Rightarrow> (nat \<times> nat \<times> nat) list \<Rightarrow>
   real list \<times> real list \<Rightarrow> real list \<times> real list" where
  "rope_run half head_dim nq nk seq_len cs sn step blocks = fold (rope_kernel half head_dim nq nk seq_len cs sn step) blocks"

text \<open>What a block does to the vector with number \<open>i\<close> of an array of \<open>heads\<close> heads.\<close>

definition rotate_vector ::
  "(real \<Rightarrow> real) \<Rightarrow> nat \<Rightarrow> nat \<Rightarrow> nat \<Rightarrow> real list \<Rightarrow> real list \<Rightarrow> nat \<Rightarrow> nat \<Rightarrow> real list \<Rightarrow> real list" where
  "rotate_vector half head_dim heads seq_len cs sn step i v =
     (let pos = i div heads mod seq_len in
      rope_block half head_dim (segment (pos * (head_dim div 2)) (head_dim div 2) cs)
        (segment (pos * (head_dim div 2)) (head_dim div 2) sn) step v)"

definition vectors :: "nat \<Rightarrow> nat \<Rightarrow> (nat \<times> nat \<times> nat) list \<Rightarrow> nat list" where
  "vectors key heads blocks =
     map (\<lambda>(t, h, _). t * heads + h) (filter (\<lambda>(t, h, z). (z = 0) = (key = 0) \<and> h < heads) blocks)"

lemma vector_token: "h < heads \<Longrightarrow> (t * heads + h) div heads = (t :: nat)"
  by simp

lemma rope_run_vectors:
  "rope_run half hdim nq nk seq_len cs sn step blocks (q, k) =
    (fold (\<lambda>i xs. put_segment (i * hdim) (rotate_vector half hdim nq seq_len cs sn step i (segment (i * hdim) hdim xs)) xs) (vectors 0 nq blocks) q,
     fold (\<lambda>i xs. put_segment (i * hdim) (rotate_vector half hdim nk seq_len cs sn step i (segment (i * hdim) hdim xs)) xs) (vectors 1 nk blocks) k)"
proof (induction blocks arbitrary: q k)
  case (Cons b blocks)
  obtain t h z where b: "b = (t, h, z)" by (cases b)
  show ?case
    using Cons.IH by (auto simp: b rope_run_def vectors_def rope_kernel_def rotate_vector_def vector_token Let_def)
qed (simp add: rope_run_def vectors_def)

lemma vectors_all:
  assumes "distinct blocks" "set blocks = {..<T} \<times> {..<H} \<times> {0, 1}" "heads \<le> H" "key \<le> 1"
  shows "distinct (vectors key heads blocks)" "set (vectors key heads blocks) = {..<T * heads}"
proof -
  let ?sel = "filter (\<lambda>(t, h, z). (z = 0) = (key = 0) \<and> h < heads) blocks"
  have key: "key = 0 \<or> key = 1" using assms(4) by auto
  have sel: "set ?sel = {..<T} \<times> {..<heads} \<times> {key}"
    unfolding set_filter assms(2) using assms(3) key by (elim disjE) fastforce+
  have "inj_on (\<lambda>(t, h, _). t * heads + h) (set ?sel)"
  proof (rule inj_onI)
    fix x y assume xy: "x \<in> set ?sel" "y \<in> set ?sel" and eq: "(\<lambda>(t, h, _). t * heads + h) x = (\<lambda>(t, h, _). t * heads + h) y"
    obtain t h where x: "x = (t, h, key)" "h < heads" using xy(1) unfolding sel by auto
    obtain t' h' where y: "y = (t', h', key)" "h' < heads" using xy(2) unfolding sel by auto
    have sum: "t * heads + h = t' * heads + h'" using eq x(1) y(1) by simp
    then have "t = t'" using vector_token[OF x(2), of t] vector_token[OF y(2), of t'] by simp
    with sum show "x = y" using x(1) y(1) by simp
  qed
  then show "distinct (vectors key heads blocks)" using assms(1) by (simp add: vectors_def distinct_map)
  have "{..<T * heads} \<subseteq> (\<lambda>(t, h, _). t * heads + h) ` ({..<T} \<times> {..<heads} \<times> {key})"
  proof
    fix i assume i: "i \<in> {..<T * heads}"
    then have "0 < heads" by (cases heads) auto
    then have "i div heads < T" "i mod heads < heads" using i by (simp_all add: less_mult_imp_div_less)
    then show "i \<in> (\<lambda>(t, h, _). t * heads + h) ` ({..<T} \<times> {..<heads} \<times> {key})"
      by (intro image_eqI[of _ _ "(i div heads, i mod heads, key)"]) auto
  qed
  moreover have "t * heads + h < T * heads" if "t < T" "h < heads" for t h
  proof -
    have "Suc t * heads \<le> T * heads" using that(1) by (intro mult_le_mono1) simp
    then show ?thesis using that(2) by simp
  qed
  ultimately have "(\<lambda>(t, h, _). t * heads + h) ` ({..<T} \<times> {..<heads} \<times> {key}) = {..<T * heads}" by fastforce
  then show "set (vectors key heads blocks) = {..<T * heads}" unfolding vectors_def set_map sel .
qed

lemma rope_block_length: "0 < step \<Longrightarrow> length v = hdim \<Longrightarrow> length (rope_block half hdim c s step v) = hdim"
  by (simp add: rope_block_exact rope_vec_def Let_def)

text \<open>
  Whatever the order of the blocks and the number of threads, a grid that covers all heads rotates
  every query and key vector exactly once, by the row of its position in the sequence.
\<close>

theorem rope_kernel_exact:
  assumes "0 < step" and "distinct blocks" and "set blocks = {..<T} \<times> {..<H} \<times> {0, 1}" and "nq \<le> H" and "nk \<le> H"
    and "length q = T * nq * hdim" and "length k = T * nk * hdim" and "t < T"
    and "rope_run half hdim nq nk seq_len cs sn step blocks (q, k) = (q', k')"
  shows "let row = (\<lambda>table. segment (t mod seq_len * (hdim div 2)) (hdim div 2) table) in
    length q' = length q \<and> length k' = length k \<and>
    (\<forall>h < nq. segment ((t * nq + h) * hdim) hdim q' =
       rope_vec half hdim (row cs) (row sn) (segment ((t * nq + h) * hdim) hdim q)) \<and>
    (\<forall>h < nk. segment ((t * nk + h) * hdim) hdim k' =
       rope_vec half hdim (row cs) (row sn) (segment ((t * nk + h) * hdim) hdim k))"
proof -
  have one: "length ys = length xs \<and> (\<forall>h < heads. segment ((t * heads + h) * hdim) hdim ys =
      rope_vec half hdim (segment (t mod seq_len * (hdim div 2)) (hdim div 2) cs)
        (segment (t mod seq_len * (hdim div 2)) (hdim div 2) sn) (segment ((t * heads + h) * hdim) hdim xs))"
    if "length xs = T * heads * hdim" "heads \<le> H" "key \<le> 1"
      "ys = fold (\<lambda>i xs. put_segment (i * hdim) (rotate_vector half hdim heads seq_len cs sn step i (segment (i * hdim) hdim xs)) xs)
              (vectors key heads blocks) xs" for xs ys heads key
  proof -
    note all = vectors_all[OF assms(2,3) that(2,3)]
    have fit: "Suc i * hdim \<le> length xs" if i: "i < T * heads" for i
    proof -
      have "Suc i * hdim \<le> (T * heads) * hdim" using i by (intro mult_le_mono1) simp
      then show ?thesis using \<open>length xs = T * heads * hdim\<close> by simp
    qed
    have keeps: "length v = hdim \<Longrightarrow> length (rotate_vector half hdim heads seq_len cs sn step i v) = hdim" for i v
      using assms(1) by (simp add: rotate_vector_def rope_block_length Let_def)
    have seg: "length ys = length xs \<and> (\<forall>j. Suc j * hdim \<le> length xs \<longrightarrow> segment (j * hdim) hdim ys =
        (if j \<in> {..<T * heads} then rotate_vector half hdim heads seq_len cs sn step j (segment (j * hdim) hdim xs)
         else segment (j * hdim) hdim xs))"
      unfolding that(4) all(2)[symmetric] by (rule segments_fold[OF all(1)]) (use fit keeps all(2) in \<open>simp_all del: mult_Suc\<close>)
    have "segment ((t * heads + h) * hdim) hdim ys =
      rope_vec half hdim (segment (t mod seq_len * (hdim div 2)) (hdim div 2) cs)
        (segment (t mod seq_len * (hdim div 2)) (hdim div 2) sn) (segment ((t * heads + h) * hdim) hdim xs)" if h: "h < heads" for h
    proof -
      have i: "t * heads + h < T * heads"
      proof -
        have "Suc t * heads \<le> T * heads" using assms(8) by (intro mult_le_mono1) simp
        then show ?thesis using h by simp
      qed
      have "segment ((t * heads + h) * hdim) hdim ys =
          rotate_vector half hdim heads seq_len cs sn step (t * heads + h) (segment ((t * heads + h) * hdim) hdim xs)"
        using seg fit i by (simp del: mult_Suc)
      then show ?thesis using assms(1) fit[OF i] vector_token[OF h, of t]
        by (simp add: rotate_vector_def Let_def rope_block_exact segment_length)
    qed
    then show ?thesis using seg fit by (simp del: mult_Suc)
  qed
  have run: "q' = fold (\<lambda>i xs. put_segment (i * hdim) (rotate_vector half hdim nq seq_len cs sn step i (segment (i * hdim) hdim xs)) xs) (vectors 0 nq blocks) q"
    "k' = fold (\<lambda>i xs. put_segment (i * hdim) (rotate_vector half hdim nk seq_len cs sn step i (segment (i * hdim) hdim xs)) xs) (vectors 1 nk blocks) k"
    using assms(9) by (simp_all add: rope_run_vectors)
  show ?thesis using one[OF assms(6,4) _ run(1)] one[OF assms(7,5) _ run(2)] by (simp add: Let_def)
qed

end
