(* ===== verification/Kernel_Addresses.thy ===== *)
theory Kernel_Addresses
  imports Fused_Kernels
begin

text \<open>
  The addresses that the instances of the Triton kernels (\<open>csrc/kernels/triton\<close>) read and write, as
  offsets from the pointers of the tensors: an index times a stride for each dimension, under the
  masks of the loads and stores. \<open>Flash_Attention\<close> and \<open>Fused_Kernels\<close> model the values; here it is shown
  that the instances of a grid write every place of the output once, so they may run in any order.

  \<^item> The wrappers pass the strides of their tensors; \<open>contiguous\<close> gives those of a contiguous tensor.
  \<^item> \<open>triton.next_power_of_2\<close> is an argument.
\<close>

section \<open>Strides\<close>

definition address :: "nat list \<Rightarrow> nat list \<Rightarrow> nat" where
  "address strides idx = sum_list (map2 (*) idx strides)"

fun contiguous :: "nat list \<Rightarrow> nat list" where
  "contiguous [] = []"
| "contiguous (n # ns) = prod_list ns # contiguous ns"

definition valid_index :: "nat list \<Rightarrow> nat list \<Rightarrow> bool" where
  "valid_index dims idx = list_all2 (<) idx dims"

lemma valid_index_simps [simp]:
  "valid_index [] idx = (idx = [])" "valid_index dims [] = (dims = [])"
  "valid_index (n # ns) (i # is) = (i < n \<and> valid_index ns is)"
  by (auto simp: valid_index_def)

lemma valid_index_Cons: "valid_index (n # ns) idx \<longleftrightarrow> (\<exists>i is. idx = i # is \<and> i < n \<and> valid_index ns is)"
  by (cases idx) simp_all

lemma address_Cons [simp]: "address (s # ss) (i # is) = i * s + address ss is"
  by (simp add: address_def)

lemma address_Nil [simp]: "address ss [] = 0"
  by (simp add: address_def)

lemma address_less: "valid_index dims idx \<Longrightarrow> address (contiguous dims) idx < prod_list dims"
proof (induction dims arbitrary: idx)
  case (Cons n ns)
  then obtain i "is" where i: "idx = i # is" "i < n" "valid_index ns is" by (auto simp: valid_index_Cons)
  have "i * prod_list ns + address (contiguous ns) is < Suc i * prod_list ns" using Cons.IH[OF i(3)] by simp
  also have "\<dots> \<le> n * prod_list ns" using i(2) by (intro mult_le_mono1) simp
  finally show ?case by (simp add: i(1))
qed simp

lemma address_split:
  assumes "valid_index ns is"
  shows "(i * prod_list ns + address (contiguous ns) is) div prod_list ns = i"
    "(i * prod_list ns + address (contiguous ns) is) mod prod_list ns = address (contiguous ns) is"
  using address_less[OF assms] by simp_all

lemma address_inj: "inj_on (address (contiguous dims)) {idx. valid_index dims idx}"
proof (induction dims)
  case (Cons n ns)
  show ?case
  proof (rule inj_onI)
    fix x y assume "x \<in> {idx. valid_index (n # ns) idx}" "y \<in> {idx. valid_index (n # ns) idx}"
      and eq: "address (contiguous (n # ns)) x = address (contiguous (n # ns)) y"
    then obtain i "is" j js where x: "x = i # is" "valid_index ns is" and y: "y = j # js" "valid_index ns js"
      by (auto simp: valid_index_Cons)
    have e: "i * prod_list ns + address (contiguous ns) is = j * prod_list ns + address (contiguous ns) js" using eq x y by simp
    have "i = j" using arg_cong[OF e, of "\<lambda>a. a div prod_list ns"] by (simp only: address_split x y)
    moreover have "address (contiguous ns) is = address (contiguous ns) js"
      using arg_cong[OF e, of "\<lambda>a. a mod prod_list ns"] by (simp only: address_split x y)
    then have "is = js" using inj_onD[OF Cons.IH] x(2) y(2) by simp
    ultimately show "x = y" by (simp add: x y)
  qed
qed simp

lemma address_onto: "a < prod_list dims \<Longrightarrow> \<exists>idx. valid_index dims idx \<and> address (contiguous dims) idx = a"
proof (induction dims arbitrary: a)
  case (Cons n ns)
  then have pos: "0 < prod_list ns" by (cases "prod_list ns") auto
  with Cons.IH[of "a mod prod_list ns"] obtain "is" where
    "is": "valid_index ns is" "address (contiguous ns) is = a mod prod_list ns" by auto
  have "a div prod_list ns < n" using Cons.prems by (simp add: less_mult_imp_div_less)
  with "is" show ?case by (intro exI[of _ "(a div prod_list ns) # is"]) simp
qed simp

text \<open>Indices that are listed once and completely have addresses that are listed once and completely.\<close>

lemma addresses_once:
  assumes "distinct idxs" "set idxs = {idx. valid_index dims idx}"
  shows "distinct (map (address (contiguous dims)) idxs)" "set (map (address (contiguous dims)) idxs) = {..<prod_list dims}"
proof -
  show "distinct (map (address (contiguous dims)) idxs)"
    using assms address_inj[of dims] by (simp add: distinct_map)
  show "set (map (address (contiguous dims)) idxs) = {..<prod_list dims}"
    using assms(2) address_less address_onto by (fastforce simp: image_iff)
qed

text \<open>The lists of the instances of a grid are disjoint when each element tells its instance.\<close>

lemma distinct_concat_map:
  "distinct ps \<Longrightarrow> (\<And>p. p \<in> set ps \<Longrightarrow> distinct (f p)) \<Longrightarrow> (\<And>p x. p \<in> set ps \<Longrightarrow> x \<in> set (f p) \<Longrightarrow> g x = p) \<Longrightarrow>
   distinct (concat (map f ps))"
proof (induction ps)
  case (Cons p ps)
  have "x \<notin> set (concat (map f ps))" if "x \<in> set (f p)" for x
  proof
    assume "x \<in> set (concat (map f ps))"
    then obtain q where "q \<in> set ps" "x \<in> set (f q)" by auto
    with that Cons.prems(3)[of p x] Cons.prems(3)[of q x] Cons.prems(1) show False by simp
  qed
  with Cons show ?case by auto
qed simp

lemma map_concat_addresses: "concat (map (\<lambda>p. map a (f p)) ps) = map a (concat (map f ps))"
  by (induction ps) simp_all

section \<open>Attention\<close>

definition flash_grid :: "nat \<Rightarrow> nat \<Rightarrow> nat \<Rightarrow> (nat \<times> nat \<times> nat) list" where
  "flash_grid n_ctx heads batch = List.product [0..<cdiv n_ctx 64] (List.product [0..<heads] [0..<batch])"

text \<open>The rows of a tile under the mask, for the queries and the output.\<close>

definition tile_indices :: "nat \<Rightarrow> nat \<Rightarrow> nat \<Rightarrow> nat \<times> nat \<times> nat \<Rightarrow> nat list list" where
  "tile_indices block n_ctx width p =
     (case p of (start, off_h, off_z) \<Rightarrow>
        concat (map (\<lambda>i. if start * block + i < n_ctx then map (\<lambda>d. [off_z, off_h, start * block + i, d]) [0..<width] else [])
          [0..<block]))"

definition flash_stores :: "nat list \<Rightarrow> nat \<Rightarrow> nat \<Rightarrow> nat \<times> nat \<times> nat \<Rightarrow> nat list" where
  "flash_stores strides n_ctx width p = map (address strides) (tile_indices 64 n_ctx width p)"

text \<open>The loads of keys and values: every tile up to the end column.\<close>

definition flash_loads :: "nat list \<Rightarrow> nat \<Rightarrow> nat \<Rightarrow> bool \<Rightarrow> nat \<times> nat \<times> nat \<Rightarrow> nat list" where
  "flash_loads strides n_ctx width causal p =
     (case p of (start_m, off_h, off_z) \<Rightarrow>
        let end_n = (if causal then min n_ctx ((start_m + 1) * 64) else n_ctx)
        in concat (map (\<lambda>t. map (address strides) (tile_indices 64 n_ctx width (t, off_h, off_z))) [0..<cdiv end_n 64]))"

lemma tile_indices_iff:
  "idx \<in> set (tile_indices block n_ctx width (start, h, z)) \<longleftrightarrow>
     (\<exists>i < block. \<exists>d < width. start * block + i < n_ctx \<and> idx = [z, h, start * block + i, d])"
  unfolding tile_indices_def case_prod_conv set_concat set_map set_upt image_image by (fastforce split: if_splits)

lemma tile_indices_distinct: "distinct (tile_indices block n_ctx width p)"
proof -
  obtain start h z where p: "p = (start, h, z)" by (cases p)
  show ?thesis unfolding tile_indices_def p case_prod_conv
    by (rule distinct_concat_map[where g = "\<lambda>idx. idx ! 2 - start * block"])
      (auto simp: distinct_map inj_on_def numeral_2_eq_2 split: if_splits)
qed

lemma below_cdiv: "0 < b \<Longrightarrow> m < n \<Longrightarrow> m div b < cdiv n b"
proof -
  assume b: "0 < b" and "m < n"
  then have "m div b * b < cdiv n b * b" using cdiv_ge[OF b, of n] div_times_less_eq_dividend[of m b] by linarith
  then show ?thesis by simp
qed

lemma flash_indices:
  "distinct (concat (map (tile_indices 64 n_ctx width) (flash_grid n_ctx heads batch)))"
  "set (concat (map (tile_indices 64 n_ctx width) (flash_grid n_ctx heads batch))) = {idx. valid_index [batch, heads, n_ctx, width] idx}"
proof -
  show "distinct (concat (map (tile_indices 64 n_ctx width) (flash_grid n_ctx heads batch)))"
    by (rule distinct_concat_map[where g = "\<lambda>idx. (idx ! 2 div 64, idx ! 1, idx ! 0)"])
      (auto simp: flash_grid_def distinct_product tile_indices_distinct tile_indices_iff numeral_2_eq_2)
  show "set (concat (map (tile_indices 64 n_ctx width) (flash_grid n_ctx heads batch))) = {idx. valid_index [batch, heads, n_ctx, width] idx}"
  proof (intro set_eqI iffI)
    fix idx assume "idx \<in> {idx. valid_index [batch, heads, n_ctx, width] idx}"
    then obtain z h m d where idx: "idx = [z, h, m, d]" "z < batch" "h < heads" "m < n_ctx" "d < width"
      by (auto simp: valid_index_Cons)
    have "idx \<in> set (tile_indices 64 n_ctx width (m div 64, h, z))"
      unfolding tile_indices_iff using idx by (intro exI[of _ "m mod 64"] exI[of _ d]) (simp add: div_mult_mod_eq)
    moreover have "(m div 64, h, z) \<in> set (flash_grid n_ctx heads batch)"
      using idx below_cdiv[of 64 m n_ctx] by (simp add: flash_grid_def)
    ultimately show "idx \<in> set (concat (map (tile_indices 64 n_ctx width) (flash_grid n_ctx heads batch)))" by auto
  qed (auto simp: flash_grid_def tile_indices_iff)
qed

section \<open>Matrix product\<close>

definition gemm_grid :: "nat \<Rightarrow> nat \<Rightarrow> (nat \<times> nat) list" where
  "gemm_grid m n = List.product [0..<cdiv m 32] [0..<cdiv n 32]"

definition gemm_indices :: "nat \<Rightarrow> nat \<Rightarrow> nat \<times> nat \<Rightarrow> nat list list" where
  "gemm_indices m n p =
     (case p of (pid_m, pid_n) \<Rightarrow>
        concat (map (\<lambda>i. concat (map (\<lambda>j.
            if pid_m * 32 + i < m \<and> pid_n * 32 + j < n then [[pid_m * 32 + i, pid_n * 32 + j]] else []) [0..<32])) [0..<32]))"

definition gemm_stores :: "nat list \<Rightarrow> nat \<Rightarrow> nat \<Rightarrow> nat \<times> nat \<Rightarrow> nat list" where
  "gemm_stores strides m n p = map (address strides) (gemm_indices m n p)"

text \<open>The loads of the scales and of the packed weights: the scales have a mask for the column only.\<close>

definition scale_loads :: "nat list \<Rightarrow> nat \<Rightarrow> nat \<Rightarrow> nat \<Rightarrow> nat \<times> nat \<Rightarrow> nat list" where
  "scale_loads strides n k_dim group_size p =
     (case p of (pid_m, pid_n) \<Rightarrow>
        concat (map (\<lambda>k. concat (map (\<lambda>j.
            if pid_n * 32 + j < n then [address strides [(k * 32) div group_size, pid_n * 32 + j]] else []) [0..<32]))
          [0..<cdiv k_dim 32]))"

definition weight_loads :: "nat list \<Rightarrow> nat \<Rightarrow> nat \<Rightarrow> nat \<times> nat \<Rightarrow> nat list" where
  "weight_loads strides n k_dim p =
     (case p of (pid_m, pid_n) \<Rightarrow>
        concat (map (\<lambda>k. concat (map (\<lambda>i. concat (map (\<lambda>j.
            if k * 32 + i < k_dim \<and> pid_n * 32 + j < n then [address strides [(k * 32 + i) div 8, pid_n * 32 + j]] else []) [0..<32])) [0..<32]))
          [0..<cdiv k_dim 32]))"

lemma gemm_indices_iff:
  "idx \<in> set (gemm_indices m n (pm, pn)) \<longleftrightarrow>
     (\<exists>i < 32. \<exists>j < 32. pm * 32 + i < m \<and> pn * 32 + j < n \<and> idx = [pm * 32 + i, pn * 32 + j])"
  by (auto simp: gemm_indices_def split: if_splits)

lemma gemm_indices_distinct: "distinct (gemm_indices m n p)"
proof -
  obtain pm pn where p: "p = (pm, pn)" by (cases p)
  have row: "distinct (concat (map (\<lambda>j. if pm * 32 + i < m \<and> pn * 32 + j < n then [[pm * 32 + i, pn * 32 + j]] else []) [0..<32]))" for i
    by (rule distinct_concat_map[where g = "\<lambda>idx. idx ! 1 - pn * 32"]) (auto split: if_splits)
  show ?thesis unfolding gemm_indices_def p case_prod_conv
    by (rule distinct_concat_map[where g = "\<lambda>idx. idx ! 0 - pm * 32"]) (use row in \<open>auto split: if_splits\<close>)
qed

lemma gemm_all_indices:
  "distinct (concat (map (gemm_indices m n) (gemm_grid m n)))"
  "set (concat (map (gemm_indices m n) (gemm_grid m n))) = {idx. valid_index [m, n] idx}"
proof -
  show "distinct (concat (map (gemm_indices m n) (gemm_grid m n)))"
    by (rule distinct_concat_map[where g = "\<lambda>idx. (idx ! 0 div 32, idx ! 1 div 32)"])
      (auto simp: gemm_grid_def distinct_product gemm_indices_distinct gemm_indices_iff)
  show "set (concat (map (gemm_indices m n) (gemm_grid m n))) = {idx. valid_index [m, n] idx}"
  proof (intro set_eqI iffI)
    fix idx assume "idx \<in> {idx. valid_index [m, n] idx}"
    then obtain a b where idx: "idx = [a, b]" "a < m" "b < n" by (auto simp: valid_index_Cons)
    have "idx \<in> set (gemm_indices m n (a div 32, b div 32))"
      unfolding gemm_indices_iff using idx by (intro exI[of _ "a mod 32"] conjI exI[of _ "b mod 32"]) (simp_all add: div_mult_mod_eq)
    moreover have "(a div 32, b div 32) \<in> set (gemm_grid m n)"
      using idx below_cdiv[of 32 a m] below_cdiv[of 32 b n] by (simp add: gemm_grid_def)
    ultimately show "idx \<in> set (concat (map (gemm_indices m n) (gemm_grid m n)))" by auto
  qed (auto simp: gemm_grid_def gemm_indices_iff)
qed

section \<open>Rotation\<close>

text \<open>The stores of an instance to the queries (\<open>is_key\<close> false) or to the keys, first half then second half.\<close>

definition rope_indices :: "nat \<Rightarrow> nat \<Rightarrow> nat \<Rightarrow> nat \<Rightarrow> bool \<Rightarrow> nat \<times> nat \<times> bool \<Rightarrow> nat list list" where
  "rope_indices heads seq_len half_dim block_dim is_key p =
     (case p of (token, head, key) \<Rightarrow>
        if key = is_key \<and> head < heads
        then map (\<lambda>d. [token div seq_len, token mod seq_len, head, d]) (filter (\<lambda>d. d < half_dim) [0..<block_dim]) @
             map (\<lambda>d. [token div seq_len, token mod seq_len, head, d + half_dim]) (filter (\<lambda>d. d < half_dim) [0..<block_dim])
        else [])"

definition rope_stores :: "nat list \<Rightarrow> nat \<Rightarrow> nat \<Rightarrow> nat \<Rightarrow> nat \<Rightarrow> bool \<Rightarrow> nat \<times> nat \<times> bool \<Rightarrow> nat list" where
  "rope_stores strides heads seq_len half_dim block_dim is_key p =
     map (address strides) (rope_indices heads seq_len half_dim block_dim is_key p)"

lemma rope_indices_iff:
  assumes "half_dim \<le> block_dim"
  shows "idx \<in> set (rope_indices heads seq_len half_dim block_dim is_key (token, head, key)) \<longleftrightarrow>
     key = is_key \<and> head < heads \<and> (\<exists>d < 2 * half_dim. idx = [token div seq_len, token mod seq_len, head, d])"
proof -
  have split: "d < 2 * half_dim \<longleftrightarrow> d < half_dim \<or> (\<exists>e < half_dim. d = e + half_dim)" for d
    by (auto intro: exI[of _ "d - half_dim"])
  show ?thesis using assms by (auto simp: rope_indices_def split)
qed

lemma rope_all_indices:
  assumes "half_dim \<le> block_dim" "heads \<le> max_heads"
  shows "distinct (concat (map (rope_indices heads seq_len half_dim block_dim is_key) (rope_grid (batch * seq_len) max_heads)))"
    "set (concat (map (rope_indices heads seq_len half_dim block_dim is_key) (rope_grid (batch * seq_len) max_heads))) =
       {idx. valid_index [batch, seq_len, heads, 2 * half_dim] idx}"
proof -
  let ?ix = "rope_indices heads seq_len half_dim block_dim is_key"
  have "distinct (?ix p)" for p
    by (cases p) (auto simp: rope_indices_def distinct_map inj_on_def)
  then show "distinct (concat (map ?ix (rope_grid (batch * seq_len) max_heads)))"
    by (intro distinct_concat_map[where g = "\<lambda>idx. (idx ! 0 * seq_len + idx ! 1, idx ! 2, is_key)"])
      (auto simp: grid_distinct grid_set rope_indices_iff[OF assms(1)] numeral_2_eq_2)
  show "set (concat (map ?ix (rope_grid (batch * seq_len) max_heads))) = {idx. valid_index [batch, seq_len, heads, 2 * half_dim] idx}"
  proof (intro set_eqI iffI)
    fix idx assume "idx \<in> {idx. valid_index [batch, seq_len, heads, 2 * half_dim] idx}"
    then obtain b s h d where idx: "idx = [b, s, h, d]" "b < batch" "s < seq_len" "h < heads" "d < 2 * half_dim"
      by (auto simp: valid_index_Cons)
    have "idx \<in> set (?ix (b * seq_len + s, h, is_key))"
      unfolding rope_indices_iff[OF assms(1)] using idx by auto
    moreover have "(b * seq_len + s, h, is_key) \<in> set (rope_grid (batch * seq_len) max_heads)"
      using idx assms(2) token_bound[of b batch s seq_len] by (simp add: grid_set)
    ultimately show "idx \<in> set (concat (map ?ix (rope_grid (batch * seq_len) max_heads)))" by auto
  next
    fix idx assume "idx \<in> set (concat (map ?ix (rope_grid (batch * seq_len) max_heads)))"
    then obtain token h d where i: "token < batch * seq_len" "h < heads" "d < 2 * half_dim"
      "idx = [token div seq_len, token mod seq_len, h, d]"
      by (auto simp: grid_set rope_indices_iff[OF assms(1)])
    then have "0 < seq_len" by (cases seq_len) auto
    with i show "idx \<in> {idx. valid_index [batch, seq_len, heads, 2 * half_dim] idx}" by (simp add: less_mult_imp_div_less)
  qed
qed

section \<open>Properties\<close>

text \<open>Every place of a tensor of \<open>n\<close> elements is among the addresses once.\<close>

definition each_once :: "nat list \<Rightarrow> nat \<Rightarrow> bool" where
  "each_once addrs n \<longleftrightarrow> distinct addrs \<and> set addrs = {..<n}"

lemma each_onceI:
  assumes "distinct (concat (map f ps))" "set (concat (map f ps)) = {idx. valid_index dims idx}" "prod_list dims = n"
  shows "each_once (concat (map (\<lambda>p. map (address (contiguous dims)) (f p)) ps)) n"
  unfolding each_once_def map_concat_addresses using addresses_once[OF assms(1,2)] assms(3) by simp

text \<open>
  C32: Over their grids, the instances of the attention kernel and of the matrix product store each
  element of a contiguous output once, and those of the rotation each element of the queries and of
  the keys when the head dimension is even: nothing is written twice, so the order of the instances
  does not matter, and nothing is left out.
\<close>

theorem triton_stores_once:
  assumes "half_dim \<le> next_power_of_2 half_dim"
  shows "each_once (concat (map (flash_stores (contiguous [batch, heads, n_ctx, width]) n_ctx width) (flash_grid n_ctx heads batch)))
      (batch * heads * n_ctx * width) \<and>
    each_once (concat (map (gemm_stores (contiguous [m, n]) m n) (gemm_grid m n))) (m * n) \<and>
    each_once (concat (map (rope_stores (contiguous [batch, seq_len, num_q, 2 * half_dim]) num_q seq_len half_dim (next_power_of_2 half_dim) False)
      (rope_grid (batch * seq_len) (max num_q num_kv)))) (batch * seq_len * num_q * (2 * half_dim)) \<and>
    each_once (concat (map (rope_stores (contiguous [batch, seq_len, num_kv, 2 * half_dim]) num_kv seq_len half_dim (next_power_of_2 half_dim) True)
      (rope_grid (batch * seq_len) (max num_q num_kv)))) (batch * seq_len * num_kv * (2 * half_dim))"
  unfolding flash_stores_def gemm_stores_def rope_stores_def
  by (intro conjI each_onceI flash_indices gemm_all_indices rope_all_indices assms) simp_all

theorem triton_stores_once_witness:
  "each_once (concat (map (rope_stores (contiguous [1, 2, 3, 6]) 3 2 3 4 False) (rope_grid 2 (max 3 1)))) 36"
  using triton_stores_once[of 3 "\<lambda>_. 4" 1 1 1 1 1 1 2 3 1] by simp

text \<open>
  The loads of the attention kernel stay inside the keys and values. Those of the matrix product
  stay inside the scales and the packed weights when the group size and eight divide the inner
  dimension.
\<close>

theorem triton_loads_bounded:
  "list_all (\<lambda>p. list_all (\<lambda>a. a < batch * heads * n_ctx * width)
      (flash_loads (contiguous [batch, heads, n_ctx, width]) n_ctx width causal p)) (flash_grid n_ctx heads batch) \<and>
   (if 8 dvd k_dim \<and> group_size dvd k_dim
    then list_all (\<lambda>p. list_all (\<lambda>a. a < k_dim div group_size * n) (scale_loads (contiguous [k_dim div group_size, n]) n k_dim group_size p) \<and>
        list_all (\<lambda>a. a < k_dim div 8 * n) (weight_loads (contiguous [k_dim div 8, n]) n k_dim p)) (gemm_grid m n)
    else True)"
proof -
  have below: "i div g < k_dim div g" if "g dvd k_dim" "i < k_dim" for i g
    using that by (metis dvd_div_mult_self less_mult_imp_div_less)
  have "address (contiguous [batch, heads, n_ctx, width]) idx < batch * heads * n_ctx * width"
    if "idx \<in> set (tile_indices 64 n_ctx width (t, h, z))" "h < heads" "z < batch" for idx t h z
    using address_less[of "[batch, heads, n_ctx, width]" idx] that by (auto simp: tile_indices_iff mult.assoc)
  then have flash: "a < batch * heads * n_ctx * width"
    if "a \<in> set (flash_loads (contiguous [batch, heads, n_ctx, width]) n_ctx width causal p)" "p \<in> set (flash_grid n_ctx heads batch)" for a p
    using that by (auto simp: flash_loads_def flash_grid_def Let_def)
  have two: "address (contiguous [r, n]) [i, j] < r * n" if "i < r" "j < n" for r i j
    using address_less[of "[r, n]" "[i, j]"] that by simp
  have chunk: "k * 32 < k_dim" if "k < cdiv k_dim 32" for k
    using that unfolding cdiv_def by linarith
  show ?thesis using flash two below chunk
    by (auto simp: list_all_iff scale_loads_def weight_loads_def simp del: contiguous.simps split: if_splits)
qed

text \<open>A group that is not full: its scale is read outside of the tensor, which has one row per full group.\<close>

lemma scales_outside:
  "list_ex (\<lambda>a. 40 div 32 * 1 \<le> a) (scale_loads (contiguous [40 div 32, 1]) 1 40 32 (0, 0))"
  by (simp add: scale_loads_def cdiv_def upt_rec)

end
