(* ===== verification/Package.thy ===== *)
theory Package
  imports Main
begin

text \<open>
  The packages' initialisation (\<open>cudaforge/__init__.py\<close> and the re-exports of \<open>eval_platform\<close>,
  \<open>serving\<close>, \<open>profiling\<close>, \<open>benchmarks\<close>) as lists of import statements, and the native module that
  \<open>csrc/bindings/pybind_module.cpp\<close> declares, as a table of classes with the argument counts of their
  constructors and methods.
\<close>

section \<open>Import statements\<close>

datatype import_error = ImportError | AttributeError | TypeError

datatype statement =
    ImportModule string
  | ImportNative
  | FromImport string "string list"
  | ImportAs string string string
  | BindNative string
  | TryImport string string
  | Assign string

text \<open>
  The environment: the modules that can be found, with the names that each provides. Statements run
  in order and stop at the first that raises; the result is the names bound so far.
\<close>

type_synonym modules = "string \<Rightarrow> string list option"

fun run_statement :: "modules \<Rightarrow> statement \<Rightarrow> string list \<Rightarrow> import_error + string list" where
  "run_statement env (ImportModule m) bound = (case env m of None \<Rightarrow> Inl ImportError | Some _ \<Rightarrow> Inr (m # bound))"
| "run_statement env ImportNative bound = (case env ''_C'' of None \<Rightarrow> Inl ImportError | Some _ \<Rightarrow> Inr (''_C'' # bound))"
| "run_statement env (FromImport m names) bound =
     (case env m of None \<Rightarrow> Inl ImportError
      | Some provided \<Rightarrow> if set names \<subseteq> set provided then Inr (names @ bound) else Inl ImportError)"
| "run_statement env (ImportAs m name alias) bound =
     (case env m of None \<Rightarrow> Inl ImportError
      | Some provided \<Rightarrow> if name \<in> set provided then Inr (alias # bound) else Inl ImportError)"
| "run_statement env (BindNative name) bound =
     (case env ''_C'' of None \<Rightarrow> Inl ImportError
      | Some provided \<Rightarrow> if name \<in> set provided then Inr (name # bound) else Inl AttributeError)"
| "run_statement env (TryImport m name) bound = Inr (name # bound)"
| "run_statement env (Assign name) bound = Inr (name # bound)"

fun run_init :: "modules \<Rightarrow> statement list \<Rightarrow> string list \<Rightarrow> import_error + string list" where
  "run_init env [] bound = Inr bound"
| "run_init env (s # ss) bound =
     (case run_statement env s bound of Inl e \<Rightarrow> Inl e | Inr b \<Rightarrow> run_init env ss b)"

section \<open>The packages\<close>

definition native_exports :: "string list" where
  "native_exports = [''ContinuousBatcher'', ''Request'', ''RequestState'', ''BatchStepResult'', ''StreamOutput'',
     ''TokenStreamBuffer'', ''ModelRunner'', ''SpeculativeConfig'', ''SpeculativeVerificationResult'', ''SpeculativeEngine'']"

definition cudaforge_init :: "statement list" where
  "cudaforge_init =
     [ImportModule ''torch'', ImportNative] @ map BindNative native_exports @
     [FromImport ''cudaforge.engine'' [''AsyncLLMEngine'', ''EngineConfig'', ''GenerationOutput'', ''LLMEngine'', ''SamplingParams'',
        ''ptr_to_torch_tensor''],
      FromImport ''cudaforge.quantization'' [''NumericalDriftReport'', ''QuantizationCalibrator'', ''Quantizer'', ''QuantMode'',
        ''evaluate_numerical_drift''],
      FromImport ''cudaforge.profiler'' [''CUDAEventProfiler'', ''CUDATimerReport'', ''NCUMetrics'', ''NsightComputeProfiler'', ''nvtx_range''],
      TryImport ''cudaforge'' ''kernels'', Assign ''__version__'']"

definition cudaforge_all :: "string list" where
  "cudaforge_all = ''_C'' # native_exports @
     [''LLMEngine'', ''AsyncLLMEngine'', ''EngineConfig'', ''SamplingParams'', ''GenerationOutput'', ''ptr_to_torch_tensor'',
      ''QuantMode'', ''QuantizationCalibrator'', ''Quantizer'', ''evaluate_numerical_drift'', ''NumericalDriftReport'',
      ''NsightComputeProfiler'', ''CUDAEventProfiler'', ''NCUMetrics'', ''CUDATimerReport'', ''nvtx_range'', ''kernels'', ''__version__'']"

definition eval_platform_init :: "statement list" where
  "eval_platform_init =
     [TryImport ''eval_platform.orchestrator'' ''EvaluationOrchestrator'',
      FromImport ''eval_platform.pipelines.accuracy_eval'' [''AccuracyEvaluator''],
      FromImport ''eval_platform.pipelines.latency_eval'' [''LatencyEvaluator''],
      FromImport ''eval_platform.statistics.analyzer'' [''StatisticalAnalyzer''],
      FromImport ''eval_platform.statistics.pareto'' [''ParetoFrontierCalculator''],
      FromImport ''eval_platform.tracking.artifact_store'' [''ArtifactStore''],
      FromImport ''eval_platform.tracking.experiment_logger'' [''ExperimentLogger''],
      FromImport ''eval_platform.workloads.dataset_loader'' [''WorkloadDatasetLoader''],
      FromImport ''eval_platform.workloads.error_analysis'' [''ErrorAnalyzer'']]"

definition eval_platform_all :: "string list" where
  "eval_platform_all = [''EvaluationOrchestrator'', ''AccuracyEvaluator'', ''LatencyEvaluator'', ''StatisticalAnalyzer'',
     ''ParetoFrontierCalculator'', ''ArtifactStore'', ''ExperimentLogger'', ''WorkloadDatasetLoader'', ''ErrorAnalyzer'']"

definition profiling_init :: "statement list" where
  "profiling_init =
     [FromImport ''.cuda_event_tracer'' [''CUDAEventTracer'', ''profile_section''],
      FromImport ''.memory_leak_detector'' [''GPUMemoryTracker'', ''MemorySnapshot'']]"

definition profiling_all :: "string list" where
  "profiling_all = [''CUDAEventTracer'', ''profile_section'', ''GPUMemoryTracker'', ''MemorySnapshot'']"

definition benchmarks_init :: "statement list" where
  "benchmarks_init =
     [FromImport ''.suite.bench_flash_attn'' [''run_flash_attn_benchmark''],
      FromImport ''.suite.bench_paged_kv'' [''run_paged_kv_benchmark''],
      FromImport ''.suite.bench_continuous_batch'' [''run_continuous_batch_benchmark''],
      FromImport ''.regression_runner'' [''RegressionRunner'']]"

definition benchmarks_all :: "string list" where
  "benchmarks_all = [''run_flash_attn_benchmark'', ''run_paged_kv_benchmark'', ''run_continuous_batch_benchmark'', ''RegressionRunner'']"

definition pipelines_init :: "statement list" where
  "pipelines_init =
     [FromImport ''eval_platform.pipelines.accuracy_eval'' [''AccuracyEvaluator'', ''GenerationCorrectnessResult'', ''LogitDriftResult'', ''PerplexityResult''],
      FromImport ''eval_platform.pipelines.latency_eval'' [''LatencyEvaluator'', ''LatencyProfileResult'']]"

definition pipelines_all :: "string list" where
  "pipelines_all = [''AccuracyEvaluator'', ''PerplexityResult'', ''GenerationCorrectnessResult'', ''LogitDriftResult'', ''LatencyEvaluator'', ''LatencyProfileResult'']"

definition statistics_init :: "statement list" where
  "statistics_init =
     [FromImport ''eval_platform.statistics.analyzer'' [''ConfidenceInterval'', ''LatencyDistributionSummary'', ''StatisticalAnalyzer''],
      FromImport ''eval_platform.statistics.pareto'' [''ParetoFrontierCalculator'', ''ParetoPoint'']]"

definition statistics_all :: "string list" where
  "statistics_all = [''StatisticalAnalyzer'', ''LatencyDistributionSummary'', ''ConfidenceInterval'', ''ParetoFrontierCalculator'', ''ParetoPoint'']"

definition workloads_init :: "statement list" where
  "workloads_init =
     [FromImport ''eval_platform.workloads.dataset_loader'' [''EvaluationSample'', ''WorkloadDatasetLoader''],
      FromImport ''eval_platform.workloads.error_analysis'' [''ErrorAnalysisReport'', ''ErrorAnalyzer'', ''SampleErrorDiagnostic'']]"

definition workloads_all :: "string list" where
  "workloads_all = [''EvaluationSample'', ''WorkloadDatasetLoader'', ''ErrorAnalyzer'', ''ErrorAnalysisReport'', ''SampleErrorDiagnostic'']"

definition tracking_init :: "statement list" where
  "tracking_init =
     [FromImport ''eval_platform.tracking.artifact_store'' [''ArtifactManifest'', ''ArtifactStore''],
      FromImport ''eval_platform.tracking.experiment_logger'' [''ExperimentLogger'', ''ExperimentRunRecord'', ''GitEnvironmentState'', ''HardwareEnvironmentState'']]"

definition tracking_all :: "string list" where
  "tracking_all = [''ArtifactStore'', ''ArtifactManifest'', ''ExperimentLogger'', ''ExperimentRunRecord'', ''GitEnvironmentState'', ''HardwareEnvironmentState'']"

definition serving_init :: "statement list" where
  "serving_init =
     [FromImport ''serving.app'' [''app''],
      FromImport ''serving.middleware'' [''backpressure_middleware'']]"

definition serving_all :: "string list" where
  "serving_all = [''app'', ''backpressure_middleware'']"

definition api_v1_init :: "statement list" where
  "api_v1_init =
     [ImportAs ''serving.api.v1.generate'' ''router'' ''generate_router'',
      ImportAs ''serving.api.v1.health'' ''router'' ''health_router'',
      ImportAs ''serving.api.v1.metrics'' ''router'' ''metrics_router'',
      FromImport ''serving.api.v1.metrics'' [''EngineMetricsTracker'']]"

definition api_v1_all :: "string list" where
  "api_v1_all = [''generate_router'', ''health_router'', ''metrics_router'', ''EngineMetricsTracker'']"

definition triton_init :: "statement list" where
  "triton_init =
     [FromImport ''csrc.kernels.triton.flash_attn_triton'' [''flash_attn_triton''],
      FromImport ''csrc.kernels.triton.fused_rope_triton'' [''fused_rope_triton''],
      FromImport ''csrc.kernels.triton.int4_dequant_triton'' [''int4_gemm_dequant_triton''],
      FromImport ''csrc.kernels.triton.sampling_triton'' [''fused_sampling_triton'']]"

definition triton_all :: "string list" where
  "triton_all = [''flash_attn_triton'', ''fused_rope_triton'', ''int4_gemm_dequant_triton'', ''fused_sampling_triton'']"

text \<open>What the modules that they import define at their top level; the native module is not built from Python.\<close>

definition source_modules :: "(string \<times> string list) list" where
  "source_modules =
     [(''.cuda_event_tracer'', [''CUDAEventTracer'', ''_GLOBAL_TRACER'', ''profile_section'']),
      (''.memory_leak_detector'', [''MemorySnapshot'', ''GPUMemoryTracker'']),
      (''.suite.bench_flash_attn'', [''run_flash_attn_benchmark'']),
      (''.suite.bench_paged_kv'', [''run_paged_kv_benchmark'']),
      (''.suite.bench_continuous_batch'', [''run_continuous_batch_benchmark'']),
      (''.regression_runner'', [''RegressionRunner'']),
      (''eval_platform.pipelines.accuracy_eval'', [''PerplexityResult'', ''GenerationCorrectnessResult'', ''LogitDriftResult'', ''AccuracyResult'', ''AccuracyEvaluator'']),
      (''eval_platform.pipelines.latency_eval'', [''LatencyProfileResult'', ''LatencyEvaluator'']),
      (''eval_platform.statistics.analyzer'', [''ConfidenceInterval'', ''LatencyDistributionSummary'', ''StatisticalAnalyzer'']),
      (''eval_platform.statistics.pareto'', [''ParetoPoint'', ''ParetoFrontierCalculator'']),
      (''eval_platform.workloads.dataset_loader'', [''EvaluationSample'', ''WorkloadDatasetLoader'']),
      (''eval_platform.workloads.error_analysis'', [''SampleErrorDiagnostic'', ''ErrorAnalysisReport'', ''ErrorAnalyzer'']),
      (''eval_platform.tracking.artifact_store'', [''ArtifactManifest'', ''ArtifactStore'']),
      (''eval_platform.tracking.experiment_logger'', [''logger'', ''GitEnvironmentState'', ''HardwareEnvironmentState'', ''ExperimentRunRecord'', ''ExperimentLogger'']),
      (''serving.app'', [''logger'', ''MAX_CONCURRENT_REQUESTS'', ''MAX_BACKPRESSURE_QUEUE'', ''active_in_flight_requests'', ''lifespan'', ''app'', ''backpressure_middleware'', ''global_exception_handler'', ''health_check'']),
      (''serving.middleware'', [''logger'', ''BackpressureMiddleware'', ''backpressure_middleware'']),
      (''serving.api.v1.generate'', [''logger'', ''router'', ''GenerationRequest'', ''TokenStreamChunk'', ''GenerationResponse'', ''mock_cuda_token_generator'', ''generate_tokens'']),
      (''serving.api.v1.health'', [''logger'', ''router'', ''HealthResponse'', ''ReadinessResponse'', ''liveness_probe'', ''readiness_probe'']),
      (''serving.api.v1.metrics'', [''logger'', ''router'', ''ACTIVE_BATCH_SIZE'', ''KV_CACHE_USAGE_PERCENT'', ''TOKEN_GENERATION_SPEED_TPS'', ''TOKENS_GENERATED_TOTAL'', ''REQUEST_LATENCY_SECONDS'', ''P99_LATENCY_MS'', ''VRAM_ALLOCATED_BYTES'', ''VRAM_RESERVED_BYTES'', ''VRAM_FRAGMENTATION_RATIO'', ''EngineMetricsTracker'', ''prometheus_metrics'']),
      (''csrc.kernels.triton.flash_attn_triton'', [''_flash_attn_v2_fwd_kernel'', ''flash_attn_triton'']),
      (''csrc.kernels.triton.fused_rope_triton'', [''_fused_rope_kernel'', ''fused_rope_triton'']),
      (''csrc.kernels.triton.int4_dequant_triton'', [''_int4_dequant_gemm_kernel'', ''int4_gemm_dequant_triton'']),
      (''csrc.kernels.triton.sampling_triton'', [''_fused_sampling_triton_kernel'', ''fused_sampling_triton'']),
      (''cudaforge.engine'', [''logger'', ''SamplingParams'', ''EngineConfig'', ''GenerationOutput'', ''ptr_to_torch_tensor'', ''LLMEngine'', ''AsyncLLMEngine'']),
      (''cudaforge.quantization'', [''QuantMode'', ''QuantizationScale'', ''NumericalDriftReport'', ''QuantizationCalibrator'', ''Quantizer'', ''evaluate_numerical_drift'']),
      (''cudaforge.profiler'', [''NCUMetrics'', ''CUDATimerReport'', ''NsightComputeProfiler'', ''CUDAEventProfiler'', ''nvtx_range'']),
      (''eval_platform.orchestrator'', [''logger'', ''BenchmarkSuiteResult'', ''EvaluationOrchestrator'', ''PrecisionMode'', ''KernelBackend'', ''BenchmarkPointConfig'', ''MatrixConfig'', ''MatrixBenchmarkResult'', ''BenchmarkOrchestrator''])]"

definition installed :: "bool \<Rightarrow> modules" where
  "installed native m =
     (if m = ''torch'' then Some []
      else if m = ''_C'' then (if native then Some native_exports else None)
      else map_of source_modules m)"

definition packages :: "(string \<times> statement list \<times> string list) list" where
  "packages =
     [(''cudaforge'', cudaforge_init, cudaforge_all), (''eval_platform'', eval_platform_init, eval_platform_all),
      (''profiling'', profiling_init, profiling_all),
      (''benchmarks'', benchmarks_init, benchmarks_all),
      (''eval_platform.pipelines'', pipelines_init, pipelines_all),
      (''eval_platform.statistics'', statistics_init, statistics_all),
      (''eval_platform.workloads'', workloads_init, workloads_all),
      (''eval_platform.tracking'', tracking_init, tracking_all),
      (''serving'', serving_init, serving_all),
      (''serving.api.v1'', api_v1_init, api_v1_all),
      (''csrc.kernels.triton'', triton_init, triton_all)]"

section \<open>The native module\<close>

record native_class =
  nc_constructors :: "(nat \<times> nat) list"
  nc_methods :: "(string \<times> nat \<times> nat) list"
  nc_fields :: "string list"

definition value_class :: "(nat \<times> nat) list \<Rightarrow> string list \<Rightarrow> native_class" where
  "value_class ctors attrs = \<lparr>nc_constructors = ctors, nc_methods = [], nc_fields = attrs\<rparr>"

definition object_class :: "(nat \<times> nat) list \<Rightarrow> (string \<times> nat \<times> nat) list \<Rightarrow> native_class" where
  "object_class ctors methods = \<lparr>nc_constructors = ctors, nc_methods = methods, nc_fields = []\<rparr>"

definition native_module :: "(string \<times> native_class) list" where
  "native_module =
     [(''KVCacheConfig'', value_class [(0, 0)] [''num_layers'', ''num_kv_heads'', ''head_dim'', ''block_size'', ''element_size_bytes'',
         ''total_gpu_blocks'', ''enable_prefix_caching'', ''max_supported_batch_size'', ''max_blocks_per_sequence'']),
      (''KVCacheStats'', value_class [] [''total_blocks'', ''free_blocks'', ''allocated_blocks'', ''cached_prefix_blocks'',
         ''total_memory_bytes'', ''used_memory_bytes'', ''pool_utilization_ratio'', ''active_sequences_count'',
         ''prefix_cache_hits'', ''prefix_cache_misses'', ''lru_evictions_count'']),
      (''BlockAllocator'', object_class [] []),
      (''PagedKVCache'', object_class [(2, 2)] [(''register_sequence_with_prefix'', 2, 2), (''append_tokens'', 1, 2),
         (''unregister_sequence'', 1, 1), (''get_block_table'', 1, 1), (''get_config'', 0, 0), (''get_stats'', 0, 0)]),
      (''RequestState'', value_class [(1, 1)] [''WAITING'', ''RUNNING'', ''FINISHED'', ''PREEMPTED'']),
      (''Request'', \<lparr>nc_constructors = [(2, 4)], nc_methods = [(''get_total_length'', 0, 0), (''is_finished'', 0, 0)],
         nc_fields = [''id'', ''prompt_tokens'', ''generated_tokens'', ''max_new_tokens'', ''priority'', ''state'']\<rparr>),
      (''BatchStepResult'', value_class [(0, 0)] [''prefill_requests'', ''decode_requests'', ''total_batched_tokens'', ''preempted_count'']),
      (''ContinuousBatcher'', object_class [(0, 2)] [(''add_request'', 1, 1), (''cancel_request'', 1, 1), (''schedule_step'', 0, 0),
         (''update_requests_state'', 1, 1), (''get_pending_count'', 0, 0), (''get_running_count'', 0, 0)]),
      (''StreamOutput'', value_class [(0, 0), (3, 3)] [''request_id'', ''token_id'', ''is_final'']),
      (''TokenStreamBuffer'', object_class [(0, 0)] [(''push'', 1, 1), (''push_batch'', 1, 1), (''pop_all'', 0, 0), (''size'', 0, 0),
         (''empty'', 0, 0)]),
      (''ModelRunner'', object_class [(3, 3)] [(''cancel_request'', 1, 1), (''is_cancelled'', 1, 1), (''step'', 0, 0),
         (''get_stream_buffer'', 0, 0)]),
      (''SpeculativeConfig'', value_class [(0, 0)] [''gamma'', ''temperature'', ''top_p'', ''rng_seed'']),
      (''SpeculativeVerificationResult'', value_class [(0, 0)] [''accepted_tokens'', ''final_token'', ''num_accepted'', ''end_of_sequence'']),
      (''SpeculativeEngine'', object_class [(1, 1)] [(''verify_candidates'', 4, 4), (''verify_candidates_greedy'', 3, 3),
         (''set_config'', 1, 1), (''get_config'', 0, 0)])]"

definition construct :: "(string \<times> native_class) list \<Rightarrow> string \<Rightarrow> nat \<Rightarrow> import_error + unit" where
  "construct native cls n =
     (case map_of native cls of
        None \<Rightarrow> Inl AttributeError
      | Some c \<Rightarrow> if list_ex (\<lambda>(lo, hi). lo \<le> n \<and> n \<le> hi) (nc_constructors c) then Inr () else Inl TypeError)"

definition call_method :: "(string \<times> native_class) list \<Rightarrow> string \<Rightarrow> string \<Rightarrow> nat \<Rightarrow> import_error + unit" where
  "call_method native cls name n =
     (case map_of native cls of
        None \<Rightarrow> Inl AttributeError
      | Some c \<Rightarrow> (case map_of (nc_methods c) name of
           None \<Rightarrow> Inl AttributeError
         | Some (lo, hi) \<Rightarrow> if lo \<le> n \<and> n \<le> hi then Inr () else Inl TypeError))"

section \<open>What the engine asks of the native module\<close>

text \<open>The constructor calls of \<open>LLMEngine.__init__\<close>, in order.\<close>

definition engine_constructs :: "(string \<times> nat) list" where
  "engine_constructs = [(''KVCacheConfig'', 0), (''BlockAllocator'', 2), (''PagedKVCache'', 2), (''ContinuousBatcher'', 2), (''ModelRunner'', 3)]"

fun run_constructs :: "(string \<times> native_class) list \<Rightarrow> (string \<times> nat) list \<Rightarrow> import_error + unit" where
  "run_constructs native [] = Inr ()"
| "run_constructs native ((cls, n) # cs) =
     (case construct native cls n of Inl e \<Rightarrow> Inl e | Inr _ \<Rightarrow> run_constructs native cs)"

text \<open>The method calls of its operations.\<close>

definition engine_calls :: "(string \<times> string \<times> nat) list" where
  "engine_calls =
     [(''PagedKVCache'', ''register_sequence_with_prefix'', 2), (''PagedKVCache'', ''append_tokens'', 2),
      (''PagedKVCache'', ''unregister_sequence'', 1), (''PagedKVCache'', ''get_stats'', 0),
      (''PagedKVCache'', ''get_key_block_ptr'', 2), (''PagedKVCache'', ''get_value_block_ptr'', 2),
      (''ContinuousBatcher'', ''add_request'', 1), (''ContinuousBatcher'', ''update_requests_state'', 1),
      (''ContinuousBatcher'', ''get_running_count'', 0), (''ContinuousBatcher'', ''get_pending_count'', 0),
      (''ModelRunner'', ''step'', 0), (''ModelRunner'', ''get_stream_buffer'', 0), (''ModelRunner'', ''cancel_request'', 1),
      (''TokenStreamBuffer'', ''pop_all'', 0)]"

section \<open>Properties\<close>

lemma run_init_bound: "run_init env ss bound = Inr b \<Longrightarrow> set bound \<subseteq> set b"
proof (induction ss arbitrary: bound)
  case (Cons s ss)
  then obtain c where c: "run_statement env s bound = Inr c" "run_init env ss c = Inr b" by (auto split: sum.splits)
  from c(1) have "set bound \<subseteq> set c" by (cases s) (auto split: option.splits if_splits)
  with Cons.IH[OF c(2)] show ?case by blast
qed simp

text \<open>The names that a statement binds when it does not raise.\<close>

fun binds :: "statement \<Rightarrow> string list" where
  "binds (ImportModule m) = [m]"
| "binds ImportNative = [''_C'']"
| "binds (FromImport m names) = names"
| "binds (ImportAs m name alias) = [alias]"
| "binds (BindNative name) = [name]"
| "binds (TryImport m name) = [name]"
| "binds (Assign name) = [name]"

lemma run_init_binds: "run_init env ss bound = Inr b \<Longrightarrow> set (concat (map binds ss)) \<union> set bound = set b"
proof (induction ss arbitrary: bound)
  case (Cons s ss)
  then obtain c where c: "run_statement env s bound = Inr c" "run_init env ss c = Inr b" by (auto split: sum.splits)
  from c(1) have "set c = set (binds s) \<union> set bound" by (cases s) (auto split: option.splits if_splits)
  with Cons.IH[OF c(2)] show ?case by auto
qed simp

text \<open>
  A package that can be imported binds every name of its \<open>__all__\<close>, whatever the modules provide.
  With the sources as they are and a native module, all packages can be imported; without the native
  module exactly \<open>cudaforge\<close> raises, so the engine's own fallback for a missing one is never reached
  through the package.
\<close>

theorem package_exports:
  "list_all (\<lambda>(p, init, all). case run_init env init [] of Inl e \<Rightarrow> True | Inr bound \<Rightarrow> set all \<subseteq> set bound) packages \<and>
   list_all (\<lambda>(p, init, all). case run_init (installed True) init [] of Inl e \<Rightarrow> False | Inr bound \<Rightarrow> True) packages \<and>
   map fst (filter (\<lambda>(p, init, all). case run_init (installed False) init [] of Inl e \<Rightarrow> True | Inr bound \<Rightarrow> False) packages) =
     [''cudaforge'']"
proof (intro conjI)
  have "list_all (\<lambda>(p, init, all). set all \<subseteq> set (concat (map binds init))) packages" by code_simp
  then show "list_all (\<lambda>(p, init, all). case run_init env init [] of Inl e \<Rightarrow> True | Inr bound \<Rightarrow> set all \<subseteq> set bound) packages"
    using run_init_binds[of env _ "[]"] by (fastforce simp: list_all_iff split: sum.splits)
qed code_simp+

text \<open>
  With the bindings as they are declared, the engine cannot be constructed: the allocator class
  has no constructor. Of the methods that the engine calls exactly the two pointer accessors are
  not bound; with a constructor for the allocator, construction passes.
\<close>

theorem engine_bindings:
  "run_constructs native_module engine_constructs = Inl TypeError \<and>
   filter (\<lambda>(cls, name, n). call_method native_module cls name n \<noteq> Inr ()) engine_calls =
     [(''PagedKVCache'', ''get_key_block_ptr'', 2), (''PagedKVCache'', ''get_value_block_ptr'', 2)] \<and>
   run_constructs (map (\<lambda>(cls, c). (cls, if cls = ''BlockAllocator'' then c\<lparr>nc_constructors := [(2, 2)]\<rparr> else c)) native_module)
     engine_constructs = Inr ()"
  by code_simp

end
