(* ===== verification/Serving_App.thy ===== *)
theory Serving_App
  imports Serving
begin

text \<open>
  \<open>serving/app.py\<close>: how the application is put together from its lifespan, its routes and the routers
  of \<open>api/v1\<close>, and what the gate does to each route.
\<close>

section \<open>Lifespan\<close>

record app_state =
  as_semaphore :: "int option"
  as_start_time :: "real option"

definition app_state_init :: app_state where
  "app_state_init = \<lparr>as_semaphore = None, as_start_time = None\<rparr>"

definition lifespan :: "real \<Rightarrow> app_state \<Rightarrow> app_state" where
  "lifespan now s = s\<lparr>as_semaphore := Some 32, as_start_time := Some now\<rparr>"

section \<open>Routes\<close>

datatype handler = HealthCheck | GenerateTokens | LivenessProbe | ReadinessProbe | PrometheusMetrics | FrameworkDocs

type_synonym routes = "((string \<times> string) \<times> handler) list"

definition generate_router :: routes where
  "generate_router = [((''POST'', ''/generate''), GenerateTokens)]"

definition health_router :: routes where
  "health_router = [((''GET'', ''/health''), LivenessProbe), ((''GET'', ''/health/ready''), ReadinessProbe)]"

definition metrics_router :: routes where
  "metrics_router = [((''GET'', ''/metrics''), PrometheusMetrics)]"

definition include_router :: "string \<Rightarrow> routes \<Rightarrow> routes \<Rightarrow> routes" where
  "include_router prefix router app = app @ map (\<lambda>((verb, path), h). ((verb, prefix @ path), h)) router"

text \<open>The pages that the application asks the framework for, then its own route and the routers.\<close>

definition app_routes :: routes where
  "app_routes =
     include_router ''/v1'' metrics_router (include_router ''/v1'' health_router (include_router ''/v1'' generate_router
       ([((''GET'', ''/openapi.json''), FrameworkDocs), ((''GET'', ''/docs''), FrameworkDocs), ((''GET'', ''/redoc''), FrameworkDocs)] @
        [((''GET'', ''/healthz''), HealthCheck)])))"

datatype answer = Handled handler | NotFound | ShedAnswer

definition dispatch :: "int \<Rightarrow> string \<Rightarrow> string \<Rightarrow> answer" where
  "dispatch in_flight verb path =
     (case gate exempt_app 32 128 path in_flight of
        Shed \<Rightarrow> ShedAnswer
      | _ \<Rightarrow> (case map_of app_routes (verb, path) of None \<Rightarrow> NotFound | Some h \<Rightarrow> Handled h))"

section \<open>Properties\<close>

text \<open>
  A saturated server still answers every route but the generation of tokens, which it sheds
  exactly from 160 requests on; the routes have different addresses; after the start both probes
  see the state that they ask for.
\<close>

theorem gate_spares_probes:
  "distinct (map fst app_routes) \<and>
   list_all (\<lambda>((verb, path), h). dispatch n verb path =
     (if h = GenerateTokens \<and> 160 \<le> n then ShedAnswer else Handled h)) app_routes \<and>
   (\<exists>body. readiness_probe cuda (as_semaphore (lifespan t s)) = Inr (200, body) \<and> rd_in_flight body = 0) \<and>
   lv_uptime (liveness_probe (as_start_time (lifespan t s)) t) = 0"
proof (intro conjI)
  show "distinct (map fst app_routes)" by code_simp
  show "list_all (\<lambda>((verb, path), h). dispatch n verb path =
     (if h = GenerateTokens \<and> 160 \<le> n then ShedAnswer else Handled h)) app_routes"
    by (simp add: app_routes_def include_router_def generate_router_def health_router_def metrics_router_def
        dispatch_def gate_def exempt_app_def)
  show "\<exists>body. readiness_probe cuda (as_semaphore (lifespan t s)) = Inr (200, body) \<and> rd_in_flight body = 0"
    by (simp add: readiness_probe_def lifespan_def)
  show "lv_uptime (liveness_probe (as_start_time (lifespan t s)) t) = 0"
    by (simp add: liveness_probe_def lifespan_def round2_def round_half_even_def)
qed

text \<open>One exempt path is not a route.\<close>

lemma exempt_without_route: "filter (\<lambda>p. p \<notin> snd ` fst ` set app_routes) exempt_app = [''/metrics'']"
  by (simp add: app_routes_def include_router_def generate_router_def health_router_def metrics_router_def exempt_app_def)

end
