(* ===== verification/Stream_Buffer.thy ===== *)
theory Stream_Buffer
  imports Batcher
begin

text \<open>
  \<open>TokenStreamBuffer\<close> of \<open>csrc/src/engine/model_runner.cpp\<close>, the queue between the model runner and
  its readers, beyond the two operations that the engine calls (\<open>Batcher\<close>). Every operation holds the
  mutex throughout, so the calls of all threads form one sequence.

  \<^item> A timed wait ends either with something queued or without; \<open>pop_timeout\<close> is what it does then.
  \<^item> The contract \<open>token_channel\<close> states what a reader relies on, in terms of what is queued.
\<close>

section \<open>Operations\<close>

definition stream_push :: "stream_output \<Rightarrow> runner \<Rightarrow> runner" where
  "stream_push out s = s\<lparr>rn_buffer := rn_buffer s @ [out]\<rparr>"

definition pop_timeout :: "runner \<Rightarrow> stream_output option \<times> runner" where
  "pop_timeout s =
     (case rn_buffer s of
        [] \<Rightarrow> (None, s)
      | out # outs \<Rightarrow> (Some out, s\<lparr>rn_buffer := outs\<rparr>))"

definition stream_size :: "runner \<Rightarrow> nat" where
  "stream_size s = length (rn_buffer s)"

definition stream_empty :: "runner \<Rightarrow> bool" where
  "stream_empty s \<longleftrightarrow> rn_buffer s = []"

definition is_cancelled :: "nat \<Rightarrow> runner \<Rightarrow> bool" where
  "is_cancelled i s \<longleftrightarrow> i \<in> rn_cancelled s"

definition get_total_length :: "request \<Rightarrow> nat" where
  "get_total_length r = length (rq_prompt r) + length (rq_generated r)"

section \<open>The contract of the queue\<close>

datatype 'a channel_call = Push 'a | PushBatch "'a list" | PopAll | PopTimeout

fun pushed :: "'a channel_call \<Rightarrow> 'a list" where
  "pushed (Push out) = [out]"
| "pushed (PushBatch outs) = outs"
| "pushed PopAll = []"
| "pushed PopTimeout = []"

locale token_channel =
  fixes queued :: "'s \<Rightarrow> 'a list"
    and push :: "'a \<Rightarrow> 's \<Rightarrow> 's"
    and pushes :: "'a list \<Rightarrow> 's \<Rightarrow> 's"
    and drain :: "'s \<Rightarrow> 'a list \<times> 's"
    and pop :: "'s \<Rightarrow> 'a option \<times> 's"
  assumes queued_push: "queued (push out s) = queued s @ [out]"
    and queued_pushes: "queued (pushes outs s) = queued s @ outs"
    and drain_all: "drain s = (outs, t) \<Longrightarrow> outs = queued s \<and> queued t = []"
    and pop_first: "pop s = (r, t) \<Longrightarrow>
      (case r of None \<Rightarrow> queued s = [] \<and> queued t = [] | Some out \<Rightarrow> queued s = out # queued t)"
begin

text \<open>What a call hands to the reader, and the state it leaves.\<close>

fun call :: "'a channel_call \<Rightarrow> 's \<Rightarrow> 'a list \<times> 's" where
  "call (Push out) s = ([], push out s)"
| "call (PushBatch outs) s = ([], pushes outs s)"
| "call PopAll s = drain s"
| "call PopTimeout s = (let (r, t) = pop s in (case r of None \<Rightarrow> [] | Some out \<Rightarrow> [out], t))"

fun calls :: "'a channel_call list \<Rightarrow> 's \<Rightarrow> 'a list \<times> 's" where
  "calls [] s = ([], s)"
| "calls (c # cs) s = (let (outs, t) = call c s; (rest, u) = calls cs t in (outs @ rest, u))"

lemma call_conserves: "call c s = (outs, t) \<Longrightarrow> outs @ queued t = queued s @ pushed c"
proof (cases c)
  case PopTimeout
  assume run: "call c s = (outs, t)"
  obtain r u where p: "pop s = (r, u)" by fastforce
  with run PopTimeout pop_first[OF p] show ?thesis by (cases r) auto
qed (use drain_all[of s] in \<open>auto simp: queued_push queued_pushes\<close>)

lemma calls_fifo: "calls cs s = (outs, t) \<Longrightarrow> outs @ queued t = queued s @ concat (map pushed cs)"
proof (induction cs arbitrary: s outs t)
  case (Cons c cs)
  obtain first u where c: "call c s = (first, u)" by fastforce
  obtain rest v where cs: "calls cs u = (rest, v)" by fastforce
  have "first @ (rest @ queued v) = (first @ queued u) @ concat (map pushed cs)"
    using Cons.IH[OF cs] by simp
  with Cons.prems c cs call_conserves[OF c] show ?case by auto
qed simp

end

section \<open>The runner's buffer keeps it\<close>

fun stream_call :: "stream_output channel_call \<Rightarrow> runner \<Rightarrow> stream_output list \<times> runner" where
  "stream_call (Push out) s = ([], stream_push out s)"
| "stream_call (PushBatch outs) s = ([], push_batch outs s)"
| "stream_call PopAll s = pop_all s"
| "stream_call PopTimeout s = (let (r, t) = pop_timeout s in (case r of None \<Rightarrow> [] | Some out \<Rightarrow> [out], t))"

fun stream_calls :: "stream_output channel_call list \<Rightarrow> runner \<Rightarrow> stream_output list \<times> runner" where
  "stream_calls [] s = ([], s)"
| "stream_calls (c # cs) s = (let (outs, t) = stream_call c s; (rest, u) = stream_calls cs t in (outs @ rest, u))"

interpretation buffer: token_channel rn_buffer stream_push push_batch pop_all pop_timeout
  by unfold_locales (auto simp: stream_push_def push_batch_def pop_all_def pop_timeout_def split: list.splits)

lemma stream_call_eq: "buffer.call = stream_call"
proof (intro ext)
  show "buffer.call c s = stream_call c s" for c s by (cases c) simp_all
qed

lemma stream_calls_eq: "buffer.calls cs s = stream_calls cs s"
  by (induction cs arbitrary: s) (simp_all add: stream_call_eq)

text \<open>
  Whatever the runner and its readers call, in whatever order: what the readers received, followed by
  what is still queued, is what was queued at the start followed by all that was pushed, in order; the
  reported size is what is left to deliver; and the batcher and the cancellations are not touched.
\<close>

theorem stream_buffer_fifo:
  "let (outs, t) = stream_calls cs s in
     outs @ rn_buffer t = rn_buffer s @ concat (map pushed cs) \<and>
     length outs + stream_size t = stream_size s + length (concat (map pushed cs)) \<and>
     (stream_empty t \<longleftrightarrow> outs = rn_buffer s @ concat (map pushed cs)) \<and>
     rn_batcher t = rn_batcher s \<and> rn_cancelled t = rn_cancelled s"
proof -
  obtain outs t where run: "stream_calls cs s = (outs, t)" by fastforce
  have fifo: "outs @ rn_buffer t = rn_buffer s @ concat (map pushed cs)"
    using buffer.calls_fifo[of cs s outs t] run by (simp add: stream_calls_eq)
  then have "length outs + stream_size t = stream_size s + length (concat (map pushed cs))"
    unfolding stream_size_def by (metis length_append)
  moreover have "stream_empty t \<longleftrightarrow> outs = rn_buffer s @ concat (map pushed cs)"
    using fifo unfolding stream_empty_def by (metis append_Nil2 append_self_conv)
  moreover have "rn_batcher t = rn_batcher s \<and> rn_cancelled t = rn_cancelled s"
    using run
  proof (induction cs arbitrary: s outs t)
    case (Cons c cs)
    obtain first u where c: "stream_call c s = (first, u)" by fastforce
    then have "rn_batcher u = rn_batcher s \<and> rn_cancelled u = rn_cancelled s"
      by (cases c) (auto simp: stream_push_def push_batch_def pop_all_def pop_timeout_def split: list.splits)
    with Cons c show ?case by (auto split: prod.splits)
  qed simp
  ultimately show ?thesis using run fifo by simp
qed

text \<open>A cancellation is remembered for good, and the runner filters by it.\<close>

lemma is_cancelled_runner_cancel: "is_cancelled j (runner_cancel i s) \<longleftrightarrow> j = i \<or> is_cancelled j s"
  by (auto simp: is_cancelled_def runner_cancel_def)

lemma filter_cancelled_live:
  "a \<in> set (br_prefill (filter_cancelled_requests s r)) \<union> set (br_decode (filter_cancelled_requests s r)) \<Longrightarrow>
   \<not> is_cancelled (rq_id (req_at (rn_batcher s) a)) s"
  by (auto simp: filter_cancelled_requests_def is_cancelled_def Let_def)

lemma emit_token_length:
  "emit_token sample eos a s = (out, t) \<Longrightarrow> a < length (bt_heap s) \<Longrightarrow>
   get_total_length (req_at t a) = Suc (get_total_length (req_at s a))"
  by (auto simp: emit_token_def get_total_length_def upd_req_def set_state_def Let_def split: if_splits)

end
