(* ===== verification/Tensor_Views.thy ===== *)
theory Tensor_Views
  imports Engine
begin

text \<open>
  The tensor accessors of \<open>cudaforge/engine.py\<close>: \<open>ptr_to_torch_tensor\<close> and the two methods of
  \<open>LLMEngine\<close> that call it with the address of a block.

  \<^item> The tensor library is a record of functions; a call that raises returns \<open>None\<close>.
  \<^item> \<open>frombuffer\<close> is called with a generator over the addresses of the elements. Its documentation
    asks for an object that implements the buffer protocol, which a generator does not.
\<close>

section \<open>The accessors\<close>

datatype buffer_arg = Generator "nat list" | Exported nat nat

record ('d, 't) tensor_lib =
  tl_element_size :: "'d \<Rightarrow> nat"
  tl_frombuffer :: "buffer_arg \<Rightarrow> 'd \<Rightarrow> nat \<Rightarrow> 't option"
  tl_view :: "'t \<Rightarrow> nat list \<Rightarrow> 't option"
  tl_to_device :: "'t \<Rightarrow> nat \<Rightarrow> 't"

definition element_addresses :: "nat \<Rightarrow> nat \<Rightarrow> nat \<Rightarrow> nat list" where
  "element_addresses ptr element_size numel = map (\<lambda>i. ptr + i * element_size) [0..<numel]"

definition ptr_to_torch_tensor ::
  "('d, 't) tensor_lib \<Rightarrow> nat \<Rightarrow> nat list \<Rightarrow> 'd \<Rightarrow> nat \<Rightarrow> engine_error + 't" where
  "ptr_to_torch_tensor lib ptr shape dtype device_id =
     (if ptr = 0 then Inl ValueError
      else
        let numel = prod_list shape;
            element_size = tl_element_size lib dtype
        in case tl_frombuffer lib (Generator (element_addresses ptr element_size numel)) dtype numel of
             None \<Rightarrow> Inl ValueError
           | Some tensor \<Rightarrow>
               (case tl_view lib tensor shape of
                  None \<Rightarrow> Inl RuntimeError
                | Some v \<Rightarrow> Inr (tl_to_device lib v device_id)))"

definition buffer_shape :: "engine_config \<Rightarrow> nat list" where
  "buffer_shape c = [ec_num_kv_heads c, ec_block_size c, ec_head_dim c]"

text \<open>Neither method passes a type or a device: the defaults are \<open>torch.float16\<close> and device 0.\<close>

definition get_key_buffer_tensor :: "('d, 't) tensor_lib \<Rightarrow> 'd \<Rightarrow> nat \<Rightarrow> nat \<Rightarrow> engine \<Rightarrow> engine_error + 't" where
  "get_key_buffer_tensor lib float16 b layer s =
     ptr_to_torch_tensor lib (get_key_block_ptr b layer (en_kv s)) (buffer_shape (en_config s)) float16 0"

definition get_value_buffer_tensor :: "('d, 't) tensor_lib \<Rightarrow> 'd \<Rightarrow> nat \<Rightarrow> nat \<Rightarrow> engine \<Rightarrow> engine_error + 't" where
  "get_value_buffer_tensor lib float16 b layer s =
     ptr_to_torch_tensor lib (get_value_block_ptr b layer (en_kv s)) (buffer_shape (en_config s)) float16 0"

section \<open>What they address\<close>

lemma element_addresses_nth: "i < n \<Longrightarrow> element_addresses ptr sz n ! i = ptr + i * sz"
  by (simp add: element_addresses_def)

text \<open>
  A block of one layer has as many elements as the shape says; the elements fill the block exactly
  when the cache stores elements of the size of the default type. (\<open>layer_extent\<close> is the size of a
  block's layer, \<open>layer_block_bytes\<close> this number in 64 bits.)
\<close>

lemma shape_fills_block:
  "prod_list (buffer_shape c) * ec_element_size_bytes c = layer_extent (to_native_kv_config c)"
  by (simp add: buffer_shape_def layer_extent_def to_native_kv_config_def)

lemma view_size_matches:
  assumes "0 < prod_list (buffer_shape c)"
  shows "prod_list (buffer_shape c) * sz = layer_extent (to_native_kv_config c) \<longleftrightarrow> sz = ec_element_size_bytes c"
  using assms by (metis shape_fills_block mult_cancel1 not_gr_zero)

lemma addressed_bytes_in_block:
  assumes "ec_element_size_bytes c = sz" "a \<in> set (element_addresses ptr sz (prod_list (buffer_shape c)))"
  shows "ptr \<le> a \<and> a + sz \<le> ptr + layer_extent (to_native_kv_config c)"
proof -
  obtain i where i: "i < prod_list (buffer_shape c)" "a = ptr + i * sz"
    using assms(2) by (auto simp: element_addresses_def)
  have "Suc i * sz \<le> prod_list (buffer_shape c) * sz" using i(1) by (intro mult_le_mono1) simp
  then show ?thesis using i(2) shape_fills_block[of c] assms(1) by simp
qed

section \<open>What they return\<close>

definition asks_for_buffer :: "('d, 't) tensor_lib \<Rightarrow> bool" where
  "asks_for_buffer lib \<longleftrightarrow> (\<forall>addresses dtype n. tl_frombuffer lib (Generator addresses) dtype n = None)"

text \<open>With a library that keeps its documentation both accessors raise, for every block and layer.\<close>

theorem buffer_tensors_raise:
  assumes "asks_for_buffer lib"
  shows "get_key_buffer_tensor lib float16 b layer s = Inl ValueError \<and>
    get_value_buffer_tensor lib float16 b layer s = Inl ValueError"
  using assms
  by (simp add: get_key_buffer_tensor_def get_value_buffer_tensor_def ptr_to_torch_tensor_def asks_for_buffer_def Let_def)

text \<open>A library that views exported memory and refuses everything else.\<close>

theorem buffer_tensors_raise_witness:
  "let lib = \<lparr>tl_element_size = (\<lambda>d :: nat. d), tl_frombuffer = (\<lambda>obj d n. case obj of Generator _ \<Rightarrow> None | Exported p len \<Rightarrow>
       if n * d \<le> len then Some (p, [n]) else None), tl_view = (\<lambda>(p, _) shape. Some (p, shape)), tl_to_device = (\<lambda>t _. t)\<rparr>
   in tl_frombuffer lib (Exported 64 32) 2 16 = Some (64, [16]) \<and> get_key_buffer_tensor lib 2 0 0 s = Inl ValueError"
proof -
  define lib where "lib = \<lparr>tl_element_size = (\<lambda>d :: nat. d), tl_frombuffer = (\<lambda>obj d n. case obj of Generator _ \<Rightarrow> None | Exported p len \<Rightarrow>
       if n * d \<le> len then Some (p, [n]) else None), tl_view = (\<lambda>(p :: nat, _ :: nat list) shape. Some (p, shape)), tl_to_device = (\<lambda>t _ :: nat. t)\<rparr>"
  have "asks_for_buffer lib" by (simp add: asks_for_buffer_def lib_def)
  from buffer_tensors_raise[OF this, of 2 0 0 s] show ?thesis unfolding lib_def by (simp add: Let_def)
qed

end
