(* ===== verification/Async_Context.thy ===== *)
theory Async_Context
  imports Async_Engine
begin

text \<open>
  \<open>AsyncLLMEngine\<close> as a context manager (\<open>__aenter__\<close> and \<open>__aexit__\<close> in \<open>cudaforge/engine.py\<close>), and
  what leaving it means for the generators that still wait for output.
\<close>

section \<open>Entering and leaving\<close>

definition aenter :: "async_engine \<Rightarrow> async_engine \<times> async_engine" where
  "aenter s = (let t = async_start s in (t, t))"

definition aexit :: "async_engine \<Rightarrow> async_engine" where
  "aexit s = async_shutdown s"

text \<open>A block that does nothing leaves the engine as it was, but stopped.\<close>

lemma aexit_aenter: "aexit (snd (aenter s)) = s\<lparr>ae_running := False\<rparr>"
  by (simp add: aexit_def aenter_def async_shutdown_def async_start_def Let_def)

section \<open>Generators that wait when the loop has ended\<close>

definition waiting :: "nat \<Rightarrow> async_engine \<Rightarrow> bool" where
  "waiting k s \<longleftrightarrow> k < length (ae_streams s) \<and> st_state (ae_streams s ! k) = GETTING \<and> st_queue (ae_streams s ! k) = []"

definition cancelled :: "nat \<Rightarrow> async_engine \<Rightarrow> bool" where
  "cancelled k s \<longleftrightarrow> k < length (ae_streams s) \<and> st_state (ae_streams s ! k) = CANCELLED"

lemma upd_stream_nth:
  "k < length (ae_streams s) \<Longrightarrow> ae_streams (upd_stream k f s) ! j = (if j = k then f (ae_streams s ! k) else ae_streams s ! j)"
  by (simp add: upd_stream_def nth_list_update_if)

lemma upd_stream_length [simp]: "length (ae_streams (upd_stream k f s)) = length (ae_streams s)"
  by (simp add: upd_stream_def)

lemmas stream_steps = deliver_def resume_def cancel_stream_def close_stream_def

lemma generate_runs: "generate prompt params now s = (r, t) \<Longrightarrow> ae_running t"
  by (auto simp: generate_def async_start_def Let_def split: prod.splits sum.splits)

text \<open>Without a running loop nobody fills the queue, and a cancelled generator stays cancelled.\<close>

lemma stopped_step:
  assumes "astep s outs t" "\<not> ae_running s" "\<not> ae_running t" "waiting k s \<or> cancelled k s"
  shows "waiting k t \<or> cancelled k t"
  using assms
proof (cases rule: astep.cases)
  case a_start
  then show ?thesis using assms(3) by (auto simp: async_start_def split: if_splits)
next
  case (a_generate prompt params now r)
  then show ?thesis using assms(3) generate_runs by blast
qed (use assms(2,4) in \<open>auto simp: stream_steps upd_stream_nth waiting_def cancelled_def async_shutdown_def suspended_def Let_def
      nth_list_update_if split: if_splits\<close>)

text \<open>
  After the engine is left, a generator that waits on an empty queue waits for ever: until somebody
  starts the engine again it can only be cancelled from outside. Shutdown neither wakes nor ends it.
\<close>

theorem shutdown_strands_readers:
  assumes "waiting k s" and "rtranclp (\<lambda>u v. \<exists>outs. astep u outs v \<and> \<not> ae_running v) (aexit s) t"
  shows "waiting k t \<or> cancelled k t"
proof -
  have stopped: "\<not> ae_running (aexit s)" by (simp add: aexit_def async_shutdown_def)
  have "\<not> ae_running t \<and> (waiting k t \<or> cancelled k t)"
    using assms(2)
  proof (induction rule: rtranclp_induct)
    case base
    show ?case using assms(1) stopped by (auto simp: aexit_def async_shutdown_def waiting_def)
  next
    case (step u v)
    then show ?case using stopped_step by blast
  qed
  then show ?thesis by blast
qed

end
