(* ===== verification/Spec2Isabelle.thy ===== *)
theory Spec2Isabelle
  imports Kv_Contract Engine_Contract Async_Engine Speculative Quantization Accuracy Pareto
    Flash_Attention Fused_Kernels Serving Workloads Statistics Orchestrator Benchmarks Profiling Ncu_Profiler
    Memory_Stats Candidate_Verification Kernel_Dispatch Kv_Memory Memory_Threads Pool_Threads
    Cuda_Norm Cuda_Sampling Cuda_Attention Cuda_Rope Kernel_Addresses Package Serving_App
    Stream_Buffer Tensor_Views Async_Context
begin

text \<open>
  Verification library for CUDAForge: a serving engine for language models (\<open>src/cudaforge\<close> over the
  C++ cache and scheduler of \<open>src/csrc\<close>), its HTTP layer (\<open>src/serving\<close>), the Triton and CUDA kernels,
  and the platform that evaluates it (\<open>src/eval_platform\<close>, \<open>src/benchmarks\<close>, \<open>src/profiling\<close>).

  The parts and how they interact. The engine owns a paged KV cache, a continuous batcher and a
  model runner: adding a request registers its prompt in the cache and queues it, a step runs one
  batch, appends the new tokens to the cache and releases what has finished. The asynchronous engine
  drives steps in a background loop and routes outputs to one queue per request. The HTTP layer
  validates requests and guards them by a gate and a semaphore. Quantization, speculative decoding
  and the kernels are computations on their own. The orchestrator runs the latency and accuracy
  pipelines inside a tracked run, whose artifacts and manifest the artifact store keeps.

  Theories and what they model:

  \<^item> \<open>Prelude\<close>: results with a state (\<open>eff\<close>), results without (\<open>res_bind\<close>), dictionaries as association
    lists in insertion order. \<open>Text_Lib\<close>: the string and rounding functions of Python. \<open>Tensor\<close>: the
    reductions of tensors and their error measures.
  \<^item> \<open>Kv_Cache\<close>: \<open>csrc/src/memory/paged_kv_cache.cpp\<close>, each operation on the record \<open>kv_cache\<close> (blocks,
    free stack, LRU list, prefix tree, page tables, statistics), hashes as 64-bit words. \<open>Kv_Invariant\<close>
    and \<open>Kv_Register\<close> show the invariant of reference counts and block lists for every operation,
    \<open>Kv_Properties\<close> and \<open>Kv_Contract\<close> what each operation does, \<open>Kv_Frame\<close> the contract \<open>context_store\<close>
    that the engine relies on, interpreted on the cache. \<open>Kv_Types\<close> shows what holds in every reachable
    cache, evictions and refused calls included: all block numbers are in range and no block is
    filled beyond its size, and pointers stay in the pools unless their size wraps. \<open>Kv_Memory\<close> composes the cache with the allocator: constructor and
    destructor, the staging buffers and the batch descriptor; every slot lies in a live block.
  \<^item> \<open>Batcher\<close>: \<open>csrc/src/scheduler/continuous_batcher.cpp\<close> and \<open>csrc/src/engine/model_runner.cpp\<close>, with
    requests in a heap because queues share them; \<open>Batcher_Invariant\<close> and \<open>Scheduling\<close> show that
    every request is in one queue and state, the budgets, the order of admission and the output.
    \<open>Stream_Buffer\<close> adds the other operations of the output queue, with the contract \<open>token_channel\<close>
    interpreted on them.
  \<^item> \<open>Engine\<close> and \<open>Engine_Contract\<close>: \<open>LLMEngine\<close> of \<open>cudaforge/engine.py\<close>, refined by the map from active
    requests to context lengths. \<open>Async_Engine\<close>: \<open>AsyncLLMEngine\<close> as a step relation over the points
    where tasks wait; \<open>Async_Context\<close>: its context manager and what shutdown leaves waiting.
    \<open>Tensor_Views\<close>: the tensor accessors over an argument for the tensor library.
  \<^item> \<open>Speculative\<close>, \<open>Quantization\<close>: the modules of these names under \<open>cudaforge\<close>.
    \<open>Candidate_Verification\<close>: \<open>csrc/src/scheduler/speculative.cpp\<close>.
  \<^item> \<open>Device_Memory\<close>: \<open>csrc/src/memory/block_allocator.cpp\<close> with sizes as 64-bit words; \<open>Buffer_Pool\<close>:
    \<open>csrc/src/memory/buffer_pool.cpp\<close> over it, refined by the map of buffers in use. The contract
    \<open>buffer_source\<close> that the scoped guard relies on is interpreted on the pool. \<open>Memory_Threads\<close> and
    \<open>Pool_Threads\<close> interleave the critical sections of both among any number of threads.
    \<open>Memory_Stats\<close>: their reports and the destructor of the pool.
    \<open>Kernel_Dispatch\<close>:
    \<open>csrc/include/cudaforge/autotuner/kernel_dispatcher.h\<close>.
  \<^item> \<open>Flash_Attention\<close>, \<open>Fused_Kernels\<close>: the programs of \<open>csrc/kernels/triton\<close> over their grids, against
    the direct formula of attention, rotation, matrix product and arg max. \<open>Kernel_Addresses\<close>: the
    addresses that their instances load and store, through the strides of contiguous tensors.
  \<^item> \<open>Warp\<close>: what the CUDA kernels share, the strided loop of a thread and the reductions by shuffles
    over a warp and a block, with the contract \<open>lane_operator\<close> interpreted for sum and maximum.
    \<open>Cuda_Norm\<close> (\<open>fused_rmsnorm.cu\<close>), \<open>Cuda_Sampling\<close> (\<open>engine/sampling.h\<close>), \<open>Cuda_Attention\<close>
    (\<open>flash_attn_v2.cu\<close>) \<open>Cuda_Transforms\<close> (\<open>rope.cuh\<close>, \<open>int4_gemm_dequant.cu\<close>): the kernels as folds
    over the threads of a block; \<open>Cuda_Rope\<close>: the rotation over its grid, the blocks in any order.
  \<^item> \<open>Serving\<close>: \<open>serving\<close>; the life of a request is a step relation over the gate and the semaphore.
    \<open>Serving_App\<close>: the table of routes and the start of the application.
  \<^item> \<open>Package\<close>: the packages' import statements and the classes that \<open>pybind_module.cpp\<close> binds. It shows
    that the bindings as declared lack a constructor for the allocator, so the theorems about the
    engine concern \<open>engine.py\<close> over the C++ classes themselves, with that binding supplied.
  \<^item> \<open>Accuracy\<close>, \<open>Statistics\<close>, \<open>Pareto\<close>, \<open>Workloads\<close>: the pipelines, statistics and workloads of
    \<open>eval_platform\<close>. The percentile function of the array library is used through the contract
    \<open>quantile\<close>, which the percentile of \<open>latency_eval.py\<close> is shown to keep.
  \<^item> \<open>Tracking\<close>, \<open>Experiment\<close>: \<open>eval_platform/tracking\<close>. The contract \<open>artifact_op\<close> (a stored artifact
    verifies, and an operation touches its own file only) is interpreted for files, JSON and tensors.
    \<open>Orchestrator\<close>: \<open>eval_platform/orchestrator.py\<close>, composed of the pipelines and the tracked run.
  \<^item> \<open>Benchmarks\<close>: \<open>benchmarks\<close>, with the scheduling simulation as a \<open>while_option\<close>. \<open>Profiling\<close> and
    \<open>Ncu_Profiler\<close>: \<open>profiling\<close>, \<open>observability\<close> and \<open>cudaforge/profiler.py\<close>.

  What the lemmas show: invariants of every state (cache, batcher, engine, asynchronous engine,
  permits, artifacts) under all operations; the result of each operation on every branch; agreement
  of an optimised computation with its specification (subsequence table, online softmax, packed
  matrix product, rotation); round trips (int8, packed int4, token events, CSV logs); termination of
  the loops and, where the code has it, the input on which a loop does not end; and the defects that
  modelling found, as theorems about the code as it is.

  Conventions. Python integers are \<open>int\<close> or, where they count, \<open>nat\<close>; hashes, byte sizes and offsets are
  words, so are the context lengths that the cache stages, and the \<open>size_t\<close> conversion of the batcher
  is explicit. Token counts and reference counts inside the cache are \<open>nat\<close>, for prompts of less than
  2^32 tokens. The laws of the cache and of the engine that involve prefix sharing (\<open>kv_inv\<close>,
  \<open>engine_ok\<close>) hold in runs without an eviction, since an eviction leaves a stale prefix tree; the
  theorems about one operation assume them of the state it starts in. Floats are reals, and the rounding to half precision
  is an argument of the definitions that round. An exception is the left side of a sum; the state
  kept by the exception is returned with it. Recursion is structural or has a measure; no definition
  uses fuel. A loop that need not end is a \<open>while_option\<close>, whose value \<open>None\<close> is a loop without an end.

  Arguments that stand for code outside the repository: the models and random draws of speculative
  decoding, the hash of the standard library, the JSON encoder and parser, SHA-256, git, the CUDA
  runtime with its allocations, copies, clocks and memory statistics, the tensor library of the
  engine's accessors, the percentile and resampling of the array library, the Nsight Compute process,
  and the conversion of a numeral to a float.

  Not modelled: the tensor core product of the CUDA int4 kernel, an operation of a whole warp on
  opaque fragments; the arithmetic of CUDA attention over several tiles, where the copies leave their
  tile and overlap; streams and the order of work on the device; numerical error of floating point;
  the conversion of values by the binding library; CORS and the framework's choice of a route;
  printed summaries and command lines; the build script, tests, containers and dashboards.
\<close>

end
